(* ===== verification/Prelude.thy ===== *)
theory Prelude
  imports Main "HOL-Library.Word"
begin

text \<open>
  Shared vocabulary of the development: the machine integers of the crate (\<open>u8\<close> .. \<open>u64\<close> are
  words of that width, \<open>usize\<close> counters that stay below a small constant are \<open>nat\<close>), Rust's
  \<open>saturating_add(1)\<close>, the first-match search that several tables of the code write as a loop,
  and generic facts about lists updated by index.  A fallible operation of the code returns
  \<open>error + result\<close>, \<open>Inl\<close> for \<open>Err\<close> and \<open>Inr\<close> for \<open>Ok\<close>.
\<close>

unbundle bit_operations_syntax

named_theorems poll_simps \<open>unfolding of the poll and handler functions of the components\<close>

type_synonym u8 = "8 word"
type_synonym u16 = "16 word"
type_synonym u32 = "32 word"
type_synonym u64 = "64 word"

section \<open>Saturating counters\<close>

definition sat_inc :: "'a::len word \<Rightarrow> 'a word" where
  "sat_inc x = (if x = - 1 then x else x + 1)"

lemma unat_not_max: "x \<noteq> - 1 \<Longrightarrow> unat x + 1 < 2 ^ LENGTH('a)" for x :: "'a::len word"
proof -
  assume "x \<noteq> - 1"
  then have "unat x \<noteq> unat (- 1 :: 'a word)"
    by (simp add: word_unat_eq_iff)
  then have "unat x \<noteq> 2 ^ LENGTH('a) - 1"
    by (simp add: unsigned_minus_1_eq_mask mask_eq_exp_minus_1)
  moreover have "unat x < 2 ^ LENGTH('a)" by simp
  ultimately show ?thesis by linarith
qed

lemma unat_sat_inc: "unat (sat_inc x) = min (unat x + 1) (2 ^ LENGTH('a) - 1)"
  for x :: "'a::len word"
proof (cases "x = - 1")
  case True
  then show ?thesis by (simp add: sat_inc_def unsigned_minus_1_eq_mask mask_eq_exp_minus_1)
next
  case False
  then have "unat x + 1 < 2 ^ LENGTH('a)" by (rule unat_not_max)
  then show ?thesis using False
    by (simp add: sat_inc_def unat_word_ariths min_def)
qed

lemma sat_inc_le: "unat x \<le> unat (sat_inc x)" for x :: "'a::len word"
proof -
  have "unat x < 2 ^ LENGTH('a)" by simp
  then show ?thesis unfolding unat_sat_inc by linarith
qed

lemma unat_u8: "unat x < 256" for x :: u8
proof -
  have "unat x < 2 ^ LENGTH(8)" by (rule unsigned_less)
  then show ?thesis by simp
qed

lemma unat_widen [simp]: "unat (ucast x :: u32) = unat x" for x :: u8
  using unat_u8 [of x] by (simp add: unsigned_ucast_eq take_bit_nat_eq_self_iff)

lemma ucast_widen [simp]: "ucast (ucast x :: u32) = x" for x :: u8
  by (rule bit_word_eqI) (simp add: bit_simps)

lemma xor_zeroD:
  assumes "a XOR b = (0 :: 'a::len word)"
  shows "a = b"
proof (rule bit_word_eqI)
  fix n
  have "bit (a XOR b) n = False" using assms by simp
  then show "bit a n = bit b n" by (simp add: bit_xor_iff)
qed

section \<open>Big-endian bytes of a 16-bit word\<close>

text \<open>\<open>u16::to_be_bytes\<close> and \<open>u16::from_be_bytes\<close>.\<close>

definition be16 :: "u16 \<Rightarrow> u8 list" where
  "be16 x = [ucast (drop_bit 8 x), ucast x]"

definition of_be16 :: "u8 \<Rightarrow> u8 \<Rightarrow> u16" where
  "of_be16 hi lo = push_bit 8 (ucast hi) OR ucast lo"

lemma of_be16_be16: "of_be16 (ucast (drop_bit 8 x)) (ucast x) = x"
  by (rule bit_word_eqI) (auto simp: of_be16_def bit_simps dest: bit_imp_le_length)

lemma be16_of_be16: "be16 (of_be16 hi lo) = [hi, lo]"
proof -
  have "ucast (drop_bit 8 (of_be16 hi lo)) = hi"
    by (rule bit_word_eqI) (auto simp: of_be16_def bit_simps dest: bit_imp_le_length)
  moreover have "ucast (of_be16 hi lo) = lo"
    by (rule bit_word_eqI) (auto simp: of_be16_def bit_simps dest: bit_imp_le_length)
  ultimately show ?thesis by (simp add: be16_def)
qed

lemma length_be16 [simp]: "length (be16 x) = 2"
  by (simp add: be16_def)

section \<open>First index that satisfies a predicate\<close>

text \<open>\<open>iter().position(..)\<close> and the \<open>while i < N\<close> searches of the code.\<close>

fun position_from :: "nat \<Rightarrow> ('a \<Rightarrow> bool) \<Rightarrow> 'a list \<Rightarrow> nat option" where
  "position_from i P [] = None"
| "position_from i P (x # xs) = (if P x then Some i else position_from (Suc i) P xs)"

definition position :: "('a \<Rightarrow> bool) \<Rightarrow> 'a list \<Rightarrow> nat option" where
  "position P xs = position_from 0 P xs"

lemma position_from_Some:
  "position_from k P xs = Some i \<longleftrightarrow>
     k \<le> i \<and> i < k + length xs \<and> P (xs ! (i - k)) \<and> (\<forall>j < i - k. \<not> P (xs ! j))"
proof (induction xs arbitrary: k)
  case Nil
  then show ?case by simp
next
  case (Cons x xs)
  show ?case
  proof (cases "P x")
    case True
    then show ?thesis by (cases "i = k") (force simp: nth_Cons')+
  next
    case False
    have "position_from k P (x # xs) = Some i \<longleftrightarrow> position_from (Suc k) P xs = Some i"
      using False by simp
    also have "\<dots> \<longleftrightarrow> Suc k \<le> i \<and> i < Suc k + length xs \<and> P (xs ! (i - Suc k)) \<and>
        (\<forall>j < i - Suc k. \<not> P (xs ! j))"
      by (rule Cons.IH)
    also have "\<dots> \<longleftrightarrow> k \<le> i \<and> i < k + length (x # xs) \<and> P ((x # xs) ! (i - k)) \<and>
        (\<forall>j < i - k. \<not> P ((x # xs) ! j))"
    proof (cases "i = k")
      case True
      then show ?thesis using False by simp
    next
      case ne: False
      show ?thesis
      proof (cases "Suc k \<le> i")
        case True
        then have s: "i - k = Suc (i - Suc k)" by simp
        show ?thesis unfolding s using False True by (simp add: All_less_Suc2)
      next
        case False
        then show ?thesis using ne by auto
      qed
    qed
    finally show ?thesis .
  qed
qed

lemma position_Some:
  "position P xs = Some i \<longleftrightarrow> i < length xs \<and> P (xs ! i) \<and> (\<forall>j < i. \<not> P (xs ! j))"
  by (auto simp: position_def position_from_Some)

lemma position_from_None: "position_from k P xs = None \<longleftrightarrow> (\<forall>x \<in> set xs. \<not> P x)"
  by (induction xs arbitrary: k) auto

lemma position_None: "position P xs = None \<longleftrightarrow> (\<forall>x \<in> set xs. \<not> P x)"
  by (simp add: position_def position_from_None)

lemma position_SomeD:
  assumes "position P xs = Some i"
  shows "i < length xs" and "P (xs ! i)"
  using assms by (simp_all add: position_Some)

section \<open>Counting occupied slots\<close>

definition occupied :: "'a option list \<Rightarrow> nat" where
  "occupied xs = length (filter (\<lambda>s. s \<noteq> None) xs)"

lemma occupied_Nil [simp]: "occupied [] = 0"
  by (simp add: occupied_def)

lemma occupied_Cons [simp]: "occupied (x # xs) = (if x = None then 0 else 1) + occupied xs"
  by (simp add: occupied_def)

lemma occupied_le: "occupied xs \<le> length xs"
  by (simp add: occupied_def)

lemma occupied_replicate [simp]: "occupied (replicate n None) = 0"
  by (induction n) auto

lemma occupied_0: "occupied xs = 0 \<longleftrightarrow> (\<forall>s \<in> set xs. s = None)"
  by (induction xs) auto

lemma occupied_update:
  assumes "i < length xs"
  shows "occupied (xs[i := y]) + (if xs ! i = None then 0 else 1) =
         occupied xs + (if y = None then 0 else 1)"
  using assms
proof (induction xs arbitrary: i)
  case Nil
  then show ?case by simp
next
  case (Cons x xs)
  then show ?case by (cases i) auto
qed

lemma occupied_fill:
  "i < length xs \<Longrightarrow> xs ! i = None \<Longrightarrow> occupied (xs[i := Some y]) = Suc (occupied xs)"
  using occupied_update [of i xs "Some y"] by simp

lemma occupied_clear:
  "i < length xs \<Longrightarrow> xs ! i \<noteq> None \<Longrightarrow> Suc (occupied (xs[i := None])) = occupied xs"
  using occupied_update [of i xs None] by (simp split: if_splits)

lemma occupied_replace:
  "i < length xs \<Longrightarrow> xs ! i \<noteq> None \<Longrightarrow> occupied (xs[i := Some y]) = occupied xs"
  using occupied_update [of i xs "Some y"] by (simp split: if_splits)

lemma occupied_pos: "i < length xs \<Longrightarrow> xs ! i \<noteq> None \<Longrightarrow> 0 < occupied xs"
  using occupied_clear [of i xs] by simp

lemma occupied_full: "occupied xs = length xs \<longleftrightarrow> (\<forall>s \<in> set xs. s \<noteq> None)"
proof (induction xs)
  case Nil
  then show ?case by simp
next
  case (Cons x xs)
  then show ?case using occupied_le [of xs] by auto
qed

section \<open>Lists updated by index\<close>

lemma take_Suc_update: "i < length xs \<Longrightarrow> take (Suc i) (xs[i := x]) = take i xs @ [x]"
  by (simp add: take_Suc_conv_app_nth)

lemma length1E:
  assumes "length xs = Suc 0"
  obtains a where "xs = [a]"
  using assms by (auto simp: length_Suc_conv)

lemma length2E:
  assumes "length xs = 2"
  obtains a b where "xs = [a, b]"
  using assms by (auto simp: numeral_eq_Suc length_Suc_conv)

lemma length3E:
  assumes "length xs = 3"
  obtains a b c where "xs = [a, b, c]"
  using assms by (auto simp: numeral_eq_Suc length_Suc_conv)

lemma length4E:
  assumes "length xs = 4"
  obtains a b c d where "xs = [a, b, c, d]"
  using assms by (auto simp: numeral_eq_Suc length_Suc_conv)

lemma all_less_4: "(\<forall>i < (4::nat). P i) \<longleftrightarrow> P 0 \<and> P 1 \<and> P 2 \<and> P 3"
  by (simp add: numeral_eq_Suc All_less_Suc2)

end
