(* ===== verification/Crc.thy ===== *)
theory Crc
  imports Prelude
begin

text \<open>
  CRC-8 (\<open>src/protocol/crc.rs\<close>): polynomial 0x07, initial value 0, no reflection, no final
  xor.  The code folds each byte as two nibbles through a 16 entry table, held in a \<open>u32\<close>;
  \<open>remainder\<close> is the textbook long division over GF(2) that the checksum stands for.  The
  lemmas show that the table walk is that division and that it is linear, which the frame
  theory turns into its error detection bounds.
\<close>

unbundle bit_operations_syntax
section \<open>The code\<close>

definition CRC8_POLY :: u8 where
  "CRC8_POLY = 0x07"

definition bit_step :: "u8 \<Rightarrow> u8" where
  "bit_step crc = (let hibit = drop_bit 7 crc in push_bit 1 crc XOR ((- hibit) AND CRC8_POLY))"

definition NIBBLE :: "u8 list" where
  "NIBBLE = map (\<lambda>n. (bit_step ^^ 4) (push_bit 4 (of_nat n))) [0..<16]"

definition fold_nibble :: "u32 \<Rightarrow> u32" where
  "fold_nibble crc =
     (let index = drop_bit 4 crc AND 0x0F
      in (push_bit 4 crc AND 0xFF) XOR ucast (NIBBLE ! unat index))"

definition fold_byte :: "u32 \<Rightarrow> u8 \<Rightarrow> u32" where
  "fold_byte crc byte = fold_nibble (fold_nibble (crc XOR ucast byte))"

definition crc8 :: "u8 list \<Rightarrow> u8" where
  "crc8 bytes = ucast (foldl fold_byte 0 bytes)"

definition crc8_header :: "u8 \<Rightarrow> u8 \<Rightarrow> u8 \<Rightarrow> u8" where
  "crc8_header type_byte seq data = crc8 [type_byte, seq, data]"

section \<open>Reference: bit by bit, and long division\<close>

text \<open>The register advanced one byte at a time by eight single bit steps.\<close>

definition crc8_ref :: "u8 list \<Rightarrow> u8" where
  "crc8_ref bs = foldl (\<lambda>c b. (bit_step ^^ 8) (c XOR b)) 0 bs"

text \<open>The bits of a message, most significant first, as they are transmitted.\<close>

definition bits8 :: "u8 \<Rightarrow> bool list" where
  "bits8 w = map (bit w) [7, 6, 5, 4, 3, 2, 1, 0]"

fun message_bits :: "u8 list \<Rightarrow> bool list" where
  "message_bits [] = []"
| "message_bits (b # bs) = bits8 b @ message_bits bs"

text \<open>
  Long division by \<open>x^8 + x^2 + x + 1\<close>: while more than eight bits are left, a leading one
  subtracts (xors) the divisor, whose lower eight coefficients are 0x07.
\<close>

fun subtract_low :: "bool list \<Rightarrow> bool list \<Rightarrow> bool list" where
  "subtract_low [] xs = xs"
| "subtract_low ps [] = []"
| "subtract_low (p # ps) (x # xs) = (p \<noteq> x) # subtract_low ps xs"

lemma length_subtract_low [simp]: "length (subtract_low ps xs) = length xs"
  by (induction ps xs rule: subtract_low.induct) auto

function remainder :: "bool list \<Rightarrow> bool list" where
  "remainder ds = (if length ds \<le> 8 then ds
     else remainder (if hd ds
       then subtract_low [False, False, False, False, False, True, True, True] (tl ds)
       else tl ds))"
  by pat_completeness auto
termination
  by (relation "measure length") auto

declare remainder.simps [simp del]

section \<open>The table walk is the long division\<close>

lemma hibit: "drop_bit 7 x = (of_bool (bit x 7) :: u8)"
proof (rule bit_word_eqI)
  fix n
  assume "n < LENGTH(8)"
  show "bit (drop_bit 7 x) n = bit (of_bool (bit x 7) :: u8) n"
    by (cases n) (auto simp: bit_simps dest: bit_imp_le_length)
qed

lemma bit_double: "bit (x * 2) n \<longleftrightarrow> 0 < n \<and> n < 8 \<and> bit x (n - 1)" for x :: u8
  using bit_push_bit_iff [of 1 x n] by (simp add: Suc_le_eq)

lemma bit_step_eq:
  "bit_step x = (if bit x 7 then push_bit 1 x XOR 0x07 else push_bit 1 x)"
  by (simp add: bit_step_def hibit CRC8_POLY_def)

lemma bit_step_xor: "bit_step (a XOR b) = bit_step a XOR bit_step b"
  by (simp add: bit_step_eq bit_xor_iff push_bit_xor ac_simps)

lemma bit_step_0 [simp]: "bit_step 0 = 0"
  by (simp add: bit_step_eq)

lemma bit_steps_xor: "(bit_step ^^ n) (a XOR b) = (bit_step ^^ n) a XOR (bit_step ^^ n) b"
  by (induction n) (simp_all add: bit_step_xor)

lemma nibble_table: "NIBBLE ! n = (bit_step ^^ 4) (push_bit 4 (of_nat n))" if "n < 16"
  using that by (simp add: NIBBLE_def)

lemma bits8_step:
  "remainder (bits8 r @ m # ms) = remainder (bits8 (bit_step r XOR of_bool m) @ ms)"
proof -
  have "remainder (bits8 r @ m # ms) = remainder (if bit r 7
       then subtract_low [False, False, False, False, False, True, True, True]
          (tl (bits8 r) @ m # ms)
       else tl (bits8 r) @ m # ms)"
    by (subst remainder.simps) (simp add: bits8_def)
  also have "(if bit r 7
       then subtract_low [False, False, False, False, False, True, True, True]
          (tl (bits8 r) @ m # ms)
       else tl (bits8 r) @ m # ms) = bits8 (bit_step r XOR of_bool m) @ ms"
    by (simp add: bits8_def bit_step_eq bit_simps bit_double)
  finally show ?thesis .
qed


lemma bit_steps_0 [simp]: "(bit_step ^^ n) 0 = 0"
  by (induction n) simp_all

lemma bit_steps_1: "n < 8 \<Longrightarrow> (bit_step ^^ n) (of_bool m) = push_bit n (of_bool m)"
proof -
  assume "n < 8"
  moreover have "list_all (\<lambda>n. (bit_step ^^ n) 1 = push_bit n 1) [0..<8]"
    by code_simp
  ultimately have "(bit_step ^^ n) 1 = push_bit n 1"
    by (simp add: list_all_iff)
  then show ?thesis by (cases m) simp_all
qed

lemma bit_push_of_bool: "k < 8 \<Longrightarrow> bit (push_bit k (of_bool c) :: u8) n \<longleftrightarrow> n = k \<and> c"
  by (auto simp: bit_push_bit_iff bit_of_bool_iff)

lemma byte_bits: "b = push_bit 7 (of_bool (bit b 7)) XOR (push_bit 6 (of_bool (bit b 6))
  XOR (push_bit 5 (of_bool (bit b 5)) XOR (push_bit 4 (of_bool (bit b 4))
  XOR (push_bit 3 (of_bool (bit b 3)) XOR (push_bit 2 (of_bool (bit b 2))
  XOR (push_bit 1 (of_bool (bit b 1)) XOR push_bit 0 (of_bool (bit b 0))))))))" (is "b = ?c")
  for b :: u8
proof (rule bit_word_eqI)
  fix n
  assume "n < LENGTH(8)"
  then consider "n = 0" | "n = 1" | "n = 2" | "n = 3" | "n = 4" | "n = 5" | "n = 6" | "n = 7"
    by fastforce
  then show "bit b n = bit ?c n"
    by cases (simp_all only: bit_xor_iff bit_push_of_bool, simp_all)
qed

lemma remainder_byte: 
  "remainder (bits8 r @ bits8 b @ ms) = remainder (bits8 ((bit_step ^^ 8) r XOR b) @ ms)"
proof -
  have "bit_step (bit_step (bit_step (bit_step (bit_step (bit_step (bit_step (bit_step r
      XOR of_bool (bit b 7)) XOR of_bool (bit b 6)) XOR of_bool (bit b 5)) XOR of_bool (bit b 4))
      XOR of_bool (bit b 3)) XOR of_bool (bit b 2)) XOR of_bool (bit b 1)) XOR of_bool (bit b 0)
      = (bit_step ^^ 8) r XOR ((bit_step ^^ 7) (of_bool (bit b 7)) XOR ((bit_step ^^ 6) (of_bool (bit b 6))
  XOR ((bit_step ^^ 5) (of_bool (bit b 5)) XOR ((bit_step ^^ 4) (of_bool (bit b 4))
  XOR ((bit_step ^^ 3) (of_bool (bit b 3)) XOR ((bit_step ^^ 2) (of_bool (bit b 2))
  XOR ((bit_step ^^ 1) (of_bool (bit b 1)) XOR (bit_step ^^ 0) (of_bool (bit b 0)))))))))"
    by (simp add: eval_nat_numeral bit_step_xor xor.assoc)
  also have "\<dots> = (bit_step ^^ 8) r XOR b"
    by (simp only: bit_steps_1 rel_simps zero_less_numeral one_less_numeral_iff
        byte_bits [of b, symmetric])
  finally show ?thesis
    by (simp add: bits8_def [of b] bits8_step)
qed
lemma NIBBLE_values [code]: "NIBBLE = [0, 7, 14, 9, 28, 27, 18, 21, 56, 63, 54, 49, 36, 35, 42, 45]"
  by code_simp

lemmas crc_eval = crc8_def fold_byte_def fold_nibble_def NIBBLE_values

lemma nibble_cases: "(bit_step ^^ 4) (take_bit 4 x) = push_bit 4 (take_bit 4 x)"
proof -
  have "list_all (\<lambda>n. (bit_step ^^ 4) (of_nat n) = push_bit 4 (of_nat n)) [0..<16]"
    by code_simp
  moreover have "unat (take_bit 4 x) < 16"
    using take_bit_nat_less_exp [of 4 "unat x"] by (simp add: unsigned_take_bit_eq)
  ultimately have "(bit_step ^^ 4) (of_nat (unat (take_bit 4 x))) = push_bit 4 (of_nat (unat (take_bit 4 x)))"
    unfolding list_all_iff set_upt by (meson atLeastLessThan_iff le0)
  then show ?thesis by simp
qed

lemma nibble_split: "x = take_bit 4 x XOR push_bit 4 (drop_bit 4 x)" for x :: u8
  by (rule bit_word_eqI) (auto simp: bit_simps)

lemma nibble_index: "drop_bit 4 (ucast x :: u32) AND 0x0F = ucast (drop_bit 4 x)" for x :: u8
proof -
  have m: "(0x0F :: u32) = mask 4" by (simp add: mask_eq_exp_minus_1)
  show ?thesis unfolding m
    by (rule bit_word_eqI) (auto simp: bit_simps dest: bit_imp_le_length)
qed

lemma nibble_keep: "push_bit 4 (ucast x :: u32) AND 0xFF = ucast (push_bit 4 (take_bit 4 x))"
  for x :: u8
proof -
  have m: "(0xFF :: u32) = mask 8" by (simp add: mask_eq_exp_minus_1)
  show ?thesis unfolding m
    by (rule bit_word_eqI) (auto simp: bit_simps)
qed

lemma fold_nibble_ucast: "fold_nibble (ucast x) = ucast ((bit_step ^^ 4) x)"
proof -
  have lt: "unat (drop_bit 4 x) < 16"
    using unat_u8 [of x] by (simp add: drop_bit_eq_div unat_div_distrib)

  have "fold_nibble (ucast x) = ucast (push_bit 4 (take_bit 4 x)) XOR ucast (NIBBLE ! unat (drop_bit 4 x))"
    by (simp add: fold_nibble_def nibble_index nibble_keep del: push_bit_take_bit)
  also have "NIBBLE ! unat (drop_bit 4 x) = (bit_step ^^ 4) (push_bit 4 (drop_bit 4 x))"
    using nibble_table [OF lt] by simp
  also have "push_bit 4 (take_bit 4 x) = (bit_step ^^ 4) (take_bit 4 x)"
    by (rule nibble_cases [symmetric])
  finally show ?thesis
    by (simp only: unsigned_xor_eq [symmetric] bit_steps_xor [symmetric] nibble_split [symmetric])
qed

lemma fold_byte_ucast: "fold_byte (ucast c) b = ucast ((bit_step ^^ 8) (c XOR b))"
proof -
  have "fold_byte (ucast c) b = fold_nibble (fold_nibble (ucast (c XOR b)))"
    by (simp add: fold_byte_def unsigned_xor_eq)
  also have "\<dots> = ucast ((bit_step ^^ (4 + 4)) (c XOR b))"
    unfolding funpow_add by (simp add: fold_nibble_ucast)
  finally show ?thesis by simp
qed


lemma foldl_fold_byte:
  "foldl fold_byte (ucast c) bs = ucast (foldl (\<lambda>c b. (bit_step ^^ 8) (c XOR b)) c bs)"
  by (induction bs arbitrary: c) (simp_all add: fold_byte_ucast)

lemma crc8_eq_ref: "crc8 bs = crc8_ref bs"
  using foldl_fold_byte [of 0 bs] by (simp add: crc8_def crc8_ref_def)

lemma remainder_message:
  "remainder (bits8 (c XOR b) @ message_bits bs @ replicate 8 False)
     = bits8 (foldl (\<lambda>c b. (bit_step ^^ 8) (c XOR b)) ((bit_step ^^ 8) (c XOR b)) bs)"
proof (induction bs arbitrary: c b)
  case Nil
  have z: "replicate 8 False = bits8 0 @ []" by (simp add: bits8_def eval_nat_numeral)
  show ?case unfolding message_bits.simps append_Nil z remainder_byte
    by (simp add: remainder.simps bits8_def)
next
  case (Cons b' bs)
  then show ?case by (simp only: message_bits.simps append_assoc remainder_byte foldl.simps)
qed

text \<open>
  C14: for every byte string, the checksum the nibble table computes is the remainder of the
  message, followed by eight zero bits, under long division by the CRC-8 polynomial.
\<close>

theorem crc8_long_division:
  "bits8 (crc8 bs) = remainder (message_bits bs @ replicate 8 False)"
proof (cases bs)
  case Nil
  then show ?thesis by (simp add: crc8_def remainder.simps bits8_def eval_nat_numeral)
next
  case (Cons b bs')
  then show ?thesis using remainder_message [of 0 b bs']
    by (simp add: crc8_eq_ref crc8_ref_def)
qed

lemma foldl_ref_xor:
  assumes "length xs = length ys"
  shows "foldl (\<lambda>c b. (bit_step ^^ 8) (c XOR b)) (c XOR d) (map2 (XOR) xs ys) =
    foldl (\<lambda>c b. (bit_step ^^ 8) (c XOR b)) c xs XOR foldl (\<lambda>c b. (bit_step ^^ 8) (c XOR b)) d ys"
  using assms
proof (induction xs ys arbitrary: c d rule: list_induct2)
  case Nil
  then show ?case by simp
next
  case (Cons x xs y ys)
  have "(bit_step ^^ 8) ((c XOR d) XOR (x XOR y)) = (bit_step ^^ 8) (c XOR x) XOR (bit_step ^^ 8) (d XOR y)"
    by (simp add: bit_steps_xor [symmetric] ac_simps)
  then show ?case using Cons.IH by simp
qed

lemma crc8_xor: "length xs = length ys \<Longrightarrow> crc8 (map2 (XOR) xs ys) = crc8 xs XOR crc8 ys"
  using foldl_ref_xor [of xs ys 0 0] by (simp add: crc8_eq_ref crc8_ref_def)

end
