(* ===== verification/Frame.thy ===== *)
theory Frame
  imports Crc
begin

text \<open>
  The wire frame (\<open>src/protocol/frame.rs\<close>), the sequence counter
  (\<open>src/protocol/sequence.rs\<close>) and the outgoing frame buffer (\<open>src/protocol/outbuf.rs\<close>).
  A byte array \<open>[u8; 4]\<close> is a list of length 4.  The lemmas give the exact set of byte strings
  the decoder accepts, the corruption it can never miss, and the out buffer as the queue of the
  bytes it still has to write.
\<close>

unbundle bit_operations_syntax

section \<open>Sequence numbers\<close>

type_synonym sequence = u8

definition seq_new :: sequence where
  "seq_new = 0"

definition seq_from_raw :: "u8 \<Rightarrow> sequence" where
  "seq_from_raw value = value"

definition seq_current :: "sequence \<Rightarrow> u8" where
  "seq_current s = s"

definition seq_advance :: "sequence \<Rightarrow> sequence \<times> u8" where
  "seq_advance s = (let previous = s in (s + 1, previous))"

definition seq_previous :: "sequence \<Rightarrow> u8" where
  "seq_previous s = s - 1"

section \<open>Frames\<close>

definition PAYLOAD_LEN :: nat where
  "PAYLOAD_LEN = 1"

definition FRAME_LEN :: nat where
  "FRAME_LEN = 4"

datatype frame_type = Data | Ack | Nack | Start | Finish | Abort

fun type_byte :: "frame_type \<Rightarrow> u8" where
  "type_byte Data = 0x01"
| "type_byte Ack = 0x02"
| "type_byte Nack = 0x03"
| "type_byte Start = 0x04"
| "type_byte Finish = 0x05"
| "type_byte Abort = 0x06"

definition from_u8 :: "u8 \<Rightarrow> frame_type option" where
  "from_u8 byte =
     (if byte = 0x01 then Some Data
      else if byte = 0x02 then Some Ack
      else if byte = 0x03 then Some Nack
      else if byte = 0x04 then Some Start
      else if byte = 0x05 then Some Finish
      else if byte = 0x06 then Some Abort
      else None)"

definition is_control :: "frame_type \<Rightarrow> bool" where
  "is_control t = (t \<noteq> Data)"

datatype frame_error = InvalidType u8 | CrcMismatch u8 u8 | InvalidSemantics

record frame =
  fr_type :: frame_type
  fr_seq :: u8
  fr_data :: u8

definition raw_frame :: "frame_type \<Rightarrow> u8 \<Rightarrow> u8 \<Rightarrow> frame" where
  "raw_frame t seq data = \<lparr>fr_type = t, fr_seq = seq, fr_data = data\<rparr>"

definition data_frame :: "u8 \<Rightarrow> u8 \<Rightarrow> frame" where
  "data_frame seq byte = raw_frame Data seq byte"

definition ack_frame :: "u8 \<Rightarrow> frame" where
  "ack_frame seq = raw_frame Ack seq 0"

definition nack_frame :: "u8 \<Rightarrow> frame" where
  "nack_frame seq = raw_frame Nack seq 0"

definition start_frame :: frame where
  "start_frame = raw_frame Start 0 0"

definition finish_frame :: "u8 \<Rightarrow> frame" where
  "finish_frame seq = raw_frame Finish seq 0"

definition abort_frame :: frame where
  "abort_frame = raw_frame Abort 0 0"

definition to_bytes :: "frame \<Rightarrow> u8 list" where
  "to_bytes f =
     (let tb = type_byte (fr_type f);
          crc = crc8_header tb (fr_seq f) (fr_data f)
      in [tb, fr_seq f, fr_data f, crc])"

definition semantics_ok :: "frame_type \<Rightarrow> u8 \<Rightarrow> u8 \<Rightarrow> bool" where
  "semantics_ok t seq data =
     (if is_control t \<and> data \<noteq> 0 then False
      else if (t = Start \<or> t = Abort) \<and> seq \<noteq> 0 then False
      else True)"

definition from_bytes :: "u8 list \<Rightarrow> frame_error + frame" where
  "from_bytes bytes =
     (case from_u8 (bytes ! 0) of
        None \<Rightarrow> Inl (InvalidType (bytes ! 0))
      | Some t \<Rightarrow>
          let expected = crc8_header (bytes ! 0) (bytes ! 1) (bytes ! 2);
              got = bytes ! 3
          in if expected \<noteq> got then Inl (CrcMismatch expected got)
             else let seq = bytes ! 1; data = bytes ! 2
                  in if \<not> semantics_ok t seq data then Inl InvalidSemantics
                     else Inr (raw_frame t seq data))"

section \<open>Outgoing buffer\<close>

record out_buf =
  ob_buf :: "u8 list"
  ob_pos :: nat

definition ob_empty :: out_buf where
  "ob_empty = \<lparr>ob_buf = replicate FRAME_LEN 0, ob_pos = FRAME_LEN\<rparr>"

definition ob_is_idle :: "out_buf \<Rightarrow> bool" where
  "ob_is_idle out = (ob_pos out \<ge> FRAME_LEN)"

definition ob_load :: "frame \<Rightarrow> out_buf \<Rightarrow> out_buf" where
  "ob_load f out = out\<lparr>ob_buf := to_bytes f, ob_pos := 0\<rparr>"

definition ob_peek :: "out_buf \<Rightarrow> u8 option" where
  "ob_peek out = (if ob_pos out \<ge> FRAME_LEN then None else Some (ob_buf out ! ob_pos out))"

definition ob_commit :: "out_buf \<Rightarrow> out_buf" where
  "ob_commit out = (if ob_pos out < FRAME_LEN then out\<lparr>ob_pos := ob_pos out + 1\<rparr> else out)"

text \<open>The bytes an out buffer still has to write, and its well-formedness.\<close>

definition ob_rest :: "out_buf \<Rightarrow> u8 list" where
  "ob_rest out = drop (ob_pos out) (ob_buf out)"

definition ob_wf :: "out_buf \<Rightarrow> bool" where
  "ob_wf out = (length (ob_buf out) = FRAME_LEN \<and> ob_pos out \<le> FRAME_LEN)"

text \<open>A frame the public constructors can build.\<close>

definition frame_ok :: "frame \<Rightarrow> bool" where
  "frame_ok f = semantics_ok (fr_type f) (fr_seq f) (fr_data f)"

text \<open>Corruption: bit \<open>p\<close> of the 32 bits of a frame is inverted.\<close>

definition flip_bit :: "nat \<Rightarrow> u8 list \<Rightarrow> u8 list" where
  "flip_bit p bs = bs[p div 8 := (bs ! (p div 8)) XOR push_bit (p mod 8) 1]"

definition syndrome :: "u8 list \<Rightarrow> u8" where
  "syndrome bs = crc8_header (bs ! 0) (bs ! 1) (bs ! 2) XOR bs ! 3"

lemmas seq_defs = seq_new_def seq_from_raw_def seq_current_def seq_advance_def seq_previous_def

lemmas frame_defs = raw_frame_def data_frame_def ack_frame_def nack_frame_def start_frame_def
  finish_frame_def abort_frame_def

section \<open>Sequence numbers wrap\<close>

text \<open>
  Advancing a counter returns the value it had, the value before the advanced counter is the
  value just returned, and 256 advances come back to the start.
\<close>

theorem seq_advance_previous:
  "snd (seq_advance s) = seq_current s \<and>
   seq_previous (fst (seq_advance s)) = seq_current s \<and>
   seq_advance 255 = (0, 255) \<and> seq_previous seq_new = 255 \<and>
   ((fst \<circ> seq_advance) ^^ 256) s = s"
proof -
  have pow: "((fst \<circ> seq_advance) ^^ n) s = s + of_nat n" for n
    by (induction n) (simp_all add: seq_defs algebra_simps)
  show ?thesis by (simp add: pow) (simp add: seq_defs)
qed

section \<open>Decoding\<close>

lemma from_u8_type_byte [simp]: "from_u8 (type_byte t) = Some t"
  by (cases t) (simp_all add: from_u8_def)

lemma from_u8_Some: "from_u8 b = Some t \<longleftrightarrow> b = type_byte t"
  by (cases t) (auto simp: from_u8_def split: if_splits)

lemma from_u8_None: "from_u8 b = None \<longleftrightarrow> b \<notin> {1, 2, 3, 4, 5, 6}"
  by (simp add: from_u8_def)

lemma length_to_bytes [simp]: "length (to_bytes f) = FRAME_LEN"
  by (simp add: to_bytes_def FRAME_LEN_def Let_def)

lemma frame_ok_builders [simp, intro]:
  "frame_ok (data_frame s b)" "frame_ok (ack_frame s)" "frame_ok (nack_frame s)"
  "frame_ok start_frame" "frame_ok (finish_frame s)" "frame_ok abort_frame"
  by (simp_all add: frame_ok_def frame_defs semantics_ok_def is_control_def)

lemma frame_fields [simp]:
  "fr_type (data_frame s b) = Data" "fr_seq (data_frame s b) = s" "fr_data (data_frame s b) = b"
  "fr_type (ack_frame s) = Ack" "fr_seq (ack_frame s) = s"
  "fr_type (nack_frame s) = Nack" "fr_seq (nack_frame s) = s"
  "fr_type start_frame = Start" "fr_type abort_frame = Abort"
  "fr_seq start_frame = 0" "fr_seq abort_frame = 0"
  "fr_type (finish_frame s) = Finish" "fr_seq (finish_frame s) = s"
  by (simp_all add: frame_defs)

text \<open>
  C13: the decoder accepts exactly the four byte strings that some semantically valid frame
  serializes to, and returns that frame.  So encoding and decoding are inverse on valid frames
  and no other byte string decodes.
\<close>

theorem from_bytes_iff:
  assumes "length bs = FRAME_LEN"
  shows "from_bytes bs = Inr f \<longleftrightarrow> bs = to_bytes f \<and> frame_ok f"
proof -
  from assms obtain a b c d where bs: "bs = [a, b, c, d]"
    by (auto simp: FRAME_LEN_def elim: length4E)
  show ?thesis
  proof
    assume "from_bytes bs = Inr f"
    then show "bs = to_bytes f \<and> frame_ok f"
      by (auto simp: bs from_bytes_def to_bytes_def frame_ok_def raw_frame_def Let_def
          from_u8_Some split: option.splits if_splits)
  next
    assume "bs = to_bytes f \<and> frame_ok f"
    then show "from_bytes bs = Inr f"
      by (auto simp: from_bytes_def to_bytes_def frame_ok_def raw_frame_def Let_def)
  qed
qed

theorem from_bytes_iff_witness:
  "from_bytes [2, 7, 0, crc8 [2, 7, 0]] = Inr (ack_frame 7)
    \<longleftrightarrow> [2, 7, 0, crc8 [2, 7, 0]] = to_bytes (ack_frame 7) \<and> frame_ok (ack_frame 7)"
  by (rule from_bytes_iff) (simp add: FRAME_LEN_def)

lemma from_bytes_to_bytes [simp]: "frame_ok f \<Longrightarrow> from_bytes (to_bytes f) = Inr f"
  by (auto simp: from_bytes_def to_bytes_def frame_ok_def raw_frame_def Let_def)

lemma to_bytes_inj: "to_bytes f = to_bytes g \<longleftrightarrow> f = g"
proof
  assume "to_bytes f = to_bytes g"
  then have "type_byte (fr_type f) = type_byte (fr_type g)" "fr_seq f = fr_seq g" "fr_data f = fr_data g"
    by (simp_all add: to_bytes_def Let_def)
  moreover have "fr_type f = fr_type g" if "type_byte (fr_type f) = type_byte (fr_type g)"
    using that by (metis from_u8_type_byte option.inject)
  ultimately show "f = g" by simp
qed simp

text \<open>
  The decoder checks the type byte first, then the checksum, then the control-frame rules:
  each error is reported exactly when the checks before it passed.
\<close>

theorem from_bytes_errors:
  "(from_bytes [a, b, c, d] = Inl (InvalidType t) \<longleftrightarrow> t = a \<and> a \<notin> {1, 2, 3, 4, 5, 6}) \<and>
   (from_bytes [a, b, c, d] = Inl (CrcMismatch e g) \<longleftrightarrow>
      a \<in> {1, 2, 3, 4, 5, 6} \<and> e = crc8 [a, b, c] \<and> g = d \<and> e \<noteq> g) \<and>
   (from_bytes [a, b, c, d] = Inl InvalidSemantics \<longleftrightarrow>
      a \<in> {2, 3, 4, 5, 6} \<and> d = crc8 [a, b, c] \<and> (0 < c \<or> a \<in> {4, 6} \<and> 0 < b))"
proof (cases "from_u8 a")
  case None
  then have a: "a \<noteq> 1 \<and> a \<noteq> 2 \<and> a \<noteq> 3 \<and> a \<noteq> 4 \<and> a \<noteq> 5 \<and> a \<noteq> 6"
    by (simp add: from_u8_None)
  have "from_bytes [a, b, c, d] = Inl (InvalidType a)"
    using None by (simp add: from_bytes_def)
  then show ?thesis by (simp add: a) auto
next
  case (Some t)
  then have a: "a = type_byte t" by (simp add: from_u8_Some)
  show ?thesis
    by (cases t) (auto simp: a from_bytes_def from_u8_def crc8_header_def semantics_ok_def
        is_control_def raw_frame_def word_gt_0 Let_def)
qed

section \<open>Corruption is detected\<close>

lemma syndrome_to_bytes: "syndrome (to_bytes f) = 0"
  by (simp add: syndrome_def to_bytes_def Let_def)

lemma accepted_syndrome: "from_bytes bs = Inr f \<Longrightarrow> syndrome bs = 0"
  by (auto simp: from_bytes_def syndrome_def Let_def split: option.splits if_splits)

lemma syndrome_xor:
  assumes "length xs = 4" and "length ys = 4"
  shows "syndrome (map2 (XOR) xs ys) = syndrome xs XOR syndrome ys"
proof -
  from assms(1) obtain a b c d where xs: "xs = [a, b, c, d]" by (rule length4E)
  from assms(2) obtain e f g h where ys: "ys = [e, f, g, h]" by (rule length4E)
  have "crc8 [a XOR e, b XOR f, c XOR g] = crc8 [a, b, c] XOR crc8 [e, f, g]"
    using crc8_xor [of "[a, b, c]" "[e, f, g]"] by simp
  then show ?thesis
    by (simp add: xs ys syndrome_def crc8_header_def xor.assoc)
      (simp only: xor.left_commute)
qed

lemma flip_bit_xor:
  assumes "length bs = 4" and "p < 32"
  shows "flip_bit p bs = map2 (XOR) bs (flip_bit p [0, 0, 0, 0])"
proof -
  from assms(1) obtain a b c d where bs: "bs = [a, b, c, d]" by (rule length4E)
  from assms(2) have "p div 8 < 4" by simp
  then consider "p div 8 = 0" | "p div 8 = 1" | "p div 8 = 2" | "p div 8 = 3" by linarith
  then show ?thesis
    by cases (simp_all add: bs flip_bit_def)
qed

definition flip_syndrome :: "nat \<Rightarrow> u8" where
  "flip_syndrome p = syndrome (flip_bit p [0, 0, 0, 0])"

lemma length_flip_bit [simp]: "length (flip_bit p bs) = length bs"
  by (simp add: flip_bit_def)

lemma syndrome_flip:
  assumes "length bs = 4" and "p < 32"
  shows "syndrome (flip_bit p bs) = syndrome bs XOR flip_syndrome p"
  unfolding flip_syndrome_def flip_bit_xor [OF assms]
  by (rule syndrome_xor) (simp_all add: assms)

definition odd_weight :: "u8 \<Rightarrow> bool" where
  "odd_weight w = foldr (\<noteq>) (bits8 w) False"

lemma foldr_neq: "length xs = length ys \<Longrightarrow>
    foldr (\<noteq>) (map2 (\<noteq>) xs ys) False = (foldr (\<noteq>) xs False \<noteq> foldr (\<noteq>) ys False)"
  by (induction xs ys rule: list_induct2) auto

lemma odd_weight_xor: "odd_weight (a XOR b) \<longleftrightarrow> odd_weight a \<noteq> odd_weight b"
proof -
  have "bits8 (a XOR b) = map2 (\<noteq>) (bits8 a) (bits8 b)"
    by (simp add: bits8_def bit_xor_iff)
  then show ?thesis
    by (simp only: odd_weight_def) (rule foldr_neq, simp add: bits8_def)
qed

lemma flip_table: "map flip_syndrome [0..<32] =
   [107, 214, 171, 81, 162, 67, 134, 11, 21, 42, 84, 168, 87, 174, 91, 182,
    7, 14, 28, 56, 112, 224, 199, 137, 1, 2, 4, 8, 16, 32, 64, 128]"
  by (simp add: upt_rec flip_syndrome_def flip_bit_def syndrome_def crc8_header_def crc_eval)

lemma flip_syndromes_odd: "p < 32 \<Longrightarrow> odd_weight (flip_syndrome p)"
proof -
  have "list_all odd_weight (map flip_syndrome [0..<32])"
    unfolding flip_table by code_simp
  then show "p < 32 \<Longrightarrow> ?thesis" by (simp add: list_all_iff del: upt_Suc)
qed

lemma flip_syndromes_distinct:
  assumes "p < 32" and "q < 32" and "flip_syndrome p = flip_syndrome q"
  shows "p = q"
proof -
  have "distinct (map flip_syndrome [0..<32])" unfolding flip_table by simp
  then have "inj_on flip_syndrome {0..<32}" by (simp add: distinct_map)
  then show ?thesis using assms by (auto dest: inj_onD)
qed

lemma not_odd_weight_0: "\<not> odd_weight 0"
  by (simp add: odd_weight_def bits8_def)

text \<open>
  C12: however a transmitted frame is corrupted in one, two or three of its 32 bits, the
  decoder reports an error: no such corruption is ever delivered as a frame.
\<close>

theorem three_bit_errors_detected:
  assumes "set ps \<subseteq> {..<32}" and "distinct ps" and "length ps \<in> {1, 2, 3}"
  shows "\<exists>e. from_bytes (fold flip_bit ps (to_bytes f)) = Inl e"
proof (rule ccontr)
  let ?bs = "to_bytes f"
  have len: "length ?bs = 4" by (simp add: FRAME_LEN_def)
  assume "\<not> ?thesis"
  then obtain g where "from_bytes (fold flip_bit ps ?bs) = Inr g"
    by (cases "from_bytes (fold flip_bit ps ?bs)") auto
  then have zero: "syndrome (fold flip_bit ps ?bs) = 0" by (rule accepted_syndrome)
  consider p where "ps = [p]" | p q where "ps = [p, q]" | p q r where "ps = [p, q, r]"
    using assms(3) by (auto elim: length1E length2E length3E)
  then show False
  proof cases
    case 1
    then show ?thesis using zero assms(1) flip_syndromes_odd [of p] len
      by (simp add: syndrome_flip syndrome_to_bytes not_odd_weight_0)
  next
    case 2
    then have "flip_syndrome p XOR flip_syndrome q = 0" using zero assms(1) len
      by (simp add: syndrome_flip syndrome_to_bytes)
    then have "flip_syndrome p = flip_syndrome q"
      by (rule xor_zeroD)
    then show ?thesis using 2 assms flip_syndromes_distinct [of p q] by simp
  next
    case 3
    then have "(flip_syndrome p XOR flip_syndrome q) XOR flip_syndrome r = 0"
      using zero assms(1) len by (simp add: syndrome_flip syndrome_to_bytes)
    then have "odd_weight ((flip_syndrome p XOR flip_syndrome q) XOR flip_syndrome r) = odd_weight 0"
      by simp
    then show ?thesis using 3 assms(1) flip_syndromes_odd not_odd_weight_0
      by (simp add: odd_weight_xor)
  qed
qed

theorem three_bit_errors_detected_witness:
  "\<exists>e. from_bytes (fold flip_bit [0, 9, 31] (to_bytes (data_frame 3 0x55))) = Inl e"
  by (rule three_bit_errors_detected) simp_all

section \<open>The out buffer is a queue of the bytes still to write\<close>

lemma ob_wf_empty [simp]: "ob_wf ob_empty"
  by (simp add: ob_wf_def ob_empty_def)

lemma ob_rest_empty [simp]: "ob_rest ob_empty = []"
  by (simp add: ob_rest_def ob_empty_def)

lemma ob_idle_empty [simp]: "ob_is_idle ob_empty"
  by (simp add: ob_is_idle_def ob_empty_def)

lemma ob_wf_load [simp]: "ob_wf (ob_load f out)"
  by (simp add: ob_wf_def ob_load_def)

lemma ob_wf_commit [simp]: "ob_wf out \<Longrightarrow> ob_wf (ob_commit out)"
  by (simp add: ob_wf_def ob_commit_def)

lemma ob_rest_load [simp]: "ob_rest (ob_load f out) = to_bytes f"
  by (simp add: ob_rest_def ob_load_def)

lemma ob_not_idle_load [simp]: "\<not> ob_is_idle (ob_load f out)"
  by (simp add: ob_is_idle_def ob_load_def FRAME_LEN_def)

lemma ob_idle_rest: "ob_wf out \<Longrightarrow> ob_is_idle out \<longleftrightarrow> ob_rest out = []"
  by (auto simp: ob_wf_def ob_is_idle_def ob_rest_def)

lemma ob_peek_rest: "ob_wf out \<Longrightarrow>
    ob_peek out = (case ob_rest out of [] \<Rightarrow> None | b # _ \<Rightarrow> Some b)"
  by (auto simp: ob_wf_def ob_peek_def ob_rest_def hd_drop_conv_nth split: list.splits
      dest: arg_cong [where f = hd])

lemma ob_commit_rest: "ob_wf out \<Longrightarrow> ob_rest (ob_commit out) = tl (ob_rest out)"
  by (auto simp: ob_wf_def ob_commit_def ob_rest_def tl_drop drop_Suc)

end
