(* ===== verification/Assembler.thy ===== *)
theory Assembler
  imports Frame
begin

text \<open>
  The byte-at-a-time frame accumulator (\<open>src/protocol/assembler.rs\<close>) shared by the sender, the
  receiver and the demultiplexers.  \<open>feed\<close> is the caller's loop over \<open>push\<close>; the lemmas show
  that a stream of frames is cut at the right places, that a frame rejected for its checksum or
  its semantics does not move the next boundary, and that in resync mode bytes that cannot start
  a frame are skipped.
\<close>

section \<open>The code\<close>

record assembler =
  as_buf :: "u8 list"
  as_last :: "u8 list"
  as_filled :: nat
  as_resync :: bool

definition asm_new :: assembler where
  "asm_new = \<lparr>as_buf = replicate FRAME_LEN 0, as_last = replicate FRAME_LEN 0,
     as_filled = 0, as_resync = False\<rparr>"

definition asm_resyncing :: assembler where
  "asm_resyncing = \<lparr>as_buf = replicate FRAME_LEN 0, as_last = replicate FRAME_LEN 0,
     as_filled = 0, as_resync = True\<rparr>"

definition asm_reset :: "assembler \<Rightarrow> assembler" where
  "asm_reset a = a\<lparr>as_filled := 0\<rparr>"

definition is_invalid_type :: "frame_error + frame \<Rightarrow> bool" where
  "is_invalid_type r = (case r of Inl (InvalidType _) \<Rightarrow> True | _ \<Rightarrow> False)"

definition asm_push :: "u8 \<Rightarrow> assembler \<Rightarrow> assembler \<times> (frame_error + frame) option" where
  "asm_push byte a0 =
     (let a1 = (if as_filled a0 \<ge> FRAME_LEN then a0\<lparr>as_filled := 0\<rparr> else a0);
          a2 = a1\<lparr>as_buf := (as_buf a1)[as_filled a1 := byte], as_filled := as_filled a1 + 1\<rparr>
      in if as_filled a2 < FRAME_LEN then (a2, None)
         else
           let window = as_buf a2;
               a3 = a2\<lparr>as_last := window\<rparr>;
               result = from_bytes window;
               slide = (as_resync a3 \<and> is_invalid_type result);
               a4 = (if slide
                     then a3\<lparr>as_buf := (as_buf a3)[0 := window ! 1, 1 := window ! 2, 2 := window ! 3],
                             as_filled := FRAME_LEN - 1\<rparr>
                     else a3\<lparr>as_filled := 0\<rparr>)
           in (a4, Some result))"

definition asm_last_bytes :: "assembler \<Rightarrow> u8 list" where
  "asm_last_bytes a = as_last a"

text \<open>The callers' loop: push the bytes one after the other and collect what completes.\<close>

fun feed :: "assembler \<Rightarrow> u8 list \<Rightarrow> assembler \<times> (frame_error + frame) list" where
  "feed a [] = (a, [])"
| "feed a (b # bs) =
     (case asm_push b a of (a', r) \<Rightarrow>
        (case feed a' bs of (a'', rs) \<Rightarrow>
          (a'', (case r of None \<Rightarrow> rs | Some x \<Rightarrow> x # rs))))"

text \<open>Well-formedness, and the bytes held back for the next frame.\<close>

definition asm_wf :: "assembler \<Rightarrow> bool" where
  "asm_wf a = (length (as_buf a) = FRAME_LEN \<and> length (as_last a) = FRAME_LEN \<and>
     as_filled a < FRAME_LEN)"

definition asm_held :: "assembler \<Rightarrow> u8 list" where
  "asm_held a = take (as_filled a) (as_buf a)"

section \<open>One byte\<close>

lemma asm_wf_new [simp]: "asm_wf asm_new" "asm_wf asm_resyncing"
  by (simp_all add: asm_wf_def asm_new_def asm_resyncing_def FRAME_LEN_def)

lemma asm_wf_reset [simp]: "asm_wf a \<Longrightarrow> asm_wf (asm_reset a)"
  by (simp add: asm_wf_def asm_reset_def FRAME_LEN_def)

lemma asm_held_simps [simp]:
  "asm_held asm_new = []" "asm_held asm_resyncing = []" "asm_held (asm_reset a) = []"
  by (simp_all add: asm_held_def asm_new_def asm_resyncing_def asm_reset_def)

lemma asm_resync_simps [simp]:
  "\<not> as_resync asm_new" "as_resync asm_resyncing" "as_resync (asm_reset a) = as_resync a"
  by (simp_all add: asm_new_def asm_resyncing_def asm_reset_def)

text \<open>
  What a push does, in terms of the bytes held: nothing completes before the fourth byte; at the
  fourth the window decodes and is consumed, or slides by one byte if resyncing on a bad type.
\<close>

lemma asm_push_partial:
  assumes "asm_wf a" and "length (asm_held a) < 3"
  shows "\<exists>a'. asm_push b a = (a', None) \<and> asm_wf a' \<and> asm_held a' = asm_held a @ [b] \<and>
    as_resync a' = as_resync a"
proof -
  from assms have "as_filled a < 3" and "length (as_buf a) = 4"
    by (auto simp: asm_wf_def asm_held_def FRAME_LEN_def)
  then show ?thesis using assms(1)
    by (auto simp: asm_push_def asm_wf_def asm_held_def FRAME_LEN_def Let_def take_Suc_update
        simp del: take_Suc)
qed

lemma asm_push_complete:
  assumes "asm_wf a" and "asm_held a = [x, y, z]"
  shows "\<exists>a'. asm_push b a = (a', Some (from_bytes [x, y, z, b])) \<and> asm_wf a' \<and>
    as_resync a' = as_resync a \<and> asm_last_bytes a' = [x, y, z, b] \<and>
    asm_held a' = (if as_resync a \<and> is_invalid_type (from_bytes [x, y, z, b])
      then [y, z, b] else [])"
proof -
  from assms(1) obtain p q r s where buf: "as_buf a = [p, q, r, s]"
    by (auto simp: asm_wf_def FRAME_LEN_def elim: length4E)
  from assms(2) have "length (asm_held a) = 3" by simp
  with assms(1) buf have f: "as_filled a = 3"
    by (auto simp: asm_held_def asm_wf_def FRAME_LEN_def)
  with assms(2) buf have w: "x = p" "y = q" "z = r"
    by (simp_all add: asm_held_def numeral_eq_Suc)
  have upd: "[p, q, r, s][3 := b] = [p, q, r, b]"
    by (simp add: numeral_eq_Suc)
  show ?thesis using assms(1)
    by (auto simp: asm_push_def asm_wf_def FRAME_LEN_def Let_def f buf upd w asm_last_bytes_def
        asm_held_def numeral_3_eq_3)
qed

lemma is_invalid_type_head:
  "is_invalid_type (from_bytes [x, y, z, b]) \<longleftrightarrow> from_u8 x = None"
  by (auto simp: from_bytes_def is_invalid_type_def Let_def split: option.splits)

lemma asm_push_wf: "asm_wf a \<Longrightarrow> asm_wf (fst (asm_push b a))"
proof -
  assume wf: "asm_wf a"
  then have "length (asm_held a) < 4"
    by (simp add: asm_wf_def asm_held_def FRAME_LEN_def)
  then consider "length (asm_held a) < 3" | "length (asm_held a) = 3" by linarith
  then show ?thesis
  proof cases
    case 1
    then show ?thesis using asm_push_partial [OF wf, of b] by auto
  next
    case 2
    then obtain x y z where "asm_held a = [x, y, z]" by (rule length3E)
    then show ?thesis using asm_push_complete [OF wf, of x y z b] by auto
  qed
qed

section \<open>Streams\<close>

lemma feed_append:
  "feed a (xs @ ys) = (case feed a xs of (a', rs) \<Rightarrow>
     (case feed a' ys of (a'', rs') \<Rightarrow> (a'', rs @ rs')))"
  by (induction xs arbitrary: a) (auto split: prod.splits option.splits)

text \<open>Four bytes from an aligned assembler: the window decodes; it stays aligned unless it slides.\<close>

lemma feed_window:
  assumes "asm_wf a" and "asm_held a = []"
    and "as_resync a \<longrightarrow> from_u8 x \<noteq> None"
  shows "\<exists>a'. feed a [x, y, z, b] = (a', [from_bytes [x, y, z, b]]) \<and> asm_wf a' \<and>
    asm_held a' = [] \<and> as_resync a' = as_resync a"
proof -
  obtain a1 where a1: "asm_push x a = (a1, None)" "asm_wf a1" "asm_held a1 = [x]"
      "as_resync a1 = as_resync a"
    using asm_push_partial [OF assms(1), of x] assms(2) by auto
  obtain a2 where a2: "asm_push y a1 = (a2, None)" "asm_wf a2" "asm_held a2 = [x, y]"
      "as_resync a2 = as_resync a"
    using asm_push_partial [OF a1(2), of y] a1 by auto
  obtain a3 where a3: "asm_push z a2 = (a3, None)" "asm_wf a3" "asm_held a3 = [x, y, z]"
      "as_resync a3 = as_resync a"
    using asm_push_partial [OF a2(2), of z] a2 by auto
  show ?thesis
    using asm_push_complete [OF a3(2,3), of b] a1 a2 a3 assms(3)
    by (auto simp: is_invalid_type_head)
qed

text \<open>
  A stream of four byte windows fed to an aligned assembler yields exactly the decoding of
  each window, in order, and leaves it aligned, whichever of them fail their checksum or their
  semantics.  In resync mode this needs each window to begin with a known type byte; without
  resync it holds for all windows.
\<close>

theorem feed_windows:
  assumes "asm_wf a" and "asm_held a = []"
    and "\<forall>w \<in> set ws. length w = FRAME_LEN \<and> (as_resync a \<longrightarrow> from_u8 (w ! 0) \<noteq> None)"
  shows "snd (feed a (concat ws)) = map from_bytes ws \<and>
    asm_wf (fst (feed a (concat ws))) \<and> asm_held (fst (feed a (concat ws))) = []"
  using assms
proof (induction ws arbitrary: a)
  case Nil
  then show ?case by simp
next
  case (Cons w ws)
  from Cons.prems(3) obtain x y z b where w: "w = [x, y, z, b]"
    by (auto simp: FRAME_LEN_def elim: length4E)
  with Cons.prems obtain a' where a': "feed a w = (a', [from_bytes w])" "asm_wf a'"
      "asm_held a' = []" "as_resync a' = as_resync a"
    using feed_window [OF Cons.prems(1,2), of x y z b] by auto
  then show ?case using Cons.IH [of a'] Cons.prems(3)
    by (auto simp: feed_append split: prod.splits)
qed

theorem feed_windows_witness:
  "snd (feed asm_resyncing (concat [[1, 0, 9, 0], to_bytes (ack_frame 2)])) =
     map from_bytes [[1, 0, 9, 0], to_bytes (ack_frame 2)]"
  by (rule feed_windows [THEN conjunct1])
    (simp_all add: FRAME_LEN_def from_u8_def to_bytes_def Let_def)

lemma feed_frame:
  assumes "asm_wf a" and "asm_held a = []" and "frame_ok f"
  shows "\<exists>a'. feed a (to_bytes f) = (a', [Inr f]) \<and> asm_wf a' \<and> asm_held a' = [] \<and>
    as_resync a' = as_resync a"
proof -
  obtain c where tb: "to_bytes f = [type_byte (fr_type f), fr_seq f, fr_data f, c]"
    by (simp add: to_bytes_def Let_def)
  show ?thesis
    using feed_window [OF assms(1,2), of "type_byte (fr_type f)" "fr_seq f" "fr_data f" c]
      from_bytes_to_bytes [OF assms(3)]
    unfolding tb by (simp del: feed.simps)
qed

text \<open>In resync mode a window whose first byte is no type byte costs that byte only.\<close>

definition all_errors :: "(frame_error + frame) list \<Rightarrow> bool" where
  "all_errors rs = (\<forall>r \<in> set rs. \<exists>t. r = Inl (InvalidType t))"

lemma feed_skip:
  assumes "asm_wf a" and "as_resync a" and "length (asm_held a) \<le> 3"
    and "\<forall>g \<in> set gs. from_u8 g = None" and "asm_held a @ bs = gs @ to_bytes f" and "frame_ok f"
    and "length (asm_held a) = 3 \<longrightarrow> gs \<noteq> [] \<or> bs \<noteq> []"
  shows "\<exists>a' es. feed a bs = (a', es @ [Inr f]) \<and> all_errors es \<and> asm_wf a' \<and>
    asm_held a' = [] \<and> as_resync a'"
  using assms
proof (induction bs arbitrary: a gs)
  case Nil
  from Nil.prems(5) have "length (asm_held a) = length gs + 4"
    by (metis FRAME_LEN_def append_Nil2 length_append length_to_bytes)
  with Nil.prems(3) show ?case by simp
next
  case (Cons b bs)
  show ?case
  proof (cases "length (asm_held a) < 3")
    case True
    then obtain a1 where a1: "asm_push b a = (a1, None)" "asm_wf a1"
        "asm_held a1 = asm_held a @ [b]" "as_resync a1"
      using asm_push_partial [OF Cons.prems(1) True, of b] Cons.prems(2) by auto
    have "length (asm_held a1) = 3 \<longrightarrow> gs \<noteq> [] \<or> bs \<noteq> []"
    proof (intro impI)
      assume l: "length (asm_held a1) = 3"
      have "length (asm_held a1 @ bs) = length gs + 4"
        using Cons.prems(5) a1(3) by (simp add: FRAME_LEN_def)
      with l show "gs \<noteq> [] \<or> bs \<noteq> []" by auto
    qed
    then obtain a' es where "feed a1 bs = (a', es @ [Inr f])" "all_errors es" "asm_wf a'"
        "asm_held a' = []" "as_resync a'"
      using Cons.IH [of a1 gs] a1 True Cons.prems(4,5,6) by auto
    then show ?thesis using a1 by auto
  next
    case False
    then have "length (asm_held a) = 3" using Cons.prems(3) by simp
    then obtain x y z where held: "asm_held a = [x, y, z]" by (rule length3E)
    obtain a1 where a1: "asm_push b a = (a1, Some (from_bytes [x, y, z, b]))" "asm_wf a1"
        "as_resync a1"
        "asm_held a1 = (if is_invalid_type (from_bytes [x, y, z, b]) then [y, z, b] else [])"
      using asm_push_complete [OF Cons.prems(1) held, of b] Cons.prems(2) by auto
    show ?thesis
    proof (cases gs)
      case Nil
      then have w: "[x, y, z, b] = to_bytes f" and bs: "bs = []"
        using Cons.prems(5) held by (auto simp: to_bytes_def Let_def)
      then have "from_bytes [x, y, z, b] = Inr f" using Cons.prems(6) by simp
      moreover from this have "\<not> is_invalid_type (from_bytes [x, y, z, b])"
        by (simp add: is_invalid_type_def)
      ultimately show ?thesis using a1 bs by (auto simp: all_errors_def)
    next
      case (Cons g gs')
      then have x: "x = g" and rest: "[y, z, b] @ bs = gs' @ to_bytes f" and "from_u8 g = None"
        using Cons.prems(4,5) held by auto
      then have inv: "from_bytes [x, y, z, b] = Inl (InvalidType g)"
        by (simp add: from_bytes_def)
      then have h1: "asm_held a1 = [y, z, b]" using a1(4) by (simp add: is_invalid_type_def)
      have "gs' \<noteq> [] \<or> bs \<noteq> []"
        using rest by (auto simp: to_bytes_def Let_def)
      then obtain a' es where "feed a1 bs = (a', es @ [Inr f])" "all_errors es" "asm_wf a'"
          "asm_held a' = []" "as_resync a'"
        using Cons.IH [of a1 gs'] a1(2,3) h1 rest Cons.prems(4,6) \<open>gs = g # gs'\<close> by auto
      then show ?thesis using a1(1) inv
        by (intro exI [of _ a'] exI [of _ "Inl (InvalidType g) # es"]) (auto simp: all_errors_def)
    qed
  qed
qed

text \<open>
  In resync mode, any number of stray bytes that are no frame type, in front of a valid
  frame, are skipped: the frame is recovered, nothing else decodes before it, and the assembler
  is aligned again after it.
\<close>

theorem resync_recovers:
  assumes "\<forall>g \<in> set gs. from_u8 g = None" and "frame_ok f"
  shows "\<exists>a' es. feed asm_resyncing (gs @ to_bytes f) = (a', es @ [Inr f]) \<and> all_errors es \<and>
    asm_held a' = [] \<and> asm_wf a'"
  using feed_skip [of asm_resyncing gs "gs @ to_bytes f" f] assms by auto

theorem resync_recovers_witness:
  "\<exists>a' es. feed asm_resyncing ([0, 9, 255] @ to_bytes (data_frame 1 0x42)) =
      (a', es @ [Inr (data_frame 1 0x42)]) \<and> all_errors es \<and> asm_held a' = [] \<and> asm_wf a'"
  by (rule resync_recovers) (simp_all add: from_u8_def)

end
