(* ===== verification/Transport.thy ===== *)
theory Transport
  imports Assembler
begin

text \<open>
  The boundary to the hardware (\<open>src/transport/traits.rs\<close>), the crate's error type
  (\<open>src/error.rs\<close>), the retry and idle policies (\<open>src/timeout.rs\<close>) and the scripted test
  transport (\<open>src/test_support.rs\<close>).

  A trait is a record of its methods.  An implementation of \<open>ByteTransport\<close> is a \<open>port\<close> over a
  world \<open>'w\<close>: the state behind the transport, threaded through every call.  A transport that is
  owned has its own state as the world; two transports that share state (the two ends of a
  \<open>LinkFace\<close>, the four ports of a \<open>DuplexWire\<close>) are two ports over one world, which is how the
  \<open>RefCell\<close> aliasing of the code appears in the model.
\<close>

section \<open>Traits\<close>

record ('w, 'e) port =
  write_byte :: "u8 \<Rightarrow> 'w \<Rightarrow> 'w \<times> ('e + unit)"
  read_byte :: "'w \<Rightarrow> 'w \<times> ('e + u8 option)"

record ('s, 'a) source =
  src_read :: "'s \<Rightarrow> 's \<times> ('a + u8 option)"

record ('k, 'a) sink =
  sink_write :: "u8 \<Rightarrow> 'k \<Rightarrow> 'k \<times> ('a + unit)"

section \<open>Errors\<close>

datatype 'e error =
    ErrTransport 'e
  | ErrCrc
  | ErrInvalidFrameType u8
  | ErrInvalidSemantics
  | ErrTimeout
  | ErrRetriesExhausted
  | ErrIdleBudgetExhausted
  | ErrNotIdle
  | ErrWindowFull
  | ErrAborted

fun error_of_frame_error :: "frame_error \<Rightarrow> 'e error" where
  "error_of_frame_error (CrcMismatch expected got) = ErrCrc"
| "error_of_frame_error (InvalidType byte) = ErrInvalidFrameType byte"
| "error_of_frame_error InvalidSemantics = ErrInvalidSemantics"

section \<open>Retry and idle policies\<close>

record retry_policy =
  timeout_ticks :: u16
  max_retries :: u8

definition retry_policy_new :: "u16 \<Rightarrow> u8 \<Rightarrow> retry_policy" where
  "retry_policy_new ticks retries = \<lparr>timeout_ticks = ticks, max_retries = retries\<rparr>"

definition retry_policy_default :: retry_policy where
  "retry_policy_default = retry_policy_new 1000 5"

record idle_budget =
  ib_limit :: "u32 option"
  ib_idle :: u32

definition idle_unbounded :: idle_budget where
  "idle_unbounded = \<lparr>ib_limit = None, ib_idle = 0\<rparr>"

definition idle_new :: "u32 \<Rightarrow> idle_budget" where
  "idle_new max_idle_ticks = \<lparr>ib_limit = Some max_idle_ticks, ib_idle = 0\<rparr>"

definition idle_default :: idle_budget where
  "idle_default = idle_new 1000000"

definition idle_reset :: "idle_budget \<Rightarrow> idle_budget" where
  "idle_reset b = b\<lparr>ib_idle := 0\<rparr>"

definition idle_tick :: "idle_budget \<Rightarrow> idle_budget \<times> ('e error + unit)" where
  "idle_tick b =
     (case ib_limit b of
        None \<Rightarrow> (b, Inr ())
      | Some limit \<Rightarrow>
          let b' = b\<lparr>ib_idle := sat_inc (ib_idle b)\<rparr>
          in if ib_idle b' > limit then (b', Inl ErrIdleBudgetExhausted) else (b', Inr ()))"

section \<open>Writing the out buffer\<close>

text \<open>
  \<open>pump_out\<close> of the senders: write the next byte of the out buffer, if any.  The sender and the
  windowed sender have the same body over their own fields; the result says whether the buffer
  is empty now.
\<close>

definition out_pump :: "('w, 'e) port \<Rightarrow> 'w \<Rightarrow> out_buf \<Rightarrow> 'w \<times> out_buf \<times> ('e error + bool)" where
  "out_pump p w out =
     (case ob_peek out of
        None \<Rightarrow> (w, out, Inr True)
      | Some byte \<Rightarrow>
          (case write_byte p byte w of
             (w', Inl e) \<Rightarrow> (w', out, Inl (ErrTransport e))
           | (w', Inr _) \<Rightarrow> (w', ob_commit out, Inr (ob_is_idle (ob_commit out)))))"

section \<open>The scripted transport of the tests\<close>

definition MOCK_CAP :: nat where
  "MOCK_CAP = 64"

datatype mock_full = MockFull

record mock =
  mk_incoming :: "u8 list"
  mk_incoming_len :: nat
  mk_incoming_pos :: nat
  mk_written_buf :: "u8 list"
  mk_written_len :: nat

definition mock_with_incoming :: "u8 list \<Rightarrow> mock" where
  "mock_with_incoming bytes =
     (let n = min (length bytes) MOCK_CAP
      in \<lparr>mk_incoming = take n bytes @ replicate (MOCK_CAP - n) 0, mk_incoming_len = n,
          mk_incoming_pos = 0, mk_written_buf = replicate MOCK_CAP 0, mk_written_len = 0\<rparr>)"

definition mock_written :: "mock \<Rightarrow> u8 list" where
  "mock_written m = take (mk_written_len m) (mk_written_buf m)"

definition mock_port :: "(mock, mock_full) port" where
  "mock_port =
     \<lparr>write_byte = (\<lambda>byte m.
        if mk_written_len m \<ge> MOCK_CAP then (m, Inl MockFull)
        else (m\<lparr>mk_written_buf := (mk_written_buf m)[mk_written_len m := byte],
                mk_written_len := mk_written_len m + 1\<rparr>, Inr ())),
      read_byte = (\<lambda>m.
        if mk_incoming_pos m \<ge> mk_incoming_len m then (m, Inr None)
        else (m\<lparr>mk_incoming_pos := mk_incoming_pos m + 1\<rparr>,
              Inr (Some (mk_incoming m ! mk_incoming_pos m))))\<rparr>"

text \<open>The bytes the script has left, its room for output, and its well-formedness.\<close>

definition mock_avail :: "mock \<Rightarrow> u8 list" where
  "mock_avail m = drop (mk_incoming_pos m) (take (mk_incoming_len m) (mk_incoming m))"

definition mock_room :: "mock \<Rightarrow> nat" where
  "mock_room m = MOCK_CAP - mk_written_len m"

definition mock_wf :: "mock \<Rightarrow> bool" where
  "mock_wf m = (length (mk_incoming m) = MOCK_CAP \<and> mk_incoming_len m \<le> MOCK_CAP \<and>
     length (mk_written_buf m) = MOCK_CAP \<and> mk_written_len m \<le> MOCK_CAP)"

section \<open>What a write leaves in the out buffer\<close>

lemma out_pump_rest:
  assumes "ob_wf out" and "out_pump p w out = (w', out', r)"
  shows "ob_wf out' \<and> (case r of
      Inl _ \<Rightarrow> out' = out
    | Inr done \<Rightarrow> ob_rest out' = tl (ob_rest out) \<and> (done \<longleftrightarrow> ob_is_idle out'))"
  using assms
  by (auto simp: out_pump_def ob_peek_rest ob_commit_rest ob_idle_rest
      split: option.splits list.splits prod.splits sum.splits)

lemma out_pump_write:
  assumes "ob_wf out" and "ob_rest out = b # bs" and "write_byte p b w = (w', Inr ())"
  shows "out_pump p w out = (w', ob_commit out, Inr (bs = []))"
  using assms ob_idle_rest [of "ob_commit out"]
  by (simp add: out_pump_def ob_peek_rest ob_commit_rest)

lemma ob_buf_load [simp]: "ob_buf (ob_load f out) = to_bytes f"
  by (simp add: ob_load_def)

lemma ob_buf_commit [simp]: "ob_buf (ob_commit out) = ob_buf out"
  by (simp add: ob_commit_def)

lemma out_pump_buf: "out_pump p w out = (w', out', r) \<Longrightarrow> ob_buf out' = ob_buf out"
  by (auto simp: out_pump_def split: option.splits prod.splits sum.splits)

section \<open>The idle budget\<close>

text \<open>Ticks in a row, up to the first error.\<close>

fun idle_ticks :: "nat \<Rightarrow> idle_budget \<Rightarrow> idle_budget \<times> ('e error + unit)" where
  "idle_ticks 0 b = (b, Inr ())"
| "idle_ticks (Suc n) b = (case idle_tick b of
     (b', Inl e) \<Rightarrow> (b', Inl e)
   | (b', Inr _) \<Rightarrow> idle_ticks n b')"

lemma idle_tick_step:
  assumes "ib_limit b = Some l" and "l \<noteq> - 1" and "ib_idle b \<le> l"
  shows "idle_tick b = (if unat (ib_idle b) + 1 \<le> unat l
     then (b\<lparr>ib_idle := ib_idle b + 1\<rparr>, Inr ())
     else (b\<lparr>ib_idle := ib_idle b + 1\<rparr>, Inl ErrIdleBudgetExhausted)) \<and>
     unat (ib_idle b + 1) = unat (ib_idle b) + 1"
proof -
  from assms(2,3) have ne: "ib_idle b \<noteq> - 1" by (metis word_order.extremum_unique)
  then have u: "unat (ib_idle b + 1) = unat (ib_idle b) + 1"
    using unat_not_max [OF ne] by (simp add: unat_word_ariths)
  show ?thesis using assms(1) ne u
    by (auto simp: idle_tick_def sat_inc_def word_less_nat_alt Let_def)
qed

lemma idle_ticks_from:
  assumes "ib_limit b = Some l" and "l \<noteq> - 1" and "ib_idle b \<le> l"
  shows "(\<exists>b'. (idle_ticks n b :: idle_budget \<times> ('e error + unit)) = (b', Inr ()) \<and>
      ib_limit b' = Some l) \<longleftrightarrow> unat (ib_idle b) + n \<le> unat l"
  using assms
proof (induction n arbitrary: b)
  case 0
  then show ?case by (simp add: word_le_nat_alt)
next
  case (Suc n)
  note s = idle_tick_step [OF Suc.prems, where ?'a = 'e]
  show ?case
  proof (cases "unat (ib_idle b) + 1 \<le> unat l")
    case True
    let ?b = "b\<lparr>ib_idle := ib_idle b + 1\<rparr>"
    have "ib_idle ?b \<le> l" using True s by (simp add: word_le_nat_alt)
    then have "(\<exists>b'. (idle_ticks n ?b :: idle_budget \<times> ('e error + unit)) = (b', Inr ()) \<and>
        ib_limit b' = Some l) \<longleftrightarrow> unat (ib_idle ?b) + n \<le> unat l"
      using Suc.IH [of ?b] Suc.prems by simp
    then show ?thesis using s True by simp
  next
    case False
    then show ?thesis using s by simp
  qed
qed

lemma idle_ticks_max: "ib_limit b = Some (- 1) \<Longrightarrow> \<exists>b'. idle_ticks n b = (b', Inr ())"
  by (induction n arbitrary: b) (auto simp: idle_tick_def Let_def not_less)

lemma idle_ticks_limit: "ib_limit (fst (idle_ticks n b)) = ib_limit b"
  by (induction n arbitrary: b)
    (auto simp: idle_tick_def Let_def split: option.splits prod.splits sum.splits if_splits)

text \<open>
  After a reset, a budget of \<open>l\<close> ticks lets exactly \<open>l\<close> idle polls in a row pass and fails
  the next one.  The one exception is the largest limit: the counter saturates there and never
  exceeds it.
\<close>

theorem idle_budget_exact:
  assumes "ib_limit b = Some l"
  shows "(\<exists>b'. (idle_ticks n (idle_reset b) :: idle_budget \<times> ('e error + unit)) = (b', Inr ()))
    \<longleftrightarrow> n \<le> unat l \<or> l = - 1"
proof (cases "l = - 1")
  case True
  then show ?thesis using idle_ticks_max [of "idle_reset b"] assms by (auto simp: idle_reset_def)
next
  case False
  have "(\<exists>b'. (idle_ticks n (idle_reset b) :: idle_budget \<times> ('e error + unit)) = (b', Inr ()))
    \<longleftrightarrow> (\<exists>b'. (idle_ticks n (idle_reset b) :: idle_budget \<times> ('e error + unit)) = (b', Inr ()) \<and>
      ib_limit b' = Some l)"
    using assms idle_ticks_limit [of n "idle_reset b", where ?'a = 'e] by (auto simp: idle_reset_def)
  also have "\<dots> \<longleftrightarrow> n \<le> unat l"
    using idle_ticks_from [of "idle_reset b" l n, where ?'e = 'e] assms False
    by (simp add: idle_reset_def)
  finally show ?thesis using False by simp
qed

theorem idle_budget_exact_witness:
  "(\<exists>b'. (idle_ticks 3 (idle_reset (idle_new 2)) :: idle_budget \<times> (mock_full error + unit))
      = (b', Inr ())) \<longleftrightarrow> (3::nat) \<le> unat (2 :: u32) \<or> (2 :: u32) = - 1"
  by (rule idle_budget_exact) (simp add: idle_new_def)

section \<open>A link that moves every byte\<close>

text \<open>
  What the state machines rely on when nothing fails: while there is room a written byte is
  appended to what was sent, a read takes the next available byte, and an empty read changes
  nothing but says so.
\<close>

locale byte_link =
  fixes p :: "('w, 'e) port"
    and sent :: "'w \<Rightarrow> u8 list"
    and avail :: "'w \<Rightarrow> u8 list"
    and room :: "'w \<Rightarrow> nat"
    and ok :: "'w \<Rightarrow> bool"
  assumes write_ok: "ok w \<Longrightarrow> 0 < room w \<Longrightarrow> \<exists>w'. write_byte p b w = (w', Inr ()) \<and> ok w' \<and>
      sent w' = sent w @ [b] \<and> avail w' = avail w \<and> Suc (room w') = room w"
    and read_next: "ok w \<Longrightarrow> avail w = b # bs \<Longrightarrow> \<exists>w'. read_byte p w = (w', Inr (Some b)) \<and> ok w' \<and>
      sent w' = sent w \<and> avail w' = bs \<and> room w' = room w"
    and read_empty: "ok w \<Longrightarrow> avail w = [] \<Longrightarrow> \<exists>w'. read_byte p w = (w', Inr None) \<and> ok w' \<and>
      sent w' = sent w \<and> avail w' = [] \<and> room w' = room w"

context byte_link
begin

lemma out_pump_link:
  assumes "ok w" and "0 < room w" and "ob_wf out" and "ob_rest out = b # bs"
  shows "\<exists>w'. out_pump p w out = (w', ob_commit out, Inr (bs = [])) \<and> ok w' \<and>
    sent w' = sent w @ [b] \<and> avail w' = avail w \<and> Suc (room w') = room w"
  using write_ok [OF assms(1,2), of b] out_pump_write [OF assms(3,4), of p w] by auto

end

interpretation mock_link: byte_link mock_port mock_written mock_avail mock_room mock_wf
proof (unfold_locales, goal_cases)
  case (1 w b)
  then show ?case
    by (auto simp: mock_port_def mock_written_def mock_avail_def mock_room_def mock_wf_def
        take_Suc_update)
next
  case (2 w b bs)
  then have "drop (mk_incoming_pos w) (take (mk_incoming_len w) (mk_incoming w)) \<noteq> []"
    by (simp add: mock_avail_def)
  then have lt: "mk_incoming_pos w < mk_incoming_len w" by simp
  with 2 have "drop (mk_incoming_pos w) (take (mk_incoming_len w) (mk_incoming w)) =
      mk_incoming w ! mk_incoming_pos w #
      drop (Suc (mk_incoming_pos w)) (take (mk_incoming_len w) (mk_incoming w))"
    by (subst Cons_nth_drop_Suc [symmetric]) (auto simp: mock_wf_def)
  with 2 lt show ?case
    by (auto simp: mock_port_def mock_written_def mock_avail_def mock_room_def mock_wf_def)
next
  case (3 w)
  then have "\<not> mk_incoming_pos w < mk_incoming_len w"
    by (auto simp: mock_avail_def mock_wf_def)
  with 3 show ?case by (simp add: mock_port_def)
qed

lemma mock_wf_with_incoming [simp]: "mock_wf (mock_with_incoming bs)"
  by (simp add: mock_wf_def mock_with_incoming_def Let_def)

lemma mock_avail_with_incoming [simp]:
  "length bs \<le> 64 \<Longrightarrow> mock_avail (mock_with_incoming bs) = bs"
  by (simp add: mock_avail_def mock_with_incoming_def MOCK_CAP_def Let_def min_def)

lemma mock_room_with_incoming [simp]: "mock_room (mock_with_incoming bs) = 64"
  by (simp add: mock_room_def mock_with_incoming_def MOCK_CAP_def Let_def)

lemma mock_written_with_incoming [simp]: "mock_written (mock_with_incoming bs) = []"
  by (simp add: mock_written_def mock_with_incoming_def Let_def)

end
