(* ===== verification/Sender.thy ===== *)
theory Sender
  imports Transport
begin

text \<open>
  The stop-and-wait sender (\<open>src/tx.rs\<close>).  \<open>Sender<T>\<close> owns its transport; here the transport
  is a port \<open>p\<close> and its world \<open>w\<close>, so a method that touches the transport maps \<open>(w, s)\<close> to
  \<open>(w', s', result)\<close>.  The lemmas give the invariant that ties the state, the flight and the out
  buffer together, what moves the sequence number, and the bound on retransmissions.
\<close>

section \<open>The code\<close>

datatype tx_state = TxIdle | TxSending | TxWaitingAck | TxRetrying | TxFinished | TxAborted | TxFailed

datatype tx_poll = PollPending | PollAcked | PollSessionReady | PollTransferDone | PollAborted

datatype flight_kind = FData u8 | FStart | FFinish | FAbort

record in_flight =
  fl_kind :: flight_kind
  fl_seq :: u8
  fl_retries_left :: u8
  fl_waiting :: bool
  fl_empty_ticks :: u16

record io_mark =
  im_frame_on_wire :: bool
  im_nack :: bool
  im_retransmit :: bool

definition io_mark_default :: io_mark where
  "io_mark_default = \<lparr>im_frame_on_wire = False, im_nack = False, im_retransmit = False\<rparr>"

record sender =
  s_seq :: sequence
  s_state :: tx_state
  s_policy :: retry_policy
  s_assembler :: assembler
  s_inflight :: "in_flight option"
  s_out :: out_buf
  s_mark :: io_mark

definition sender_with_policy :: "retry_policy \<Rightarrow> sender" where
  "sender_with_policy policy =
     \<lparr>s_seq = seq_new, s_state = TxIdle, s_policy = policy, s_assembler = asm_new,
      s_inflight = None, s_out = ob_empty, s_mark = io_mark_default\<rparr>"

definition sender_new :: sender where
  "sender_new = sender_with_policy retry_policy_default"

definition sender_next_seq :: "sender \<Rightarrow> u8" where
  "sender_next_seq s = seq_current (s_seq s)"

definition sender_can_offer_data :: "sender \<Rightarrow> bool" where
  "sender_can_offer_data s = (s_state s = TxIdle \<and> s_inflight s = None \<and> ob_is_idle (s_out s))"

definition sender_begin :: "flight_kind \<Rightarrow> u8 \<Rightarrow> sender \<Rightarrow> sender" where
  "sender_begin kind seq s =
     s\<lparr>s_inflight := Some \<lparr>fl_kind = kind, fl_seq = seq,
         fl_retries_left = max_retries (s_policy s), fl_waiting = False, fl_empty_ticks = 0\<rparr>,
       s_state := TxSending\<rparr>"

definition sender_holds_session_control :: "sender \<Rightarrow> bool" where
  "sender_holds_session_control s =
     (case s_inflight s of
        None \<Rightarrow> False
      | Some fl \<Rightarrow> (case fl_kind fl of FAbort \<Rightarrow> True | FStart \<Rightarrow> True | _ \<Rightarrow> False))"

definition sender_take_mark :: "sender \<Rightarrow> sender \<times> io_mark" where
  "sender_take_mark s = (s\<lparr>s_mark := io_mark_default\<rparr>, s_mark s)"

definition sender_offer_start :: "sender \<Rightarrow> sender \<times> ('e error + unit)" where
  "sender_offer_start s =
     (if s_state s \<notin> {TxIdle, TxFinished, TxAborted, TxFailed} then (s, Inl ErrNotIdle)
      else if \<not> ob_is_idle (s_out s) then (s, Inl ErrNotIdle)
      else (sender_begin FStart 0 (s\<lparr>s_inflight := None, s_seq := seq_new\<rparr>), Inr ()))"

definition sender_offer :: "u8 \<Rightarrow> sender \<Rightarrow> sender \<times> ('e error + unit)" where
  "sender_offer data s =
     (if \<not> sender_can_offer_data s then (s, Inl ErrNotIdle)
      else (sender_begin (FData data) (seq_current (s_seq s)) s, Inr ()))"

definition sender_offer_finish :: "sender \<Rightarrow> sender \<times> ('e error + unit)" where
  "sender_offer_finish s =
     (if \<not> sender_can_offer_data s then (s, Inl ErrNotIdle)
      else (sender_begin FFinish (seq_current (s_seq s)) s, Inr ()))"

definition sender_offer_abort :: "sender \<Rightarrow> sender \<times> ('e error + unit)" where
  "sender_offer_abort s =
     (if s_state s = TxAborted \<and> s_inflight s = None then (s, Inr ())
      else if map_option fl_kind (s_inflight s) = Some FAbort then (s, Inr ())
      else (sender_begin FAbort 0
              (s\<lparr>s_inflight := None, s_out := ob_empty, s_assembler := asm_reset (s_assembler s),
                 s_seq := seq_new\<rparr>), Inr ()))"

definition sender_force_abort :: "sender \<Rightarrow> sender" where
  "sender_force_abort s =
     s\<lparr>s_inflight := None, s_out := ob_empty, s_assembler := asm_reset (s_assembler s),
       s_state := TxAborted\<rparr>"

definition sender_pump_out :: "('w, 'e) port \<Rightarrow> 'w \<Rightarrow> sender \<Rightarrow> 'w \<times> sender \<times> ('e error + bool)" where
  "sender_pump_out p w s =
     (case out_pump p w (s_out s) of (w', out', r) \<Rightarrow> (w', s\<lparr>s_out := out'\<rparr>, r))"

fun flight_frame :: "flight_kind \<Rightarrow> u8 \<Rightarrow> frame" where
  "flight_frame (FData byte) seq = data_frame seq byte"
| "flight_frame FStart seq = start_frame"
| "flight_frame FFinish seq = finish_frame seq"
| "flight_frame FAbort seq = abort_frame"

definition sender_load_flight_frame :: "sender \<Rightarrow> sender" where
  "sender_load_flight_frame s =
     (case s_inflight s of
        None \<Rightarrow> s
      | Some fl \<Rightarrow> s\<lparr>s_out := ob_load (flight_frame (fl_kind fl) (fl_seq fl)) (s_out s),
                     s_state := TxSending\<rparr>)"

text \<open>The tail of \<open>poll\<close> once the fourth byte is out, written twice in the code.\<close>

definition sender_frame_written :: "sender \<Rightarrow> sender" where
  "sender_frame_written s =
     s\<lparr>s_inflight := map_option (\<lambda>fl. fl\<lparr>fl_waiting := True, fl_empty_ticks := 0\<rparr>) (s_inflight s),
       s_assembler := asm_reset (s_assembler s), s_state := TxWaitingAck,
       s_mark := (s_mark s)\<lparr>im_frame_on_wire := True\<rparr>\<rparr>"

definition sender_on_attempt_failed :: "sender \<Rightarrow> sender \<times> ('e error + tx_poll)" where
  "sender_on_attempt_failed s =
     (case s_inflight s of
        None \<Rightarrow> (s, Inr PollPending)
      | Some fl \<Rightarrow>
          if fl_retries_left fl = 0
          then (s\<lparr>s_inflight := None, s_state := TxFailed\<rparr>, Inl ErrRetriesExhausted)
          else (s\<lparr>s_inflight := Some (fl\<lparr>fl_retries_left := fl_retries_left fl - 1,
                     fl_waiting := False, fl_empty_ticks := 0\<rparr>),
                  s_state := TxRetrying, s_mark := (s_mark s)\<lparr>im_retransmit := True\<rparr>\<rparr>,
                Inr PollPending))"

definition sender_on_ack :: "sender \<Rightarrow> sender \<times> ('e error + tx_poll)" where
  "sender_on_ack s =
     (case s_inflight s of
        None \<Rightarrow> (s, Inr PollPending)
      | Some fl \<Rightarrow>
          let s' = s\<lparr>s_inflight := None\<rparr>
          in (case fl_kind fl of
                FData _ \<Rightarrow> (s'\<lparr>s_seq := fst (seq_advance (s_seq s')), s_state := TxIdle\<rparr>, Inr PollAcked)
              | FStart \<Rightarrow> (s'\<lparr>s_seq := seq_new, s_state := TxIdle\<rparr>, Inr PollSessionReady)
              | FFinish \<Rightarrow> (s'\<lparr>s_state := TxFinished\<rparr>, Inr PollTransferDone)
              | FAbort \<Rightarrow> (s'\<lparr>s_state := TxAborted\<rparr>, Inr PollAborted)))"

definition sender_on_control :: "frame \<Rightarrow> sender \<Rightarrow> sender \<times> ('e error + tx_poll)" where
  "sender_on_control f s =
     (let seq = (case s_inflight s of Some fl \<Rightarrow> fl_seq fl | None \<Rightarrow> 0)
      in if fr_type f = Abort then (sender_force_abort s, Inr PollAborted)
         else if fr_type f = Ack \<and> fr_seq f = seq then sender_on_ack s
         else if fr_type f = Nack \<and> fr_seq f = seq
           then sender_on_attempt_failed (s\<lparr>s_mark := (s_mark s)\<lparr>im_nack := True\<rparr>\<rparr>)
         else if fr_type f = Ack \<or> fr_type f = Nack
           then (s\<lparr>s_inflight := map_option (\<lambda>fl. fl\<lparr>fl_empty_ticks := 0\<rparr>) (s_inflight s)\<rparr>,
                 Inr PollPending)
         else (s, Inr PollPending))"

text \<open>The read half of \<open>poll\<close>: one byte towards a control frame, or one empty tick.\<close>

definition sender_read :: "('w, 'e) port \<Rightarrow> 'w \<Rightarrow> sender \<Rightarrow> 'w \<times> sender \<times> ('e error + tx_poll)" where
  "sender_read p w s =
     (case read_byte p w of
        (w', Inl e) \<Rightarrow> (w', s, Inl (ErrTransport e))
      | (w', Inr (Some byte)) \<Rightarrow>
          (case asm_push byte (s_assembler s) of
             (a, None) \<Rightarrow> (w', s\<lparr>s_assembler := a\<rparr>, Inr PollPending)
           | (a, Some (Inl _)) \<Rightarrow> (w', s\<lparr>s_assembler := a\<rparr>, Inr PollPending)
           | (a, Some (Inr f)) \<Rightarrow> (w', sender_on_control f (s\<lparr>s_assembler := a\<rparr>)))
      | (w', Inr None) \<Rightarrow>
          let timeout = timeout_ticks (s_policy s)
          in (case s_inflight s of
                None \<Rightarrow> (w', s, Inr PollPending)
              | Some fl \<Rightarrow>
                  let fl' = fl\<lparr>fl_empty_ticks := sat_inc (fl_empty_ticks fl)\<rparr>;
                      s' = s\<lparr>s_inflight := Some fl'\<rparr>
                  in if fl_empty_ticks fl' \<ge> timeout then (w', sender_on_attempt_failed s')
                     else (w', s', Inr PollPending)))"

definition sender_poll :: "('w, 'e) port \<Rightarrow> 'w \<Rightarrow> sender \<Rightarrow> 'w \<times> sender \<times> ('e error + tx_poll)" where
  "sender_poll p w s0 =
     (let s = s0\<lparr>s_mark := io_mark_default\<rparr>
      in if s_state s = TxFailed then (w, s, Inl ErrRetriesExhausted)
         else if s_state s = TxAborted \<and> s_inflight s = None then (w, s, Inr PollAborted)
         else if s_state s = TxFinished \<and> s_inflight s = None then (w, s, Inr PollTransferDone)
         else if \<not> ob_is_idle (s_out s) then
           (case sender_pump_out p w s of
              (w', s', Inl e) \<Rightarrow> (w', s', Inl e)
            | (w', s', Inr done) \<Rightarrow>
                if \<not> done then (w', s'\<lparr>s_state := TxSending\<rparr>, Inr PollPending)
                else (w', sender_frame_written s', Inr PollPending))
         else (case s_inflight s of
             None \<Rightarrow> (w, s, Inr PollPending)
           | Some fl \<Rightarrow>
               if \<not> fl_waiting fl then
                 (case sender_pump_out p w (sender_load_flight_frame s) of
                    (w', s', Inl e) \<Rightarrow> (w', s', Inl e)
                  | (w', s', Inr done) \<Rightarrow>
                      if \<not> done then (w', s', Inr PollPending)
                      else (w', sender_frame_written s', Inr PollPending))
               else sender_read p w s))"

text \<open>
  The blocking loops of \<open>send_start\<close>, \<open>send_byte\<close>, \<open>send_finish\<close> and \<open>send_abort\<close> poll until the
  result is not \<open>Pending\<close>; \<open>None\<close> means that they poll for ever.
\<close>

partial_function (option) sender_await ::
  "('w, 'e) port \<Rightarrow> 'w \<Rightarrow> sender \<Rightarrow> ('w \<times> sender \<times> ('e error + tx_poll)) option" where
  "sender_await p w s =
     (case sender_poll p w s of (w', s', r) \<Rightarrow>
        if r = Inr PollPending then sender_await p w' s' else Some (w', s', r))"

definition settle_not_aborted :: "'e error + tx_poll \<Rightarrow> 'e error + unit" where
  "settle_not_aborted r =
     (case r of Inl e \<Rightarrow> Inl e | Inr PollAborted \<Rightarrow> Inl ErrAborted | Inr _ \<Rightarrow> Inr ())"

definition settle_any :: "'e error + tx_poll \<Rightarrow> 'e error + unit" where
  "settle_any r = (case r of Inl e \<Rightarrow> Inl e | Inr _ \<Rightarrow> Inr ())"

definition sender_send ::
  "('e error + tx_poll \<Rightarrow> 'e error + unit) \<Rightarrow> ('w, 'e) port \<Rightarrow> 'w \<Rightarrow>
     sender \<times> ('e error + unit) \<Rightarrow> ('w \<times> sender \<times> ('e error + unit)) option" where
  "sender_send settle p w offered =
     (case offered of
        (s, Inl e) \<Rightarrow> Some (w, s, Inl e)
      | (s, Inr _) \<Rightarrow> map_option (\<lambda>(w', s', r). (w', s', settle r)) (sender_await p w s))"

definition sender_send_start ::
  "('w, 'e) port \<Rightarrow> 'w \<Rightarrow> sender \<Rightarrow> ('w \<times> sender \<times> ('e error + unit)) option" where
  "sender_send_start p w s = sender_send settle_not_aborted p w (sender_offer_start s)"

definition sender_send_byte ::
  "('w, 'e) port \<Rightarrow> u8 \<Rightarrow> 'w \<Rightarrow> sender \<Rightarrow> ('w \<times> sender \<times> ('e error + unit)) option" where
  "sender_send_byte p data w s = sender_send settle_not_aborted p w (sender_offer data s)"

definition sender_send_finish ::
  "('w, 'e) port \<Rightarrow> 'w \<Rightarrow> sender \<Rightarrow> ('w \<times> sender \<times> ('e error + unit)) option" where
  "sender_send_finish p w s = sender_send settle_not_aborted p w (sender_offer_finish s)"

definition sender_send_abort ::
  "('w, 'e) port \<Rightarrow> 'w \<Rightarrow> sender \<Rightarrow> ('w \<times> sender \<times> ('e error + unit)) option" where
  "sender_send_abort p w s = sender_send settle_any p w (sender_offer_abort s)"

section \<open>Invariant\<close>

text \<open>
  A flight exists exactly in the three busy states, it waits exactly in \<open>WaitingAck\<close>, bytes are
  left to write only while \<open>Sending\<close> and they are a tail of the frame of the flight, the retry
  counter never exceeds the policy, and the flight carries the sender's own sequence number.
\<close>

definition flight_wf :: "sender \<Rightarrow> in_flight \<Rightarrow> bool" where
  "flight_wf s fl =
     (s_state s \<in> {TxSending, TxWaitingAck, TxRetrying} \<and>
      (fl_waiting fl \<longleftrightarrow> s_state s = TxWaitingAck) \<and>
      (\<not> ob_is_idle (s_out s) \<longrightarrow> s_state s = TxSending \<and>
         ob_buf (s_out s) = to_bytes (flight_frame (fl_kind fl) (fl_seq fl))) \<and>
      fl_retries_left fl \<le> max_retries (s_policy s) \<and>
      fl_seq fl = s_seq s \<and> (fl_kind fl \<in> {FStart, FAbort} \<longrightarrow> s_seq s = 0))"

definition sender_wf :: "sender \<Rightarrow> bool" where
  "sender_wf s =
     (ob_wf (s_out s) \<and> asm_wf (s_assembler s) \<and>
      (case s_inflight s of
         None \<Rightarrow> ob_is_idle (s_out s) \<and> s_state s \<in> {TxIdle, TxFinished, TxAborted, TxFailed}
       | Some fl \<Rightarrow> flight_wf s fl))"

lemma sender_wf_None: "sender_wf s \<Longrightarrow> s_inflight s = None \<Longrightarrow>
    ob_is_idle (s_out s) \<and> s_state s \<in> {TxIdle, TxFinished, TxAborted, TxFailed}"
  by (simp add: sender_wf_def)

lemma sender_wf_with_policy [simp]: "sender_wf (sender_with_policy pol)"
  by (simp add: sender_wf_def sender_with_policy_def)

lemma sender_wf_begin:
  assumes "ob_wf (s_out s)" and "ob_is_idle (s_out s)" and "asm_wf (s_assembler s)"
    and "seq = s_seq s" and "kind \<in> {FStart, FAbort} \<longrightarrow> seq = 0"
  shows "sender_wf (sender_begin kind seq s)"
  using assms by (auto simp: sender_wf_def sender_begin_def flight_wf_def)

lemma sender_wf_force_abort [simp]: "sender_wf s \<Longrightarrow> sender_wf (sender_force_abort s)"
  by (simp add: sender_wf_def sender_force_abort_def)

lemma sender_wf_offer_start: "sender_wf s \<Longrightarrow> sender_wf (fst (sender_offer_start s))"
  by (auto simp: sender_offer_start_def seq_new_def sender_wf_def [of s]
      intro!: sender_wf_begin)

lemma sender_wf_offer: "sender_wf s \<Longrightarrow> sender_wf (fst (sender_offer b s))"
  by (auto simp: sender_offer_def sender_can_offer_data_def seq_current_def sender_wf_def [of s]
      intro!: sender_wf_begin)

lemma sender_wf_offer_finish: "sender_wf s \<Longrightarrow> sender_wf (fst (sender_offer_finish s))"
  by (auto simp: sender_offer_finish_def sender_can_offer_data_def seq_current_def
      sender_wf_def [of s] intro!: sender_wf_begin)

lemma sender_wf_offer_abort: "sender_wf s \<Longrightarrow> sender_wf (fst (sender_offer_abort s))"
  by (auto simp: sender_offer_abort_def seq_new_def sender_wf_def [of s] intro!: sender_wf_begin)

lemma word_dec_le: "x \<noteq> 0 \<Longrightarrow> x \<le> m \<Longrightarrow> x - 1 \<le> m" for x :: u8
  by (simp add: word_le_nat_alt unat_minus_one)

lemma sender_wf_attempt_failed:
  assumes "sender_wf s" and "ob_is_idle (s_out s)"
  shows "sender_wf (fst (sender_on_attempt_failed s))"
  using assms
  by (auto simp: sender_wf_def sender_on_attempt_failed_def flight_wf_def word_dec_le
      split: option.splits)

lemma sender_wf_on_ack:
  assumes "sender_wf s" and "ob_is_idle (s_out s)"
  shows "sender_wf (fst (sender_on_ack s))"
  using assms by (auto simp: sender_wf_def sender_on_ack_def Let_def split: option.splits flight_kind.splits)

lemma sender_wf_mark [simp]: "sender_wf (s\<lparr>s_mark := m\<rparr>) = sender_wf s"
  by (simp add: sender_wf_def flight_wf_def split: option.splits)

lemma sender_wf_ticks:
  "sender_wf s \<Longrightarrow> s_inflight s = Some fl \<Longrightarrow> sender_wf (s\<lparr>s_inflight := Some (fl\<lparr>fl_empty_ticks := n\<rparr>)\<rparr>)"
  by (auto simp: sender_wf_def flight_wf_def)

lemma sender_wf_assembler:
  "sender_wf s \<Longrightarrow> asm_wf a \<Longrightarrow> sender_wf (s\<lparr>s_assembler := a\<rparr>)"
  by (auto simp: sender_wf_def flight_wf_def split: option.splits)

lemma sender_inflight_same [simp]: "s_inflight s = x \<Longrightarrow> s\<lparr>s_inflight := x\<rparr> = s"
  by (cases s) simp

lemma sender_state_same [simp]: "s_state s = x \<Longrightarrow> s\<lparr>s_state := x\<rparr> = s"
  by (cases s) simp

lemma sender_wf_on_control:
  assumes "sender_wf s" and "ob_is_idle (s_out s)"
  shows "sender_wf (fst (sender_on_control f s))"
proof -
  have "sender_wf (s\<lparr>s_inflight := map_option (\<lambda>fl. fl\<lparr>fl_empty_ticks := 0\<rparr>) (s_inflight s)\<rparr>)"
    using assms(1) sender_wf_ticks [OF assms(1)] by (cases "s_inflight s") auto
  then show ?thesis using assms
    by (auto simp: sender_on_control_def Let_def intro: sender_wf_on_ack sender_wf_attempt_failed)
qed

lemma sender_wf_read:
  assumes "sender_wf s" and "ob_is_idle (s_out s)"
  shows "sender_wf (fst (snd (sender_read p w s)))"
proof -
  have a: "asm_wf a" if "asm_push b (s_assembler s) = (a, r)" for a b r
    using asm_push_wf [of "s_assembler s" b] assms(1) that by (simp add: sender_wf_def)
  have t: "sender_wf (s\<lparr>s_inflight := Some (fl\<lparr>fl_empty_ticks := n\<rparr>)\<rparr>)"
    if "s_inflight s = Some fl" for fl n
    using assms(1) that by (rule sender_wf_ticks)
  show ?thesis using assms
    by (auto simp: sender_read_def Let_def split: prod.splits sum.splits option.splits
        intro!: sender_wf_attempt_failed sender_wf_on_control sender_wf_assembler t dest: a)
qed

lemma sender_wf_frame_written:
  assumes "ob_wf (s_out s)" and "ob_is_idle (s_out s)" and "asm_wf (s_assembler s)"
    and "s_inflight s = Some fl" and "fl_retries_left fl \<le> max_retries (s_policy s)"
    and "fl_seq fl = s_seq s" and "fl_kind fl \<in> {FStart, FAbort} \<longrightarrow> s_seq s = 0"
  shows "sender_wf (sender_frame_written s)"
  using assms by (simp add: sender_wf_def sender_frame_written_def flight_wf_def)

text \<open>The two places of \<open>poll\<close> that write: a frame in progress and a frame just loaded.\<close>

lemma sender_wf_write:
  assumes "ob_wf (s_out s)" and "\<not> ob_is_idle (s_out s)" and "asm_wf (s_assembler s)"
    and "s_inflight s = Some fl" and "flight_wf s fl" and "s_state s = TxSending"
    and "sender_pump_out p w s = (w', s', r)"
  shows "case r of Inl _ \<Rightarrow> sender_wf s'
    | Inr done \<Rightarrow> if done then sender_wf (sender_frame_written s') else sender_wf s'"
proof -
  obtain out' where op: "out_pump p w (s_out s) = (w', out', r)" and s': "s' = s\<lparr>s_out := out'\<rparr>"
    using assms(7) by (auto simp: sender_pump_out_def split: prod.splits)
  note rest = out_pump_rest [OF assms(1) op] and buf = out_pump_buf [OF op]
  have nw: "\<not> fl_waiting fl" using assms(5,6) by (simp add: flight_wf_def)
  show ?thesis
  proof (cases r)
    case (Inl e)
    then show ?thesis using rest assms s' by (auto simp: sender_wf_def flight_wf_def)
  next
    case (Inr d)
    show ?thesis
    proof (cases d)
      case True
      then show ?thesis using Inr rest assms s' sender_wf_frame_written [of s' fl]
        by (auto simp: flight_wf_def)
    next
      case False
      then show ?thesis using Inr rest assms s' buf nw by (auto simp: sender_wf_def flight_wf_def)
    qed
  qed
qed

lemma sender_wf_poll:
  assumes "sender_wf s"
  shows "sender_wf (fst (snd (sender_poll p w s)))"
proof -
  let ?s = "s\<lparr>s_mark := io_mark_default\<rparr>"
  have wf: "sender_wf ?s" using assms by simp
  show ?thesis
  proof (cases "ob_is_idle (s_out s)")
    case False
    then obtain fl where fl: "s_inflight s = Some fl"
      using sender_wf_None [OF assms] by (cases "s_inflight s") auto
    then have st: "flight_wf ?s fl" "s_state s = TxSending"
      using wf False by (auto simp: sender_wf_def flight_wf_def)
    obtain w' s' r where pp: "sender_pump_out p w ?s = (w', s', r)"
      by (cases "sender_pump_out p w ?s") auto
    have same: "s'\<lparr>s_state := TxSending\<rparr> = s'"
      using pp st(2) by (auto simp: sender_pump_out_def split: prod.splits)
    have o: "ob_wf (s_out s)" "asm_wf (s_assembler s)"
      using assms by (auto simp: sender_wf_def)
    show ?thesis
      using sender_wf_write [of ?s fl p w w' s' r] wf False fl st pp o
      by (cases r) (auto simp: sender_poll_def Let_def sender_wf_def [of ?s] same)
  next
    case True
    show ?thesis
    proof (cases "s_inflight s")
      case None
      then show ?thesis using True wf by (auto simp: sender_poll_def Let_def)
    next
      case (Some fl)
      show ?thesis
      proof (cases "fl_waiting fl")
        case True
        then show ?thesis using Some wf \<open>ob_is_idle (s_out s)\<close> sender_wf_read [OF wf]
          by (auto simp: sender_poll_def Let_def)
      next
        case False
        let ?l = "sender_load_flight_frame ?s"
        have l: "ob_wf (s_out ?l)" "\<not> ob_is_idle (s_out ?l)" "asm_wf (s_assembler ?l)"
          "s_inflight ?l = Some fl" "s_state ?l = TxSending"
          using Some wf by (auto simp: sender_load_flight_frame_def sender_wf_def)
        moreover have "flight_wf ?l fl"
          using Some wf False by (auto simp: sender_load_flight_frame_def sender_wf_def flight_wf_def ob_load_def)
        ultimately show ?thesis
          using Some wf True False sender_wf_write [of ?l fl p w]
          by (auto simp: sender_poll_def Let_def split: prod.splits sum.splits if_splits)
      qed
    qed
  qed
qed

section \<open>Reachable senders\<close>

inductive sender_reachable :: "retry_policy \<Rightarrow> ('w, 'e) port \<Rightarrow> sender \<Rightarrow> bool" for pol p where
  reach_new: "sender_reachable pol p (sender_with_policy pol)"
| reach_start: "sender_reachable pol p s \<Longrightarrow>
    sender_offer_start s = (s', r :: 'e error + unit) \<Longrightarrow> sender_reachable pol p s'"
| reach_offer: "sender_reachable pol p s \<Longrightarrow>
    sender_offer b s = (s', r :: 'e error + unit) \<Longrightarrow> sender_reachable pol p s'"
| reach_finish: "sender_reachable pol p s \<Longrightarrow>
    sender_offer_finish s = (s', r :: 'e error + unit) \<Longrightarrow> sender_reachable pol p s'"
| reach_abort: "sender_reachable pol p s \<Longrightarrow>
    sender_offer_abort s = (s', r :: 'e error + unit) \<Longrightarrow> sender_reachable pol p s'"
| reach_force: "sender_reachable pol p s \<Longrightarrow> sender_reachable pol p (sender_force_abort s)"
| reach_poll: "sender_reachable pol p s \<Longrightarrow> sender_poll p w s = (w', s', r) \<Longrightarrow>
    sender_reachable pol p s'"

lemma fst_eqI: "f x = (y, z) \<Longrightarrow> P (fst (f x)) \<Longrightarrow> P y"
  by simp

text \<open>
  Whatever the caller offers and whatever the transport answers, a reachable sender has a
  flight exactly in the busy states, waits for an answer exactly in \<open>WaitingAck\<close>, has bytes left
  to write only in \<open>Sending\<close> and only of the frame of its flight, and never holds more retries
  than its policy grants.
\<close>

theorem sender_reachable_wf:
  assumes "sender_reachable pol p s"
  shows "sender_wf s"
  using assms
proof (induction rule: sender_reachable.induct)
  case reach_new
  show ?case by simp
next
  case (reach_start s s' r)
  then show ?case using sender_wf_offer_start [of s, where ?'a = 'b] by (metis fst_conv)
next
  case (reach_offer s b s' r)
  then show ?case using sender_wf_offer [of s b, where ?'a = 'b] by (metis fst_conv)
next
  case (reach_finish s s' r)
  then show ?case using sender_wf_offer_finish [of s, where ?'a = 'b] by (metis fst_conv)
next
  case (reach_abort s s' r)
  then show ?case using sender_wf_offer_abort [of s, where ?'a = 'b] by (metis fst_conv)
next
  case (reach_force s)
  then show ?case by simp
next
  case (reach_poll s w w' s' r)
  then show ?case using sender_wf_poll [of s p w] by simp
qed

theorem sender_reachable_wf_witness:
  "sender_wf (fst (snd (sender_poll mock_port (mock_with_incoming [])
     (fst (sender_offer 7 sender_new :: sender \<times> (mock_full error + unit))))))"
proof (rule sender_reachable_wf [where pol = retry_policy_default and p = mock_port])
  have "sender_reachable retry_policy_default mock_port
      (fst (sender_offer 7 sender_new :: sender \<times> (mock_full error + unit)))"
    by (rule sender_reachable.reach_offer [OF sender_reachable.reach_new, where b = 7
          and r = "snd (sender_offer 7 sender_new :: sender \<times> (mock_full error + unit))"])
      (simp add: sender_new_def)
  then show "sender_reachable retry_policy_default mock_port (fst (snd (sender_poll mock_port
      (mock_with_incoming []) (fst (sender_offer 7 sender_new :: sender \<times> (mock_full error + unit))))))"
    by (metis sender_reachable.reach_poll prod.collapse)
qed

section \<open>What moves the sequence number\<close>

lemma from_bytes_ok: "from_bytes bs = Inr f \<Longrightarrow> frame_ok f"
  by (auto simp: from_bytes_def frame_ok_def raw_frame_def Let_def split: option.splits if_splits)

lemma asm_push_ok: "asm_push b a = (a', Some (Inr f)) \<Longrightarrow> frame_ok f"
  by (auto simp: asm_push_def Let_def split: if_splits dest: from_bytes_ok)

lemma ok_ack_frame: "frame_ok f \<Longrightarrow> fr_type f = Ack \<Longrightarrow> f = ack_frame (fr_seq f)"
  by (simp add: frame_ok_def semantics_ok_def is_control_def frame_defs split: if_splits)

lemma attempt_failed_not_acked [simp]: "sender_on_attempt_failed s = (s', Inr PollAcked) \<longleftrightarrow> False"
  by (auto simp: sender_on_attempt_failed_def split: option.splits)

lemma sender_on_control_acked:
  assumes "frame_ok f" and "sender_on_control f s = (s', Inr PollAcked)"
  shows "\<exists>fl d. s_inflight s = Some fl \<and> fl_kind fl = FData d \<and> f = ack_frame (fl_seq fl) \<and>
    s' = s\<lparr>s_inflight := None, s_seq := s_seq s + 1, s_state := TxIdle\<rparr>"
  using assms ok_ack_frame [OF assms(1)]
  by (auto simp: sender_on_control_def sender_on_ack_def seq_advance_def Let_def
      split: if_splits option.splits flight_kind.splits)

lemma sender_read_acked:
  assumes "sender_read p w s = (w', s', Inr PollAcked)"
  shows "\<exists>b a fl d. s_inflight s = Some fl \<and> fl_kind fl = FData d \<and>
    read_byte p w = (w', Inr (Some b)) \<and>
    asm_push b (s_assembler s) = (a, Some (Inr (ack_frame (fl_seq fl)))) \<and>
    s' = s\<lparr>s_assembler := a, s_inflight := None, s_seq := s_seq s + 1, s_state := TxIdle\<rparr>"
  using assms
  by (fastforce simp: sender_read_def Let_def dest: asm_push_ok sender_on_control_acked
      split: prod.splits sum.splits option.splits if_splits)

lemma sender_poll_acked:
  assumes "sender_poll p w s = (w', s', Inr PollAcked)"
  shows "sender_read p w (s\<lparr>s_mark := io_mark_default\<rparr>) = (w', s', Inr PollAcked)"
  using assms
  by (auto simp: sender_poll_def Let_def split: prod.splits sum.splits option.splits if_splits)

text \<open>
  A poll reports a byte as acknowledged only when the flight is that byte and the transport
  has just delivered the last byte of the valid frame ACK(current sequence); the sender is then
  idle and its sequence number one further (mod 256).  No other frame completes a byte.
\<close>

theorem sender_acked:
  assumes "sender_wf s" and "sender_poll p w s = (w', s', Inr PollAcked)"
  shows "\<exists>b a fl d. s_inflight s = Some fl \<and> fl_kind fl = FData d \<and> fl_waiting fl \<and>
      read_byte p w = (w', Inr (Some b)) \<and>
      asm_push b (s_assembler s) = (a, Some (Inr (ack_frame (sender_next_seq s)))) \<and>
      sender_next_seq s' = sender_next_seq s + 1 \<and> s_state s' = TxIdle \<and> s_inflight s' = None"
proof -
  obtain b a fl d where *: "s_inflight s = Some fl" "fl_kind fl = FData d"
      "read_byte p w = (w', Inr (Some b))"
      "asm_push b (s_assembler s) = (a, Some (Inr (ack_frame (fl_seq fl))))"
      "s' = s\<lparr>s_mark := io_mark_default, s_assembler := a, s_inflight := None,
         s_seq := s_seq s + 1, s_state := TxIdle\<rparr>"
    using sender_read_acked [OF sender_poll_acked [OF assms(2)]] by auto
  have "fl_seq fl = s_seq s" using assms(1) * by (simp add: sender_wf_def flight_wf_def)
  moreover have "fl_waiting fl"
    using assms(2) * by (auto simp: sender_poll_def Let_def split: prod.splits sum.splits if_splits)
  ultimately show ?thesis using * by (auto simp: sender_next_seq_def seq_current_def)
qed

theorem sender_acked_witness:
  "case sender_poll mock_port (mock_with_incoming [0xd6])
      (sender_frame_written (sender_begin (FData 7) 0 sender_new)
        \<lparr>s_assembler := \<lparr>as_buf = [2, 0, 0, 0], as_last = [0, 0, 0, 0], as_filled = 3, as_resync = False\<rparr>\<rparr>)
    of (w', s', r) \<Rightarrow> r = (Inr PollAcked :: mock_full error + tx_poll) \<and> sender_next_seq s' = 0 + 1 \<and>
      s_state s' = TxIdle"
proof -
  let ?s = "sender_frame_written (sender_begin (FData 7) 0 sender_new)
    \<lparr>s_assembler := \<lparr>as_buf = [2, 0, 0, 0], as_last = [0, 0, 0, 0], as_filled = 3, as_resync = False\<rparr>\<rparr>"
  have wf: "sender_wf ?s"
    by (simp add: sender_wf_def sender_frame_written_def sender_begin_def sender_new_def flight_wf_def
        sender_with_policy_def seq_new_def asm_wf_def FRAME_LEN_def)
  have push: "asm_push 0xd6 (s_assembler ?s) = (\<lparr>as_buf = [2, 0, 0, 0xd6], as_last = [2, 0, 0, 0xd6],
      as_filled = 0, as_resync = False\<rparr>, Some (Inr (ack_frame 0)))"
    by (simp add: asm_push_def FRAME_LEN_def from_bytes_def from_u8_def crc8_header_def crc_eval
        semantics_ok_def is_control_def frame_defs Let_def)
  have read: "read_byte mock_port (mock_with_incoming [0xd6]) =
      ((mock_with_incoming [0xd6])\<lparr>mk_incoming_pos := 1\<rparr>, Inr (Some 0xd6))"
    by (simp add: mock_port_def mock_with_incoming_def Let_def MOCK_CAP_def)
  obtain w' s' where p: "sender_poll mock_port (mock_with_incoming [0xd6]) ?s = (w', s', Inr PollAcked)"
    using push by (auto simp: sender_poll_def sender_read_def read sender_on_control_def sender_on_ack_def
        sender_frame_written_def sender_begin_def sender_new_def sender_with_policy_def Let_def)
  have "sender_next_seq ?s = 0"
    by (simp add: sender_next_seq_def sender_frame_written_def sender_begin_def sender_new_def
        sender_with_policy_def seq_defs)
  then show ?thesis using sender_acked [OF wf p] p by auto
qed

section \<open>Retransmissions are bounded\<close>

text \<open>Frames a flight may still put on the wire, and \<open>n\<close> polls counting the frames written.\<close>

definition frames_left :: "sender \<Rightarrow> nat" where
  "frames_left s =
     (case s_inflight s of
        None \<Rightarrow> 0
      | Some fl \<Rightarrow> unat (fl_retries_left fl) + (if fl_waiting fl then 0 else 1))"

fun sender_polls :: "('w, 'e) port \<Rightarrow> nat \<Rightarrow> 'w \<Rightarrow> sender \<Rightarrow> 'w \<times> sender \<times> nat" where
  "sender_polls p 0 w s = (w, s, 0)"
| "sender_polls p (Suc n) w s =
     (case sender_poll p w s of (w', s', _) \<Rightarrow>
        case sender_polls p n w' s' of (w'', s'', k) \<Rightarrow>
          (w'', s'', k + (if im_frame_on_wire (s_mark s') then 1 else 0)))"

lemma unat_dec: "x \<noteq> 0 \<Longrightarrow> Suc (unat (x - 1)) = unat x" for x :: "'a::len word"
  using unat_minus_one [of x] unat_gt_0 [of x] by simp

lemma frames_left_attempt_failed:
  "frames_left (fst (sender_on_attempt_failed s)) \<le> frames_left s \<and>
   im_frame_on_wire (s_mark (fst (sender_on_attempt_failed s))) = im_frame_on_wire (s_mark s)"
  if "\<And>fl. s_inflight s = Some fl \<Longrightarrow> fl_waiting fl"
  using that by (auto simp: sender_on_attempt_failed_def frames_left_def unat_dec split: option.splits)

lemma frames_left_on_control:
  assumes "\<And>fl. s_inflight s = Some fl \<Longrightarrow> fl_waiting fl"
  shows "frames_left (fst (sender_on_control f s)) \<le> frames_left s \<and>
    im_frame_on_wire (s_mark (fst (sender_on_control f s))) = im_frame_on_wire (s_mark s)"
proof -
  have m: "frames_left (s\<lparr>s_mark := m\<rparr>) = frames_left s" for m
    by (simp add: frames_left_def)
  show ?thesis
    using assms frames_left_attempt_failed [of "s\<lparr>s_mark := (s_mark s)\<lparr>im_nack := True\<rparr>\<rparr>"]
    by (auto simp: sender_on_control_def Let_def m)
      (auto simp: frames_left_def sender_force_abort_def sender_on_ack_def Let_def
        split: option.splits flight_kind.splits)
qed

lemma frames_left_read:
  fixes p :: "('w, 'e) port"
  assumes "\<And>fl. s_inflight s = Some fl \<Longrightarrow> fl_waiting fl" and "sender_read p w s = (w', s', r)"
  shows "frames_left s' \<le> frames_left s \<and> im_frame_on_wire (s_mark s') = im_frame_on_wire (s_mark s)"
proof -
  have u: "frames_left (s\<lparr>s_assembler := a\<rparr>) = frames_left s"
    "s_inflight s = Some fl \<Longrightarrow> frames_left (s\<lparr>s_inflight := Some (fl\<lparr>fl_empty_ticks := n\<rparr>)\<rparr>) = frames_left s"
    for a fl n by (simp_all add: frames_left_def)
  have c: "frames_left (fst (sender_on_control f (s\<lparr>s_assembler := a\<rparr>) :: sender \<times> ('e error + tx_poll))) \<le> frames_left s \<and>
    im_frame_on_wire (s_mark (fst (sender_on_control f (s\<lparr>s_assembler := a\<rparr>) :: sender \<times> ('e error + tx_poll)))) = im_frame_on_wire (s_mark s)"
    for f a using frames_left_on_control [of "s\<lparr>s_assembler := a\<rparr>" f] assms(1) u by auto
  have t: "frames_left (fst (sender_on_attempt_failed (s\<lparr>s_inflight := Some (fl\<lparr>fl_empty_ticks := n\<rparr>)\<rparr>)
        :: sender \<times> ('e error + tx_poll)))
      \<le> frames_left s \<and> im_frame_on_wire (s_mark (fst (sender_on_attempt_failed
      (s\<lparr>s_inflight := Some (fl\<lparr>fl_empty_ticks := n\<rparr>)\<rparr>) :: sender \<times> ('e error + tx_poll)))) = im_frame_on_wire (s_mark s)"
    if "s_inflight s = Some fl" for fl n
    using frames_left_attempt_failed [of "s\<lparr>s_inflight := Some (fl\<lparr>fl_empty_ticks := n\<rparr>)\<rparr>"]
      assms(1) [OF that] u(2) [OF that] by simp
  show ?thesis
  proof (cases "snd (read_byte p w)")
    case (Inl e)
    then show ?thesis using assms(2) by (auto simp: sender_read_def split: prod.splits)
  next
    case (Inr r0)
    show ?thesis
    proof (cases r0)
      case None
      then obtain w1 where rb: "read_byte p w = (w1, Inr None)"
        using Inr by (cases "read_byte p w") auto
      show ?thesis
      proof (cases "s_inflight s")
        case None
        then show ?thesis using assms(2) rb by (simp add: sender_read_def)
      next
        case (Some fl)
        let ?n = "sat_inc (fl_empty_ticks fl)"
        show ?thesis using assms(2) rb Some t [OF Some, of ?n] u(2) [OF Some, of ?n]
          by (cases "sender_on_attempt_failed (s\<lparr>s_inflight := Some (fl\<lparr>fl_empty_ticks := ?n\<rparr>)\<rparr>)")
            (auto simp: sender_read_def Let_def split: if_splits)
      qed
    next
      case (Some b)
      obtain w1 where rb: "read_byte p w = (w1, Inr (Some b))"
        using Inr Some by (cases "read_byte p w") auto
      obtain a q where ap: "asm_push b (s_assembler s) = (a, q)" by fastforce
      show ?thesis
      proof (cases "\<exists>f. q = Some (Inr f)")
        case True
        then obtain f where "q = Some (Inr f)" ..
        then show ?thesis using assms(2) rb ap c [of f a]
          by (cases "sender_on_control f (s\<lparr>s_assembler := a\<rparr>)") (simp add: sender_read_def)
      next
        case False
        then show ?thesis using assms(2) rb ap u
          by (cases q) (auto simp: sender_read_def split: sum.splits)
      qed
    qed
  qed
qed

lemma pump_out_fields: "sender_pump_out p w s = (w', s', r) \<Longrightarrow>
    s_inflight s' = s_inflight s \<and> s_mark s' = s_mark s \<and> s_policy s' = s_policy s \<and>
    s_seq s' = s_seq s \<and> s_state s' = s_state s \<and> s_assembler s' = s_assembler s"
  by (auto simp: sender_pump_out_def split: prod.splits)

lemma frames_left_poll:
  assumes "sender_wf s" and "sender_poll p w s = (w', s', r)"
  shows "frames_left s' + (if im_frame_on_wire (s_mark s') then 1 else 0) \<le> frames_left s"
proof -
  let ?s = "s\<lparr>s_mark := io_mark_default\<rparr>"
  have l: "frames_left ?s = frames_left s" by (simp add: frames_left_def)
  consider "\<not> ob_is_idle (s_out s)" | "ob_is_idle (s_out s)" "s_inflight s = None"
    | fl where "ob_is_idle (s_out s)" "s_inflight s = Some fl" by fastforce
  then show ?thesis
  proof cases
    case 1
    then obtain fl where fl: "s_inflight s = Some fl" "\<not> fl_waiting fl" "s_state s = TxSending"
      using assms(1) by (auto simp: sender_wf_def flight_wf_def split: option.splits)
    show ?thesis using assms(2) 1 fl
      by (auto simp: sender_poll_def Let_def frames_left_def sender_frame_written_def io_mark_default_def
          split: prod.splits sum.splits if_splits dest!: pump_out_fields)
  next
    case 2
    then show ?thesis using assms(2)
      by (auto simp: sender_poll_def Let_def frames_left_def io_mark_default_def split: if_splits)
  next
    case 3
    then have st: "s_state s \<in> {TxSending, TxWaitingAck, TxRetrying}"
      using assms(1) by (auto simp: sender_wf_def flight_wf_def)
    show ?thesis
    proof (cases "fl_waiting fl")
      case True
      then have "sender_read p w ?s = (w', s', r)"
        using assms(2) 3 st by (auto simp: sender_poll_def Let_def)
      then show ?thesis using frames_left_read [of ?s p w w' s' r] 3 True l
        by (auto simp: io_mark_default_def)
    next
      case False
      then show ?thesis using assms(2) 3 st
        by (auto simp: sender_poll_def Let_def frames_left_def sender_frame_written_def io_mark_default_def
            sender_load_flight_frame_def split: prod.splits sum.splits if_splits dest!: pump_out_fields)
    qed
  qed
qed

lemma frames_left_polls:
  assumes "sender_wf s" and "sender_polls p n w s = (w', s', k)"
  shows "frames_left s' + k \<le> frames_left s"
  using assms
proof (induction n arbitrary: w s w' s' k)
  case 0
  then show ?case by simp
next
  case (Suc n)
  obtain w1 s1 r where p1: "sender_poll p w s = (w1, s1, r)" by (cases "sender_poll p w s") auto
  obtain w2 s2 k2 where p2: "sender_polls p n w1 s1 = (w2, s2, k2)"
    by (cases "sender_polls p n w1 s1") auto
  have "sender_wf s1" using sender_wf_poll [OF Suc.prems(1), of p w] p1 by simp
  then have "frames_left s2 + k2 \<le> frames_left s1" using p2 by (rule Suc.IH)
  then show ?case using frames_left_poll [OF Suc.prems(1) p1] Suc.prems(2) p1 p2 by auto
qed

text \<open>
  However the transport behaves (errors, any bytes, silence) and however long the caller
  polls, one accepted byte puts at most \<open>max_retries + 1\<close> frames on the wire.
\<close>

theorem retransmissions_bounded:
  assumes "sender_wf s" and "sender_offer d s = (s1, Inr () :: 'e error + unit)"
    and "sender_polls p n w s1 = (w', s', k)"
  shows "k \<le> unat (max_retries (s_policy s)) + 1"
proof -
  have "sender_wf s1" using sender_wf_offer [OF assms(1), of d] assms(2) by (metis fst_conv)
  moreover have "frames_left s1 = unat (max_retries (s_policy s)) + 1"
    using assms(2) by (auto simp: sender_offer_def sender_begin_def frames_left_def split: if_splits)
  ultimately show ?thesis using frames_left_polls [of s1 p n w w' s' k] assms(3) by simp
qed

theorem retransmissions_bounded_witness:
  "snd (snd (sender_polls mock_port 100 (mock_with_incoming [3, 0, 0, 9])
      (sender_begin (FData 7) 0 (sender_with_policy (retry_policy_new 2 3))))) \<le> 3 + 1"
proof -
  obtain w' s' k where k: "sender_polls mock_port 100 (mock_with_incoming [3, 0, 0, 9])
      (sender_begin (FData 7) 0 (sender_with_policy (retry_policy_new 2 3))) = (w', s', k)"
    by (cases "sender_polls mock_port 100 (mock_with_incoming [3, 0, 0, 9])
      (sender_begin (FData 7) 0 (sender_with_policy (retry_policy_new 2 3)))") auto
  have "k \<le> unat (max_retries (s_policy (sender_with_policy (retry_policy_new 2 3)))) + 1"
    by (rule retransmissions_bounded [where d = 7 and p = mock_port, OF sender_wf_with_policy _ k])
      (simp add: sender_offer_def sender_can_offer_data_def sender_with_policy_def seq_defs)
  then show ?thesis using k by (simp add: sender_with_policy_def retry_policy_new_def)
qed

section \<open>A silent peer\<close>

lemma await_step:
  "sender_poll p w s = (w', s', Inr PollPending) \<Longrightarrow> sender_await p w s = sender_await p w' s'"
  by (subst sender_await.simps) simp

lemma await_stop:
  "sender_poll p w s = (w', s', r) \<Longrightarrow> r \<noteq> Inr PollPending \<Longrightarrow> sender_await p w s = Some (w', s', r)"
  by (subst sender_await.simps) simp

lemma sender_poll_load:
  assumes "sender_wf s" and "s_inflight s = Some fl" and "\<not> fl_waiting fl" and "ob_is_idle (s_out s)"
  shows "sender_poll p w s = sender_poll p w (sender_load_flight_frame s)"
proof -
  have "s_state s \<in> {TxSending, TxRetrying}"
    using assms by (auto simp: sender_wf_def flight_wf_def)
  moreover have "ob_is_idle (ob_load f out) = False" for f out
    by (simp add: ob_is_idle_def ob_load_def FRAME_LEN_def)
  ultimately show ?thesis using assms
    by (auto simp: sender_poll_def sender_load_flight_frame_def sender_pump_out_def Let_def
        sender_frame_written_def split: prod.splits sum.splits)
qed

lemma asm_reset_idem [simp]: "asm_reset (asm_reset a) = asm_reset a"
  by (simp add: asm_reset_def)

context byte_link
begin

lemma poll_write:
  assumes "ok w" and "0 < room w" and "sender_wf s" and "s_inflight s = Some fl"
    and "ob_rest (s_out s) = b # bs"
  shows "\<exists>w' s'. sender_poll p w s = (w', s', Inr PollPending) \<and> ok w' \<and>
    sent w' = sent w @ [b] \<and> avail w' = avail w \<and> Suc (room w') = room w \<and> sender_wf s' \<and>
    ob_rest (s_out s') = bs \<and> s_policy s' = s_policy s \<and>
    s_assembler s' = (if bs = [] then asm_reset (s_assembler s) else s_assembler s) \<and>
    s_seq s' = s_seq s \<and> s_inflight s' =
      Some (if bs = [] then fl\<lparr>fl_waiting := True, fl_empty_ticks := 0\<rparr> else fl)"
proof -
  have o: "ob_wf (s_out s)" using assms(3) by (simp add: sender_wf_def)
  have st: "s_state s = TxSending"
    using assms o by (auto simp: sender_wf_def flight_wf_def ob_idle_rest)
  obtain w' where w': "out_pump p w (s_out s) = (w', ob_commit (s_out s), Inr (bs = []))" "ok w'"
      "sent w' = sent w @ [b]" "avail w' = avail w" "Suc (room w') = room w"
    using out_pump_link [OF assms(1,2) o assms(5)] by auto
  obtain s' where s': "sender_poll p w s = (w', s', Inr PollPending)"
      "s' = (let s1 = s\<lparr>s_mark := io_mark_default, s_out := ob_commit (s_out s)\<rparr>
             in if bs = [] then sender_frame_written s1 else s1)"
    using w'(1) st assms(5) o
    by (auto simp: sender_poll_def sender_pump_out_def ob_idle_rest Let_def)
  have "sender_wf s'" using sender_wf_poll [OF assms(3), of p w] s'(1) by simp
  with w' s' show ?thesis using assms(4,5) ob_commit_rest [OF o]
    by (auto simp: sender_frame_written_def Let_def)
qed

lemma write_phase:
  assumes "ok w" and "avail w = av" and "length bs \<le> room w" and "sender_wf s"
    and "s_inflight s = Some fl" and "ob_rest (s_out s) = bs" and "bs \<noteq> []"
  shows "\<exists>w' s'. sender_await p w s = sender_await p w' s' \<and> ok w' \<and> avail w' = av \<and>
    sent w' = sent w @ bs \<and> room w' + length bs = room w \<and> sender_wf s' \<and>
    ob_rest (s_out s') = [] \<and> s_policy s' = s_policy s \<and>
    s_assembler s' = asm_reset (s_assembler s) \<and> s_seq s' = s_seq s \<and>
    s_inflight s' = Some (fl\<lparr>fl_waiting := True, fl_empty_ticks := 0\<rparr>)"
  using assms
proof (induction bs arbitrary: w s)
  case Nil
  then show ?case by simp
next
  case (Cons b bs)
  obtain w1 s1 where 1: "sender_poll p w s = (w1, s1, Inr PollPending)" "ok w1"
      "sent w1 = sent w @ [b]" "avail w1 = av" "Suc (room w1) = room w" "sender_wf s1"
      "ob_rest (s_out s1) = bs" "s_policy s1 = s_policy s" "s_seq s1 = s_seq s"
      "s_assembler s1 = (if bs = [] then asm_reset (s_assembler s) else s_assembler s)"
      "s_inflight s1 = Some (if bs = [] then fl\<lparr>fl_waiting := True, fl_empty_ticks := 0\<rparr> else fl)"
    using poll_write [of w s fl b bs] Cons.prems by auto
  note step = await_step [OF 1(1)]
  show ?case
  proof (cases "bs = []")
    case True
    then show ?thesis using 1 step by (intro exI [of _ w1] exI [of _ s1]) auto
  next
    case False
    then obtain w' s' where "sender_await p w1 s1 = sender_await p w' s'" "ok w'" "avail w' = av"
      "sent w' = sent w1 @ bs" "room w' + length bs = room w1" "sender_wf s'"
      "ob_rest (s_out s') = []" "s_policy s' = s_policy s1" "s_seq s' = s_seq s1"
      "s_assembler s' = asm_reset (s_assembler s1)"
      "s_inflight s' = Some (fl\<lparr>fl_waiting := True, fl_empty_ticks := 0\<rparr>)"
      using Cons.IH [of w1 s1] 1 Cons.prems by auto
    then show ?thesis using 1 step by (intro exI [of _ w'] exI [of _ s']) auto
  qed
qed

lemma poll_silent:
  assumes "ok w" and "avail w = []" and "sender_wf s" and "s_inflight s = Some fl"
    and "fl_waiting fl"
  shows "\<exists>w' fl'. ok w' \<and> avail w' = [] \<and> sent w' = sent w \<and> room w' = room w \<and>
    fl' = fl\<lparr>fl_empty_ticks := sat_inc (fl_empty_ticks fl)\<rparr> \<and>
    sender_poll p w s = (let s1 = s\<lparr>s_mark := io_mark_default, s_inflight := Some fl'\<rparr>
       in if fl_empty_ticks fl' \<ge> timeout_ticks (s_policy s)
          then (w', sender_on_attempt_failed s1) else (w', s1, Inr PollPending))"
proof -
  have "ob_is_idle (s_out s)" "s_state s = TxWaitingAck"
    using assms by (auto simp: sender_wf_def flight_wf_def)
  moreover obtain w' where "read_byte p w = (w', Inr None)" "ok w'" "sent w' = sent w"
      "avail w' = []" "room w' = room w"
    using read_empty [OF assms(1,2)] by auto
  ultimately show ?thesis using assms
    by (intro exI [of _ w'] exI [of _ "fl\<lparr>fl_empty_ticks := sat_inc (fl_empty_ticks fl)\<rparr>"])
      (simp add: sender_poll_def sender_read_def Let_def)
qed

lemma wait_phase:
  assumes "ok w" and "avail w = []" and "sender_wf s" and "s_inflight s = Some fl"
    and "fl_waiting fl"
  shows "\<exists>w' s'. ok w' \<and> avail w' = [] \<and> sent w' = sent w \<and> room w' = room w \<and> sender_wf s' \<and>
    s_policy s' = s_policy s \<and>
    (if fl_retries_left fl = 0
     then sender_await p w s = Some (w', s', Inl ErrRetriesExhausted) \<and> s_state s' = TxFailed
     else sender_await p w s = sender_await p w' s' \<and> ob_is_idle (s_out s') \<and> s_inflight s' =
       Some (fl\<lparr>fl_retries_left := fl_retries_left fl - 1, fl_waiting := False, fl_empty_ticks := 0\<rparr>))"
  using assms
proof (induction "unat (timeout_ticks (s_policy s)) - unat (fl_empty_ticks fl)" arbitrary: w s fl
    rule: less_induct)
  case less
  let ?fl = "fl\<lparr>fl_empty_ticks := sat_inc (fl_empty_ticks fl)\<rparr>"
  let ?s = "s\<lparr>s_mark := io_mark_default, s_inflight := Some ?fl\<rparr>"
  obtain w1 where 1: "ok w1" "avail w1 = []" "sent w1 = sent w" "room w1 = room w"
      "sender_poll p w s = (if fl_empty_ticks ?fl \<ge> timeout_ticks (s_policy s)
          then (w1, sender_on_attempt_failed ?s) else (w1, ?s, Inr PollPending))"
    using poll_silent [OF less.prems] by (auto simp: Let_def)
  have wf: "sender_wf (fst (snd (sender_poll p w s)))" by (rule sender_wf_poll) fact
  have idle: "ob_is_idle (s_out s)" using less.prems by (auto simp: sender_wf_def flight_wf_def)
  show ?case
  proof (cases "fl_empty_ticks ?fl \<ge> timeout_ticks (s_policy s)")
    case True
    show ?thesis
    proof (cases "fl_retries_left fl = 0")
      case r0: True
      then have "sender_poll p w s =
          (w1, ?s\<lparr>s_inflight := None, s_state := TxFailed\<rparr>, Inl ErrRetriesExhausted)"
        using True 1(5) by (simp add: sender_on_attempt_failed_def)
      then show ?thesis using r0 1 wf await_stop by fastforce
    next
      case False
      let ?s' = "?s\<lparr>s_inflight := Some (?fl\<lparr>fl_retries_left := fl_retries_left fl - 1,
        fl_waiting := False, fl_empty_ticks := 0\<rparr>), s_state := TxRetrying,
        s_mark := (s_mark ?s)\<lparr>im_retransmit := True\<rparr>\<rparr>"
      have p1: "sender_poll p w s = (w1, ?s', Inr PollPending)"
        using True False 1(5) by (simp add: sender_on_attempt_failed_def)
      then have "sender_wf ?s'" using wf by simp
      then show ?thesis using False 1(1-4) idle await_step [OF p1]
        by (intro exI [of _ w1] exI [of _ ?s']) simp
    qed
  next
    case False
    then have p1: "sender_poll p w s = (w1, ?s, Inr PollPending)" using 1(5) by simp
    then have wf1: "sender_wf ?s" using wf by simp
    have "fl_empty_ticks fl \<noteq> - 1" using False by (auto simp: sat_inc_def)
    then have "unat (fl_empty_ticks ?fl) = Suc (unat (fl_empty_ticks fl))"
      using unat_not_max [of "fl_empty_ticks fl"] by (simp add: sat_inc_def unat_word_ariths)
    moreover have "unat (fl_empty_ticks ?fl) < unat (timeout_ticks (s_policy s))"
      using False by (simp add: word_le_nat_alt)
    ultimately have lt: "unat (timeout_ticks (s_policy ?s)) - unat (fl_empty_ticks ?fl) <
        unat (timeout_ticks (s_policy s)) - unat (fl_empty_ticks fl)" by simp
    from less.hyps [OF lt 1(1,2) wf1] less.prems(5) show ?thesis
      using 1(3,4) await_step [OF p1] by (auto split: if_splits)
  qed
qed

lemma write_attempt:
  assumes "ok w" and "avail w = av" and "sender_wf s" and "s_inflight s = Some fl"
    and "\<not> fl_waiting fl" and "ob_is_idle (s_out s)" and "4 \<le> room w"
  shows "\<exists>w' s'. sender_await p w s = sender_await p w' s' \<and> ok w' \<and> avail w' = av \<and>
    sent w' = sent w @ to_bytes (flight_frame (fl_kind fl) (fl_seq fl)) \<and> room w' + 4 = room w \<and>
    sender_wf s' \<and> s_policy s' = s_policy s \<and>
    s_assembler s' = asm_reset (s_assembler s) \<and> s_seq s' = s_seq s \<and>
    s_inflight s' = Some (fl\<lparr>fl_waiting := True, fl_empty_ticks := 0\<rparr>)"
proof -
  let ?bs = "to_bytes (flight_frame (fl_kind fl) (fl_seq fl))"
  let ?l = "sender_load_flight_frame s"
  have "flight_wf ?l fl" and l: "ob_wf (s_out ?l)" "s_inflight ?l = Some fl" "ob_rest (s_out ?l) = ?bs"
      "asm_wf (s_assembler ?l)" "s_policy ?l = s_policy s" "s_assembler ?l = s_assembler s"
      "s_seq ?l = s_seq s"
    using assms by (auto simp: sender_load_flight_frame_def sender_wf_def flight_wf_def ob_load_def
        ob_rest_def ob_wf_def)
  then have "sender_wf ?l" by (simp add: sender_wf_def)
  moreover have "sender_await p w s = sender_await p w ?l"
    by (subst (1 2) sender_await.simps) (simp add: sender_poll_load [OF assms(3-6)])
  moreover have "length ?bs = 4" by (simp add: FRAME_LEN_def)
  moreover from this have "?bs \<noteq> []" by (metis list.size(3) zero_neq_numeral)
  ultimately show ?thesis using write_phase [where w = w and bs = ?bs and s = ?l and fl = fl and av = av] assms(1,2,7) l by auto
qed

lemma silent_flight:
  assumes "ok w" and "avail w = []" and "sender_wf s" and "s_inflight s = Some fl"
    and "\<not> fl_waiting fl" and "ob_is_idle (s_out s)" and "n = unat (fl_retries_left fl)"
    and "4 * (n + 1) \<le> room w"
  shows "\<exists>w' s'. sender_await p w s = Some (w', s', Inl ErrRetriesExhausted) \<and>
    s_state s' = TxFailed \<and> ok w' \<and> avail w' = [] \<and>
    sent w' = sent w @ concat (replicate (n + 1) (to_bytes (flight_frame (fl_kind fl) (fl_seq fl))))"
  using assms
proof (induction n arbitrary: w s fl)
  case 0
  obtain w1 s1 where 1: "sender_await p w s = sender_await p w1 s1" "ok w1" "avail w1 = []"
      "sent w1 = sent w @ to_bytes (flight_frame (fl_kind fl) (fl_seq fl))" "sender_wf s1"
      "s_inflight s1 = Some (fl\<lparr>fl_waiting := True, fl_empty_ticks := 0\<rparr>)"
    using write_attempt [OF 0(1-6)] 0(8) by auto
  have "fl_retries_left fl = 0" using 0(7) by (simp add: unat_eq_zero)
  then show ?case using wait_phase [OF 1(2,3,5,6)] 1(1,4) by auto
next
  case (Suc n)
  let ?bs = "to_bytes (flight_frame (fl_kind fl) (fl_seq fl))"
  obtain w1 s1 where 1: "sender_await p w s = sender_await p w1 s1" "ok w1" "avail w1 = []"
      "sent w1 = sent w @ ?bs" "room w1 + 4 = room w" "sender_wf s1"
      "s_inflight s1 = Some (fl\<lparr>fl_waiting := True, fl_empty_ticks := 0\<rparr>)"
    using write_attempt [OF Suc.prems(1-6)] Suc.prems(8) by auto
  have ne: "fl_retries_left fl \<noteq> 0" using Suc.prems(7) by auto
  obtain w2 s2 where 2: "sender_await p w1 s1 = sender_await p w2 s2" "ok w2" "avail w2 = []"
      "sent w2 = sent w1" "room w2 = room w1" "sender_wf s2" "ob_is_idle (s_out s2)"
      "s_inflight s2 = Some (fl\<lparr>fl_retries_left := fl_retries_left fl - 1, fl_waiting := False,
         fl_empty_ticks := 0\<rparr>)"
    using wait_phase [OF 1(2,3,6,7)] ne by auto
  have n: "n = unat (fl_retries_left fl - 1)" using Suc.prems(7) unat_dec [OF ne] by simp
  show ?case
    using Suc.IH [OF 2(2,3,6,8) _ 2(7)] n 1 2 Suc.prems(8) by auto
qed

end

text \<open>
  C7: over a link that takes every byte, against a peer that never answers, \<open>send_byte\<close> does not
  hang: it returns \<open>RetriesExhausted\<close> after putting the DATA frame on the wire exactly
  \<open>max_retries + 1\<close> times, and the sender is left in \<open>Failed\<close>.
\<close>

theorem send_byte_silent_peer:
  assumes "byte_link p sent avail room ok" and "ok w" and "avail w = []" and "sender_wf s"
    and "sender_can_offer_data s" and "4 * (unat (max_retries (s_policy s)) + 1) \<le> room w"
  shows "\<exists>w' s'. sender_send_byte p d w s = Some (w', s', Inl ErrRetriesExhausted) \<and>
    s_state s' = TxFailed \<and> sent w' = sent w @
      concat (replicate (unat (max_retries (s_policy s)) + 1) (to_bytes (data_frame (sender_next_seq s) d)))"
proof -
  let ?s = "sender_begin (FData d) (seq_current (s_seq s)) s"
  have o: "sender_offer d s = (?s, Inr () :: 'b error + unit)"
    using assms(5) by (simp add: sender_offer_def)
  have "sender_wf ?s" using sender_wf_offer [OF assms(4), of d, where ?'a = 'b] o by simp
  from byte_link.silent_flight [OF assms(1-3) this, where n = "unat (max_retries (s_policy s))"
      and fl = "\<lparr>fl_kind = FData d, fl_seq = seq_current (s_seq s),
        fl_retries_left = max_retries (s_policy s), fl_waiting = False, fl_empty_ticks = 0\<rparr>"]
    assms(5,6)
  obtain w' s' where "sender_await p w ?s = Some (w', s', Inl ErrRetriesExhausted)"
    "s_state s' = TxFailed" "sent w' = sent w @
      concat (replicate (unat (max_retries (s_policy s)) + 1) (to_bytes (data_frame (sender_next_seq s) d)))"
    by (auto simp: sender_begin_def sender_can_offer_data_def sender_next_seq_def)
  then show ?thesis by (simp add: sender_send_byte_def sender_send_def o settle_not_aborted_def)
qed

theorem send_byte_silent_peer_witness:
  "\<exists>w' s'. sender_send_byte mock_port 9 (mock_with_incoming []) (sender_with_policy (retry_policy_new 4 2))
      = Some (w', s', Inl ErrRetriesExhausted) \<and> s_state s' = TxFailed \<and>
    mock_written w' = [1, 0, 9, 0x54, 1, 0, 9, 0x54, 1, 0, 9, 0x54]"
proof -
  have b: "to_bytes (data_frame 0 9) = [1, 0, 9, 0x54]"
    by (simp add: to_bytes_def frame_defs crc8_header_def crc_eval)
  have s: "sender_can_offer_data (sender_with_policy (retry_policy_new 4 2))"
    "max_retries (s_policy (sender_with_policy (retry_policy_new 4 2))) = 2"
    "sender_next_seq (sender_with_policy (retry_policy_new 4 2)) = 0"
    by (simp_all add: sender_can_offer_data_def sender_with_policy_def retry_policy_new_def
        sender_next_seq_def seq_defs)
  have r: "replicate 3 x = [x, x, x]" "unat (2 :: u8) + 1 = 3" for x :: "u8 list"
    by (simp_all add: numeral_3_eq_3)
  show ?thesis
    using send_byte_silent_peer [OF mock_link.byte_link_axioms, of "mock_with_incoming []"
        "sender_with_policy (retry_policy_new 4 2)" 9]
    unfolding s b r(2) by (simp add: s r)
qed

section \<open>A peer that acknowledges\<close>

text \<open>A sender between frames: nothing in flight, its assembler empty.\<close>

definition sender_at_rest :: "sender \<Rightarrow> bool" where
  "sender_at_rest s = (sender_wf s \<and> sender_can_offer_data s \<and> \<not> as_resync (s_assembler s))"

context byte_link
begin

lemma poll_read_partial:
  assumes "ok w" and "avail w = b # bs" and "sender_wf s" and "s_inflight s = Some fl"
    and "fl_waiting fl" and "length (asm_held (s_assembler s)) < 3"
  shows "\<exists>w' s'. sender_poll p w s = (w', s', Inr PollPending) \<and> ok w' \<and> avail w' = bs \<and>
    sent w' = sent w \<and> room w' = room w \<and> sender_wf s' \<and> s_inflight s' = Some fl \<and>
    s_policy s' = s_policy s \<and> s_seq s' = s_seq s \<and>
    asm_held (s_assembler s') = asm_held (s_assembler s) @ [b] \<and>
    as_resync (s_assembler s') = as_resync (s_assembler s)"
proof -
  have st: "ob_is_idle (s_out s)" "s_state s = TxWaitingAck"
    using assms by (auto simp: sender_wf_def flight_wf_def)
  obtain w' where w': "read_byte p w = (w', Inr (Some b))" "ok w'" "sent w' = sent w"
      "avail w' = bs" "room w' = room w"
    using read_next [OF assms(1,2)] by auto
  obtain a where a: "asm_push b (s_assembler s) = (a, None)"
      "asm_held a = asm_held (s_assembler s) @ [b]" "as_resync a = as_resync (s_assembler s)"
    using asm_push_partial [OF _ assms(6), of b] assms(3) by (auto simp: sender_wf_def)
  have p1: "sender_poll p w s =
      (w', s\<lparr>s_mark := io_mark_default, s_assembler := a\<rparr>, Inr PollPending)"
    using st assms(4,5) w' a by (simp add: sender_poll_def sender_read_def)
  have "sender_wf (s\<lparr>s_mark := io_mark_default, s_assembler := a\<rparr>)"
    using sender_wf_poll [OF assms(3), of p w] p1 by simp
  then show ?thesis using p1 w' a assms(4)
    by (intro exI [of _ w'] exI [of _ "s\<lparr>s_mark := io_mark_default, s_assembler := a\<rparr>"]) simp
qed

lemma poll_read_frame:
  assumes "ok w" and "avail w = b # bs" and "sender_wf s" and "s_inflight s = Some fl"
    and "fl_waiting fl" and "asm_held (s_assembler s) = [x, y, z]" and "\<not> as_resync (s_assembler s)"
    and "from_bytes [x, y, z, b] = Inr f"
  shows "\<exists>w' a. sender_poll p w s = (w', sender_on_control f (s\<lparr>s_mark := io_mark_default, s_assembler := a\<rparr>)) \<and>
    ok w' \<and> avail w' = bs \<and> sent w' = sent w \<and> room w' = room w \<and> asm_held a = [] \<and> \<not> as_resync a \<and>
    asm_wf a"
proof -
  have st: "ob_is_idle (s_out s)" "s_state s = TxWaitingAck"
    using assms by (auto simp: sender_wf_def flight_wf_def)
  obtain w' where w': "read_byte p w = (w', Inr (Some b))" "ok w'" "sent w' = sent w"
      "avail w' = bs" "room w' = room w"
    using read_next [OF assms(1,2)] by auto
  obtain a where a: "asm_push b (s_assembler s) = (a, Some (Inr f))" "asm_held a = []" "\<not> as_resync a"
      "asm_wf a"
    using asm_push_complete [OF _ assms(6), of b] assms(3,7,8) by (auto simp: sender_wf_def)
  show ?thesis using st assms(4,5) w' a
    by (intro exI [of _ w'] exI [of _ a]) (simp add: sender_poll_def sender_read_def)
qed

text \<open>A flight whose ACK is the next thing on the wire is written once and completed.\<close>

lemma flight_acked:
  assumes "ok w" and "avail w = to_bytes (ack_frame (fl_seq fl)) @ rest" and "sender_wf s"
    and "s_inflight s = Some fl" and "\<not> fl_waiting fl" and "ob_is_idle (s_out s)" and "4 \<le> room w"
    and "\<not> as_resync (s_assembler s)"
  shows "\<exists>w' s1. sender_await p w s = Some (w', sender_on_ack s1) \<and> ok w' \<and> avail w' = rest \<and>
    sent w' = sent w @ to_bytes (flight_frame (fl_kind fl) (fl_seq fl)) \<and> room w' + 4 = room w \<and>
    sender_wf s1 \<and> s_inflight s1 = Some (fl\<lparr>fl_waiting := True, fl_empty_ticks := 0\<rparr>) \<and>
    s_seq s1 = s_seq s \<and> s_policy s1 = s_policy s \<and> \<not> as_resync (s_assembler s1)"
proof -
  let ?fl = "fl\<lparr>fl_waiting := True, fl_empty_ticks := 0\<rparr>"
  have len: "length (to_bytes (ack_frame (fl_seq fl))) = 4" by (simp add: FRAME_LEN_def)
  then obtain b1 b2 b3 b4 where ack: "to_bytes (ack_frame (fl_seq fl)) = [b1, b2, b3, b4]"
    by (rule length4E)
  have dec: "from_bytes [b1, b2, b3, b4] = Inr (ack_frame (fl_seq fl))"
    using from_bytes_iff [OF length_to_bytes, of "ack_frame (fl_seq fl)" "ack_frame (fl_seq fl)"] ack by simp
  obtain w0 s0 where 0: "sender_await p w s = sender_await p w0 s0" "ok w0"
      "avail w0 = b1 # b2 # b3 # b4 # rest"
      "sent w0 = sent w @ to_bytes (flight_frame (fl_kind fl) (fl_seq fl))" "room w0 + 4 = room w"
      "sender_wf s0" "s_policy s0 = s_policy s" "s_assembler s0 = asm_reset (s_assembler s)"
      "s_seq s0 = s_seq s" "s_inflight s0 = Some ?fl"
    using write_attempt [OF assms(1,2,3,4,5,6,7)] ack by auto
  have w: "fl_waiting ?fl" by simp
  obtain w1 s1 where 1: "sender_poll p w0 s0 = (w1, s1, Inr PollPending)" "ok w1"
      "avail w1 = b2 # b3 # b4 # rest" "sent w1 = sent w0" "room w1 = room w0" "sender_wf s1"
      "s_inflight s1 = Some ?fl" "s_policy s1 = s_policy s0" "s_seq s1 = s_seq s0"
      "asm_held (s_assembler s1) = [b1]" "\<not> as_resync (s_assembler s1)"
    using poll_read_partial [OF 0(2,3,6,10) w] 0(8) assms(8) by auto
  obtain w2 s2 where 2: "sender_poll p w1 s1 = (w2, s2, Inr PollPending)" "ok w2"
      "avail w2 = b3 # b4 # rest" "sent w2 = sent w1" "room w2 = room w1" "sender_wf s2"
      "s_inflight s2 = Some ?fl" "s_policy s2 = s_policy s1" "s_seq s2 = s_seq s1"
      "asm_held (s_assembler s2) = [b1, b2]" "\<not> as_resync (s_assembler s2)"
    using poll_read_partial [OF 1(2,3,6,7) w] 1(10,11) by auto
  obtain w3 s3 where 3: "sender_poll p w2 s2 = (w3, s3, Inr PollPending)" "ok w3"
      "avail w3 = b4 # rest" "sent w3 = sent w2" "room w3 = room w2" "sender_wf s3"
      "s_inflight s3 = Some ?fl" "s_policy s3 = s_policy s2" "s_seq s3 = s_seq s2"
      "asm_held (s_assembler s3) = [b1, b2, b3]" "\<not> as_resync (s_assembler s3)"
    using poll_read_partial [OF 2(2,3,6,7) w] 2(10,11) by auto
  obtain w4 a where 4: "sender_poll p w3 s3 = (w4, sender_on_control (ack_frame (fl_seq fl))
        (s3\<lparr>s_mark := io_mark_default, s_assembler := a\<rparr>))" "ok w4" "avail w4 = rest"
      "sent w4 = sent w3" "room w4 = room w3" "asm_held a = []" "\<not> as_resync a" "asm_wf a"
    using poll_read_frame [OF 3(2,3,6,7) w 3(10,11) dec] by auto
  let ?s = "s3\<lparr>s_mark := io_mark_default, s_assembler := a\<rparr>"
  have ctl: "sender_on_control (ack_frame (fl_seq fl)) ?s = sender_on_ack ?s"
    using 3(7) by (simp add: sender_on_control_def)
  have wf: "sender_wf ?s"
    using sender_wf_assembler [of "s3\<lparr>s_mark := io_mark_default\<rparr>" a] 3(6) 4(8) by simp
  obtain s4 r4 where on: "sender_on_ack ?s = (s4, r4 :: 'e error + tx_poll)" by fastforce
  then have np: "r4 \<noteq> Inr PollPending"
    using 3(7) by (auto simp: sender_on_ack_def Let_def split: flight_kind.splits)
  have "sender_await p w s = Some (w4, sender_on_ack ?s)"
    using 0(1) await_step [OF 1(1)] await_step [OF 2(1)] await_step [OF 3(1)] await_stop [OF 4(1) [unfolded ctl on] np] on by simp
  then show ?thesis using 0 1 2 3 4 wf by (intro exI [of _ w4] exI [of _ ?s]) simp
qed

text \<open>The blocking calls of a sender at rest, with the answering ACK next on the wire.\<close>

lemma send_byte_acked:
  assumes "ok w" and "avail w = to_bytes (ack_frame (s_seq s)) @ rest" and "sender_at_rest s"
    and "4 \<le> room w"
  shows "\<exists>w' s'. sender_send_byte p d w s = Some (w', s', Inr ()) \<and> ok w' \<and> avail w' = rest \<and>
    sent w' = sent w @ to_bytes (data_frame (s_seq s) d) \<and> room w' + 4 = room w \<and>
    sender_at_rest s' \<and> s_seq s' = s_seq s + 1"
proof -
  let ?fl = "\<lparr>fl_kind = FData d, fl_seq = s_seq s, fl_retries_left = max_retries (s_policy s),
    fl_waiting = False, fl_empty_ticks = 0\<rparr>"
  let ?s = "sender_begin (FData d) (s_seq s) s"
  have c: "sender_can_offer_data s" "sender_wf s" "\<not> as_resync (s_assembler s)"
    using assms(3) by (auto simp: sender_at_rest_def)
  have o: "sender_offer d s = (?s, Inr () :: 'e error + unit)"
    using c by (simp add: sender_offer_def seq_defs)
  have wf: "sender_wf ?s" using sender_wf_offer [OF c(2), of d, where ?'a = 'e] o by simp
  have f: "s_inflight ?s = Some ?fl" "ob_is_idle (s_out ?s)" "\<not> as_resync (s_assembler ?s)"
      "s_seq ?s = s_seq s"
    using c by (auto simp: sender_begin_def sender_can_offer_data_def)
  obtain w' s1 where 1: "sender_await p w ?s = Some (w', sender_on_ack s1)" "ok w'" "avail w' = rest"
      "sent w' = sent w @ to_bytes (data_frame (s_seq s) d)" "room w' + 4 = room w" "sender_wf s1"
      "s_inflight s1 = Some (?fl\<lparr>fl_waiting := True, fl_empty_ticks := 0\<rparr>)" "s_seq s1 = s_seq s"
      "\<not> as_resync (s_assembler s1)"
    using flight_acked [where fl = ?fl and w = w and s = ?s and rest = rest] assms(1,2,4) wf f by auto
  let ?s' = "s1\<lparr>s_inflight := None, s_seq := s_seq s + 1, s_state := TxIdle\<rparr>"
  have on: "sender_on_ack s1 = (?s', Inr PollAcked :: 'e error + tx_poll)"
    using 1(7,8) by (simp add: sender_on_ack_def seq_defs Let_def)
  have idle: "ob_is_idle (s_out s1)" using 1(6,7) by (auto simp: sender_wf_def flight_wf_def)
  then have "sender_at_rest ?s'" using 1(6,9) sender_wf_on_ack [OF 1(6) idle, where ?'a = 'e] on
    by (simp add: sender_at_rest_def sender_can_offer_data_def)
  then show ?thesis using 1 on
    by (intro exI [of _ w'] exI [of _ ?s'])
      (simp add: sender_send_byte_def sender_send_def o settle_not_aborted_def)
qed

lemma send_finish_acked:
  assumes "ok w" and "avail w = to_bytes (ack_frame (s_seq s)) @ rest" and "sender_at_rest s"
    and "4 \<le> room w"
  shows "\<exists>w' s'. sender_send_finish p w s = Some (w', s', Inr ()) \<and> ok w' \<and> avail w' = rest \<and>
    sent w' = sent w @ to_bytes (finish_frame (s_seq s)) \<and> room w' + 4 = room w \<and>
    s_state s' = TxFinished \<and> s_inflight s' = None"
proof -
  let ?fl = "\<lparr>fl_kind = FFinish, fl_seq = s_seq s, fl_retries_left = max_retries (s_policy s),
    fl_waiting = False, fl_empty_ticks = 0\<rparr>"
  let ?s = "sender_begin FFinish (s_seq s) s"
  have c: "sender_can_offer_data s" "sender_wf s" "\<not> as_resync (s_assembler s)"
    using assms(3) by (auto simp: sender_at_rest_def)
  have o: "sender_offer_finish s = (?s, Inr () :: 'e error + unit)"
    using c by (simp add: sender_offer_finish_def seq_defs)
  have wf: "sender_wf ?s" using sender_wf_offer_finish [OF c(2), where ?'a = 'e] o by simp
  have f: "s_inflight ?s = Some ?fl" "ob_is_idle (s_out ?s)" "\<not> as_resync (s_assembler ?s)"
      "s_seq ?s = s_seq s"
    using c by (auto simp: sender_begin_def sender_can_offer_data_def)
  obtain w' s1 where 1: "sender_await p w ?s = Some (w', sender_on_ack s1)" "ok w'" "avail w' = rest"
      "sent w' = sent w @ to_bytes (finish_frame (s_seq s))" "room w' + 4 = room w"
      "s_inflight s1 = Some (?fl\<lparr>fl_waiting := True, fl_empty_ticks := 0\<rparr>)"
    using flight_acked [where fl = ?fl and w = w and s = ?s and rest = rest] assms(1,2,4) wf f by auto
  then show ?thesis
    by (auto simp: sender_send_finish_def sender_send_def o settle_not_aborted_def sender_on_ack_def Let_def)
qed

end

end
