(* ===== verification/Receiver.thy ===== *)
theory Receiver
  imports Transport
begin

text \<open>
  The stop-and-wait receiver (\<open>src/rx.rs\<close>).  One \<open>poll\<close> writes at most one reply byte or reads at
  most one byte.  The handlers of the code that return \<open>Result<()>\<close> but never fail return the
  receiver.  The lemmas give the invariant of the reply in progress, and an abstract receiver that
  works on whole frames, which the byte-level one implements over any link that moves bytes.
\<close>

section \<open>The code\<close>

datatype rx_state = RxIdle | RxReceiving | RxValidating | RxAcknowledging | RxFinished | RxAborted

datatype pending_action =
    PaDeliver u8 | PaDuplicate | PaStarted | PaFinished | PaAborted | PaRejected | PaCrcRejected

datatype poll_outcome =
    OutPending | OutDelivered u8 | OutDuplicateIgnored | OutStarted | OutTransferFinished
  | OutRejected | OutCrcRejected | OutAborted

definition outcome_is_closed :: "poll_outcome \<Rightarrow> bool" where
  "outcome_is_closed out = (case out of OutTransferFinished \<Rightarrow> True | OutAborted \<Rightarrow> True | _ \<Rightarrow> False)"

record receiver =
  r_expected_seq :: sequence
  r_state :: rx_state
  r_assembler :: assembler
  r_out :: out_buf
  r_pending :: "pending_action option"
  r_finish_seq :: "u8 option"
  r_abort_latched :: bool

definition receiver_new :: receiver where
  "receiver_new = \<lparr>r_expected_seq = seq_new, r_state = RxIdle, r_assembler = asm_new,
     r_out = ob_empty, r_pending = None, r_finish_seq = None, r_abort_latched = False\<rparr>"

definition receiver_expected_seq :: "receiver \<Rightarrow> u8" where
  "receiver_expected_seq r = seq_current (r_expected_seq r)"

definition receiver_settle_idle :: "receiver \<Rightarrow> receiver" where
  "receiver_settle_idle r =
     r\<lparr>r_state := if r_abort_latched r then RxAborted
                 else if r_finish_seq r \<noteq> None then RxFinished else RxIdle\<rparr>"

definition receiver_is_closed :: "receiver \<Rightarrow> bool" where
  "receiver_is_closed r = (r_abort_latched r \<or> r_finish_seq r \<noteq> None)"

definition receiver_begin_reply :: "frame \<Rightarrow> pending_action \<Rightarrow> receiver \<Rightarrow> receiver" where
  "receiver_begin_reply f action r =
     r\<lparr>r_out := ob_load f (r_out r), r_pending := Some action, r_state := RxAcknowledging\<rparr>"

definition receiver_take_pending :: "receiver \<Rightarrow> receiver \<times> poll_outcome option" where
  "receiver_take_pending r =
     (let r' = r\<lparr>r_pending := None\<rparr>
      in case r_pending r of
           None \<Rightarrow> (r', None)
         | Some (PaDeliver byte) \<Rightarrow>
             (r'\<lparr>r_expected_seq := fst (seq_advance (r_expected_seq r')), r_state := RxIdle\<rparr>,
              Some (OutDelivered byte))
         | Some PaDuplicate \<Rightarrow> (receiver_settle_idle r', Some OutDuplicateIgnored)
         | Some PaStarted \<Rightarrow> (r'\<lparr>r_finish_seq := None, r_state := RxIdle\<rparr>, Some OutStarted)
         | Some PaFinished \<Rightarrow> (r'\<lparr>r_state := RxFinished\<rparr>, Some OutTransferFinished)
         | Some PaAborted \<Rightarrow> (r'\<lparr>r_state := RxAborted\<rparr>, Some OutAborted)
         | Some PaRejected \<Rightarrow> (receiver_settle_idle r', Some OutRejected)
         | Some PaCrcRejected \<Rightarrow> (receiver_settle_idle r', Some OutCrcRejected))"

definition receiver_pump_reply ::
  "('w, 'e) port \<Rightarrow> 'w \<Rightarrow> receiver \<Rightarrow> 'w \<times> receiver \<times> ('e error + poll_outcome option)" where
  "receiver_pump_reply p w r =
     (case ob_peek (r_out r) of
        None \<Rightarrow> (case receiver_take_pending r of (r', o') \<Rightarrow> (w, r', Inr o'))
      | Some byte \<Rightarrow>
          (case write_byte p byte w of
             (w', Inl e) \<Rightarrow> (w', r, Inl (ErrTransport e))
           | (w', Inr _) \<Rightarrow>
               let r' = r\<lparr>r_out := ob_commit (r_out r)\<rparr>
               in if ob_is_idle (r_out r')
                  then (case receiver_take_pending r' of (r'', o') \<Rightarrow> (w', r'', Inr o'))
                  else (w', r'\<lparr>r_state := RxAcknowledging\<rparr>, Inr None)))"

definition receiver_handle_start :: "receiver \<Rightarrow> receiver" where
  "receiver_handle_start r =
     receiver_begin_reply (ack_frame 0) PaStarted
       (r\<lparr>r_expected_seq := seq_new, r_finish_seq := None, r_abort_latched := False\<rparr>)"

definition receiver_handle_abort :: "receiver \<Rightarrow> receiver" where
  "receiver_handle_abort r =
     (if r_finish_seq r \<noteq> None then r\<lparr>r_state := RxFinished\<rparr>
      else receiver_begin_reply (ack_frame 0) PaAborted
             (r\<lparr>r_abort_latched := True, r_expected_seq := seq_new\<rparr>))"

definition receiver_handle_finish :: "u8 \<Rightarrow> receiver \<Rightarrow> receiver" where
  "receiver_handle_finish seq r =
     (if r_abort_latched r then r\<lparr>r_state := RxAborted\<rparr>
      else case r_finish_seq r of
          Some closed \<Rightarrow>
            if seq = closed then receiver_begin_reply (ack_frame seq) PaFinished r
            else r\<lparr>r_state := RxFinished\<rparr>
        | None \<Rightarrow>
            if seq \<noteq> seq_current (r_expected_seq r)
            then receiver_begin_reply (nack_frame seq) PaRejected r
            else receiver_begin_reply (ack_frame seq) PaFinished (r\<lparr>r_finish_seq := Some seq\<rparr>))"

definition receiver_handle_data :: "frame \<Rightarrow> receiver \<Rightarrow> receiver" where
  "receiver_handle_data f r =
     (if r_abort_latched r then r\<lparr>r_state := RxAborted\<rparr>
      else if r_finish_seq r \<noteq> None then r\<lparr>r_state := RxFinished\<rparr>
      else let expected = seq_current (r_expected_seq r)
           in if fr_seq f = expected
              then receiver_begin_reply (ack_frame expected) (PaDeliver (fr_data f)) r
              else if fr_seq f = seq_previous (r_expected_seq r)
              then receiver_begin_reply (ack_frame (fr_seq f)) PaDuplicate r
              else receiver_begin_reply (nack_frame (fr_seq f)) PaRejected r)"

text \<open>The end of every branch of \<open>poll\<close> that may have a reply: pump it, no outcome is \<open>Pending\<close>.\<close>

definition receiver_reply ::
  "('w, 'e) port \<Rightarrow> 'w \<Rightarrow> receiver \<Rightarrow> 'w \<times> receiver \<times> ('e error + poll_outcome)" where
  "receiver_reply p w r =
     (case receiver_pump_reply p w r of
        (w', r', Inl e) \<Rightarrow> (w', r', Inl e)
      | (w', r', Inr (Some out)) \<Rightarrow> (w', r', Inr out)
      | (w', r', Inr None) \<Rightarrow> (w', r', Inr OutPending))"

text \<open>What \<open>poll\<close> does with a completed window, up to the reply.  The flag says whether the reply is pumped.\<close>

definition receiver_on_frame :: "frame_error + frame \<Rightarrow> receiver \<Rightarrow> receiver \<times> bool" where
  "receiver_on_frame decoded r0 =
     (let r = r0\<lparr>r_state := RxValidating\<rparr>
      in case decoded of
           Inl err \<Rightarrow>
             if receiver_is_closed r then (receiver_settle_idle r, False)
             else let action = (case err of CrcMismatch _ _ \<Rightarrow> PaCrcRejected | _ \<Rightarrow> PaRejected)
                  in (receiver_begin_reply (nack_frame (seq_current (r_expected_seq r))) action r, True)
         | Inr f \<Rightarrow>
             (case fr_type f of
                Data \<Rightarrow> (receiver_handle_data f r, True)
              | Start \<Rightarrow> (receiver_handle_start r, True)
              | Finish \<Rightarrow> (receiver_handle_finish (fr_seq f) r, True)
              | Abort \<Rightarrow> (receiver_handle_abort r, True)
              | _ \<Rightarrow> (receiver_settle_idle r, False)))"

definition receiver_poll ::
  "('w, 'e) port \<Rightarrow> 'w \<Rightarrow> receiver \<Rightarrow> 'w \<times> receiver \<times> ('e error + poll_outcome)" where
  "receiver_poll p w r0 =
     (if \<not> ob_is_idle (r_out r0) then receiver_reply p w r0
      else
        let r = r0\<lparr>r_state := RxReceiving\<rparr>
        in (case read_byte p w of
              (w', Inl e) \<Rightarrow> (w', r, Inl (ErrTransport e))
            | (w', Inr None) \<Rightarrow> (w', receiver_settle_idle r, Inr OutPending)
            | (w', Inr (Some byte)) \<Rightarrow>
                (case asm_push byte (r_assembler r) of
                   (a, None) \<Rightarrow> (w', r\<lparr>r_assembler := a\<rparr>, Inr OutPending)
                 | (a, Some decoded) \<Rightarrow>
                     (case receiver_on_frame decoded (r\<lparr>r_assembler := a\<rparr>) of
                        (r', True) \<Rightarrow> receiver_reply p w' r'
                      | (r', False) \<Rightarrow> (w', r', Inr OutPending)))))"

lemmas receiver_defs = receiver_on_frame_def receiver_handle_data_def receiver_handle_start_def
  receiver_handle_finish_def receiver_handle_abort_def receiver_begin_reply_def
  receiver_settle_idle_def receiver_is_closed_def

section \<open>The abstract receiver\<close>

text \<open>
  The contract of the receiver in terms of whole frames: the session it is in, and for each
  decoded or damaged frame the next session, the reply frame if any, and what the caller sees.
\<close>

datatype rx_session = RsOpen u8 | RsFinished u8 | RsAborted

fun rx_spec :: "rx_session \<Rightarrow> frame_error + frame \<Rightarrow> rx_session \<times> frame option \<times> poll_outcome" where
  "rx_spec (RsOpen e) (Inl err) =
     (RsOpen e, Some (nack_frame e),
      case err of CrcMismatch _ _ \<Rightarrow> OutCrcRejected | _ \<Rightarrow> OutRejected)"
| "rx_spec st (Inl err) = (st, None, OutPending)"
| "rx_spec st (Inr f) =
     (case fr_type f of
        Start \<Rightarrow> (RsOpen 0, Some (ack_frame 0), OutStarted)
      | Data \<Rightarrow>
          (case st of
             RsOpen e \<Rightarrow>
               if fr_seq f = e then (RsOpen (e + 1), Some (ack_frame e), OutDelivered (fr_data f))
               else if fr_seq f = e - 1 then (st, Some (ack_frame (fr_seq f)), OutDuplicateIgnored)
               else (st, Some (nack_frame (fr_seq f)), OutRejected)
           | _ \<Rightarrow> (st, None, OutPending))
      | Finish \<Rightarrow>
          (case st of
             RsOpen e \<Rightarrow>
               if fr_seq f = e then (RsFinished e, Some (ack_frame e), OutTransferFinished)
               else (st, Some (nack_frame (fr_seq f)), OutRejected)
           | RsFinished q \<Rightarrow>
               if fr_seq f = q then (st, Some (ack_frame q), OutTransferFinished)
               else (st, None, OutPending)
           | RsAborted \<Rightarrow> (st, None, OutPending))
      | Abort \<Rightarrow>
          (case st of
             RsFinished q \<Rightarrow> (st, None, OutPending)
           | _ \<Rightarrow> (RsAborted, Some (ack_frame 0), OutAborted))
      | _ \<Rightarrow> (st, None, OutPending))"

fun rx_spec_run :: "rx_session \<Rightarrow> (frame_error + frame) list \<Rightarrow>
    rx_session \<times> u8 list \<times> poll_outcome list" where
  "rx_spec_run st [] = (st, [], [])"
| "rx_spec_run st (x # xs) =
     (case rx_spec st x of (st', reply, out) \<Rightarrow>
        case rx_spec_run st' xs of (st'', bytes, outs) \<Rightarrow>
          (st'', (case reply of None \<Rightarrow> [] | Some f \<Rightarrow> to_bytes f) @ bytes,
           if out = OutPending then outs else out # outs))"

text \<open>The session a receiver at rest is in.\<close>

definition rx_session_of :: "receiver \<Rightarrow> rx_session" where
  "rx_session_of r =
     (if r_abort_latched r then RsAborted
      else case r_finish_seq r of Some q \<Rightarrow> RsFinished q | None \<Rightarrow> RsOpen (r_expected_seq r))"

section \<open>Invariant\<close>

text \<open>
  A reply is in progress exactly when an action is pending, and the action fixes the reply: data
  is delivered behind ACK(expected), a duplicate behind ACK(expected - 1), a close behind its own
  ACK, a rejection behind a NACK.  FINISH and ABORT are never latched together.
\<close>

fun action_wf :: "pending_action \<Rightarrow> receiver \<Rightarrow> bool" where
  "action_wf (PaDeliver b) r = (\<not> receiver_is_closed r \<and>
     ob_buf (r_out r) = to_bytes (ack_frame (r_expected_seq r)))"
| "action_wf PaDuplicate r = (\<not> receiver_is_closed r \<and>
     ob_buf (r_out r) = to_bytes (ack_frame (r_expected_seq r - 1)))"
| "action_wf PaStarted r = (\<not> receiver_is_closed r \<and> r_expected_seq r = 0 \<and>
     ob_buf (r_out r) = to_bytes (ack_frame 0))"
| "action_wf PaFinished r = (r_finish_seq r = Some (r_expected_seq r) \<and>
     ob_buf (r_out r) = to_bytes (ack_frame (r_expected_seq r)))"
| "action_wf PaAborted r = (r_abort_latched r \<and> ob_buf (r_out r) = to_bytes (ack_frame 0))"
| "action_wf PaRejected r = (\<not> receiver_is_closed r \<and>
     (\<exists>q. ob_buf (r_out r) = to_bytes (nack_frame q)))"
| "action_wf PaCrcRejected r = (\<not> receiver_is_closed r \<and>
     ob_buf (r_out r) = to_bytes (nack_frame (r_expected_seq r)))"

definition receiver_wf :: "receiver \<Rightarrow> bool" where
  "receiver_wf r =
     (ob_wf (r_out r) \<and> asm_wf (r_assembler r) \<and>
      (r_pending r = None \<longleftrightarrow> ob_is_idle (r_out r)) \<and>
      (\<forall>a. r_pending r = Some a \<longrightarrow> action_wf a r) \<and>
      (r_abort_latched r \<longrightarrow> r_finish_seq r = None \<and> r_expected_seq r = 0) \<and>
      (\<forall>q. r_finish_seq r = Some q \<longrightarrow> q = r_expected_seq r))"

lemma receiver_wf_new [simp]: "receiver_wf receiver_new"
  by (simp add: receiver_wf_def receiver_new_def)

lemma receiver_state_same [simp]: "receiver_wf (r\<lparr>r_state := st\<rparr>) = receiver_wf r"
proof -
  have "action_wf a (r\<lparr>r_state := st\<rparr>) = action_wf a r" for a
    by (cases a) (simp_all add: receiver_is_closed_def)
  then show ?thesis by (simp add: receiver_wf_def)
qed

lemma take_pending_wf:
  assumes "ob_wf (r_out r)" and "asm_wf (r_assembler r)" and "ob_is_idle (r_out r)"
    and "\<forall>a. r_pending r = Some a \<longrightarrow> action_wf a r"
    and "r_abort_latched r \<longrightarrow> r_finish_seq r = None \<and> r_expected_seq r = 0"
    and "\<forall>q. r_finish_seq r = Some q \<longrightarrow> q = r_expected_seq r"
  shows "receiver_wf (fst (receiver_take_pending r))"
  using assms
  by (auto simp: receiver_take_pending_def receiver_wf_def receiver_is_closed_def
      receiver_settle_idle_def Let_def split: option.splits pending_action.splits)

lemma action_wf_commit [simp]: "action_wf a (r\<lparr>r_out := ob_commit (r_out r)\<rparr>) = action_wf a r"
  by (cases a) (simp_all add: receiver_is_closed_def)

lemma receiver_wf_pump:
  assumes "receiver_wf r" and "receiver_pump_reply p w r = (w', r', res)"
  shows "receiver_wf r'"
proof (cases "ob_peek (r_out r)")
  case None
  then have "ob_is_idle (r_out r)"
    using assms(1) by (auto simp: receiver_wf_def ob_peek_rest ob_idle_rest split: list.splits)
  then show ?thesis using take_pending_wf [of r] assms None
    by (auto simp: receiver_pump_reply_def receiver_wf_def [of r] split: prod.splits)
next
  case (Some b)
  then have busy: "\<not> ob_is_idle (r_out r)"
    using assms(1) by (auto simp: receiver_wf_def ob_peek_rest ob_idle_rest split: list.splits)
  let ?r = "r\<lparr>r_out := ob_commit (r_out r)\<rparr>"
  obtain w1 wr where wr: "write_byte p b w = (w1, wr)" by fastforce
  show ?thesis
  proof (cases wr)
    case (Inl e)
    then have "r' = r" using assms(2) Some wr by (simp add: receiver_pump_reply_def)
    then show ?thesis using assms(1) by simp
  next
    case (Inr u)
    show ?thesis
    proof (cases "ob_is_idle (r_out ?r)")
      case True
      then have "r' = fst (receiver_take_pending ?r)"
        using assms(2) Some wr Inr by (auto simp: receiver_pump_reply_def Let_def split: prod.splits)
      then show ?thesis using take_pending_wf [of ?r] assms(1) True
        by (auto simp: receiver_wf_def [of r])
    next
      case False
      then have "receiver_wf ?r" using assms(1) busy by (auto simp: receiver_wf_def)
      moreover have "r' = ?r\<lparr>r_state := RxAcknowledging\<rparr>"
        using False assms(2) Some wr Inr by (simp add: receiver_pump_reply_def)
      ultimately show ?thesis by (simp only: receiver_state_same)
    qed
  qed
qed

lemma receiver_wf_reply:
  "receiver_wf r \<Longrightarrow> receiver_reply p w r = (w', r', res) \<Longrightarrow> receiver_wf r'"
  using receiver_wf_pump by (auto simp: receiver_reply_def split: prod.splits sum.splits option.splits)

lemma receiver_wf_on_frame:
  assumes "receiver_wf r" and "ob_is_idle (r_out r)"
  shows "receiver_wf (fst (receiver_on_frame decoded r))"
  using assms
  by (auto simp: receiver_wf_def receiver_defs seq_defs Let_def
      split: sum.splits frame_error.splits frame_type.splits option.splits)

lemma receiver_wf_assembler: "receiver_wf r \<Longrightarrow> asm_wf a \<Longrightarrow> receiver_wf (r\<lparr>r_assembler := a\<rparr>)"
proof -
  have "action_wf x (r\<lparr>r_assembler := a\<rparr>) = action_wf x r" for x
    by (cases x) (simp_all add: receiver_is_closed_def)
  then show "receiver_wf r \<Longrightarrow> asm_wf a \<Longrightarrow> receiver_wf (r\<lparr>r_assembler := a\<rparr>)"
    by (simp add: receiver_wf_def)
qed

lemma receiver_wf_poll:
  assumes "receiver_wf r" and "receiver_poll p w r = (w', r', res)"
  shows "receiver_wf r'"
proof (cases "ob_is_idle (r_out r)")
  case False
  then show ?thesis using assms receiver_wf_reply by (auto simp: receiver_poll_def)
next
  case True
  have a: "asm_wf a" if "asm_push b (r_assembler r) = (a, q)" for a b q
    using asm_push_wf [of "r_assembler r" b] assms(1) that by (simp add: receiver_wf_def)
  have f: "receiver_wf r1"
    if "receiver_on_frame d (r\<lparr>r_state := RxReceiving, r_assembler := a\<rparr>) = (r1, x)"
      and "asm_push b (r_assembler r) = (a, q)" for d r1 x a b q
    using receiver_wf_on_frame [of "r\<lparr>r_state := RxReceiving, r_assembler := a\<rparr>" d] that True
      assms(1) a [OF that(2)] receiver_wf_assembler [of "r\<lparr>r_state := RxReceiving\<rparr>" a] by simp
  show ?thesis using assms True
    by (auto simp: receiver_poll_def receiver_settle_idle_def Let_def receiver_wf_assembler
        split: prod.splits sum.splits option.splits bool.splits dest: a f receiver_wf_reply)
qed

inductive receiver_reachable :: "('w, 'e) port \<Rightarrow> receiver \<Rightarrow> bool" for p where
  recv_new: "receiver_reachable p receiver_new"
| recv_poll: "receiver_reachable p r \<Longrightarrow> receiver_poll p w r = (w', r', res) \<Longrightarrow>
    receiver_reachable p r'"

lemma receiver_reachable_wf: "receiver_reachable p r \<Longrightarrow> receiver_wf r"
  by (induction rule: receiver_reachable.induct) (auto dest: receiver_wf_poll)

section \<open>A delivery is an acknowledged byte\<close>

lemma take_pending_delivered:
  "receiver_take_pending r = (r', Some (OutDelivered b)) \<Longrightarrow> r_pending r = Some (PaDeliver b) \<and>
     r' = r\<lparr>r_pending := None, r_expected_seq := r_expected_seq r + 1, r_state := RxIdle\<rparr>"
  by (auto simp: receiver_take_pending_def seq_defs Let_def
      split: option.splits pending_action.splits)

lemma reply_delivered:
  assumes "ob_wf (r_out r)" and "r_pending r = None \<longleftrightarrow> ob_is_idle (r_out r)"
    and "receiver_reply p w r = (w', r', Inr (OutDelivered b))"
  shows "\<exists>x. r_pending r = Some (PaDeliver b) \<and> ob_rest (r_out r) = [x] \<and>
    write_byte p x w = (w', Inr ()) \<and> r' = r\<lparr>r_out := ob_commit (r_out r), r_pending := None,
      r_expected_seq := r_expected_seq r + 1, r_state := RxIdle\<rparr>"
proof (cases "ob_rest (r_out r)")
  case Nil
  then show ?thesis using assms
    by (auto simp: receiver_reply_def receiver_pump_reply_def ob_peek_rest ob_idle_rest
        dest!: take_pending_delivered split: prod.splits option.splits)
next
  case (Cons x xs)
  show ?thesis using assms Cons
    by (auto simp: receiver_reply_def receiver_pump_reply_def ob_peek_rest ob_idle_rest Let_def
        ob_commit_rest dest!: take_pending_delivered split: prod.splits option.splits sum.splits if_splits)
qed

lemma ob_rest_suffix: "ob_wf out \<Longrightarrow> ob_rest out = [x] \<Longrightarrow> x = last (ob_buf out)"
  by (metis last_drop last_ConsL list.discI ob_rest_def drop_eq_Nil2 not_le)

text \<open>The poll that delivers: it wrote the last byte of the ACK that stood in the buffer.\<close>

lemma delivered_step:
  assumes "receiver_wf r" and "receiver_poll p w r = (w', r', Inr (OutDelivered b))"
  shows "r_pending r = Some (PaDeliver b) \<and> receiver_expected_seq r' = receiver_expected_seq r + 1 \<and>
    r_pending r' = None \<and> \<not> receiver_is_closed r' \<and>
    write_byte p (last (to_bytes (ack_frame (receiver_expected_seq r)))) w = (w', Inr ())"
proof -
  note wf = assms(1)
  have "\<not> ob_is_idle (r_out r)"
  proof
    assume idle: "ob_is_idle (r_out r)"
    then obtain w1 r1 d a where 1: "receiver_reply p w1 r1 = (w', r', Inr (OutDelivered b))"
        "receiver_on_frame d (r\<lparr>r_state := RxReceiving, r_assembler := a\<rparr>) = (r1, True)"
        "\<exists>x q. asm_push x (r_assembler r) = (a, q)"
      using assms(2) by (auto simp: receiver_poll_def Let_def
          split: prod.splits sum.splits option.splits bool.splits) blast
    then obtain x q where "asm_push x (r_assembler r) = (a, q)" by auto
    then have "asm_wf a" using asm_push_wf [of "r_assembler r" x] wf by (simp add: receiver_wf_def)
    then have "receiver_wf r1"
      using receiver_wf_on_frame [of "r\<lparr>r_state := RxReceiving, r_assembler := a\<rparr>" d] 1(2) idle wf
        receiver_wf_assembler [of "r\<lparr>r_state := RxReceiving\<rparr>" a] by simp
    moreover have "length (ob_rest (r_out r1)) \<noteq> 1"
      using 1(2) idle wf
      by (auto simp: receiver_defs Let_def ob_idle_rest receiver_wf_def FRAME_LEN_def
          split: sum.splits frame_error.splits frame_type.splits option.splits if_splits)
    ultimately show False using reply_delivered [of r1 p w1 w' r' b] 1(1)
      by (auto simp: receiver_wf_def)
  qed
  then have "receiver_reply p w r = (w', r', Inr (OutDelivered b))"
    using assms(2) by (simp add: receiver_poll_def)
  then obtain x where x: "r_pending r = Some (PaDeliver b)" "ob_rest (r_out r) = [x]"
    "write_byte p x w = (w', Inr ())" "r' = r\<lparr>r_out := ob_commit (r_out r), r_pending := None,
      r_expected_seq := r_expected_seq r + 1, r_state := RxIdle\<rparr>"
    using reply_delivered [of r p w w' r' b] wf by (auto simp: receiver_wf_def)
  moreover have "action_wf (PaDeliver b) r" using wf x(1) by (auto simp: receiver_wf_def)
  ultimately show ?thesis using ob_rest_suffix [of "r_out r" x] wf
    by (auto simp: receiver_expected_seq_def seq_defs receiver_is_closed_def receiver_wf_def)
qed

text \<open>
  C10: whatever the transport does, a poll hands a byte to the application only at the moment it
  writes the last byte of ACK(expected) successfully, and that moves the expected sequence number
  by exactly one.  So no byte is delivered unacknowledged and none twice for one acknowledgement.
\<close>

theorem delivered_after_ack:
  assumes "receiver_wf r" and "receiver_poll p w r = (w', r', Inr (OutDelivered b))"
  shows "r_pending r = Some (PaDeliver b) \<and> receiver_expected_seq r' = receiver_expected_seq r + 1 \<and>
    r_pending r' = None \<and> \<not> receiver_is_closed r' \<and>
    write_byte p (last (to_bytes (ack_frame (receiver_expected_seq r)))) w = (w', Inr ())"
  using assms by (rule delivered_step)

theorem delivered_after_ack_witness:
  "case receiver_poll mock_port (mock_with_incoming []) ((receiver_begin_reply (ack_frame 0) (PaDeliver 9)
      receiver_new)\<lparr>r_out := \<lparr>ob_buf = to_bytes (ack_frame 0), ob_pos = 3\<rparr>\<rparr>)
    of (w', r', res) \<Rightarrow> res = (Inr (OutDelivered 9) :: mock_full error + poll_outcome) \<and>
      receiver_expected_seq r' = 0 + 1 \<and> \<not> receiver_is_closed r'"
proof -
  let ?r = "(receiver_begin_reply (ack_frame 0) (PaDeliver 9) receiver_new)
    \<lparr>r_out := \<lparr>ob_buf = to_bytes (ack_frame 0), ob_pos = 3\<rparr>\<rparr>"
  have wf: "receiver_wf ?r"
    by (simp add: receiver_wf_def receiver_begin_reply_def receiver_new_def receiver_is_closed_def
        ob_wf_def ob_is_idle_def FRAME_LEN_def seq_new_def to_bytes_def Let_def)
  have b: "to_bytes (ack_frame 0) = [2, 0, 0, 0xd6]"
    by (simp add: to_bytes_def frame_defs crc8_header_def crc_eval)
  have wr: "write_byte mock_port x (mock_with_incoming []) = ((mock_with_incoming [])
      \<lparr>mk_written_buf := (replicate 64 0)[0 := x], mk_written_len := 1\<rparr>, Inr ())" for x
    by (simp add: mock_port_def mock_with_incoming_def MOCK_CAP_def)
  obtain w' r' where p: "receiver_poll mock_port (mock_with_incoming []) ?r =
      (w', r', Inr (OutDelivered 9))"
    by (simp add: receiver_poll_def receiver_reply_def receiver_pump_reply_def b ob_is_idle_def
        ob_peek_def ob_commit_def FRAME_LEN_def wr receiver_take_pending_def receiver_begin_reply_def)
  have "receiver_expected_seq ?r = 0"
    by (simp add: receiver_expected_seq_def receiver_begin_reply_def receiver_new_def seq_defs)
  then show ?thesis using delivered_after_ack [OF wf p] p by auto
qed

section \<open>The receiver implements its specification\<close>

text \<open>Several polls in a row, with the results that are not \<open>Pending\<close>.\<close>

fun receiver_polls ::
  "('w, 'e) port \<Rightarrow> nat \<Rightarrow> 'w \<Rightarrow> receiver \<Rightarrow> 'w \<times> receiver \<times> ('e error + poll_outcome) list" where
  "receiver_polls p 0 w r = (w, r, [])"
| "receiver_polls p (Suc n) w r =
     (case receiver_poll p w r of (w', r', res) \<Rightarrow>
        case receiver_polls p n w' r' of (w'', r'', outs) \<Rightarrow>
          (w'', r'', if res = Inr OutPending then outs else res # outs))"

lemma receiver_polls_add:
  "receiver_polls p (m + n) w r =
     (case receiver_polls p m w r of (w', r', outs) \<Rightarrow>
        case receiver_polls p n w' r' of (w'', r'', outs') \<Rightarrow> (w'', r'', outs @ outs'))"
  by (induction m arbitrary: w r) (auto split: prod.splits)

definition at_rest :: "receiver \<Rightarrow> bool" where
  "at_rest r = (receiver_wf r \<and> r_pending r = None \<and> asm_held (r_assembler r) = [] \<and>
     \<not> as_resync (r_assembler r))"

lemma rx_session_of_update [simp]:
  "rx_session_of (r\<lparr>r_state := st\<rparr>) = rx_session_of r"
  "rx_session_of (r\<lparr>r_out := out\<rparr>) = rx_session_of r"
  "rx_session_of (r\<lparr>r_assembler := a\<rparr>) = rx_session_of r"
  by (simp_all add: rx_session_of_def cong: option.case_cong)

lemma take_pending_out:
  "receiver_take_pending (r\<lparr>r_out := out\<rparr>) =
     (case receiver_take_pending r of (r', x) \<Rightarrow> (r'\<lparr>r_out := out\<rparr>, x))"
  "receiver_take_pending (r\<lparr>r_state := st\<rparr>) =
     (case receiver_take_pending r of (r', x) \<Rightarrow>
        (if r_pending r = None then r'\<lparr>r_state := st\<rparr> else r', x))"
  by (auto simp: receiver_take_pending_def receiver_settle_idle_def Let_def
      split: option.splits pending_action.splits)

lemma on_frame_spec:
  assumes "receiver_wf r" and "r_pending r = None"
    and "rx_spec (rx_session_of r) decoded = (st, reply, out)"
    and "receiver_on_frame decoded r = (r', flag)"
  shows "r_assembler r' = r_assembler r \<and> (case reply of
      None \<Rightarrow> r_pending r' = None \<and> r_out r' = r_out r \<and> rx_session_of r' = st \<and> out = OutPending
    | Some f \<Rightarrow> flag \<and> ob_rest (r_out r') = to_bytes f \<and> r_pending r' \<noteq> None \<and> out \<noteq> OutPending \<and>
        (\<exists>r''. receiver_take_pending r' = (r'', Some out) \<and> rx_session_of r'' = st \<and>
           r_assembler r'' = r_assembler r))"
proof (cases decoded)
  case (Inl err)
  show ?thesis using assms Inl
    by (cases err; cases "r_finish_seq r")
      (auto simp: receiver_defs rx_session_of_def receiver_take_pending_def seq_defs Let_def
        split: if_splits)
next
  case (Inr f)
  have "r_abort_latched r \<Longrightarrow> r_finish_seq r = None \<and> r_expected_seq r = 0"
    "r_finish_seq r = Some q \<Longrightarrow> q = r_expected_seq r" for q
    using assms(1) by (auto simp: receiver_wf_def)
  with assms Inr show ?thesis
    by (cases "fr_type f"; cases "r_finish_seq r")
      (auto simp: receiver_defs rx_session_of_def receiver_take_pending_def seq_defs Let_def
        split: if_splits)
qed

context byte_link
begin

lemma reply_write:
  assumes "ok w" and "0 < room w" and "receiver_wf r" and "ob_rest (r_out r) = b # bs"
  shows "\<exists>w'. ok w' \<and> sent w' = sent w @ [b] \<and> avail w' = avail w \<and> Suc (room w') = room w \<and>
    receiver_reply p w r = (if bs = []
      then (case receiver_take_pending (r\<lparr>r_out := ob_commit (r_out r)\<rparr>) of
          (r', Some out) \<Rightarrow> (w', r', Inr out) | (r', None) \<Rightarrow> (w', r', Inr OutPending))
      else (w', r\<lparr>r_out := ob_commit (r_out r), r_state := RxAcknowledging\<rparr>, Inr OutPending))"
proof -
  have "ob_wf (r_out r)" using assms(3) by (simp add: receiver_wf_def)
  moreover obtain w' where "write_byte p b w = (w', Inr ())" "ok w'" "sent w' = sent w @ [b]"
      "avail w' = avail w" "Suc (room w') = room w"
    using write_ok [OF assms(1,2), of b] by auto
  ultimately show ?thesis using assms(4)
    by (intro exI [of _ w']) (auto simp: receiver_reply_def receiver_pump_reply_def ob_peek_rest
        ob_idle_rest ob_commit_rest split: prod.splits option.splits)
qed

lemma reply_phase:
  assumes "ok w" and "length bs \<le> room w" and "receiver_wf r" and "ob_rest (r_out r) = bs"
    and "bs \<noteq> []" and "receiver_take_pending r = (r1, Some out)" and "out \<noteq> OutPending"
  shows "\<exists>w0 r0 w' r'. receiver_polls p (length bs - 1) w r = (w0, r0, []) \<and>
    receiver_poll p w0 r0 = (w', r', Inr out) \<and> ok w' \<and> sent w' = sent w @ bs \<and> avail w' = avail w \<and> room w' + length bs = room w \<and>
    receiver_wf r' \<and> r_pending r' = None \<and> rx_session_of r' = rx_session_of r1 \<and>
    r_assembler r' = r_assembler r1"
  using assms
proof (induction bs arbitrary: w r r1)
  case Nil
  then show ?case by simp
next
  case (Cons b bs)
  have busy: "receiver_poll p w r = receiver_reply p w r"
    using Cons.prems by (auto simp: receiver_poll_def receiver_wf_def ob_idle_rest)
  have pend: "r_pending r \<noteq> None"
    using Cons.prems by (auto simp: receiver_wf_def ob_idle_rest)
  obtain w1 where w1: "ok w1" "sent w1 = sent w @ [b]" "avail w1 = avail w" "Suc (room w1) = room w"
    and r: "receiver_reply p w r = (if bs = []
      then (case receiver_take_pending (r\<lparr>r_out := ob_commit (r_out r)\<rparr>) of
          (r', Some out) \<Rightarrow> (w1, r', Inr out) | (r', None) \<Rightarrow> (w1, r', Inr OutPending))
      else (w1, r\<lparr>r_out := ob_commit (r_out r), r_state := RxAcknowledging\<rparr>, Inr OutPending))"
    using reply_write [of w r b bs] Cons.prems by auto
  show ?case
  proof (cases "bs = []")
    case True
    then have p1: "receiver_poll p w r = (w1, r1\<lparr>r_out := ob_commit (r_out r)\<rparr>, Inr out)"
      using busy r Cons.prems(6) by (simp add: take_pending_out)
    moreover have "r_pending r1 = None"
      using Cons.prems(6) by (auto simp: receiver_take_pending_def receiver_settle_idle_def Let_def
          split: option.splits pending_action.splits)
    ultimately show ?thesis using True w1 receiver_wf_poll [OF Cons.prems(3) p1] Cons.prems(7)
      by (intro exI [of _ w] exI [of _ r] exI [of _ w1] exI [of _ "r1\<lparr>r_out := ob_commit (r_out r)\<rparr>"]) simp
  next
    case False
    let ?r = "r\<lparr>r_out := ob_commit (r_out r), r_state := RxAcknowledging\<rparr>"
    have p1: "receiver_poll p w r = (w1, ?r, Inr OutPending)" using False busy r by simp
    have tp: "receiver_take_pending ?r = (r1\<lparr>r_out := ob_commit (r_out r)\<rparr>, Some out)"
      using Cons.prems(6) pend by (auto simp: take_pending_out)
    have rest: "ob_rest (r_out ?r) = bs"
      using Cons.prems by (simp add: ob_commit_rest receiver_wf_def)
    have len: "length bs \<le> room w1" using Cons.prems(2) w1(4) by simp
    obtain w0 r0 w' r' where 2: "receiver_polls p (length bs - 1) w1 ?r = (w0, r0, [])"
      "receiver_poll p w0 r0 = (w', r', Inr out)" "ok w'"
      "sent w' = sent w1 @ bs" "avail w' = avail w1" "room w' + length bs = room w1"
      "receiver_wf r'" "r_pending r' = None"
      "rx_session_of r' = rx_session_of r1" "r_assembler r' = r_assembler r1"
      using Cons.IH [OF w1(1) len receiver_wf_poll [OF Cons.prems(3) p1] rest False tp Cons.prems(7)]
      by auto
    have "receiver_polls p (length bs) w r = (w0, r0, [])" using p1 2(1) False by (cases bs) simp_all
    then show ?thesis using 2 w1
      by (intro exI [of _ w0] exI [of _ r0] exI [of _ w'] exI [of _ r']) simp
  qed
qed

lemma poll_partial:
  assumes "ok w" and "avail w = b # bs" and "receiver_wf r" and "r_pending r = None"
    and "length (asm_held (r_assembler r)) < 3"
  shows "\<exists>w' r'. receiver_poll p w r = (w', r', Inr OutPending) \<and> ok w' \<and> sent w' = sent w \<and>
    avail w' = bs \<and> room w' = room w \<and> receiver_wf r' \<and> r_pending r' = None \<and>
    rx_session_of r' = rx_session_of r \<and>
    asm_held (r_assembler r') = asm_held (r_assembler r) @ [b] \<and>
    as_resync (r_assembler r') = as_resync (r_assembler r)"
proof -
  obtain w' where w': "read_byte p w = (w', Inr (Some b))" "ok w'" "sent w' = sent w"
      "avail w' = bs" "room w' = room w"
    using read_next [OF assms(1,2)] by auto
  obtain a where a: "asm_push b (r_assembler r) = (a, None)"
      "asm_held a = asm_held (r_assembler r) @ [b]" "as_resync a = as_resync (r_assembler r)"
    using asm_push_partial [OF _ assms(5), of b] assms(3) by (auto simp: receiver_wf_def)
  let ?r = "r\<lparr>r_state := RxReceiving, r_assembler := a\<rparr>"
  have "receiver_poll p w r = (w', ?r, Inr OutPending)"
    using assms(3,4) w' a by (simp add: receiver_poll_def receiver_wf_def)
  then show ?thesis using w' a receiver_wf_poll [OF assms(3)] assms(4)
    by (intro exI [of _ w'] exI [of _ ?r]) auto
qed

lemma poll_complete:
  assumes "ok w" and "avail w = b # bs" and "4 \<le> room w" and "receiver_wf r"
    and "r_pending r = None" and "asm_held (r_assembler r) = [x, y, z]"
    and "\<not> as_resync (r_assembler r)"
    and "rx_spec (rx_session_of r) (from_bytes [x, y, z, b]) = (st, reply, out)"
  shows "\<exists>w0 r0 w' r'. receiver_polls p (if reply = None then 0 else 3) w r = (w0, r0, []) \<and>
    receiver_poll p w0 r0 = (w', r', Inr out) \<and> ok w' \<and> avail w' = bs \<and>
    sent w' = sent w @ (case reply of None \<Rightarrow> [] | Some f \<Rightarrow> to_bytes f) \<and>
    room w' + (if reply = None then 0 else 4) = room w \<and> at_rest r' \<and> rx_session_of r' = st"
proof -
  obtain w1 where w1: "read_byte p w = (w1, Inr (Some b))" "ok w1" "sent w1 = sent w"
      "avail w1 = bs" "room w1 = room w"
    using read_next [OF assms(1,2)] by auto
  obtain a where a: "asm_push b (r_assembler r) = (a, Some (from_bytes [x, y, z, b]))" "asm_wf a"
      "asm_held a = []" "\<not> as_resync a"
    using asm_push_complete [OF _ assms(6), of b] assms(4,7) by (auto simp: receiver_wf_def)
  let ?r = "r\<lparr>r_state := RxReceiving, r_assembler := a\<rparr>"
  have idle: "ob_is_idle (r_out r)" using assms(4,5) by (simp add: receiver_wf_def)
  have wf: "receiver_wf ?r"
    using assms(4) a(2) receiver_wf_assembler [of "r\<lparr>r_state := RxReceiving\<rparr>" a] by simp
  obtain r1 flag where r1: "receiver_on_frame (from_bytes [x, y, z, b]) ?r = (r1, flag)" by fastforce
  have wf1: "receiver_wf r1"
    using receiver_wf_on_frame [OF wf, of "from_bytes [x, y, z, b]"] r1 idle by simp
  have poll: "receiver_poll p w r = (if flag then receiver_reply p w1 r1 else (w1, r1, Inr OutPending))"
    using idle w1 a r1 by (simp add: receiver_poll_def split: bool.splits)
  note spec = on_frame_spec [OF wf _ _ r1, of st reply out]
  show ?thesis
  proof (cases reply)
    case None
    have "r1\<lparr>r_pending := None\<rparr> = r1" "ob_peek (r_out r1) = None"
      using spec None assms(5,8) wf1 by (auto simp: receiver_wf_def ob_peek_rest ob_idle_rest)
    then have "receiver_poll p w r = (w1, r1, Inr OutPending)"
      using spec None assms(5,8) poll
      by (auto simp: receiver_reply_def receiver_pump_reply_def receiver_take_pending_def)
    then show ?thesis using spec None assms(5,8) w1 wf1 a
      by (intro exI [of _ w] exI [of _ r] exI [of _ w1] exI [of _ r1]) (auto simp: at_rest_def)
  next
    case (Some f)
    then obtain r2 where s: "flag" "ob_rest (r_out r1) = to_bytes f" "r_pending r1 \<noteq> None"
        "out \<noteq> OutPending" "receiver_take_pending r1 = (r2, Some out)" "rx_session_of r2 = st"
        "r_assembler r2 = a"
      using spec assms(5,8) by auto
    then have "receiver_poll p w1 r1 = receiver_reply p w1 r1"
      using wf1 by (auto simp: receiver_poll_def receiver_wf_def)
    then have same: "receiver_polls p (Suc n) w r = receiver_polls p (Suc n) w1 r1" for n
      using poll s(1) by simp
    have three: "receiver_polls p 3 w r = receiver_polls p 3 w1 r1"
      using same [of 2] by (simp del: receiver_polls.simps)
    have len: "length (to_bytes f) = 4" "to_bytes f \<noteq> []" "length (to_bytes f) \<le> room w1"
      using assms(3) w1(5) by (auto simp: FRAME_LEN_def simp flip: length_greater_0_conv)
    obtain w0 r0 w' r' where 2: "receiver_polls p (length (to_bytes f) - 1) w1 r1 = (w0, r0, [])"
      "receiver_poll p w0 r0 = (w', r', Inr out)" "ok w'" "sent w' = sent w1 @ to_bytes f"
      "avail w' = avail w1" "room w' + length (to_bytes f) = room w1" "receiver_wf r'"
      "r_pending r' = None" "rx_session_of r' = rx_session_of r2" "r_assembler r' = r_assembler r2"
      using reply_phase [OF w1(2) len(3) wf1 s(2) len(2) s(5,4)] by auto
    have "receiver_polls p 3 w1 r1 = (w0, r0, [])" using 2(1) unfolding len(1) by simp
    then show ?thesis using 2 len(1) three Some s w1 a
      by (intro exI [of _ w0] exI [of _ r0] exI [of _ w'] exI [of _ r'])
        (simp add: at_rest_def del: length_to_bytes)
  qed
qed

lemma window_step:
  assumes "ok w" and "avail w = win @ bs" and "length win = FRAME_LEN" and "4 \<le> room w"
    and "at_rest r" and "rx_spec (rx_session_of r) (from_bytes win) = (st, reply, out)"
  shows "\<exists>w0 r0 w' r'. receiver_polls p (if reply = None then 3 else 6) w r = (w0, r0, []) \<and>
    receiver_poll p w0 r0 = (w', r', Inr out) \<and> ok w' \<and> avail w' = bs \<and>
    sent w' = sent w @ (case reply of None \<Rightarrow> [] | Some f \<Rightarrow> to_bytes f) \<and>
    room w' + (if reply = None then 0 else 4) = room w \<and> at_rest r' \<and> rx_session_of r' = st"
proof -
  from assms(3) obtain b1 b2 b3 b4 where win: "win = [b1, b2, b3, b4]"
    by (auto simp: FRAME_LEN_def elim: length4E)
  have r: "receiver_wf r" "r_pending r = None" "asm_held (r_assembler r) = []"
    "\<not> as_resync (r_assembler r)" using assms(5) by (auto simp: at_rest_def)
  obtain w1 r1 where 1: "receiver_poll p w r = (w1, r1, Inr OutPending)" "ok w1" "sent w1 = sent w"
      "avail w1 = b2 # b3 # b4 # bs" "room w1 = room w" "receiver_wf r1" "r_pending r1 = None"
      "rx_session_of r1 = rx_session_of r" "asm_held (r_assembler r1) = [b1]"
      "\<not> as_resync (r_assembler r1)"
    using poll_partial [of w b1 "b2 # b3 # b4 # bs" r] assms(1,2) win r by auto
  obtain w2 r2 where 2: "receiver_poll p w1 r1 = (w2, r2, Inr OutPending)" "ok w2" "sent w2 = sent w"
      "avail w2 = b3 # b4 # bs" "room w2 = room w" "receiver_wf r2" "r_pending r2 = None"
      "rx_session_of r2 = rx_session_of r" "asm_held (r_assembler r2) = [b1, b2]"
      "\<not> as_resync (r_assembler r2)"
    using poll_partial [of w1 b2 "b3 # b4 # bs" r1] 1 by auto
  obtain w3 r3 where 3: "receiver_poll p w2 r2 = (w3, r3, Inr OutPending)" "ok w3" "sent w3 = sent w"
      "avail w3 = b4 # bs" "room w3 = room w" "receiver_wf r3" "r_pending r3 = None"
      "rx_session_of r3 = rx_session_of r" "asm_held (r_assembler r3) = [b1, b2, b3]"
      "\<not> as_resync (r_assembler r3)"
    using poll_partial [of w2 b3 "b4 # bs" r2] 2 by auto
  have split: "receiver_polls p (Suc (Suc (Suc n))) w r = receiver_polls p n w3 r3" for n
    using 1(1) 2(1) 3(1) by simp
  have n: "(if reply = None then 3 else 6) = Suc (Suc (Suc (if reply = None then 0 else 3)))" by simp
  show ?thesis unfolding n split
    using poll_complete [OF 3(2,4) _ 3(6,7,9,10), of st reply out] 3 assms(4,6) win by simp
qed

lemma windows_run:
  assumes "ok w" and "avail w = concat ws" and "\<forall>win \<in> set ws. length win = FRAME_LEN"
    and "4 * length ws \<le> room w" and "at_rest r"
    and "rx_spec_run (rx_session_of r) (map from_bytes ws) = (st, bytes, outs)"
  shows "\<exists>n w' r'. n \<le> 7 * length ws \<and> receiver_polls p n w r = (w', r', map Inr outs) \<and>
    sent w' = sent w @ bytes \<and> avail w' = [] \<and> at_rest r' \<and> rx_session_of r' = st"
  using assms
proof (induction ws arbitrary: w r st bytes outs)
  case Nil
  then show ?case by (intro exI [of _ 0]) auto
next
  case (Cons win ws)
  obtain st1 reply out where s1: "rx_spec (rx_session_of r) (from_bytes win) = (st1, reply, out)"
    by (cases "rx_spec (rx_session_of r) (from_bytes win)") auto
  obtain bytes2 outs2 where s2: "rx_spec_run st1 (map from_bytes ws) = (st, bytes2, outs2)"
    and b: "bytes = (case reply of None \<Rightarrow> [] | Some f \<Rightarrow> to_bytes f) @ bytes2"
    and o: "outs = (if out = OutPending then outs2 else out # outs2)"
    using Cons.prems(6) s1 by (auto split: prod.splits)
  obtain w0 r0 w1 r1 where 0: "receiver_polls p (if reply = None then 3 else 6) w r = (w0, r0, [])"
      "receiver_poll p w0 r0 = (w1, r1, Inr out)" and 1: "True" "ok w1" "avail w1 = concat ws"
      "sent w1 = sent w @ (case reply of None \<Rightarrow> [] | Some f \<Rightarrow> to_bytes f)"
      "room w1 + (if reply = None then 0 else 4) = room w" "at_rest r1" "rx_session_of r1 = st1"
    using window_step [of w win "concat ws" r st1 reply out] Cons.prems s1 by auto
  have room: "4 * length ws \<le> room w1" using 1(5) Cons.prems(4) by (simp split: if_splits)
  obtain n w' r' where 2: "n \<le> 7 * length ws" "receiver_polls p n w1 r1 = (w', r', map Inr outs2)"
      "sent w' = sent w1 @ bytes2" "avail w' = []" "at_rest r'" "rx_session_of r' = st"
    using Cons.IH [OF 1(2,3) _ room 1(6), of st bytes2 outs2] Cons.prems(3) s2 1(7) by auto
  show ?case
    using 0 1(4) 2 b o
    by (intro exI [of _ "(if reply = None then 3 else 6) + Suc n"] exI [of _ w'] exI [of _ r'])
      (auto simp only: receiver_polls_add, auto)
qed

end

text \<open>
  C6: over a link that moves bytes, the byte-at-a-time receiver implements the frame-level
  specification: fed any sequence of 4-byte windows, damaged ones included, it reports the
  outcomes of the specification in order, answers with exactly its reply frames, and ends in its
  session, within seven polls per window.
\<close>

theorem receiver_refines_spec:
  assumes "byte_link p sent avail room ok" and "ok w" and "avail w = concat ws"
    and "\<forall>win \<in> set ws. length win = FRAME_LEN" and "4 * length ws \<le> room w" and "at_rest r"
    and "rx_spec_run (rx_session_of r) (map from_bytes ws) = (st, bytes, outs)"
  shows "\<exists>n w' r'. n \<le> 7 * length ws \<and> receiver_polls p n w r = (w', r', map Inr outs) \<and>
    sent w' = sent w @ bytes \<and> avail w' = [] \<and> at_rest r' \<and> rx_session_of r' = st"
  using byte_link.windows_run [OF assms] .

lemma at_rest_new [simp]: "at_rest receiver_new"
  by (simp add: at_rest_def) (simp add: receiver_new_def)

theorem receiver_refines_spec_witness:
  "\<exists>n w' r'. n \<le> 7 * length [[1, 0, 9, 0x54], [1, 0, 9, 0], [1, 0, 9, 0x54], [5, 1, 0, 0xd5 :: u8]] \<and>
    receiver_polls mock_port n (mock_with_incoming [1, 0, 9, 0x54, 1, 0, 9, 0, 1, 0, 9, 0x54, 5, 1, 0, 0xd5])
      receiver_new = (w', r', map Inr
        [OutDelivered 9, OutCrcRejected, OutDuplicateIgnored, OutTransferFinished]) \<and>
    mock_written w' = [] @ [2, 0, 0, 0xd6, 3, 1, 0, 0xa8, 2, 0, 0, 0xd6, 2, 1, 0, 0xc3] \<and>
    mock_avail w' = [] \<and> at_rest r' \<and> rx_session_of r' = RsFinished 1"
proof (rule receiver_refines_spec [OF mock_link.byte_link_axioms, of "mock_with_incoming
      [1, 0, 9, 0x54, 1, 0, 9, 0, 1, 0, 9, 0x54, 5, 1, 0, 0xd5]", unfolded mock_written_with_incoming])
  have dec: "from_bytes [1, 0, 9, 0x54] = Inr (data_frame 0 9)"
    "from_bytes [1, 0, 9, 0] = Inl (CrcMismatch 0x54 0)" "from_bytes [5, 1, 0, 0xd5] = Inr (finish_frame 1)"
    by (simp_all add: from_bytes_def from_u8_def crc8_header_def crc_eval semantics_ok_def
        is_control_def frame_defs Let_def)
  have enc: "to_bytes (ack_frame 0) = [2, 0, 0, 0xd6]" "to_bytes (nack_frame 1) = [3, 1, 0, 0xa8]"
    "to_bytes (ack_frame 1) = [2, 1, 0, 0xc3]"
    by (simp_all add: to_bytes_def frame_defs crc8_header_def crc_eval)
  have "rx_session_of receiver_new = RsOpen 0"
    by (simp add: rx_session_of_def receiver_new_def seq_new_def)
  moreover have "fr_data (data_frame 0 9) = 9" by (simp add: frame_defs)
  ultimately show "rx_spec_run (rx_session_of receiver_new) (map from_bytes
      [[1, 0, 9, 0x54], [1, 0, 9, 0], [1, 0, 9, 0x54], [5, 1, 0, 0xd5]]) = (RsFinished 1,
      [2, 0, 0, 0xd6, 3, 1, 0, 0xa8, 2, 0, 0, 0xd6, 2, 1, 0, 0xc3],
      [OutDelivered 9, OutCrcRejected, OutDuplicateIgnored, OutTransferFinished])"
    by (simp add: dec enc)
qed (simp_all add: FRAME_LEN_def)

end
