(* ===== verification/Line.thy ===== *)
theory Line
  imports Sender Receiver
begin

text \<open>
  The environment of the end-to-end theorems: two tracks of four-byte windows between a sender and
  a receiver, on which a window may be lost or damaged at any time, the ports of the two ends,
  which may fail at any call, and a run of both machines as a list of inputs.  The machines are
  parameters; \<open>Delivery\<close> and \<open>WinDelivery\<close> put in those of the code.
\<close>

section \<open>Tracks\<close>

record track =
  tk_part :: "u8 list"
  tk_queue :: "u8 list list"
  tk_window :: "u8 list"
  tk_rest :: "u8 list"

definition track_new :: track where
  "track_new = \<lparr>tk_part = [], tk_queue = [], tk_window = [], tk_rest = []\<rparr>"

definition track_write :: "u8 \<Rightarrow> track \<Rightarrow> track" where
  "track_write b t =
     (let part = tk_part t @ [b]
      in if length part < FRAME_LEN then t\<lparr>tk_part := part\<rparr>
         else t\<lparr>tk_part := [], tk_queue := tk_queue t @ [part]\<rparr>)"

definition track_read :: "track \<Rightarrow> track \<times> u8 option" where
  "track_read t =
     (case tk_rest t of
        b # bs \<Rightarrow> (t\<lparr>tk_rest := bs\<rparr>, Some b)
      | [] \<Rightarrow>
          (case tk_queue t of
             [] \<Rightarrow> (t, None)
           | w # ws \<Rightarrow> (t\<lparr>tk_queue := ws, tk_window := w, tk_rest := tl w\<rparr>, Some (hd w))))"

definition track_lose :: "nat \<Rightarrow> track \<Rightarrow> track" where
  "track_lose i t = t\<lparr>tk_queue := take i (tk_queue t) @ drop (Suc i) (tk_queue t)\<rparr>"

text \<open>Damage replaces a window by four bytes that the decoder rejects.\<close>

definition track_damage :: "nat \<Rightarrow> u8 list \<Rightarrow> track \<Rightarrow> track" where
  "track_damage i w t =
     (if length w = FRAME_LEN \<and> (case from_bytes w of Inl _ \<Rightarrow> True | Inr _ \<Rightarrow> False)
      then t\<lparr>tk_queue := (tk_queue t)[i := w]\<rparr> else t)"

text \<open>The two ends' transports, over the track out and the track in; \<open>up\<close> says whether they work.\<close>

definition end_port :: "bool \<Rightarrow> (track \<times> track, unit) port" where
  "end_port up =
     \<lparr>write_byte = (\<lambda>b (out, inp). if up then ((track_write b out, inp), Inr ()) else ((out, inp), Inl ())),
      read_byte = (\<lambda>(out, inp). if up then (case track_read inp of (inp', r) \<Rightarrow> ((out, inp'), Inr r))
        else ((out, inp), Inl ()))\<rparr>"

section \<open>A run of two machines\<close>

datatype line_input =
    LnOffer u8 | LnOfferFinish | LnPollSender bool | LnPollReceiver bool
  | LnLoseThere nat | LnLoseBack nat | LnDamageThere nat "u8 list" | LnDamageBack nat "u8 list"

text \<open>
  Two machines on a line: what was accepted, acknowledged and delivered is recorded from the
  results of their operations.
\<close>

record ('s, 'r) line =
  ln_tx :: 's
  ln_rx :: 'r
  ln_there :: track
  ln_back :: track
  ln_accepted :: "u8 list"
  ln_acked :: nat
  ln_finished :: bool
  ln_delivered :: "u8 list"
  ln_closed :: bool

record ('s, 'r) machines =
  mc_offer :: "u8 \<Rightarrow> 's \<Rightarrow> 's \<times> (unit error + unit)"
  mc_finish :: "'s \<Rightarrow> 's \<times> (unit error + unit)"
  mc_send :: "(track \<times> track, unit) port \<Rightarrow> track \<times> track \<Rightarrow> 's \<Rightarrow> (track \<times> track) \<times> 's \<times> (unit error + tx_poll)"
  mc_receive :: "(track \<times> track, unit) port \<Rightarrow> track \<times> track \<Rightarrow> 'r \<Rightarrow> (track \<times> track) \<times> 'r \<times> (unit error + poll_outcome)"

definition line_between :: "'s \<Rightarrow> 'r \<Rightarrow> ('s, 'r) line" where
  "line_between s r = \<lparr>ln_tx = s, ln_rx = r, ln_there = track_new, ln_back = track_new,
     ln_accepted = [], ln_acked = 0, ln_finished = False, ln_delivered = [], ln_closed = False\<rparr>"

definition delivery_of :: "poll_outcome \<Rightarrow> u8 list" where
  "delivery_of out = (case out of OutDelivered b \<Rightarrow> [b] | _ \<Rightarrow> [])"

fun line_step :: "('s, 'r) machines \<Rightarrow> line_input \<Rightarrow> ('s, 'r) line \<Rightarrow> ('s, 'r) line" where
  "line_step mc (LnOffer b) l =
     (case mc_offer mc b (ln_tx l) of
        (s, Inr _) \<Rightarrow> l\<lparr>ln_tx := s, ln_accepted := ln_accepted l @ [b]\<rparr>
      | (s, Inl _) \<Rightarrow> l\<lparr>ln_tx := s\<rparr>)"
| "line_step mc LnOfferFinish l = (case mc_finish mc (ln_tx l) of (s, _) \<Rightarrow> l\<lparr>ln_tx := s\<rparr>)"
| "line_step mc (LnPollSender up) l =
     (case mc_send mc (end_port up) (ln_there l, ln_back l) (ln_tx l) of
        ((there, back), s, r) \<Rightarrow>
          l\<lparr>ln_tx := s, ln_there := there, ln_back := back,
            ln_acked := (if r = Inr PollAcked then Suc (ln_acked l) else ln_acked l),
            ln_finished := (ln_finished l \<or> r = Inr PollTransferDone)\<rparr>)"
| "line_step mc (LnPollReceiver up) l =
     (case mc_receive mc (end_port up) (ln_back l, ln_there l) (ln_rx l) of
        ((back, there), r, res) \<Rightarrow>
          l\<lparr>ln_rx := r, ln_there := there, ln_back := back,
            ln_delivered := ln_delivered l @ (case res of Inr out \<Rightarrow> delivery_of out | Inl _ \<Rightarrow> []),
            ln_closed := (ln_closed l \<or> res = Inr OutTransferFinished)\<rparr>)"
| "line_step mc (LnLoseThere i) l = l\<lparr>ln_there := track_lose i (ln_there l)\<rparr>"
| "line_step mc (LnLoseBack i) l = l\<lparr>ln_back := track_lose i (ln_back l)\<rparr>"
| "line_step mc (LnDamageThere i w) l = l\<lparr>ln_there := track_damage i w (ln_there l)\<rparr>"
| "line_step mc (LnDamageBack i w) l = l\<lparr>ln_back := track_damage i w (ln_back l)\<rparr>"

section \<open>Writing and reading a track\<close>

definition writes :: "out_buf \<Rightarrow> track \<Rightarrow> bool" where
  "writes out t = (ob_wf out \<and>
     (if ob_rest out = [] then tk_part t = [] else tk_part t @ ob_rest out = ob_buf out))"

definition reads :: "assembler \<Rightarrow> track \<Rightarrow> bool" where
  "reads a t = (asm_wf a \<and> \<not> as_resync a \<and> (\<forall>w\<in>set (tk_queue t). length w = FRAME_LEN) \<and>
     (if tk_rest t = [] then asm_held a = []
      else asm_held a \<noteq> [] \<and> asm_held a @ tk_rest t = tk_window t \<and> length (tk_window t) = FRAME_LEN))"

text \<open>The windows the reader has not completed, decoded.\<close>

definition coming :: "track \<Rightarrow> (frame_error + frame) list" where
  "coming t = (if tk_rest t = [] then [] else [from_bytes (tk_window t)]) @ map from_bytes (tk_queue t)"

lemma writes_pump:
  assumes "writes out t" and "ob_rest out = b # bs"
  shows "track_write b t = (if bs = [] then t\<lparr>tk_part := [], tk_queue := tk_queue t @ [ob_buf out]\<rparr>
      else t\<lparr>tk_part := tk_part t @ [b]\<rparr>)"
    and "writes (ob_commit out) (track_write b t)"
proof -
  have buf: "tk_part t @ b # bs = ob_buf out" "length (ob_buf out) = FRAME_LEN"
    using assms by (auto simp: writes_def ob_wf_def)
  then have "length (tk_part t) + Suc (length bs) = FRAME_LEN"
    by (metis length_append length_Cons)
  then show w: "track_write b t = (if bs = [] then t\<lparr>tk_part := [], tk_queue := tk_queue t @ [ob_buf out]\<rparr>
      else t\<lparr>tk_part := tk_part t @ [b]\<rparr>)"
    using buf by (cases bs) (auto simp: track_write_def Let_def)
  show "writes (ob_commit out) (track_write b t)"
    unfolding w using assms buf by (auto simp: writes_def ob_commit_rest)
qed

lemma reads_track_read:
  assumes "reads a t" and "track_read t = (t', r)"
  shows "case r of
      None \<Rightarrow> t' = t \<and> tk_rest t = [] \<and> tk_queue t = []
    | Some b \<Rightarrow> (case asm_push b a of
          (a', None) \<Rightarrow> reads a' t' \<and> tk_rest t' \<noteq> [] \<and> coming t' = coming t
        | (a', Some d) \<Rightarrow> reads a' t' \<and> tk_rest t' = [] \<and> d = from_bytes (tk_window t') \<and>
            coming t = d # coming t') \<and> tk_part t' = tk_part t"
proof (cases "tk_rest t")
  case (Cons b bs)
  then have t': "t' = t\<lparr>tk_rest := bs\<rparr>" "r = Some b" using assms(2) by (auto simp: track_read_def)
  have h: "asm_wf a" "\<not> as_resync a" "asm_held a \<noteq> []" "asm_held a @ b # bs = tk_window t"
      "length (tk_window t) = FRAME_LEN" "\<forall>w\<in>set (tk_queue t). length w = FRAME_LEN"
    using assms(1) Cons by (auto simp: reads_def)
  have "length (asm_held a @ b # bs) = 4" using h(4,5) by (simp add: FRAME_LEN_def)
  then have len: "length (asm_held a) + length bs = 3" by simp
  show ?thesis
  proof (cases "bs = []")
    case True
    then obtain x y z where "asm_held a = [x, y, z]" using len by (auto elim: length3E)
    then show ?thesis using asm_push_complete [OF h(1), of x y z b] h t' Cons True
      by (auto simp: reads_def coming_def)
  next
    case False
    then have "length (asm_held a) < 3" using len by (cases bs) auto
    then show ?thesis using asm_push_partial [OF h(1), of b] h t' Cons False
      by (auto simp: reads_def coming_def)
  qed
next
  case Nil
  show ?thesis
  proof (cases "tk_queue t")
    case Nil
    then show ?thesis using assms(2) \<open>tk_rest t = []\<close> by (auto simp: track_read_def)
  next
    case (Cons w ws)
    then have h: "asm_wf a" "\<not> as_resync a" "asm_held a = []" "length w = FRAME_LEN"
      using assms(1) Nil by (auto simp: reads_def)
    then obtain b b1 b2 b3 where w: "w = [b, b1, b2, b3]" by (auto simp: FRAME_LEN_def elim: length4E)
    then show ?thesis using asm_push_partial [OF h(1), of b] h Cons Nil assms
      by (auto simp: reads_def coming_def track_read_def)
  qed
qed

lemma writes_part: "tk_part t' = tk_part t \<Longrightarrow> writes out t' = writes out t"
  by (simp add: writes_def)

text \<open>A track that has got more windows from its writer.\<close>

definition extends :: "track \<Rightarrow> track \<Rightarrow> (frame_error + frame) list \<Rightarrow> bool" where
  "extends t t' fs = (tk_rest t' = tk_rest t \<and> tk_window t' = tk_window t \<and>
     (\<exists>ws. tk_queue t' = tk_queue t @ ws \<and> fs = map from_bytes ws \<and> (\<forall>w\<in>set ws. length w = FRAME_LEN)))"

lemma extends_refl [simp]: "extends t t []"
  by (simp add: extends_def)

lemma extends_reads: "extends t t' fs \<Longrightarrow> reads a t \<Longrightarrow> reads a t'"
  by (auto simp: extends_def reads_def split: if_splits)

lemma extends_coming: "extends t t' fs \<Longrightarrow> coming t' = coming t @ fs"
  by (auto simp: extends_def coming_def)

lemma extends_write:
  assumes "writes out t" and "ob_rest out = b # bs"
  shows "extends t (track_write b t) (if bs = [] then [from_bytes (ob_buf out)] else [])"
  using writes_pump(1) [OF assms] assms(1) by (auto simp: extends_def writes_def ob_wf_def)

section \<open>Loss and damage\<close>

text \<open>A channel may lose any frame, or damage it so that the decoder rejects it.\<close>

inductive channel_fault :: "(frame_error + 'f) list \<Rightarrow> (frame_error + 'f) list \<Rightarrow> bool" where
  fault_loss: "channel_fault (xs @ x # ys) (xs @ ys)"
| fault_damage: "channel_fault (xs @ x # ys) (xs @ Inl err # ys)"

lemma channel_fault_Cons: "channel_fault xs ys \<Longrightarrow> channel_fault (z # xs) (z # ys)"
  by (induction rule: channel_fault.induct)
    (use fault_loss [of "z # _"] fault_damage [of "z # _"] in auto)

definition perturbed :: "track \<Rightarrow> track \<Rightarrow> bool" where
  "perturbed t t' = (tk_part t' = tk_part t \<and> tk_rest t' = tk_rest t \<and> tk_window t' = tk_window t \<and>
     (\<forall>a. reads a t \<longrightarrow> reads a t') \<and> (coming t' = coming t \<or> channel_fault (coming t) (coming t')))"

lemma fault_at:
  assumes "i < length ws"
  shows "channel_fault (p @ map g ws) (p @ map g (take i ws @ drop (Suc i) ws))"
    and "g w = Inl e \<Longrightarrow> channel_fault (p @ map g ws) (p @ map g (ws[i := w]))"
proof -
  have ws: "ws = take i ws @ ws ! i # drop (Suc i) ws" using assms by (rule id_take_nth_drop)
  have "p @ map g ws = (p @ map g (take i ws)) @ g (ws ! i) # map g (drop (Suc i) ws)"
    by (subst ws) simp
  then show "channel_fault (p @ map g ws) (p @ map g (take i ws @ drop (Suc i) ws))"
    "g w = Inl e \<Longrightarrow> channel_fault (p @ map g ws) (p @ map g (ws[i := w]))"
    using fault_loss [of "p @ map g (take i ws)" "g (ws ! i)"]
      fault_damage [of "p @ map g (take i ws)" "g (ws ! i)"] assms
    by (simp_all add: upd_conv_take_nth_drop)
qed

lemma perturbed_lose: "perturbed t (track_lose i t)"
proof (cases "i < length (tk_queue t)")
  case True
  have "reads a (track_lose i t)" if "reads a t" for a
    using that by (auto simp: reads_def track_lose_def dest: in_set_takeD in_set_dropD split: if_splits)
  moreover have "channel_fault (coming t) (coming (track_lose i t))"
    using fault_at(1) [OF True, of "if tk_rest t = [] then [] else [from_bytes (tk_window t)]" from_bytes]
    by (simp add: coming_def track_lose_def split: if_splits)
  ultimately show ?thesis by (simp add: perturbed_def track_lose_def)
next
  case False
  then have "track_lose i t = t" by (simp add: track_lose_def)
  then show ?thesis by (simp add: perturbed_def)
qed

lemma perturbed_damage: "perturbed t (track_damage i w t)"
proof (cases "i < length (tk_queue t) \<and> length w = FRAME_LEN \<and> (\<exists>e. from_bytes w = Inl e)")
  case True
  then obtain e where e: "from_bytes w = Inl e" "i < length (tk_queue t)" "length w = FRAME_LEN" by auto
  then have t: "track_damage i w t = t\<lparr>tk_queue := (tk_queue t)[i := w]\<rparr>" by (simp add: track_damage_def)
  have "reads a (track_damage i w t)" if "reads a t" for a
    unfolding t using that e(3)
    by (auto simp: reads_def dest: subsetD [OF set_update_subset_insert] split: if_splits)
  moreover have "channel_fault (coming t) (coming (track_damage i w t))"
    unfolding t
    using fault_at(2) [OF e(2), of from_bytes w e "if tk_rest t = [] then [] else [from_bytes (tk_window t)]"] e(1)
    by (simp add: coming_def split: if_splits)
  ultimately show ?thesis by (simp add: perturbed_def t)
next
  case False
  then have "track_damage i w t = t"
    by (cases "i < length (tk_queue t)") (auto simp: track_damage_def list_update_beyond split: sum.splits)
  then show ?thesis by (simp add: perturbed_def)
qed

end
