(* ===== verification/Exchange.thy ===== *)
theory Exchange
  imports Line "HOL-Library.Sublist"
begin

text \<open>
  The stop-and-wait protocol on whole frames: what \<open>src/tx.rs\<close> and \<open>src/rx.rs\<close> promise together.
  A sender works on one frame at a time, two first-in first-out channels may lose or damage any
  frame, and the receiver is its frame-level specification \<open>rx_spec\<close>.  The invariant is the
  classical one of the alternating bit, carried out with the eight-bit sequence numbers of the
  code.  The theory \<open>Delivery\<close> shows that the polls of the code implement this system.
\<close>

section \<open>The system\<close>

datatype exchange_mode = ExWorking | ExDone | ExFailed

record exchange =
  ex_mode :: exchange_mode
  ex_current :: "flight_kind option"
  ex_accepted :: "u8 list"
  ex_acked :: nat
  ex_fwd :: "(frame_error + frame) list"
  ex_back :: "(frame_error + frame) list"
  ex_session :: rx_session
  ex_delivered :: "u8 list"

definition exchange_new :: exchange where
  "exchange_new = \<lparr>ex_mode = ExWorking, ex_current = None, ex_accepted = [], ex_acked = 0,
     ex_fwd = [], ex_back = [], ex_session = RsOpen 0, ex_delivered = []\<rparr>"

definition reply_of :: "frame option \<Rightarrow> (frame_error + frame) list" where
  "reply_of reply = (case reply of None \<Rightarrow> [] | Some f \<Rightarrow> [Inr f])"

inductive exchange_step :: "exchange \<Rightarrow> exchange \<Rightarrow> bool" where
  ex_offer: "ex_mode x = ExWorking \<Longrightarrow> ex_current x = None \<Longrightarrow>
    exchange_step x (x\<lparr>ex_accepted := ex_accepted x @ [b], ex_current := Some (FData b)\<rparr>)"
| ex_finish: "ex_mode x = ExWorking \<Longrightarrow> ex_current x = None \<Longrightarrow>
    exchange_step x (x\<lparr>ex_current := Some FFinish\<rparr>)"
| ex_send: "ex_mode x = ExWorking \<Longrightarrow> ex_current x = Some k \<Longrightarrow>
    exchange_step x (x\<lparr>ex_fwd := ex_fwd x @ [Inr (flight_frame k (of_nat (ex_acked x)))]\<rparr>)"
| ex_ack_data: "ex_mode x = ExWorking \<Longrightarrow> ex_current x = Some (FData b) \<Longrightarrow>
    ex_back x = Inr (ack_frame (of_nat (ex_acked x))) # ys \<Longrightarrow>
    exchange_step x (x\<lparr>ex_back := ys, ex_current := None, ex_acked := Suc (ex_acked x)\<rparr>)"
| ex_ack_finish: "ex_mode x = ExWorking \<Longrightarrow> ex_current x = Some FFinish \<Longrightarrow>
    ex_back x = Inr (ack_frame (of_nat (ex_acked x))) # ys \<Longrightarrow>
    exchange_step x (x\<lparr>ex_back := ys, ex_mode := ExDone\<rparr>)"
| ex_skip: "ex_back x = y # ys \<Longrightarrow> exchange_step x (x\<lparr>ex_back := ys\<rparr>)"
| ex_give_up: "ex_mode x = ExWorking \<Longrightarrow> ex_current x = Some k \<Longrightarrow>
    exchange_step x (x\<lparr>ex_mode := ExFailed\<rparr>)"
| ex_receive: "ex_fwd x = y # ys \<Longrightarrow> rx_spec (ex_session x) y = (st, reply, out) \<Longrightarrow>
    exchange_step x (x\<lparr>ex_fwd := ys, ex_session := st, ex_back := ex_back x @ reply_of reply,
      ex_delivered := ex_delivered x @ delivery_of out\<rparr>)"
| ex_fault_fwd: "channel_fault (ex_fwd x) ys \<Longrightarrow> exchange_step x (x\<lparr>ex_fwd := ys\<rparr>)"
| ex_fault_back: "channel_fault (ex_back x) ys \<Longrightarrow> exchange_step x (x\<lparr>ex_back := ys\<rparr>)"

section \<open>Channels in two phases\<close>

text \<open>First frames of one kind, then frames of another; a damaged frame is of every kind.\<close>

fun two_phase :: "('a \<Rightarrow> bool) \<Rightarrow> ('a \<Rightarrow> bool) \<Rightarrow> 'a list \<Rightarrow> bool" where
  "two_phase P Q [] = True"
| "two_phase P Q (x # xs) = (P x \<and> two_phase P Q xs \<or> Q x \<and> list_all Q xs)"

lemma two_phase_first: "list_all P xs \<Longrightarrow> two_phase P Q xs"
  by (induction xs) auto

lemma two_phase_second: "list_all Q xs \<Longrightarrow> two_phase P Q xs"
  by (cases xs) auto

lemma two_phase_snoc: "two_phase P Q xs \<Longrightarrow> Q y \<Longrightarrow> two_phase P Q (xs @ [y])"
  by (induction xs) auto

lemma two_phase_extend: "two_phase P Q xs \<Longrightarrow> list_all Q ys \<Longrightarrow> two_phase P Q (xs @ ys)"
  by (induction xs) (auto intro: two_phase_second)

lemma two_phase_change: "list_all P xs \<Longrightarrow> Q y \<Longrightarrow> two_phase P Q (xs @ [y])"
  by (simp add: two_phase_first two_phase_snoc)

lemma two_phase_loss: "two_phase P Q (xs @ x # ys) \<Longrightarrow> two_phase P Q (xs @ ys)"
  by (induction xs) (auto intro: two_phase_second)

lemma two_phase_damage: "two_phase P Q (xs @ x # ys) \<Longrightarrow> P z \<Longrightarrow> Q z \<Longrightarrow> two_phase P Q (xs @ z # ys)"
  by (induction xs) (auto intro: two_phase_second)

lemma two_phase_fault:
  assumes "channel_fault xs ys" and "two_phase P Q xs" and "\<And>e. P (Inl e)" and "\<And>e. Q (Inl e)"
  shows "two_phase P Q ys"
  using assms by cases (auto intro: two_phase_loss two_phase_damage)

lemma list_all_fault:
  assumes "channel_fault xs ys" and "list_all P xs" and "\<And>e. P (Inl e)"
  shows "list_all P ys"
  using assms by cases auto

section \<open>The invariant\<close>

definition old_data :: "u8 \<Rightarrow> frame_error + frame \<Rightarrow> bool" where
  "old_data s y = (\<forall>f. y = Inr f \<longrightarrow> (\<exists>b. f = data_frame (s - 1) b))"

definition current_copy :: "flight_kind option \<Rightarrow> u8 \<Rightarrow> frame_error + frame \<Rightarrow> bool" where
  "current_copy c s y = (\<forall>f. y = Inr f \<longrightarrow> (\<exists>k. c = Some k \<and> f = flight_frame k s))"

definition ack_only :: "u8 \<Rightarrow> frame_error + frame \<Rightarrow> bool" where
  "ack_only q y = (\<forall>f. y = Inr f \<longrightarrow> f = ack_frame q \<or> fr_type f = Nack)"

lemmas kind_defs = old_data_def current_copy_def ack_only_def

definition accepted_ok :: "exchange \<Rightarrow> bool" where
  "accepted_ok x =
     (case ex_current x of
        None \<Rightarrow> ex_mode x = ExWorking \<and> length (ex_accepted x) = ex_acked x
      | Some (FData b) \<Rightarrow> ex_mode x \<noteq> ExDone \<and>
          (\<exists>pre. ex_accepted x = pre @ [b] \<and> length pre = ex_acked x)
      | Some FFinish \<Rightarrow> length (ex_accepted x) = ex_acked x
      | _ \<Rightarrow> False)"

text \<open>Before the receiver has seen the current frame: only copies of the last one are answered.\<close>

definition awaiting :: "exchange \<Rightarrow> bool" where
  "awaiting x = (let s = of_nat (ex_acked x) in
     ex_mode x \<noteq> ExDone \<and> ex_session x = RsOpen s \<and>
     ex_delivered x = take (ex_acked x) (ex_accepted x) \<and>
     two_phase (old_data s) (current_copy (ex_current x) s) (ex_fwd x) \<and>
     list_all (ack_only (s - 1)) (ex_back x))"

text \<open>After it has: only copies of the current frame are on the way.\<close>

definition answered :: "exchange \<Rightarrow> bool" where
  "answered x = (let s = of_nat (ex_acked x) in
     ex_current x \<noteq> None \<and>
     ex_session x = (if ex_current x = Some FFinish then RsFinished s else RsOpen (s + 1)) \<and>
     ex_delivered x = ex_accepted x \<and>
     list_all (current_copy (ex_current x) s) (ex_fwd x) \<and>
     two_phase (ack_only (s - 1)) (ack_only s) (ex_back x))"

definition exchange_inv :: "exchange \<Rightarrow> bool" where
  "exchange_inv x = (accepted_ok x \<and> (awaiting x \<or> answered x))"

lemma exchange_inv_new: "exchange_inv exchange_new"
  by (simp add: exchange_inv_def accepted_ok_def awaiting_def exchange_new_def)

lemma kinds_damaged [simp]:
  "old_data s (Inl e)" "current_copy c s (Inl e)" "ack_only q (Inl e)"
  by (simp_all add: kind_defs)

lemma ack_only_nack [simp]: "ack_only q (Inr (nack_frame r))"
  by (simp add: kind_defs)

lemma ack_only_ack [simp]: "ack_only q (Inr (ack_frame r)) \<longleftrightarrow> r = q"
proof -
  have "ack_frame r = ack_frame q \<longleftrightarrow> r = q" by (metis frame_fields(5))
  then show ?thesis by (simp add: kind_defs)
qed

lemma word_pred_neq [simp]: "s - 1 \<noteq> s" "s \<noteq> s - 1" "s + 1 \<noteq> s" for s :: u8
  by (simp_all add: diff_eq_eq)

text \<open>What the specification answers to the only frames that can be at the head.\<close>

lemma rx_spec_old:
  "rx_spec (RsOpen s) (Inr (data_frame (s - 1) b)) = (RsOpen s, Some (ack_frame (s - 1)), OutDuplicateIgnored)"
  by simp

lemma rx_spec_current:
  "rx_spec (RsOpen s) (Inr (flight_frame (FData b) s)) = (RsOpen (s + 1), Some (ack_frame s), OutDelivered b)"
  "rx_spec (RsOpen s) (Inr (flight_frame FFinish s)) = (RsFinished s, Some (ack_frame s), OutTransferFinished)"
  by (simp_all add: frame_defs)

lemma rx_spec_again:
  "rx_spec (RsOpen (s + 1)) (Inr (flight_frame (FData b) s)) = (RsOpen (s + 1), Some (ack_frame s), OutDuplicateIgnored)"
  "rx_spec (RsFinished s) (Inr (flight_frame FFinish s)) = (RsFinished s, Some (ack_frame s), OutTransferFinished)"
  by (simp_all add: frame_defs)

lemma rx_spec_damaged:
  "\<exists>reply out. rx_spec st (Inl err) = (st, reply, out) \<and> delivery_of out = [] \<and>
     list_all (ack_only q) (reply_of reply)"
  by (cases st; cases err) (auto simp: delivery_of_def reply_of_def)


lemma current_copy_frame [simp]: "current_copy (Some k) s (Inr (flight_frame k s))"
  by (simp add: current_copy_def)

lemma accepted_ok_same [simp]:
  "accepted_ok (x\<lparr>ex_fwd := fwd\<rparr>) = accepted_ok x"
  "accepted_ok (x\<lparr>ex_back := back\<rparr>) = accepted_ok x"
  "accepted_ok (x\<lparr>ex_session := st\<rparr>) = accepted_ok x"
  "accepted_ok (x\<lparr>ex_delivered := d\<rparr>) = accepted_ok x"
  by (simp_all add: accepted_ok_def cong: option.case_cong flight_kind.case_cong)

lemma two_phase_current_none: "two_phase P (current_copy None s) xs \<Longrightarrow> two_phase P (current_copy c s) xs"
proof -
  have q: "list_all (current_copy None s) ys \<Longrightarrow> list_all (current_copy c s) ys" for ys
    by (erule list.pred_mono_strong) (auto simp: current_copy_def)
  show "two_phase P (current_copy None s) xs \<Longrightarrow> two_phase P (current_copy c s) xs"
    by (induction xs) (auto simp: q current_copy_def)
qed

lemma current_copies_old:
  "list_all (current_copy (Some (FData b)) s) xs \<Longrightarrow> two_phase (old_data (s + 1)) Q xs"
  by (rule two_phase_first) (erule list.pred_mono_strong, auto simp: kind_defs)

lemma exchange_inv_channels:
  assumes "exchange_inv x"
    and "\<And>P Q. two_phase P Q (ex_fwd x) \<Longrightarrow> (\<And>e. P (Inl e)) \<Longrightarrow> (\<And>e. Q (Inl e)) \<Longrightarrow> two_phase P Q fwd"
    and "\<And>P. list_all P (ex_fwd x) \<Longrightarrow> (\<And>e. P (Inl e)) \<Longrightarrow> list_all P fwd"
    and "\<And>P Q. two_phase P Q (ex_back x) \<Longrightarrow> (\<And>e. P (Inl e)) \<Longrightarrow> (\<And>e. Q (Inl e)) \<Longrightarrow> two_phase P Q back"
    and "\<And>P. list_all P (ex_back x) \<Longrightarrow> (\<And>e. P (Inl e)) \<Longrightarrow> list_all P back"
  shows "exchange_inv (x\<lparr>ex_fwd := fwd, ex_back := back\<rparr>)"
  using assms by (auto simp: exchange_inv_def awaiting_def answered_def Let_def)

lemma two_phase_tail: "two_phase P Q (y # ys) \<Longrightarrow> two_phase P Q ys"
  by (auto intro: two_phase_second)

lemma exchange_inv_receive:
  assumes "exchange_inv x" and "ex_fwd x = y # ys" and "rx_spec (ex_session x) y = (st, reply, out)"
  shows "exchange_inv (x\<lparr>ex_fwd := ys, ex_session := st, ex_back := ex_back x @ reply_of reply,
      ex_delivered := ex_delivered x @ delivery_of out\<rparr>)"
proof (cases y)
  case (Inl err)
  have "\<forall>q. list_all (ack_only q) (reply_of reply)" "st = ex_session x" "delivery_of out = []"
    using rx_spec_damaged [of "ex_session x" err] assms(3) Inl by auto
  moreover have "two_phase P Q ys" if "two_phase P Q (ex_fwd x)" for P Q
    using that assms(2) two_phase_tail by simp
  moreover have "list_all P ys" if "list_all P (ex_fwd x)" for P
    using that assms(2) by simp
  ultimately show ?thesis using assms(1)
    by (auto simp: exchange_inv_def awaiting_def answered_def Let_def two_phase_extend)
next
  case (Inr f)
  let ?s = "of_nat (ex_acked x) :: u8"
  consider (old) b where "awaiting x" "f = data_frame (?s - 1) b"
      "two_phase (old_data ?s) (current_copy (ex_current x) ?s) ys"
    | (fresh) k where "awaiting x" "ex_current x = Some k" "f = flight_frame k ?s"
      "list_all (current_copy (ex_current x) ?s) ys"
    | (again) k where "answered x" "ex_current x = Some k" "f = flight_frame k ?s"
    using assms(1,2) Inr
    by (auto simp: exchange_inv_def awaiting_def answered_def Let_def old_data_def current_copy_def)
  then show ?thesis
  proof cases
    case old
    then have "st = ex_session x" "reply = Some (ack_frame (?s - 1))" "out = OutDuplicateIgnored"
      using assms(3) Inr by (auto simp: awaiting_def Let_def rx_spec_old)
    then show ?thesis using old assms(1)
      by (simp add: exchange_inv_def awaiting_def Let_def delivery_of_def reply_of_def)
  next
    case fresh
    then have "(k = FFinish \<and> st = RsFinished ?s \<and> out = OutTransferFinished \<or>
        (\<exists>b. k = FData b \<and> st = RsOpen (?s + 1) \<and> out = OutDelivered b)) \<and>
        reply = Some (ack_frame ?s)"
      using assms Inr
      by (cases k) (auto simp: awaiting_def Let_def rx_spec_current exchange_inv_def accepted_ok_def
          simp del: rx_spec.simps flight_frame.simps)
    then show ?thesis using fresh assms(1)
      by (auto simp: exchange_inv_def awaiting_def answered_def accepted_ok_def Let_def delivery_of_def
          reply_of_def two_phase_change)
  next
    case again
    then have "st = ex_session x \<and> reply = Some (ack_frame ?s) \<and> delivery_of out = []"
      using assms Inr
      by (cases k) (auto simp: answered_def Let_def rx_spec_again exchange_inv_def accepted_ok_def
          delivery_of_def simp del: rx_spec.simps flight_frame.simps)
    then show ?thesis using again assms(1,2)
      by (auto simp: exchange_inv_def answered_def Let_def reply_of_def intro!: two_phase_snoc)
  qed
qed

lemma exchange_step_inv:
  assumes "exchange_step x x'" and "exchange_inv x"
  shows "exchange_inv x'"
  using assms
proof cases
  case (ex_offer b)
  then show ?thesis using assms(2)
    by (auto simp: exchange_inv_def accepted_ok_def awaiting_def answered_def Let_def
        intro: two_phase_current_none)
next
  case ex_finish
  then show ?thesis using assms(2)
    by (auto simp: exchange_inv_def accepted_ok_def awaiting_def answered_def Let_def
        intro: two_phase_current_none)
next
  case (ex_send k)
  then show ?thesis using assms(2)
    by (auto simp: exchange_inv_def awaiting_def answered_def Let_def intro: two_phase_snoc
        simp del: flight_frame.simps)
next
  case (ex_ack_data b ys)
  then show ?thesis using assms(2)
    by (auto simp: exchange_inv_def accepted_ok_def awaiting_def answered_def Let_def add.commute
        intro: current_copies_old [simplified add.commute])
next
  case (ex_ack_finish ys)
  then show ?thesis using assms(2)
    by (auto simp: exchange_inv_def accepted_ok_def awaiting_def answered_def Let_def
        intro: two_phase_second)
next
  case (ex_skip y ys)
  then have "x' = x\<lparr>ex_fwd := ex_fwd x, ex_back := ys\<rparr>" by simp
  then show ?thesis using exchange_inv_channels [OF assms(2), of "ex_fwd x" ys] ex_skip
    by (simp add: two_phase_tail)
next
  case (ex_give_up k)
  then show ?thesis using assms(2)
    by (auto simp: exchange_inv_def accepted_ok_def awaiting_def answered_def Let_def
        split: flight_kind.splits)
next
  case (ex_receive y ys st reply out)
  then show ?thesis using exchange_inv_receive [OF assms(2)] by simp
next
  case (ex_fault_fwd ys)
  then have "x' = x\<lparr>ex_fwd := ys, ex_back := ex_back x\<rparr>" by simp
  then show ?thesis using exchange_inv_channels [OF assms(2), of ys "ex_back x"] ex_fault_fwd
    by (simp add: two_phase_fault list_all_fault)
next
  case (ex_fault_back ys)
  then have "x' = x\<lparr>ex_fwd := ex_fwd x, ex_back := ys\<rparr>" by simp
  then show ?thesis using exchange_inv_channels [OF assms(2), of "ex_fwd x" ys] ex_fault_back
    by (simp add: two_phase_fault list_all_fault)
qed

lemma exchange_steps_inv: "exchange_step\<^sup>*\<^sup>* x x' \<Longrightarrow> exchange_inv x \<Longrightarrow> exchange_inv x'"
  by (induction rule: rtranclp_induct) (auto intro: exchange_step_inv)

lemma two_phase_set: "two_phase P Q xs \<Longrightarrow> y \<in> set xs \<Longrightarrow> P y \<or> Q y"
  by (induction xs) (auto simp: list_all_iff)

lemma exchange_inv_back:
  "exchange_inv x \<Longrightarrow> Inr f \<in> set (ex_back x) \<Longrightarrow> (\<exists>q. f = ack_frame q) \<or> fr_type f = Nack"
  by (auto simp: exchange_inv_def awaiting_def answered_def Let_def list_all_iff ack_only_def
      dest!: two_phase_set)

lemma exchange_inv_current: "exchange_inv x \<Longrightarrow> ex_current x \<notin> {Some FStart, Some FAbort}"
  by (auto simp: exchange_inv_def accepted_ok_def)

lemma exchange_finish_current:
  assumes "exchange_inv x" and "ex_fwd x = y # ys"
    and "rx_spec (ex_session x) y = (st, reply, OutTransferFinished)"
  shows "ex_current x = Some FFinish"
proof (cases y)
  case (Inl e)
  then show ?thesis using assms(3) by (cases "ex_session x"; cases e) auto
next
  case (Inr f)
  have ft: "fr_type f = Finish"
    using assms(3) Inr by (cases "ex_session x"; cases "fr_type f") (auto split: if_splits)
  let ?s = "of_nat (ex_acked x) :: u8"
  have "old_data ?s y \<or> current_copy (ex_current x) ?s y"
    using assms(1,2) by (auto simp: exchange_inv_def awaiting_def answered_def Let_def)
  then obtain k where k: "ex_current x = Some k" "f = flight_frame k ?s"
    using Inr ft by (auto simp: kind_defs)
  then show ?thesis using ft by (cases k) (simp_all add: frame_defs)
qed

lemma exchange_step_settled:
  assumes "exchange_step x x'"
  shows "(ex_current x = Some FFinish \<longrightarrow> ex_current x' = Some FFinish) \<and>
    (ex_mode x = ExDone \<longrightarrow> ex_mode x' = ExDone)"
  using assms by cases auto

lemma exchange_steps_settled:
  "exchange_step\<^sup>*\<^sup>* x x' \<Longrightarrow> (ex_current x = Some FFinish \<longrightarrow> ex_current x' = Some FFinish) \<and>
    (ex_mode x = ExDone \<longrightarrow> ex_mode x' = ExDone)"
  by (induction rule: rtranclp_induct) (auto dest: exchange_step_settled)

text \<open>
  What the invariant says of the data: nothing is delivered that was not accepted, in order and
  once; everything acknowledged is delivered; a transfer that either side reports as finished
  is complete.
\<close>

definition exchange_safe :: "exchange \<Rightarrow> bool" where
  "exchange_safe x = (prefix (ex_delivered x) (ex_accepted x) \<and>
     ex_acked x \<le> length (ex_delivered x) \<and> length (ex_accepted x) \<le> Suc (ex_acked x) \<and>
     (ex_mode x = ExDone \<longrightarrow> ex_delivered x = ex_accepted x) \<and>
     (ex_current x = Some FFinish \<longrightarrow> ex_delivered x = ex_accepted x))"

lemma exchange_inv_safe:
  assumes "exchange_inv x"
  shows "exchange_safe x"
proof -
  have "length (ex_accepted x) \<le> Suc (ex_acked x) \<and> ex_acked x \<le> length (ex_accepted x)"
    using assms by (auto simp: exchange_inv_def accepted_ok_def
        split: option.splits flight_kind.splits)
  moreover have "ex_current x = Some FFinish \<longrightarrow> length (ex_accepted x) = ex_acked x"
    using assms by (auto simp: exchange_inv_def accepted_ok_def)
  ultimately show ?thesis using assms
    by (auto simp: exchange_inv_def exchange_safe_def awaiting_def answered_def Let_def take_is_prefix)
qed

end
