(* ===== verification/Simulation.thy ===== *)
theory Simulation
  imports Main
begin

text \<open>
  Forward simulation, the interface between a run of the code and the abstract system it
  implements: every step of the concrete machine is matched by finitely many abstract steps, and
  an invariant of the abstract system may be used on the way.
\<close>

locale simulation =
  fixes cstep :: "'i \<Rightarrow> 'c \<Rightarrow> 'c"
    and astep :: "'a \<Rightarrow> 'a \<Rightarrow> bool"
    and sim :: "'c \<Rightarrow> 'a \<Rightarrow> bool"
    and ainv :: "'a \<Rightarrow> bool"
  assumes simulates: "ainv a \<Longrightarrow> sim c a \<Longrightarrow> \<exists>a'. astep\<^sup>*\<^sup>* a a' \<and> sim (cstep i c) a'"
    and preserved: "astep a a' \<Longrightarrow> ainv a \<Longrightarrow> ainv a'"

context simulation
begin

lemma steps_preserved: "astep\<^sup>*\<^sup>* a a' \<Longrightarrow> ainv a \<Longrightarrow> ainv a'"
  by (induction rule: rtranclp_induct) (auto intro: preserved)

lemma run_simulated:
  assumes "ainv a" and "sim c a"
  shows "\<exists>a'. astep\<^sup>*\<^sup>* a a' \<and> sim (fold cstep is c) a' \<and> ainv a'"
  using assms
proof (induction "is" arbitrary: a c)
  case Nil
  then show ?case by auto
next
  case (Cons i "is")
  obtain a1 where 1: "astep\<^sup>*\<^sup>* a a1" "sim (cstep i c) a1"
    using simulates [OF Cons.prems] by blast
  have "ainv a1" using steps_preserved [OF 1(1) Cons.prems(1)] .
  from Cons.IH [OF this 1(2)] obtain a2 where "astep\<^sup>*\<^sup>* a1 a2" "sim (fold cstep is (cstep i c)) a2" "ainv a2"
    by blast
  then show ?case using rtranclp_trans [OF 1(1)] by auto
qed

end

end
