(* ===== verification/Delivery.thy ===== *)
theory Delivery
  imports Exchange Simulation
begin

text \<open>
  One sender and one receiver of the code, polled in any order over a lossy line: the bytes one
  side writes travel in windows of four, a window may be lost or damaged at any time, and every
  poll may find its transport failing.  Each poll of \<open>src/tx.rs\<close> or \<open>src/rx.rs\<close> implements
  steps of the frame-level exchange, so the bytes delivered are the bytes accepted.
\<close>

section \<open>The polls of the sender\<close>

definition sw_machines :: "(sender, receiver) machines" where
  "sw_machines = \<lparr>mc_offer = sender_offer, mc_finish = sender_offer_finish, mc_send = sender_poll,
     mc_receive = receiver_poll\<rparr>"

definition line_new :: "retry_policy \<Rightarrow> (sender, receiver) line" where
  "line_new pol = line_between (sender_with_policy pol) receiver_new"

definition sender_sim :: "sender \<Rightarrow> track \<Rightarrow> track \<Rightarrow> exchange \<Rightarrow> bool" where
  "sender_sim s there back x =
     (sender_wf s \<and> writes (s_out s) there \<and> reads (s_assembler s) back \<and>
      (s_state s \<noteq> TxWaitingAck \<longrightarrow> tk_rest back = []) \<and> ex_back x = coming back \<and>
      s_seq s = of_nat (ex_acked x) \<and>
      (case s_inflight s of
         Some fl \<Rightarrow> ex_mode x = ExWorking \<and> ex_current x = Some (fl_kind fl)
       | None \<Rightarrow> s_state s = TxIdle \<and> ex_mode x = ExWorking \<and> ex_current x = None \<or>
           s_state s = TxFinished \<and> ex_mode x = ExDone \<or> s_state s = TxFailed \<and> ex_mode x = ExFailed))"

text \<open>What a poll of the sender is for the exchange.\<close>

definition sender_polled ::
  "exchange \<Rightarrow> track \<Rightarrow> track \<Rightarrow> (track \<times> track) \<times> sender \<times> (unit error + tx_poll) \<Rightarrow> bool" where
  "sender_polled x there back res = (case res of ((there', back'), s', r) \<Rightarrow>
     tk_part back' = tk_part back \<and>
     (\<exists>x' fs. exchange_step\<^sup>*\<^sup>* x x' \<and> sender_sim s' there' back' x' \<and> extends there there' fs \<and>
        ex_fwd x' = ex_fwd x @ fs \<and> ex_session x' = ex_session x \<and>
        ex_accepted x' = ex_accepted x \<and> ex_delivered x' = ex_delivered x \<and>
        ex_acked x' = (if r = Inr PollAcked then Suc (ex_acked x) else ex_acked x) \<and>
        (r = Inr PollTransferDone \<longrightarrow> ex_mode x' = ExDone)))"

lemma sender_sim_mark [simp]: "sender_sim (s\<lparr>s_mark := m\<rparr>) there back x = sender_sim s there back x"
  by (simp add: sender_sim_def cong: option.case_cong)

lemma sender_polled_quiet:
  assumes "sender_sim s' there back x" and "r \<noteq> Inr PollAcked"
    and "r = Inr PollTransferDone \<Longrightarrow> ex_mode x = ExDone"
  shows "sender_polled x there back ((there, back), s', r)"
  using assms unfolding sender_polled_def by (auto intro!: exI [of _ x] exI [of _ "[]"])

lemma sender_polledI:
  assumes "exchange_step\<^sup>*\<^sup>* x x'" and "sender_sim s' there back' x'" and "tk_part back' = tk_part back"
    and "ex_fwd x' = ex_fwd x" and "ex_session x' = ex_session x"
    and "ex_accepted x' = ex_accepted x" and "ex_delivered x' = ex_delivered x"
    and "ex_acked x' = (if r = Inr PollAcked then Suc (ex_acked x) else ex_acked x)"
    and "r = Inr PollTransferDone \<longrightarrow> ex_mode x' = ExDone"
  shows "sender_polled x there back ((there, back'), s', r)"
  using assms unfolding sender_polled_def by (auto intro!: exI [of _ x'] exI [of _ "[]"])

lemma sender_sim_ticks:
  "sender_sim s there back x \<Longrightarrow> s_inflight s = Some fl \<Longrightarrow>
     sender_sim (s\<lparr>s_inflight := Some (fl\<lparr>fl_empty_ticks := n\<rparr>)\<rparr>) there back x"
  by (simp add: sender_sim_def sender_wf_ticks)

lemma sender_sim_load:
  assumes "sender_sim s there back x" and "s_inflight s = Some fl" and "\<not> fl_waiting fl"
    and "ob_is_idle (s_out s)"
  shows "sender_sim (sender_load_flight_frame s) there back x"
proof -
  have "sender_wf s" "ob_wf (s_out s)" using assms(1) by (auto simp: sender_sim_def sender_wf_def)
  then show ?thesis using assms
    by (auto simp: sender_sim_def sender_load_flight_frame_def sender_wf_def flight_wf_def writes_def
        ob_idle_rest)
qed

lemma sender_polled_write:
  assumes sim: "sender_sim s there back x" and fl: "s_inflight s = Some fl"
    and rest: "ob_rest (s_out s) = b # bs"
  shows "sender_polled x there back (sender_poll (end_port up) (there, back) s)"
proof -
  let ?m = "s\<lparr>s_mark := io_mark_default\<rparr>"
  have wf: "sender_wf s" "ob_wf (s_out s)" and wr: "writes (s_out s) there"
    using sim by (auto simp: sender_sim_def sender_wf_def)
  have busy: "\<not> ob_is_idle (s_out s)" using rest wf(2) by (simp add: ob_idle_rest)
  then have st: "s_state s = TxSending" "ob_buf (s_out s) = to_bytes (flight_frame (fl_kind fl) (s_seq s))"
      "\<not> fl_waiting fl"
    using wf(1) fl by (auto simp: sender_wf_def flight_wf_def)
  show ?thesis
  proof (cases up)
    case False
    then have "sender_poll (end_port up) (there, back) s = ((there, back), ?m, Inl (ErrTransport ()))"
      using busy st rest wf by (simp add: sender_poll_def sender_pump_out_def out_pump_def end_port_def ob_peek_rest)
    then show ?thesis using sim by (auto intro: sender_polled_quiet)
  next
    case True
    let ?o = "?m\<lparr>s_out := ob_commit (s_out s)\<rparr>"
    let ?s = "if bs = [] then sender_frame_written ?o else ?o"
    have p: "sender_poll (end_port up) (there, back) s = ((track_write b there, back), ?s, Inr PollPending)"
      using True busy st rest wf out_pump_write [OF wf(2) rest, of "end_port True" "(there, back)" "(track_write b there, back)"]
      by (auto simp: sender_poll_def sender_pump_out_def end_port_def ob_idle_rest)
    have wf': "sender_wf ?s"
      using sender_wf_poll [OF wf(1), of "end_port up" "(there, back)"] p by simp
    let ?fs = "if bs = [] then [from_bytes (ob_buf (s_out s))] else []"
    let ?x = "x\<lparr>ex_fwd := ex_fwd x @ ?fs\<rparr>"
    have "s_seq s = of_nat (ex_acked x)" "ex_mode x = ExWorking" "ex_current x = Some (fl_kind fl)"
      using sim fl by (auto simp: sender_sim_def)
    moreover have "frame_ok (flight_frame (fl_kind fl) n)" for n
      by (cases "fl_kind fl") simp_all
    ultimately have x: "exchange_step\<^sup>*\<^sup>* x ?x"
      using exchange_step.ex_send [of x "fl_kind fl"] st(2) by auto
    have "sender_sim ?s (track_write b there) back ?x"
      using sim wf' writes_pump(2) [OF wr rest] fl st
      by (auto simp: sender_sim_def sender_frame_written_def reads_def)
    then show ?thesis unfolding p
      using extends_write [OF wr rest] x
      unfolding sender_polled_def by (auto intro!: exI [of _ ?x] exI [of _ ?fs])
  qed
qed

text \<open>A failed attempt leaves the exchange alone, or is the moment it is given up.\<close>

lemma sender_sim_failed:
  assumes "sender_sim s there back x" and "s_inflight s = Some fl" and "tk_rest back = []"
    and "ob_is_idle (s_out s)" and "sender_on_attempt_failed s = (s', r :: unit error + tx_poll)"
  shows "\<exists>m. exchange_step\<^sup>*\<^sup>* x (x\<lparr>ex_mode := m\<rparr>) \<and> sender_sim s' there back (x\<lparr>ex_mode := m\<rparr>) \<and>
    r \<noteq> Inr PollAcked \<and> r \<noteq> Inr PollTransferDone"
proof -
  have "sender_wf (fst (sender_on_attempt_failed s :: sender \<times> (unit error + tx_poll)))"
    using assms(1,4) by (intro sender_wf_attempt_failed) (simp_all add: sender_sim_def)
  then have wf: "sender_wf s'" using assms(5) by simp
  have x: "ex_mode x = ExWorking" "ex_current x = Some (fl_kind fl)"
    using assms(1,2) by (simp_all add: sender_sim_def)
  show ?thesis
  proof (cases "fl_retries_left fl = 0")
    case True
    then show ?thesis using assms wf exchange_step.ex_give_up [OF x]
      by (intro exI [of _ ExFailed]) (auto simp: sender_sim_def sender_on_attempt_failed_def)
  next
    case False
    moreover have "x\<lparr>ex_mode := ExWorking\<rparr> = x" using x by simp
    then have "exchange_step\<^sup>*\<^sup>* x (x\<lparr>ex_mode := ExWorking\<rparr>)" by simp
    ultimately show ?thesis using assms wf
      by (intro exI [of _ ExWorking]) (auto simp: sender_sim_def sender_on_attempt_failed_def)
  qed
qed

lemma sender_polled_failed:
  assumes "sender_sim s there back' (x\<lparr>ex_back := coming back'\<rparr>)" and "s_inflight s = Some fl"
    and "tk_rest back' = []" and "ob_is_idle (s_out s)"
    and "exchange_step\<^sup>*\<^sup>* x (x\<lparr>ex_back := coming back'\<rparr>)" and "tk_part back' = tk_part back"
  shows "sender_polled x there back ((there, back'), sender_on_attempt_failed s)"
proof -
  obtain s' and r :: "unit error + tx_poll" where f: "sender_on_attempt_failed s = (s', r)" by fastforce
  obtain m where m: "exchange_step\<^sup>*\<^sup>* (x\<lparr>ex_back := coming back'\<rparr>) (x\<lparr>ex_back := coming back', ex_mode := m\<rparr>)"
    "sender_sim s' there back' (x\<lparr>ex_back := coming back', ex_mode := m\<rparr>)"
    "r \<noteq> Inr PollAcked" "r \<noteq> Inr PollTransferDone"
    using sender_sim_failed [OF assms(1-4) f] by auto
  have "exchange_step\<^sup>*\<^sup>* x (x\<lparr>ex_back := coming back', ex_mode := m\<rparr>)"
    using assms(5) m(1) by (rule rtranclp_trans)
  then show ?thesis using m assms(6) f unfolding sender_polled_def
    by (auto intro!: exI [of _ "x\<lparr>ex_back := coming back', ex_mode := m\<rparr>"] exI [of _ "[]"])
qed

lemma sender_polled_control:
  assumes inv: "exchange_inv x" and head: "ex_back x = Inr f # coming back'"
    and sim: "sender_sim s there back' (x\<lparr>ex_back := coming back'\<rparr>)" and fl: "s_inflight s = Some fl"
    and idle: "tk_rest back' = []" "ob_is_idle (s_out s)" and part: "tk_part back' = tk_part back"
  shows "sender_polled x there back ((there, back'), sender_on_control f s)"
proof -
  let ?x = "x\<lparr>ex_back := coming back'\<rparr>"
  have skip: "exchange_step\<^sup>*\<^sup>* x ?x" using exchange_step.ex_skip [OF head] by simp
  have wf: "sender_wf s" using sim by (simp add: sender_sim_def)
  have seq: "fl_seq fl = of_nat (ex_acked x)"
    using sim fl wf by (auto simp: sender_sim_def sender_wf_def flight_wf_def)
  have x: "ex_mode x = ExWorking" "ex_current x = Some (fl_kind fl)"
    using sim fl by (simp_all add: sender_sim_def)
  have wf': "sender_wf (fst (sender_on_control f s :: sender \<times> (unit error + tx_poll)))" using wf idle(2) by (rule sender_wf_on_control)
  have dull: ?thesis if "(sender_on_control f s :: sender \<times> (unit error + tx_poll)) = (s\<lparr>s_inflight := Some (fl\<lparr>fl_empty_ticks := 0\<rparr>)\<rparr>, Inr PollPending)"
    unfolding that using skip sender_sim_ticks [OF sim fl] part by (rule sender_polledI) simp_all
  consider (ack) "f = ack_frame (fl_seq fl)" | (stale) q where "f = ack_frame q" "q \<noteq> fl_seq fl"
    | (nack) "fr_type f = Nack"
    using exchange_inv_back [OF inv, of f] head by auto
  then show ?thesis
  proof cases
    case nack
    show ?thesis
    proof (cases "fr_seq f = fl_seq fl")
      case True
      then have "(sender_on_control f s :: sender \<times> (unit error + tx_poll)) = sender_on_attempt_failed (s\<lparr>s_mark := (s_mark s)\<lparr>im_nack := True\<rparr>\<rparr>)"
        using nack fl by (simp add: sender_on_control_def)
      then show ?thesis using sender_polled_failed [OF _ _ idle(1) _ skip part] sim fl idle(2) by simp
    next
      case False
      then show ?thesis using nack fl by (intro dull) (simp add: sender_on_control_def)
    qed
  next
    case stale
    then show ?thesis using fl by (intro dull) (simp add: sender_on_control_def)
  next
    case ack
    then have on: "(sender_on_control f s :: sender \<times> (unit error + tx_poll)) = sender_on_ack s"
      using fl by (simp add: sender_on_control_def)
    have head': "ex_back x = Inr (ack_frame (of_nat (ex_acked x))) # coming back'"
      using head ack seq by simp
    show ?thesis
    proof (cases "fl_kind fl")
      case (FData b)
      let ?y = "x\<lparr>ex_back := coming back', ex_current := None, ex_acked := Suc (ex_acked x)\<rparr>"
      have "exchange_step x ?y" using x FData head' by (auto intro: ex_ack_data)
      then show ?thesis using fl FData sim wf' idle part unfolding on
        by (auto simp: sender_on_ack_def Let_def sender_sim_def seq_advance_def intro!: sender_polledI [of x ?y])
    next
      case FFinish
      let ?y = "x\<lparr>ex_back := coming back', ex_mode := ExDone\<rparr>"
      have "exchange_step x ?y" using x FFinish head' by (auto intro: ex_ack_finish)
      then show ?thesis using fl FFinish sim wf' idle part unfolding on
        by (auto simp: sender_on_ack_def Let_def sender_sim_def intro!: sender_polledI [of x ?y])
    qed (use exchange_inv_current [OF inv] x in simp_all)
  qed
qed

lemma sender_polled_read:
  assumes inv: "exchange_inv x" and sim: "sender_sim s there back x" and fl: "s_inflight s = Some fl"
    and wait: "fl_waiting fl"
  shows "sender_polled x there back (sender_read (end_port up) (there, back) s)"
proof (cases up)
  case False
  then have "sender_read (end_port up) (there, back) s = ((there, back), s, Inl (ErrTransport ()))"
    by (simp add: sender_read_def end_port_def)
  then show ?thesis using sim by (auto intro: sender_polled_quiet)
next
  case True
  have wf: "sender_wf s" and rd: "reads (s_assembler s) back" and bk: "ex_back x = coming back"
    using sim by (auto simp: sender_sim_def)
  have idle: "ob_is_idle (s_out s)" "s_state s = TxWaitingAck"
    using wf fl wait by (auto simp: sender_wf_def flight_wf_def)
  obtain back' q where tr: "track_read back = (back', q)" by fastforce
  note got = reads_track_read [OF rd tr]
  show ?thesis
  proof (cases q)
    case None
    then have none: "back' = back" "tk_rest back = []" using got by auto
    let ?s = "s\<lparr>s_inflight := Some (fl\<lparr>fl_empty_ticks := sat_inc (fl_empty_ticks fl)\<rparr>)\<rparr>"
    have s: "sender_sim ?s there back x" using sim fl by (rule sender_sim_ticks)
    have "x\<lparr>ex_back := coming back\<rparr> = x" using bk by simp
    then have "sender_polled x there back ((there, back), sender_on_attempt_failed ?s)"
      using sender_polled_failed [of ?s there "back" x] s none idle by simp
    then show ?thesis using True tr None none fl s
      by (auto simp: sender_read_def end_port_def Let_def intro: sender_polled_quiet)
  next
    case (Some b)
    obtain a d where ap: "asm_push b (s_assembler s) = (a, d)" by fastforce
    note got' = got [unfolded Some, simplified, unfolded ap, simplified]
    let ?s = "s\<lparr>s_assembler := a\<rparr>"
    have wf': "sender_wf ?s" using wf asm_push_wf [of "s_assembler s" b] ap
      by (intro sender_wf_assembler) (auto simp: sender_wf_def)
    show ?thesis
    proof (cases d)
      case None
      then have "sender_sim ?s there back' x" using got' sim idle wf' fl by (simp add: sender_sim_def)
      then have "sender_polled x there back ((there, back'), ?s, Inr PollPending)"
        using got' by (intro sender_polledI [of x x]) (auto simp: None)
      then show ?thesis using True tr Some ap None by (simp add: sender_read_def end_port_def)
    next
      case dec: (Some dec)
      have st: "reads a back'" "tk_rest back' = []" "coming back = dec # coming back'" "tk_part back' = tk_part back"
        using got' dec by auto
      let ?x = "x\<lparr>ex_back := coming back'\<rparr>"
      have sim': "sender_sim ?s there back' ?x" using st sim wf' fl by (simp add: sender_sim_def)
      show ?thesis
      proof (cases dec)
        case (Inl e)
        have "exchange_step x ?x" using st(3) bk by (simp add: ex_skip)
        then have "sender_polled x there back ((there, back'), ?s, Inr PollPending)"
          using sim' st by (intro sender_polledI [of x ?x]) auto
        then show ?thesis using True tr Some ap dec Inl by (simp add: sender_read_def end_port_def)
      next
        case (Inr f)
        have "sender_polled x there back ((there, back'), sender_on_control f ?s)"
          using sender_polled_control [OF inv _ sim'] bk st fl idle Inr by simp
        then show ?thesis using True tr Some ap dec Inr by (simp add: sender_read_def end_port_def)
      qed
    qed
  qed
qed

lemma sender_polled_poll:
  assumes inv: "exchange_inv x" and sim: "sender_sim s there back x"
  shows "sender_polled x there back (sender_poll (end_port up) (there, back) s)"
proof (cases "s_inflight s")
  case None
  have "ob_is_idle (s_out s)" using sender_wf_None sim None by (simp add: sender_sim_def)
  then show ?thesis using sim None
    by (auto simp: sender_poll_def Let_def sender_sim_def [of s] intro!: sender_polled_quiet)
next
  case (Some fl)
  have wf: "sender_wf s" "ob_wf (s_out s)" using sim by (auto simp: sender_sim_def sender_wf_def)
  show ?thesis
  proof (cases "ob_is_idle (s_out s)")
    case False
    then obtain b bs where "ob_rest (s_out s) = b # bs"
      using wf(2) by (cases "ob_rest (s_out s)") (auto simp: ob_idle_rest)
    then show ?thesis using sender_polled_write [OF sim Some] by simp
  next
    case True
    show ?thesis
    proof (cases "fl_waiting fl")
      case False
      let ?s = "sender_load_flight_frame s"
      have "ob_rest (s_out ?s) = to_bytes (flight_frame (fl_kind fl) (fl_seq fl))" "s_inflight ?s = Some fl"
        using Some by (simp_all add: sender_load_flight_frame_def)
      moreover obtain b bs where "to_bytes (flight_frame (fl_kind fl) (fl_seq fl)) = b # bs"
        by (simp add: to_bytes_def Let_def)
      ultimately show ?thesis
        using sender_polled_write [OF sender_sim_load [OF sim Some False True], of fl b bs up]
          sender_poll_load [OF wf(1) Some False True, of "end_port up" "(there, back)"] by simp
    next
      case wait: True
      have "s_state s = TxWaitingAck" using wf(1) Some wait by (auto simp: sender_wf_def flight_wf_def)
      then have "sender_poll (end_port up) (there, back) s =
          sender_read (end_port up) (there, back) (s\<lparr>s_mark := io_mark_default\<rparr>)"
        using Some wait True by (simp add: sender_poll_def)
      then show ?thesis using sender_polled_read [OF inv, of "s\<lparr>s_mark := io_mark_default\<rparr>"] sim Some wait
        by simp
    qed
  qed
qed

section \<open>The polls of the receiver\<close>

definition receiver_sim :: "receiver \<Rightarrow> track \<Rightarrow> track \<Rightarrow> exchange \<Rightarrow> bool" where
  "receiver_sim r back there x =
     (receiver_wf r \<and> writes (r_out r) back \<and> reads (r_assembler r) there \<and>
      (if r_pending r = None
       then rx_session_of r = ex_session x \<and> ex_fwd x = coming there
       else tk_rest there = [] \<and> ex_fwd x = from_bytes (tk_window there) # coming there \<and>
         (\<exists>st f out r'. rx_spec (ex_session x) (from_bytes (tk_window there)) = (st, Some f, out) \<and>
            out \<noteq> OutPending \<and> ob_buf (r_out r) = to_bytes f \<and>
            receiver_take_pending r = (r', Some out) \<and> rx_session_of r' = st \<and>
            r_assembler r' = r_assembler r)))"

text \<open>What a poll of the receiver is for the exchange: nothing, or the next frame received.\<close>

definition receiver_polled ::
  "exchange \<Rightarrow> track \<Rightarrow> track \<Rightarrow> (track \<times> track) \<times> receiver \<times> (unit error + poll_outcome) \<Rightarrow> bool" where
  "receiver_polled x back there res = (case res of ((back', there'), r', o') \<Rightarrow>
     tk_part there' = tk_part there \<and>
     (\<exists>x' fs. exchange_step\<^sup>*\<^sup>* x x' \<and> receiver_sim r' back' there' x' \<and> extends back back' fs \<and>
        ex_back x' = ex_back x @ fs \<and> ex_mode x' = ex_mode x \<and> ex_current x' = ex_current x \<and>
        ex_accepted x' = ex_accepted x \<and> ex_acked x' = ex_acked x \<and>
        ex_delivered x' = ex_delivered x @ (case o' of Inr out \<Rightarrow> delivery_of out | Inl _ \<Rightarrow> []) \<and>
        (o' = Inr OutTransferFinished \<longrightarrow>
           (\<exists>y ys st reply. ex_fwd x = y # ys \<and> rx_spec (ex_session x) y = (st, reply, OutTransferFinished)))))"

lemma receiver_polled_quiet:
  assumes "receiver_sim r' back there' x" and "tk_part there' = tk_part there"
  shows "receiver_polled x back there ((back, there'), r', Inr OutPending)"
    and "receiver_polled x back there ((back, there'), r', Inl e)"
  using assms unfolding receiver_polled_def
  by (auto simp: delivery_of_def intro!: exI [of _ x] exI [of _ "[]"])

lemma receiver_sim_state [simp]: "receiver_sim (r\<lparr>r_state := st\<rparr>) back there x = receiver_sim r back there x"
  by (auto simp: receiver_sim_def take_pending_out split: prod.splits)

lemma rx_spec_reply_ok: "rx_spec st d = (st', Some f, out) \<Longrightarrow> frame_ok f"
  by (cases st; cases d) (auto split: frame_type.splits if_splits)

lemma take_pending_none: "receiver_take_pending r = (r', out) \<Longrightarrow> r_pending r' = None \<and> r_out r' = r_out r"
  by (auto simp: receiver_take_pending_def receiver_settle_idle_def Let_def
      split: option.splits pending_action.splits)

text \<open>A poll that writes: one byte of the reply, or its last.\<close>

lemma receiver_polled_reply:
  assumes sim: "receiver_sim r back there x" and pend: "r_pending r \<noteq> None"
  shows "receiver_polled x back there (receiver_reply (end_port up) (back, there) r)"
proof -
  obtain st f out r' where sp: "rx_spec (ex_session x) (from_bytes (tk_window there)) = (st, Some f, out)"
      "out \<noteq> OutPending" "ob_buf (r_out r) = to_bytes f" "receiver_take_pending r = (r', Some out)"
      "rx_session_of r' = st" "r_assembler r' = r_assembler r"
    and wf: "receiver_wf r" and wr: "writes (r_out r) back" and rd: "reads (r_assembler r) there"
    and fwd: "tk_rest there = []" "ex_fwd x = from_bytes (tk_window there) # coming there"
    using sim pend by (auto simp: receiver_sim_def)
  have o: "ob_wf (r_out r)" using wf by (simp add: receiver_wf_def)
  then obtain b bs where rest: "ob_rest (r_out r) = b # bs"
    using wf pend by (cases "ob_rest (r_out r)") (auto simp: receiver_wf_def ob_idle_rest)
  show ?thesis
  proof (cases up)
    case False
    then have "receiver_reply (end_port up) (back, there) r = ((back, there), r, Inl (ErrTransport ()))"
      using rest o by (simp add: receiver_reply_def receiver_pump_reply_def end_port_def ob_peek_rest)
    then show ?thesis using sim receiver_polled_quiet(2) by simp
  next
    case True
    let ?c = "r\<lparr>r_out := ob_commit (r_out r)\<rparr>"
    have tp: "receiver_take_pending ?c = (r'\<lparr>r_out := ob_commit (r_out r)\<rparr>, Some out)"
      using sp(4) by (simp add: take_pending_out)
    have rep: "receiver_reply (end_port up) (back, there) r =
        (if bs = [] then ((track_write b back, there), r'\<lparr>r_out := ob_commit (r_out r)\<rparr>, Inr out)
         else ((track_write b back, there), ?c\<lparr>r_state := RxAcknowledging\<rparr>, Inr OutPending))"
      using True rest o tp by (auto simp: receiver_reply_def receiver_pump_reply_def end_port_def
          ob_peek_rest ob_idle_rest ob_commit_rest)
    have wf': "receiver_wf (fst (snd (receiver_reply (end_port up) (back, there) r)))"
      using receiver_wf_reply [OF wf, of "end_port up" "(back, there)"]
      by (cases "receiver_reply (end_port up) (back, there) r") auto
    note wr' = writes_pump(2) [OF wr rest] and ext = extends_write [OF wr rest]
    show ?thesis
    proof (cases "bs = []")
      case False
      have "receiver_sim (?c\<lparr>r_state := RxAcknowledging\<rparr>) (track_write b back) there x"
        using sim pend sp wf' wr' rep False tp by (auto simp: receiver_sim_def take_pending_out)
      then show ?thesis using False ext rep unfolding receiver_polled_def
        by (auto simp: delivery_of_def intro!: exI [of _ x] exI [of _ "[]"])
    next
      case True
      let ?x = "x\<lparr>ex_fwd := coming there, ex_session := st, ex_back := ex_back x @ [Inr f],
          ex_delivered := ex_delivered x @ delivery_of out\<rparr>"
      have "exchange_step x ?x"
        using ex_receive [OF fwd(2) sp(1)] by (simp add: reply_of_def)
      moreover have "receiver_sim (r'\<lparr>r_out := ob_commit (r_out r)\<rparr>) (track_write b back) there ?x"
        using take_pending_none [OF sp(4)] sp rd fwd wf' wr' rep True
        by (simp add: receiver_sim_def)
      moreover have "extends back (track_write b back) [Inr f]"
        using ext True sp(3) rx_spec_reply_ok [OF sp(1)] by simp
      ultimately show ?thesis using True rep sp(1) fwd(2) unfolding receiver_polled_def
        by (auto intro!: exI [of _ ?x] exI [of _ "[Inr f]"])
    qed
  qed
qed

text \<open>A window completed: either the receiver answers nothing, or the reply begins.\<close>

lemma receiver_polled_frame:
  assumes sim: "receiver_sim r back there x" and idle: "r_pending r = None"
    and got: "reads a there'" "tk_rest there' = []" "d = from_bytes (tk_window there')"
      "coming there = d # coming there'" "tk_part there' = tk_part there"
    and on: "receiver_on_frame d (r\<lparr>r_assembler := a\<rparr>) = (r', flag)"
  shows "receiver_polled x back there
    (if flag then receiver_reply (end_port up) (back, there') r' else ((back, there'), r', Inr OutPending))"
proof -
  let ?r = "r\<lparr>r_assembler := a\<rparr>"
  have wf: "receiver_wf ?r" using sim got(1) by (simp add: receiver_sim_def reads_def receiver_wf_assembler)
  have out: "ob_is_idle (r_out r)" "ob_wf (r_out r)" "ob_rest (r_out r) = []"
    using sim idle by (auto simp: receiver_sim_def receiver_wf_def ob_idle_rest)
  have wf': "receiver_wf r'" using receiver_wf_on_frame [OF wf, of d] on out(1) by simp
  obtain st reply out' where sp: "rx_spec (ex_session x) d = (st, reply, out')"
    by (cases "rx_spec (ex_session x) d") auto
  have "rx_session_of ?r = ex_session x" using sim idle by (simp add: receiver_sim_def)
  then have spec: "r_assembler r' = a \<and> (case reply of
      None \<Rightarrow> r_pending r' = None \<and> r_out r' = r_out r \<and> rx_session_of r' = st \<and> out' = OutPending
    | Some f \<Rightarrow> flag \<and> ob_rest (r_out r') = to_bytes f \<and> r_pending r' \<noteq> None \<and> out' \<noteq> OutPending \<and>
        (\<exists>r''. receiver_take_pending r' = (r'', Some out') \<and> rx_session_of r'' = st \<and> r_assembler r'' = a))"
    using on_frame_spec [OF wf _ _ on] sp idle by (simp cong: option.case_cong)
  show ?thesis
  proof (cases reply)
    case None
    then have n: "r_pending r' = None" "r_out r' = r_out r" "rx_session_of r' = st" "out' = OutPending"
        "r_assembler r' = a"
      using spec by auto
    let ?x = "x\<lparr>ex_fwd := coming there', ex_session := st\<rparr>"
    have "ex_fwd x = d # coming there'" using sim idle got(4) by (simp add: receiver_sim_def)
    from ex_receive [OF this sp] have step: "exchange_step x ?x"
      using None n(4) by (simp add: reply_of_def delivery_of_def)
    have "receiver_reply (end_port up) (back, there') r' = ((back, there'), r'\<lparr>r_pending := None\<rparr>, Inr OutPending)"
      using n out by (simp add: receiver_reply_def receiver_pump_reply_def ob_peek_rest receiver_take_pending_def)
    moreover have "r'\<lparr>r_pending := None\<rparr> = r'" using n(1) by (cases r') simp
    moreover have "receiver_sim r' back there' ?x"
      using sim n wf' got(1) by (simp add: receiver_sim_def)
    ultimately show ?thesis using step got(5) unfolding receiver_polled_def
      by (auto simp: delivery_of_def intro!: exI [of _ ?x] exI [of _ "[]"])
  next
    case (Some f)
    then obtain r'' where n: "flag" "ob_rest (r_out r') = to_bytes f" "r_pending r' \<noteq> None" "out' \<noteq> OutPending"
        "receiver_take_pending r' = (r'', Some out')" "rx_session_of r'' = st" "r_assembler r'' = a"
        "r_assembler r' = a"
      using spec by auto
    have o: "ob_wf (r_out r')" using wf' by (simp add: receiver_wf_def)
    have "length (ob_rest (r_out r')) = length (ob_buf (r_out r'))" using n(2) o by (simp add: ob_wf_def)
    then have buf: "ob_buf (r_out r') = to_bytes f" using n(2) o
      by (cases "ob_pos (r_out r')") (auto simp: ob_rest_def ob_wf_def FRAME_LEN_def)
    have "to_bytes f \<noteq> []" by (simp add: to_bytes_def Let_def)
    then have "receiver_sim r' back there' x"
      using sim idle got n buf wf' sp Some o out(3) by (auto simp: receiver_sim_def writes_def)
    from receiver_polled_reply [OF this n(3), of up] show ?thesis
      using n(1) got(5) by (simp add: receiver_polled_def split: prod.splits)
  qed
qed

lemma receiver_polled_poll:
  assumes sim: "receiver_sim r back there x"
  shows "receiver_polled x back there (receiver_poll (end_port up) (back, there) r)"
proof -
  have wf: "receiver_wf r" and rd: "reads (r_assembler r) there" using sim by (auto simp: receiver_sim_def)
  show ?thesis
  proof (cases "r_pending r")
    case (Some p)
    then have "\<not> ob_is_idle (r_out r)" using wf by (auto simp: receiver_wf_def)
    then show ?thesis using receiver_polled_reply [OF sim] Some by (simp add: receiver_poll_def)
  next
    case None
    then have idle: "ob_is_idle (r_out r)" using wf by (auto simp: receiver_wf_def)
    let ?r = "r\<lparr>r_state := RxReceiving\<rparr>"
    have simr: "receiver_sim ?r back there x" using sim by simp
    show ?thesis
    proof (cases up)
      case False
      then have "receiver_poll (end_port up) (back, there) r = ((back, there), ?r, Inl (ErrTransport ()))"
        using idle by (simp add: receiver_poll_def end_port_def)
      then show ?thesis using receiver_polled_quiet(2) [OF simr] by simp
    next
      case True
      obtain there' q where tr: "track_read there = (there', q)" by fastforce
      note got = reads_track_read [OF rd tr]
      show ?thesis
      proof (cases q)
        case None
        then have "receiver_poll (end_port up) (back, there) r =
            ((back, there'), receiver_settle_idle ?r, Inr OutPending)" "there' = there"
          using True idle tr got by (simp_all add: receiver_poll_def end_port_def)
        then show ?thesis using receiver_polled_quiet(1) sim by (simp add: receiver_settle_idle_def)
      next
        case (Some b)
        obtain a d where ap: "asm_push b (r_assembler r) = (a, d)" by fastforce
        note got' = got [unfolded Some, simplified, unfolded ap, simplified]
        show ?thesis
        proof (cases d)
          case none: None
          have "receiver_sim (?r\<lparr>r_assembler := a\<rparr>) back there' x"
            using sim None got' none by (auto simp: receiver_sim_def reads_def receiver_wf_assembler)
          then have "receiver_polled x back there ((back, there'), ?r\<lparr>r_assembler := a\<rparr>, Inr OutPending)"
            using got' none by (intro receiver_polled_quiet(1)) auto
          then show ?thesis using True idle tr Some ap none by (simp add: receiver_poll_def end_port_def)
        next
          case dec: (Some dec)
          obtain r' flag where on: "receiver_on_frame dec (?r\<lparr>r_assembler := a\<rparr>) = (r', flag)" by fastforce
          have "receiver_polled x back there
            (if flag then receiver_reply (end_port up) (back, there') r' else ((back, there'), r', Inr OutPending))"
            using receiver_polled_frame [OF simr _ _ _ _ _ _ on] None got' dec by auto
          then show ?thesis using True idle tr Some ap dec on
            by (cases flag) (simp_all add: receiver_poll_def end_port_def)
        qed
      qed
    qed
  qed
qed

section \<open>The line implements the exchange\<close>

definition line_sim :: "(sender, receiver) line \<Rightarrow> exchange \<Rightarrow> bool" where
  "line_sim l x =
     (sender_sim (ln_tx l) (ln_there l) (ln_back l) x \<and>
      receiver_sim (ln_rx l) (ln_back l) (ln_there l) x \<and>
      ex_accepted x = ln_accepted l \<and> ex_acked x = ln_acked l \<and> ex_delivered x = ln_delivered l \<and>
      (ln_finished l \<longrightarrow> ex_mode x = ExDone) \<and> (ln_closed l \<longrightarrow> ex_current x = Some FFinish))"

lemma line_sim_new: "line_sim (line_new pol) exchange_new"
proof -
  have "s_seq (sender_with_policy pol) = 0" "s_state (sender_with_policy pol) = TxIdle"
    "s_inflight (sender_with_policy pol) = None" "s_out (sender_with_policy pol) = ob_empty"
    "s_assembler (sender_with_policy pol) = asm_new"
    by (simp_all add: sender_with_policy_def seq_new_def)
  moreover have "r_pending receiver_new = None" "r_out receiver_new = ob_empty"
    "r_assembler receiver_new = asm_new" "rx_session_of receiver_new = RsOpen 0"
    by (simp_all add: receiver_new_def rx_session_of_def seq_new_def)
  ultimately show ?thesis
    by (simp add: line_sim_def line_new_def line_between_def exchange_new_def sender_sim_def receiver_sim_def
        track_new_def writes_def reads_def coming_def)
qed

lemma receiver_sim_extend:
  assumes "receiver_sim r back there x" and "extends there there' fs" and "tk_part back' = tk_part back"
    and "ex_fwd x' = ex_fwd x @ fs" and "ex_session x' = ex_session x"
  shows "receiver_sim r back' there' x'"
proof -
  have "tk_rest there' = tk_rest there" "tk_window there' = tk_window there"
    using assms(2) by (simp_all add: extends_def)
  then show ?thesis using assms extends_reads [OF assms(2)] extends_coming [OF assms(2)] writes_part [OF assms(3)]
    by (auto simp: receiver_sim_def)
qed

lemma sender_sim_extend:
  assumes "sender_sim s there back x" and "extends back back' fs" and "tk_part there' = tk_part there"
    and "ex_back x' = ex_back x @ fs" and "ex_mode x' = ex_mode x" and "ex_current x' = ex_current x"
    and "ex_acked x' = ex_acked x"
  shows "sender_sim s there' back' x'"
proof -
  have "tk_rest back' = tk_rest back" using assms(2) by (simp add: extends_def)
  then show ?thesis using assms extends_reads [OF assms(2)] extends_coming [OF assms(2)] writes_part [OF assms(3)]
    by (cases "s_inflight s") (simp_all add: sender_sim_def)
qed

lemma line_sim_there:
  assumes sim: "line_sim l x" and p: "perturbed (ln_there l) t"
  shows "\<exists>x'. exchange_step\<^sup>*\<^sup>* x x' \<and> line_sim (l\<lparr>ln_there := t\<rparr>) x'"
proof -
  let ?fwd = "if r_pending (ln_rx l) = None then coming t
    else from_bytes (tk_window (ln_there l)) # coming t"
  let ?x = "x\<lparr>ex_fwd := ?fwd\<rparr>"
  have "ex_fwd x = ?fwd \<or> channel_fault (ex_fwd x) ?fwd"
    using sim p by (auto simp: line_sim_def receiver_sim_def perturbed_def channel_fault_Cons)
  then have "exchange_step\<^sup>*\<^sup>* x ?x"
  proof
    assume "ex_fwd x = ?fwd"
    then have "?x = x" by (cases x) simp
    then show ?thesis by simp
  next
    assume "channel_fault (ex_fwd x) ?fwd"
    then show ?thesis by (intro r_into_rtranclp ex_fault_fwd)
  qed
  moreover have "line_sim (l\<lparr>ln_there := t\<rparr>) ?x"
    using sim p by (auto simp: line_sim_def sender_sim_def receiver_sim_def perturbed_def writes_def
        cong: option.case_cong)
  ultimately show ?thesis by blast
qed

lemma line_sim_back:
  assumes sim: "line_sim l x" and p: "perturbed (ln_back l) t"
  shows "\<exists>x'. exchange_step\<^sup>*\<^sup>* x x' \<and> line_sim (l\<lparr>ln_back := t\<rparr>) x'"
proof -
  let ?x = "x\<lparr>ex_back := coming t\<rparr>"
  have "ex_back x = coming t \<or> channel_fault (ex_back x) (coming t)"
    using sim p by (auto simp: line_sim_def sender_sim_def perturbed_def)
  then have "exchange_step\<^sup>*\<^sup>* x ?x"
  proof
    assume "ex_back x = coming t"
    then have "?x = x" by (cases x) simp
    then show ?thesis by simp
  next
    assume "channel_fault (ex_back x) (coming t)"
    then show ?thesis by (intro r_into_rtranclp ex_fault_back)
  qed
  moreover have "line_sim (l\<lparr>ln_back := t\<rparr>) ?x"
    using sim p by (auto simp: line_sim_def sender_sim_def receiver_sim_def perturbed_def writes_def
        cong: option.case_cong)
  ultimately show ?thesis by blast
qed

lemma line_sim_begin:
  assumes sim: "line_sim l x" and can: "sender_can_offer_data (ln_tx l)"
    and k: "k = FFinish \<and> acc = [] \<or> k = FData b \<and> acc = [b]"
  shows "\<exists>x'. exchange_step\<^sup>*\<^sup>* x x' \<and>
    line_sim (l\<lparr>ln_tx := sender_begin k (s_seq (ln_tx l)) (ln_tx l), ln_accepted := ln_accepted l @ acc\<rparr>) x'"
proof -
  have st: "s_state (ln_tx l) = TxIdle" "s_inflight (ln_tx l) = None" "ob_is_idle (s_out (ln_tx l))"
    using can by (auto simp: sender_can_offer_data_def)
  then have x: "ex_mode x = ExWorking" "ex_current x = None"
    using sim by (auto simp: line_sim_def sender_sim_def)
  have wf: "sender_wf (ln_tx l)" using sim by (simp add: line_sim_def sender_sim_def)
  let ?s = "sender_begin k (s_seq (ln_tx l)) (ln_tx l)"
  have "sender_wf ?s" using wf st(3) k by (intro sender_wf_begin) (auto simp: sender_wf_def)
  then have "line_sim (l\<lparr>ln_tx := ?s, ln_accepted := ln_accepted l @ acc\<rparr>)
      (x\<lparr>ex_accepted := ex_accepted x @ acc, ex_current := Some k\<rparr>)"
    using sim st x by (auto simp: line_sim_def sender_sim_def receiver_sim_def sender_begin_def)
  moreover have "exchange_step x (x\<lparr>ex_accepted := ex_accepted x @ acc, ex_current := Some k\<rparr>)"
    using k ex_offer [OF x, of b] ex_finish [OF x] by auto
  ultimately show ?thesis by blast
qed

lemma line_sim_offer:
  assumes sim: "line_sim l x"
  shows "\<exists>x'. exchange_step\<^sup>*\<^sup>* x x' \<and> line_sim (line_step sw_machines (LnOffer b) l) x'"
    and "\<exists>x'. exchange_step\<^sup>*\<^sup>* x x' \<and> line_sim (line_step sw_machines LnOfferFinish l) x'"
proof -
  have l: "l\<lparr>ln_tx := ln_tx l\<rparr> = l" "l\<lparr>ln_accepted := ln_accepted l\<rparr> = l" by simp_all
  show "\<exists>x'. exchange_step\<^sup>*\<^sup>* x x' \<and> line_sim (line_step sw_machines (LnOffer b) l) x'"
    using line_sim_begin [OF sim, of "FData b" "[b]" b] sim l
    by (cases "sender_can_offer_data (ln_tx l)") (auto simp: sw_machines_def sender_offer_def seq_current_def)
  show "\<exists>x'. exchange_step\<^sup>*\<^sup>* x x' \<and> line_sim (line_step sw_machines LnOfferFinish l) x'"
    using line_sim_begin [OF sim, of FFinish "[]" b] sim l
    by (cases "sender_can_offer_data (ln_tx l)") (auto simp: sw_machines_def sender_offer_finish_def seq_current_def)
qed

lemma line_sim_step:
  assumes inv: "exchange_inv x" and sim: "line_sim l x"
  shows "\<exists>x'. exchange_step\<^sup>*\<^sup>* x x' \<and> line_sim (line_step sw_machines e l) x'"
proof (cases e)
  case (LnPollSender up)
  obtain there' back' s' r where p: "sender_poll (end_port up) (ln_there l, ln_back l) (ln_tx l) = ((there', back'), s', r)"
    by (cases "sender_poll (end_port up) (ln_there l, ln_back l) (ln_tx l)") auto
  have "sender_polled x (ln_there l) (ln_back l) ((there', back'), s', r)"
    using sender_polled_poll [OF inv, of "ln_tx l" "ln_there l" "ln_back l" up] sim p by (simp add: line_sim_def)
  then obtain x' fs where x': "exchange_step\<^sup>*\<^sup>* x x'" "sender_sim s' there' back' x'" "extends (ln_there l) there' fs"
      "ex_fwd x' = ex_fwd x @ fs" "ex_session x' = ex_session x" "ex_accepted x' = ex_accepted x"
      "ex_delivered x' = ex_delivered x"
      "ex_acked x' = (if r = Inr PollAcked then Suc (ex_acked x) else ex_acked x)"
      "r = Inr PollTransferDone \<longrightarrow> ex_mode x' = ExDone" "tk_part back' = tk_part (ln_back l)"
    unfolding sender_polled_def by auto
  have old: "receiver_sim (ln_rx l) (ln_back l) (ln_there l) x" "ex_accepted x = ln_accepted l"
    "ex_acked x = ln_acked l" "ex_delivered x = ln_delivered l" "ln_finished l \<longrightarrow> ex_mode x = ExDone"
    "ln_closed l \<longrightarrow> ex_current x = Some FFinish"
    using sim by (simp_all add: line_sim_def)
  have "receiver_sim (ln_rx l) back' there' x'"
    using old(1) x'(3,10,4,5) by (rule receiver_sim_extend)
  moreover have "ln_finished l \<or> r = Inr PollTransferDone \<longrightarrow> ex_mode x' = ExDone"
    "ln_closed l \<longrightarrow> ex_current x' = Some FFinish"
    using old(5,6) x'(9) exchange_steps_settled [OF x'(1)] by blast+
  ultimately have "line_sim (line_step sw_machines e l) x'"
    using x'(2,6-8) old(2-4) LnPollSender p by (simp add: line_sim_def sw_machines_def)
  then show ?thesis using x'(1) by blast
next
  case (LnPollReceiver up)
  obtain there' back' r' o' where p: "receiver_poll (end_port up) (ln_back l, ln_there l) (ln_rx l) = ((back', there'), r', o')"
    by (cases "receiver_poll (end_port up) (ln_back l, ln_there l) (ln_rx l)") auto
  have "receiver_polled x (ln_back l) (ln_there l) ((back', there'), r', o')"
    using receiver_polled_poll [of "ln_rx l" "ln_back l" "ln_there l" x up] sim p by (simp add: line_sim_def)
  then obtain x' fs where x': "exchange_step\<^sup>*\<^sup>* x x'" "receiver_sim r' back' there' x'" "extends (ln_back l) back' fs"
      "ex_back x' = ex_back x @ fs" "ex_mode x' = ex_mode x" "ex_current x' = ex_current x"
      "ex_accepted x' = ex_accepted x" "ex_acked x' = ex_acked x"
      "ex_delivered x' = ex_delivered x @ (case o' of Inr out \<Rightarrow> delivery_of out | Inl _ \<Rightarrow> [])"
      "o' = Inr OutTransferFinished \<longrightarrow> ex_current x = Some FFinish" "tk_part there' = tk_part (ln_there l)"
    using exchange_finish_current [OF inv] unfolding receiver_polled_def by auto
  have old: "sender_sim (ln_tx l) (ln_there l) (ln_back l) x" "ex_accepted x = ln_accepted l"
    "ex_acked x = ln_acked l" "ex_delivered x = ln_delivered l" "ln_finished l \<longrightarrow> ex_mode x = ExDone"
    "ln_closed l \<longrightarrow> ex_current x = Some FFinish"
    using sim by (simp_all add: line_sim_def)
  have "sender_sim (ln_tx l) there' back' x'"
    using old(1) x'(3,11,4-6,8) by (rule sender_sim_extend)
  moreover have "ln_finished l \<longrightarrow> ex_mode x' = ExDone"
    "ln_closed l \<or> o' = Inr OutTransferFinished \<longrightarrow> ex_current x' = Some FFinish"
    using old(5,6) x'(5,6,10) by metis+
  ultimately have "line_sim (line_step sw_machines e l) x'"
    using x'(2,7-9) old(2-4) LnPollReceiver p by (simp add: line_sim_def sw_machines_def)
  then show ?thesis using x'(1) by blast
next
  case (LnOffer b)
  then show ?thesis using line_sim_offer(1) [OF sim] by (simp only:)
next
  case LnOfferFinish
  then show ?thesis using line_sim_offer(2) [OF sim] by (simp only:)
next
  case (LnLoseThere i)
  then show ?thesis using line_sim_there [OF sim perturbed_lose] by simp
next
  case (LnLoseBack i)
  then show ?thesis using line_sim_back [OF sim perturbed_lose] by simp
next
  case (LnDamageThere i w)
  then show ?thesis using line_sim_there [OF sim perturbed_damage] by simp
next
  case (LnDamageBack i w)
  then show ?thesis using line_sim_back [OF sim perturbed_damage] by simp
qed

interpretation line_exchange: simulation "line_step sw_machines" exchange_step line_sim exchange_inv
  by unfold_locales (auto intro: line_sim_step exchange_step_inv)

lemma line_run_exchange:
  "\<exists>x. exchange_step\<^sup>*\<^sup>* exchange_new x \<and> line_sim (fold (line_step sw_machines) evs (line_new pol)) x \<and> exchange_inv x"
  by (rule line_exchange.run_simulated [OF exchange_inv_new line_sim_new])

text \<open>
  C1: a sender and a receiver polled in any order over a line that may lose or damage any frame
  at any time, and whose transports may fail at any call: what the receiver delivers is a prefix of
  what the sender accepted, every byte the sender reports as acknowledged has been delivered, at
  most one accepted byte is not yet acknowledged, and once either side reports the transfer as
  finished everything has been delivered.
\<close>

theorem reliable_delivery:
  assumes "l = fold (line_step sw_machines) evs (line_new pol)"
  shows "prefix (ln_delivered l) (ln_accepted l) \<and> ln_acked l \<le> length (ln_delivered l) \<and>
    length (ln_accepted l) \<le> Suc (ln_acked l) \<and>
    (ln_finished l \<or> ln_closed l \<longrightarrow> ln_delivered l = ln_accepted l)"
proof -
  obtain x where x: "line_sim l x" "exchange_inv x"
    using line_run_exchange assms by blast
  then show ?thesis using exchange_inv_safe [OF x(2)] by (auto simp: line_sim_def exchange_safe_def)
qed

definition demo_events :: "line_input list" where
  "demo_events = [LnOffer 7] @ replicate 4 (LnPollSender True) @ [LnLoseThere 0] @
     replicate 7 (LnPollSender True) @ [LnPollReceiver False] @ replicate 8 (LnPollReceiver True) @
     replicate 4 (LnPollSender True) @ [LnOfferFinish] @ replicate 4 (LnPollSender True) @
     replicate 8 (LnPollReceiver True) @ replicate 5 (LnPollSender True)"

lemma demo_line_run:
  "ln_finished (fold (line_step sw_machines) demo_events (line_new (retry_policy_new 3 2)))"
  "ln_accepted (fold (line_step sw_machines) demo_events (line_new (retry_policy_new 3 2))) = [7]"
  by code_simp+

theorem reliable_delivery_witness:
  "ln_delivered (fold (line_step sw_machines) demo_events (line_new (retry_policy_new 3 2))) = [7]"
  using reliable_delivery [OF refl, of demo_events "retry_policy_new 3 2"] demo_line_run by simp

end
