(* ===== verification/WinSender.thy ===== *)
theory WinSender
  imports Sender
begin

text \<open>
  The selective-repeat sender (\<open>src/window/tx.rs\<close>, \<open>src/window/mod.rs\<close>): up to \<open>N \<le> 8\<close> DATA
  frames in flight, each with its own timer and retries.  The array \<open>[Option<TxSlot>; N]\<close> is a
  list of length \<open>N\<close>.  The lemmas show what the window keeps: distinct sequence numbers within
  \<open>limit\<close> of the next one, the oldest of them found by the code's wrapping comparison, and one
  slot being written exactly while the out buffer holds its frame.
\<close>

section \<open>The code\<close>

definition MAX_WINDOW :: nat where
  "MAX_WINDOW = 8"

definition check_window :: "nat \<Rightarrow> bool" where
  "check_window n = (n \<ge> 1 \<and> n \<le> MAX_WINDOW)"

datatype wflight_kind = WData | WStart | WFinish | WAbort

record tx_slot =
  sl_kind :: wflight_kind
  sl_seq :: u8
  sl_payload :: u8
  sl_retries_left :: u8
  sl_written :: bool
  sl_needs_retransmit :: bool
  sl_empty_ticks :: u16

record wsender =
  wt_next_seq :: sequence
  wt_slots :: "tx_slot option list"
  wt_limit :: nat
  wt_state :: tx_state
  wt_policy :: retry_policy
  wt_assembler :: assembler
  wt_out :: out_buf
  wt_writing :: "nat option"
  wt_mark :: io_mark

text \<open>\<open>with_policy\<close> refuses, at compile time, an \<open>N\<close> that \<open>check_window\<close> rejects.\<close>

definition wsender_with_policy :: "nat \<Rightarrow> retry_policy \<Rightarrow> wsender" where
  "wsender_with_policy n policy =
     \<lparr>wt_next_seq = seq_new, wt_slots = replicate n None, wt_limit = n, wt_state = TxIdle,
      wt_policy = policy, wt_assembler = asm_new, wt_out = ob_empty, wt_writing = None,
      wt_mark = io_mark_default\<rparr>"

definition wsender_new :: "nat \<Rightarrow> wsender" where
  "wsender_new n = wsender_with_policy n retry_policy_default"

definition wsender_next_seq :: "wsender \<Rightarrow> u8" where
  "wsender_next_seq s = seq_current (wt_next_seq s)"

definition wsender_outstanding :: "wsender \<Rightarrow> nat" where
  "wsender_outstanding s = occupied (wt_slots s)"

definition wsender_set_window_limit :: "nat \<Rightarrow> wsender \<Rightarrow> wsender" where
  "wsender_set_window_limit limit s =
     (if wsender_outstanding s \<noteq> 0 \<or> \<not> ob_is_idle (wt_out s) then s
      else s\<lparr>wt_limit := if limit = 0 then 1
                         else if limit > length (wt_slots s) then length (wt_slots s) else limit\<rparr>)"

definition has_kind :: "wflight_kind set \<Rightarrow> wsender \<Rightarrow> bool" where
  "has_kind ks s = list_ex (\<lambda>slot. case slot of None \<Rightarrow> False | Some sl \<Rightarrow> sl_kind sl \<in> ks) (wt_slots s)"

definition wsender_holds_session_control :: "wsender \<Rightarrow> bool" where
  "wsender_holds_session_control s = has_kind {WAbort, WStart} s"

definition wsender_take_mark :: "wsender \<Rightarrow> wsender \<times> io_mark" where
  "wsender_take_mark s = (s\<lparr>wt_mark := io_mark_default\<rparr>, wt_mark s)"

definition wsender_find_seq :: "u8 \<Rightarrow> wsender \<Rightarrow> nat option" where
  "wsender_find_seq seq s = position (\<lambda>slot. map_option sl_seq slot = Some seq) (wt_slots s)"

definition wsender_find_free :: "wsender \<Rightarrow> nat option" where
  "wsender_find_free s = position (\<lambda>slot. slot = None) (wt_slots s)"

definition older :: "nat \<Rightarrow> u8 option \<Rightarrow> tx_slot option \<Rightarrow> u8 option" where
  "older limit oldest slot =
     (case slot of
        None \<Rightarrow> oldest
      | Some sl \<Rightarrow> Some (case oldest of
            None \<Rightarrow> sl_seq sl
          | Some base \<Rightarrow> if unat (sl_seq sl - base) \<le> limit then base else sl_seq sl))"

definition wsender_oldest_unacked :: "wsender \<Rightarrow> u8 option" where
  "wsender_oldest_unacked s = foldl (older (wt_limit s)) None (wt_slots s)"

definition wsender_seq_in_send_window :: "u8 \<Rightarrow> wsender \<Rightarrow> bool" where
  "wsender_seq_in_send_window seq s =
     (case wsender_oldest_unacked s of
        None \<Rightarrow> True
      | Some base \<Rightarrow> unat (seq - base) < wt_limit s)"

definition wsender_has_session_flight :: "wsender \<Rightarrow> bool" where
  "wsender_has_session_flight s = has_kind {WStart, WFinish, WAbort} s"

definition wsender_insert ::
  "wflight_kind \<Rightarrow> u8 \<Rightarrow> u8 \<Rightarrow> wsender \<Rightarrow> wsender \<times> ('e error + unit)" where
  "wsender_insert kind seq payload s =
     (case wsender_find_free s of
        None \<Rightarrow> (s, Inl ErrWindowFull)
      | Some i \<Rightarrow>
          (s\<lparr>wt_slots := (wt_slots s)[i := Some \<lparr>sl_kind = kind, sl_seq = seq, sl_payload = payload,
               sl_retries_left = max_retries (wt_policy s), sl_written = False,
               sl_needs_retransmit = False, sl_empty_ticks = 0\<rparr>],
             wt_state := TxSending\<rparr>, Inr ()))"

definition clear_slots :: "wsender \<Rightarrow> wsender" where
  "clear_slots s = s\<lparr>wt_slots := replicate (length (wt_slots s)) None\<rparr>"

definition wsender_offer_start :: "wsender \<Rightarrow> wsender \<times> ('e error + unit)" where
  "wsender_offer_start s =
     (if wt_state s \<notin> {TxIdle, TxFinished, TxAborted, TxFailed} \<and>
         \<not> (wsender_outstanding s = 0 \<and> ob_is_idle (wt_out s)) then (s, Inl ErrNotIdle)
      else if wsender_outstanding s \<noteq> 0 \<or> \<not> ob_is_idle (wt_out s) then (s, Inl ErrNotIdle)
      else wsender_insert WStart 0 0
             ((clear_slots s)\<lparr>wt_next_seq := seq_new, wt_state := TxSending\<rparr>))"

definition wsender_offer :: "u8 \<Rightarrow> wsender \<Rightarrow> wsender \<times> ('e error + unit)" where
  "wsender_offer data s =
     (if wt_state s \<in> {TxFinished, TxAborted, TxFailed} then (s, Inl ErrNotIdle)
      else if wsender_has_session_flight s then (s, Inl ErrNotIdle)
      else
        let seq = seq_current (wt_next_seq s)
        in if \<not> wsender_seq_in_send_window seq s \<or> wsender_find_free s = None
           then (s, Inl ErrWindowFull)
           else (case wsender_insert WData seq data s of
               (s', Inl e) \<Rightarrow> (s', Inl e)
             | (s', Inr _) \<Rightarrow> (s'\<lparr>wt_next_seq := fst (seq_advance (wt_next_seq s'))\<rparr>, Inr ())))"

definition wsender_offer_finish :: "wsender \<Rightarrow> wsender \<times> ('e error + unit)" where
  "wsender_offer_finish s =
     (if wt_state s \<in> {TxFinished, TxAborted, TxFailed} then (s, Inl ErrNotIdle)
      else if wsender_outstanding s \<noteq> 0 \<or> wsender_has_session_flight s then (s, Inl ErrNotIdle)
      else wsender_insert WFinish (seq_current (wt_next_seq s)) 0 s)"

definition wsender_offer_abort :: "wsender \<Rightarrow> wsender \<times> ('e error + unit)" where
  "wsender_offer_abort s =
     (if wt_state s = TxAborted \<and> wsender_outstanding s = 0 \<and> ob_is_idle (wt_out s) then (s, Inr ())
      else if has_kind {WAbort} s then (s, Inr ())
      else wsender_insert WAbort 0 0
             ((clear_slots s)\<lparr>wt_out := ob_empty, wt_writing := None,
                wt_assembler := asm_reset (wt_assembler s), wt_next_seq := seq_new,
                wt_state := TxSending\<rparr>))"

definition wsender_force_abort :: "wsender \<Rightarrow> wsender" where
  "wsender_force_abort s =
     (clear_slots s)\<lparr>wt_out := ob_empty, wt_writing := None,
        wt_assembler := asm_reset (wt_assembler s), wt_state := TxAborted\<rparr>"

definition wsender_pump_out ::
  "('w, 'e) port \<Rightarrow> 'w \<Rightarrow> wsender \<Rightarrow> 'w \<times> wsender \<times> ('e error + bool)" where
  "wsender_pump_out p w s =
     (case out_pump p w (wt_out s) of (w', out', r) \<Rightarrow> (w', s\<lparr>wt_out := out'\<rparr>, r))"

fun next_to_write_from :: "nat \<Rightarrow> nat option \<Rightarrow> tx_slot option list \<Rightarrow> nat option" where
  "next_to_write_from i first_new [] = first_new"
| "next_to_write_from i first_new (None # slots) = next_to_write_from (Suc i) first_new slots"
| "next_to_write_from i first_new (Some sl # slots) =
     (if sl_needs_retransmit sl then Some i
      else next_to_write_from (Suc i)
             (if \<not> sl_written sl \<and> first_new = None then Some i else first_new) slots)"

definition wsender_next_to_write :: "wsender \<Rightarrow> nat option" where
  "wsender_next_to_write s = next_to_write_from 0 None (wt_slots s)"

definition slot_frame :: "tx_slot \<Rightarrow> frame" where
  "slot_frame sl = (case sl_kind sl of
     WData \<Rightarrow> data_frame (sl_seq sl) (sl_payload sl)
   | WStart \<Rightarrow> start_frame
   | WFinish \<Rightarrow> finish_frame (sl_seq sl)
   | WAbort \<Rightarrow> abort_frame)"

definition wsender_load_slot :: "nat \<Rightarrow> wsender \<Rightarrow> wsender \<times> bool" where
  "wsender_load_slot i s =
     (case wt_slots s ! i of
        None \<Rightarrow> (s, False)
      | Some sl \<Rightarrow> (s\<lparr>wt_out := ob_load (slot_frame sl) (wt_out s), wt_writing := Some i,
                     wt_state := TxSending\<rparr>, True))"

definition wsender_finish_write :: "wsender \<Rightarrow> wsender" where
  "wsender_finish_write s =
     (let s1 = (case wt_writing s of
            None \<Rightarrow> s
          | Some i \<Rightarrow> s\<lparr>wt_slots := (wt_slots s)[i := map_option (\<lambda>sl. sl\<lparr>sl_written := True,
                         sl_needs_retransmit := False, sl_empty_ticks := 0\<rparr>) (wt_slots s ! i)],
                       wt_writing := None\<rparr>)
      in s1\<lparr>wt_assembler := asm_reset (wt_assembler s1),
            wt_state := if wsender_outstanding s1 = 0 then TxIdle else TxWaitingAck,
            wt_mark := (wt_mark s1)\<lparr>im_frame_on_wire := True\<rparr>\<rparr>)"

definition wsender_on_ack :: "u8 \<Rightarrow> wsender \<Rightarrow> wsender \<times> ('e error + tx_poll)" where
  "wsender_on_ack seq s =
     (case wsender_find_seq seq s of
        None \<Rightarrow> (s, Inr PollPending)
      | Some i \<Rightarrow>
          (case wt_slots s ! i of
             None \<Rightarrow> (s, Inr PollPending)
           | Some sl \<Rightarrow>
               if \<not> sl_written sl then (s, Inr PollPending)
               else let s' = s\<lparr>wt_slots := (wt_slots s)[i := None]\<rparr>
                    in (case sl_kind sl of
                          WData \<Rightarrow> (s'\<lparr>wt_state := if wsender_outstanding s' = 0 then TxIdle
                                                    else TxWaitingAck\<rparr>, Inr PollAcked)
                        | WStart \<Rightarrow> (s'\<lparr>wt_next_seq := seq_new, wt_state := TxIdle\<rparr>, Inr PollSessionReady)
                        | WFinish \<Rightarrow> (s'\<lparr>wt_state := TxFinished\<rparr>, Inr PollTransferDone)
                        | WAbort \<Rightarrow> (s'\<lparr>wt_state := TxAborted\<rparr>, Inr PollAborted))))"

definition slot_retry :: "tx_slot \<Rightarrow> tx_slot" where
  "slot_retry sl = sl\<lparr>sl_retries_left := sl_retries_left sl - 1, sl_needs_retransmit := True,
     sl_empty_ticks := 0\<rparr>"

definition wsender_on_nack :: "u8 \<Rightarrow> wsender \<Rightarrow> wsender \<times> ('e error + tx_poll)" where
  "wsender_on_nack seq s =
     (case wsender_find_seq seq s of
        None \<Rightarrow> (s, Inr PollPending)
      | Some i \<Rightarrow>
          (case wt_slots s ! i of
             None \<Rightarrow> (s, Inr PollPending)
           | Some sl \<Rightarrow>
               if \<not> sl_written sl then (s, Inr PollPending)
               else if sl_retries_left sl = 0
                 then ((clear_slots s)\<lparr>wt_state := TxFailed\<rparr>, Inl ErrRetriesExhausted)
               else (s\<lparr>wt_slots := (wt_slots s)[i := Some (slot_retry sl)], wt_state := TxRetrying,
                       wt_mark := (wt_mark s)\<lparr>im_nack := True, im_retransmit := True\<rparr>\<rparr>,
                     Inr PollPending)))"

text \<open>
  The loop of \<open>tick_timeouts\<close> over the slots from index \<open>i\<close> on: the slots it leaves, whether it
  asked for a retransmission, and whether it stopped at a slot without retries.
\<close>

fun wtick_slots :: "u16 \<Rightarrow> nat option \<Rightarrow> nat \<Rightarrow> tx_slot option list \<Rightarrow>
    tx_slot option list \<times> bool \<times> bool" where
  "wtick_slots timeout writing i [] = ([], False, False)"
| "wtick_slots timeout writing i (None # slots) =
     (case wtick_slots timeout writing (Suc i) slots of (slots', again, failed) \<Rightarrow>
        (None # slots', again, failed))"
| "wtick_slots timeout writing i (Some sl # slots) =
     (if writing = Some i \<or> \<not> sl_written sl \<or> sl_needs_retransmit sl
      then (case wtick_slots timeout writing (Suc i) slots of (slots', again, failed) \<Rightarrow>
              (Some sl # slots', again, failed))
      else
        let sl' = sl\<lparr>sl_empty_ticks := sat_inc (sl_empty_ticks sl)\<rparr>
        in if sl_empty_ticks sl' < timeout
           then (case wtick_slots timeout writing (Suc i) slots of (slots', again, failed) \<Rightarrow>
                   (Some sl' # slots', again, failed))
           else if sl_retries_left sl' = 0 then (Some sl' # slots, False, True)
           else (case wtick_slots timeout writing (Suc i) slots of (slots', again, failed) \<Rightarrow>
                   (Some (slot_retry sl') # slots', True, failed)))"

definition wsender_tick_timeouts :: "wsender \<Rightarrow> wsender \<times> ('e error + tx_poll)" where
  "wsender_tick_timeouts s =
     (case wtick_slots (timeout_ticks (wt_policy s)) (wt_writing s) 0 (wt_slots s) of
        (slots', again, failed) \<Rightarrow>
          let s1 = (if again then s\<lparr>wt_state := TxRetrying,
                      wt_mark := (wt_mark s)\<lparr>im_retransmit := True\<rparr>\<rparr> else s)
          in if failed then ((clear_slots s1)\<lparr>wt_state := TxFailed\<rparr>, Inl ErrRetriesExhausted)
             else (s1\<lparr>wt_slots := slots'\<rparr>, Inr PollPending))"

definition wsender_on_control :: "frame \<Rightarrow> wsender \<Rightarrow> wsender \<times> ('e error + tx_poll)" where
  "wsender_on_control f s =
     (case fr_type f of
        Ack \<Rightarrow> wsender_on_ack (fr_seq f) s
      | Nack \<Rightarrow> wsender_on_nack (fr_seq f) s
      | Abort \<Rightarrow> (wsender_force_abort s, Inr PollAborted)
      | _ \<Rightarrow> (s, Inr PollPending))"

definition wsender_read :: "('w, 'e) port \<Rightarrow> 'w \<Rightarrow> wsender \<Rightarrow> 'w \<times> wsender \<times> ('e error + tx_poll)" where
  "wsender_read p w s =
     (case read_byte p w of
        (w', Inl e) \<Rightarrow> (w', s, Inl (ErrTransport e))
      | (w', Inr (Some byte)) \<Rightarrow>
          (case asm_push byte (wt_assembler s) of
             (a, None) \<Rightarrow> (w', s\<lparr>wt_assembler := a\<rparr>, Inr PollPending)
           | (a, Some (Inl _)) \<Rightarrow> (w', s\<lparr>wt_assembler := a\<rparr>, Inr PollPending)
           | (a, Some (Inr f)) \<Rightarrow> (w', wsender_on_control f (s\<lparr>wt_assembler := a\<rparr>)))
      | (w', Inr None) \<Rightarrow> (w', wsender_tick_timeouts s))"

definition wsender_write :: "('w, 'e) port \<Rightarrow> 'w \<Rightarrow> wsender \<Rightarrow> 'w \<times> wsender \<times> ('e error + tx_poll)" where
  "wsender_write p w s =
     (case wsender_pump_out p w s of
        (w', s', Inl e) \<Rightarrow> (w', s', Inl e)
      | (w', s', Inr done) \<Rightarrow> (w', if done then wsender_finish_write s' else s', Inr PollPending))"

definition wsender_poll :: "('w, 'e) port \<Rightarrow> 'w \<Rightarrow> wsender \<Rightarrow> 'w \<times> wsender \<times> ('e error + tx_poll)" where
  "wsender_poll p w s =
     (if wt_state s = TxFailed then (w, s, Inl ErrRetriesExhausted)
      else if wt_state s = TxAborted \<and> wsender_outstanding s = 0 then (w, s, Inr PollAborted)
      else if wt_state s = TxFinished \<and> wsender_outstanding s = 0 then (w, s, Inr PollTransferDone)
      else if \<not> ob_is_idle (wt_out s) then wsender_write p w s
      else (case wsender_next_to_write s of
          Some i \<Rightarrow>
            (case wsender_load_slot i s of
               (s', True) \<Rightarrow> wsender_write p w s'
             | (s', False) \<Rightarrow> (w, s', Inr PollPending))
        | None \<Rightarrow> wsender_read p w s))"

text \<open>
  The blocking loops: poll until \<open>stop\<close> gives the result for what the poll reported.  Errors of
  the poll end the loop; \<open>None\<close> means that it polls for ever.
\<close>

partial_function (option) wsender_until ::
  "(wsender \<Rightarrow> tx_poll \<Rightarrow> ('e error + unit) option) \<Rightarrow> ('w, 'e) port \<Rightarrow> 'w \<Rightarrow> wsender \<Rightarrow>
     ('w \<times> wsender \<times> ('e error + unit)) option" where
  "wsender_until stop p w s =
     (case wsender_poll p w s of
        (w', s', Inl e) \<Rightarrow> Some (w', s', Inl e)
      | (w', s', Inr r) \<Rightarrow>
          (case stop s' r of
             Some res \<Rightarrow> Some (w', s', res)
           | None \<Rightarrow> wsender_until stop p w' s'))"

fun stop_session :: "wsender \<Rightarrow> tx_poll \<Rightarrow> ('e error + unit) option" where
  "stop_session s PollPending = None"
| "stop_session s PollAcked = None"
| "stop_session s PollAborted = Some (Inl ErrAborted)"
| "stop_session s _ = Some (Inr ())"

fun stop_abort :: "wsender \<Rightarrow> tx_poll \<Rightarrow> ('e error + unit) option" where
  "stop_abort s PollPending = None"
| "stop_abort s PollAcked = None"
| "stop_abort s _ = Some (Inr ())"

fun stop_acked :: "u8 \<Rightarrow> wsender \<Rightarrow> tx_poll \<Rightarrow> ('e error + unit) option" where
  "stop_acked seq s PollAcked = (if wsender_find_seq seq s = None then Some (Inr ()) else None)"
| "stop_acked seq s PollPending = None"
| "stop_acked seq s PollAborted = Some (Inl ErrAborted)"
| "stop_acked seq s _ = Some (Inr ())"

text \<open>Offer again, polling once in between, while the refusal is one that polling can lift.\<close>

partial_function (option) wsender_offer_until ::
  "(wsender \<Rightarrow> wsender \<times> ('e error + unit)) \<Rightarrow> (wsender \<Rightarrow> 'e error \<Rightarrow> bool) \<Rightarrow> ('w, 'e) port \<Rightarrow>
     'w \<Rightarrow> wsender \<Rightarrow> ('w \<times> wsender \<times> ('e error + unit)) option" where
  "wsender_offer_until off again p w s =
     (case off s of
        (s', Inr _) \<Rightarrow> Some (w, s', Inr ())
      | (s', Inl e) \<Rightarrow>
          if again s' e
          then (case wsender_poll p w s' of
                  (w', s'', Inl e') \<Rightarrow> Some (w', s'', Inl e')
                | (w', s'', Inr _) \<Rightarrow> wsender_offer_until off again p w' s'')
          else Some (w, s', Inl e))"

definition wsender_send_start ::
  "('w, 'e) port \<Rightarrow> 'w \<Rightarrow> wsender \<Rightarrow> ('w \<times> wsender \<times> ('e error + unit)) option" where
  "wsender_send_start p w s =
     (case wsender_offer_start s of
        (s', Inl e) \<Rightarrow> Some (w, s', Inl e)
      | (s', Inr _) \<Rightarrow> wsender_until stop_session p w s')"

definition wsender_send_byte ::
  "('w, 'e) port \<Rightarrow> u8 \<Rightarrow> 'w \<Rightarrow> wsender \<Rightarrow> ('w \<times> wsender \<times> ('e error + unit)) option" where
  "wsender_send_byte p data w s =
     Option.bind (wsender_offer_until (wsender_offer data) (\<lambda>s e. e = ErrWindowFull) p w s)
       (\<lambda>(w', s', r). case r of
            Inl e \<Rightarrow> Some (w', s', Inl e)
          | Inr _ \<Rightarrow> wsender_until (stop_acked (seq_current (wt_next_seq s') - 1)) p w' s')"

definition wsender_send_finish ::
  "('w, 'e) port \<Rightarrow> 'w \<Rightarrow> wsender \<Rightarrow> ('w \<times> wsender \<times> ('e error + unit)) option" where
  "wsender_send_finish p w s =
     Option.bind (wsender_offer_until wsender_offer_finish
         (\<lambda>s e. e = ErrNotIdle \<and> wsender_outstanding s > 0) p w s)
       (\<lambda>(w', s', r). case r of
            Inl e \<Rightarrow> Some (w', s', Inl e)
          | Inr _ \<Rightarrow> wsender_until stop_session p w' s')"

definition wsender_send_abort ::
  "('w, 'e) port \<Rightarrow> 'w \<Rightarrow> wsender \<Rightarrow> ('w \<times> wsender \<times> ('e error + unit)) option" where
  "wsender_send_abort p w s =
     (case wsender_offer_abort s of
        (s', Inl e) \<Rightarrow> Some (w, s', Inl e)
      | (s', Inr _) \<Rightarrow> wsender_until stop_abort p w s')"

section \<open>The window\<close>

text \<open>
  DATA slots carry distinct sequence numbers, each between 1 and \<open>limit\<close> behind the next one; a
  session slot (START, FINISH, ABORT) is alone and carries the next sequence number itself.
\<close>

definition window_ok :: "u8 \<Rightarrow> nat \<Rightarrow> tx_slot option list \<Rightarrow> bool" where
  "window_ok nxt limit slots =
     ((\<forall>i < length slots. \<forall>sl. slots ! i = Some sl \<longrightarrow>
         (if sl_kind sl = WData then 1 \<le> unat (nxt - sl_seq sl) \<and> unat (nxt - sl_seq sl) \<le> limit
          else sl_seq sl = nxt \<and> (sl_kind sl \<in> {WStart, WAbort} \<longrightarrow> nxt = 0) \<and>
            (\<forall>j < length slots. slots ! j \<noteq> None \<longrightarrow> j = i))) \<and>
      (\<forall>i < length slots. \<forall>j < length slots. \<forall>a b. slots ! i = Some a \<longrightarrow> slots ! j = Some b \<longrightarrow>
         sl_seq a = sl_seq b \<longrightarrow> i = j))"

definition same_flight :: "tx_slot \<Rightarrow> tx_slot \<Rightarrow> bool" where
  "same_flight a b = (sl_kind a = sl_kind b \<and> sl_seq a = sl_seq b \<and> sl_payload a = sl_payload b \<and>
     sl_retries_left b \<le> sl_retries_left a)"

definition same_slots :: "tx_slot option list \<Rightarrow> tx_slot option list \<Rightarrow> bool" where
  "same_slots xs ys = list_all2 (rel_option same_flight) xs ys"

lemma window_ok_none [simp]: "window_ok nxt limit (replicate n None)"
  by (simp add: window_ok_def)

lemma window_ok_shrink:
  assumes "window_ok nxt limit xs" and "length ys = length xs"
    and "\<And>j b. j < length xs \<Longrightarrow> ys ! j = Some b \<Longrightarrow>
      \<exists>a. xs ! j = Some a \<and> sl_kind a = sl_kind b \<and> sl_seq a = sl_seq b"
  shows "window_ok nxt limit ys"
  unfolding window_ok_def
proof (intro conjI allI impI)
  fix i b assume i: "i < length ys" "ys ! i = Some b"
  then obtain a where a: "xs ! i = Some a" "sl_kind a = sl_kind b" "sl_seq a = sl_seq b" "i < length xs"
    using assms(2,3) by metis
  have none: "ys ! j \<noteq> None \<longrightarrow> xs ! j \<noteq> None" if "j < length xs" for j
    using assms(3) [OF that] by (cases "ys ! j") auto
  have k: "if sl_kind a = WData then 1 \<le> unat (nxt - sl_seq a) \<and> unat (nxt - sl_seq a) \<le> limit
      else sl_seq a = nxt \<and> (sl_kind a \<in> {WStart, WAbort} \<longrightarrow> nxt = 0) \<and>
        (\<forall>j < length xs. xs ! j \<noteq> None \<longrightarrow> j = i)"
    using assms(1) a(1,4) unfolding window_ok_def by blast
  show "if sl_kind b = WData then 1 \<le> unat (nxt - sl_seq b) \<and> unat (nxt - sl_seq b) \<le> limit
      else sl_seq b = nxt \<and> (sl_kind b \<in> {WStart, WAbort} \<longrightarrow> nxt = 0) \<and>
        (\<forall>j < length ys. ys ! j \<noteq> None \<longrightarrow> j = i)"
  proof (cases "sl_kind b = WData")
    case True
    then show ?thesis using k unfolding a(2,3) by simp
  next
    case False
    then have "sl_seq b = nxt \<and> (sl_kind b \<in> {WStart, WAbort} \<longrightarrow> nxt = 0) \<and>
        (\<forall>j < length xs. xs ! j \<noteq> None \<longrightarrow> j = i)"
      using k unfolding a(2,3) if_not_P [OF False] by blast
    then show ?thesis using none False assms(2) by (simp only: if_False) blast
  qed
next
  fix i j a b assume ij: "i < length ys" "j < length ys" "ys ! i = Some a" "ys ! j = Some b"
    "sl_seq a = sl_seq b"
  obtain a' where a': "xs ! i = Some a'" "sl_seq a' = sl_seq a"
    using assms(3) [of i a] assms(2) ij by auto
  obtain b' where b': "xs ! j = Some b'" "sl_seq b' = sl_seq b"
    using assms(3) [of j b] assms(2) ij by auto
  show "i = j"
    using assms(1) [unfolded window_ok_def, THEN conjunct2, rule_format, of i j a' b'] a' b' ij assms(2)
    by simp
qed

lemma window_ok_data:
  "window_ok nxt limit slots \<Longrightarrow> Some sl \<in> set slots \<Longrightarrow> sl_kind sl = WData \<Longrightarrow>
    1 \<le> unat (nxt - sl_seq sl) \<and> unat (nxt - sl_seq sl) \<le> limit"
  by (auto simp: window_ok_def in_set_conv_nth)

lemma window_ok_inj:
  "window_ok nxt limit slots \<Longrightarrow> i < length slots \<Longrightarrow> j < length slots \<Longrightarrow> slots ! i = Some a \<Longrightarrow>
    slots ! j = Some b \<Longrightarrow> sl_seq a = sl_seq b \<Longrightarrow> i = j"
  unfolding window_ok_def by (drule conjunct2) simp

lemma window_ok_clear: "window_ok nxt limit slots \<Longrightarrow> window_ok nxt limit (slots[i := None])"
proof (erule window_ok_shrink)
  fix j b assume "j < length slots" "slots[i := None] ! j = Some b"
  then show "\<exists>a. slots ! j = Some a \<and> sl_kind a = sl_kind b \<and> sl_seq a = sl_seq b"
    by (cases "j = i") auto
qed simp

lemma same_slots_nth:
  assumes "same_slots xs ys" and "i < length xs"
  shows "(xs ! i = None \<longleftrightarrow> ys ! i = None) \<and>
    (\<forall>a b. xs ! i = Some a \<longrightarrow> ys ! i = Some b \<longrightarrow> same_flight a b)"
  using list_all2_nthD [OF assms(1) [unfolded same_slots_def] assms(2)]
  by (cases "xs ! i"; cases "ys ! i") auto

lemma same_slots_length: "same_slots xs ys \<Longrightarrow> length ys = length xs"
  by (simp add: same_slots_def list_all2_lengthD)

lemma same_slots_occupied: "same_slots xs ys \<Longrightarrow> occupied ys = occupied xs"
  unfolding same_slots_def by (induction rule: list_all2_induct) (auto elim: option.rel_cases)

lemma same_flight_refl [simp]: "same_flight a a"
  by (simp add: same_flight_def)

lemma same_slots_refl [simp]: "same_slots xs xs"
  unfolding same_slots_def by (rule list_all2_refl) (simp add: option.rel_refl)

lemma same_slots_update:
  "i < length xs \<Longrightarrow> xs ! i = Some a \<Longrightarrow> same_flight a b \<Longrightarrow> same_slots xs (xs[i := Some b])"
  unfolding same_slots_def
  by (auto simp: list_all2_conv_all_nth nth_list_update option.rel_refl)

lemma same_slots_Some:
  assumes "same_slots xs ys" and "i < length ys" and "ys ! i = Some b"
  obtains a where "xs ! i = Some a" "same_flight a b" "i < length xs"
  using same_slots_nth [OF assms(1), of i] same_slots_length [OF assms(1)] assms(2,3)
  by (cases "xs ! i") auto

lemma window_ok_same:
  assumes "window_ok nxt limit xs" and "same_slots xs ys"
  shows "window_ok nxt limit ys"
proof (rule window_ok_shrink [OF assms(1) same_slots_length [OF assms(2)]])
  fix j b assume "j < length xs" "ys ! j = Some b"
  then show "\<exists>a. xs ! j = Some a \<and> sl_kind a = sl_kind b \<and> sl_seq a = sl_seq b"
    using same_slots_nth [OF assms(2), of j] by (cases "xs ! j") (auto simp: same_flight_def)
qed

text \<open>Two outstanding numbers: the wrapping comparison of the code tells which is older.\<close>

lemma wrapping_older:
  fixes nxt a b :: u8
  assumes "unat (nxt - a) \<le> limit" and "unat (nxt - b) \<le> limit" and "limit \<le> 8"
  shows "unat (b - a) \<le> limit \<longleftrightarrow> unat (nxt - b) \<le> unat (nxt - a)"
proof -
  have "b - a = (nxt - a) - (nxt - b)" by simp
  then have "unat (b - a) = (if unat (nxt - b) \<le> unat (nxt - a)
      then unat (nxt - a) - unat (nxt - b) else unat (nxt - a) + 256 - unat (nxt - b))"
    using unat_sub_if' [of "nxt - a" "nxt - b"] by simp
  then show ?thesis using assms by auto
qed

lemma older_fold:
  fixes nxt :: u8
  assumes "limit \<le> 8" and "\<forall>sl. Some sl \<in> set slots \<longrightarrow> unat (nxt - sl_seq sl) \<le> limit"
    and "\<forall>q. acc = Some q \<longrightarrow> unat (nxt - q) \<le> limit"
  shows "(foldl (older limit) acc slots = None \<longleftrightarrow> acc = None \<and> occupied slots = 0) \<and>
    (\<forall>q. foldl (older limit) acc slots = Some q \<longrightarrow>
       (acc = Some q \<or> (\<exists>sl. Some sl \<in> set slots \<and> q = sl_seq sl)) \<and> unat (nxt - q) \<le> limit \<and>
       (\<forall>q'. acc = Some q' \<longrightarrow> unat (nxt - q') \<le> unat (nxt - q)) \<and>
       (\<forall>sl. Some sl \<in> set slots \<longrightarrow> unat (nxt - sl_seq sl) \<le> unat (nxt - q)))"
  using assms(2,3)
proof (induction slots arbitrary: acc)
  case Nil
  then show ?case by simp
next
  case (Cons slot slots)
  show ?case
  proof (cases slot)
    case None
    have "older limit acc None = acc" by (simp add: older_def)
    then show ?thesis using Cons.IH [of acc] Cons.prems None by auto
  next
    case (Some sl)
    obtain q0 where q0: "older limit acc slot = Some q0" "q0 = sl_seq sl \<or> acc = Some q0"
        "unat (nxt - q0) \<le> limit" "unat (nxt - sl_seq sl) \<le> unat (nxt - q0)"
        "\<forall>q'. acc = Some q' \<longrightarrow> unat (nxt - q') \<le> unat (nxt - q0)"
    proof (cases acc)
      case None
      then show ?thesis using that [of "sl_seq sl"] Some Cons.prems(1) by (simp add: older_def)
    next
      case a: (Some base)
      have "unat (nxt - base) \<le> limit" "unat (nxt - sl_seq sl) \<le> limit"
        using Cons.prems a Some by auto
      note w = wrapping_older [OF this assms(1)] this
      show ?thesis
        using that [of "if unat (sl_seq sl - base) \<le> limit then base else sl_seq sl"] w a Some
        by (auto simp: older_def)
    qed
    have rest: "\<forall>sl. Some sl \<in> set slots \<longrightarrow> unat (nxt - sl_seq sl) \<le> limit"
      "\<forall>q. older limit acc slot = Some q \<longrightarrow> unat (nxt - q) \<le> limit"
      using Cons.prems(1) q0 by auto
    show ?thesis using Cons.IH [OF rest] q0 Some by (auto intro: le_trans)
  qed
qed

section \<open>Invariant\<close>

definition wsender_wf :: "wsender \<Rightarrow> bool" where
  "wsender_wf s =
     (ob_wf (wt_out s) \<and> asm_wf (wt_assembler s) \<and>
      check_window (length (wt_slots s)) \<and> 1 \<le> wt_limit s \<and> wt_limit s \<le> length (wt_slots s) \<and>
      (wt_writing s = None \<longleftrightarrow> ob_is_idle (wt_out s)) \<and>
      (\<forall>i. wt_writing s = Some i \<longrightarrow> i < length (wt_slots s) \<and>
         (\<exists>sl. wt_slots s ! i = Some sl \<and> ob_buf (wt_out s) = to_bytes (slot_frame sl) \<and>
            (sl_needs_retransmit sl \<or> \<not> sl_written sl))) \<and>
      (\<forall>sl. Some sl \<in> set (wt_slots s) \<longrightarrow> sl_retries_left sl \<le> max_retries (wt_policy s)) \<and>
      (wt_state s \<in> {TxIdle, TxFinished, TxAborted, TxFailed} \<longrightarrow> occupied (wt_slots s) = 0) \<and>
      window_ok (wt_next_seq s) (wt_limit s) (wt_slots s))"

lemma wsender_wf_with_policy [simp]: "check_window n \<Longrightarrow> wsender_wf (wsender_with_policy n pol)"
  by (simp add: wsender_wf_def wsender_with_policy_def check_window_def)

lemma occupied_0_nth: "occupied xs = 0 \<Longrightarrow> i < length xs \<Longrightarrow> xs ! i = None"
  by (simp add: occupied_0)

lemma wsender_wf_idle: "wsender_wf s \<Longrightarrow> occupied (wt_slots s) = 0 \<Longrightarrow>
    ob_is_idle (wt_out s) \<and> wt_writing s = None"
  using occupied_0_nth [of "wt_slots s" "the (wt_writing s)"]
  by (cases "wt_writing s") (auto simp: wsender_wf_def)

text \<open>What is left of a sender after its slots are dropped.\<close>

lemma wsender_wf_cleared:
  assumes "wsender_wf s" and "ob_wf out" and "ob_is_idle out" and "asm_wf a"
  shows "wsender_wf ((clear_slots s)\<lparr>wt_out := out, wt_writing := None, wt_assembler := a,
    wt_next_seq := q, wt_state := st\<rparr>)"
  using assms by (auto simp: wsender_wf_def clear_slots_def)

lemma cleared_same: "wt_out s = out \<Longrightarrow> wt_writing s = None \<Longrightarrow> wt_assembler s = a \<Longrightarrow>
    wt_next_seq s = q \<Longrightarrow> s\<lparr>wt_out := out, wt_writing := None, wt_assembler := a, wt_next_seq := q\<rparr> = s"
  by (cases s) simp

lemma wsender_wf_failed:
  assumes "wsender_wf s" and "ob_is_idle (wt_out s)"
  shows "wsender_wf ((clear_slots s)\<lparr>wt_state := st\<rparr>)"
  using assms by (auto simp: wsender_wf_def clear_slots_def)

lemma wsender_wf_force_abort [simp]: "wsender_wf s \<Longrightarrow> wsender_wf (wsender_force_abort s)"
  by (auto simp: wsender_wf_def clear_slots_def wsender_force_abort_def)

lemma in_set_update: "x \<in> set (xs[i := y]) \<Longrightarrow> x = y \<or> x \<in> set xs"
  by (meson insertE set_update_subset_insert subsetD)

text \<open>A slot put into a free place, the old ones all strictly inside the window.\<close>

lemma window_ok_insert_data:
  assumes "window_ok q limit slots" and "i < length slots" and "slots ! i = None"
    and "\<forall>j < length slots. \<forall>sl. slots ! j = Some sl \<longrightarrow>
      sl_kind sl = WData \<and> unat (q - sl_seq sl) < limit"
    and "sl_kind x = WData" and "sl_seq x = q" and "1 \<le> limit" and "limit \<le> 8"
  shows "window_ok (q + 1) limit (slots[i := Some x])"
proof -
  have d: "unat (q + 1 - sl_seq sl) = unat (q - sl_seq sl) + 1 \<and> 1 \<le> unat (q - sl_seq sl)"
    if "j < length slots" "slots ! j = Some sl" for j sl
  proof -
    have lt: "unat (q - sl_seq sl) < limit" "sl_kind sl = WData" using assms(4) that by auto
    then have ge: "1 \<le> unat (q - sl_seq sl)"
      using assms(1) that unfolding window_ok_def by (metis (full_types))
    have e: "q + 1 - sl_seq sl = (q - sl_seq sl) + 1" by simp
    have "unat ((q - sl_seq sl) + 1) = unat (q - sl_seq sl) + 1"
      using lt assms(8) by (subst unat_word_ariths) simp
    then show ?thesis using ge unfolding e by blast
  qed
  have ne: "sl_seq sl \<noteq> q" if "j < length slots" "slots ! j = Some sl" for j sl
    using d [OF that] by auto
  have inj: "j = k" if "j < length slots" "k < length slots" "slots ! j = Some a" "slots ! k = Some b"
    "sl_seq a = sl_seq b" for j k a b
    using assms(1) that unfolding window_ok_def by blast
  show ?thesis unfolding window_ok_def
  proof (intro conjI allI impI)
    fix j sl assume j: "j < length (slots[i := Some x])" "slots[i := Some x] ! j = Some sl"
    show "if sl_kind sl = WData then 1 \<le> unat (q + 1 - sl_seq sl) \<and> unat (q + 1 - sl_seq sl) \<le> limit
      else sl_seq sl = q + 1 \<and> (sl_kind sl \<in> {WStart, WAbort} \<longrightarrow> q + 1 = 0) \<and>
        (\<forall>k < length (slots[i := Some x]). slots[i := Some x] ! k \<noteq> None \<longrightarrow> k = j)"
    proof (cases "j = i")
      case True
      then show ?thesis using j assms by auto
    next
      case False
      then have "j < length slots" "slots ! j = Some sl" using j by auto
      then show ?thesis using d [of j sl] assms(4) by fastforce
    qed
  next
    fix j k a b
    assume "j < length (slots[i := Some x])" "k < length (slots[i := Some x])"
      "slots[i := Some x] ! j = Some a" "slots[i := Some x] ! k = Some b" "sl_seq a = sl_seq b"
    then show "j = k" using inj [of j k a b] ne assms(2,6)
      by (cases "j = i"; cases "k = i") auto
  qed
qed

lemma window_ok_alone:
  assumes "occupied slots = 0" and "i < length slots" and "sl_kind x \<noteq> WData" and "sl_seq x = q"
    and "sl_kind x \<in> {WStart, WAbort} \<longrightarrow> q = 0"
  shows "window_ok q limit (slots[i := Some x])"
  using assms occupied_0_nth [OF assms(1)]
  by (auto simp: window_ok_def nth_list_update split: if_splits)

lemma find_free_SomeD:
  assumes "wsender_find_free s = Some i"
  shows "i < length (wt_slots s)" "wt_slots s ! i = None"
  using position_SomeD [OF assms [unfolded wsender_find_free_def]] by auto

text \<open>Inserting keeps everything but the window, which depends on what is inserted.\<close>

lemma wsender_wf_insert:
  assumes "wsender_wf s" and "wsender_insert kind seq payload s = (s', Inr ())"
    and "\<And>i x. wsender_find_free s = Some i \<Longrightarrow> sl_kind x = kind \<Longrightarrow> sl_seq x = seq \<Longrightarrow>
      window_ok q (wt_limit s) ((wt_slots s)[i := Some x])"
  shows "wsender_wf (s'\<lparr>wt_next_seq := q\<rparr>)"
proof -
  obtain i where i: "wsender_find_free s = Some i"
    using assms(2) by (auto simp: wsender_insert_def split: option.splits)
  note free = find_free_SomeD [OF i]
  let ?x = "\<lparr>sl_kind = kind, sl_seq = seq, sl_payload = payload,
    sl_retries_left = max_retries (wt_policy s), sl_written = False, sl_needs_retransmit = False,
    sl_empty_ticks = 0\<rparr>"
  have s': "s' = s\<lparr>wt_slots := (wt_slots s)[i := Some ?x], wt_state := TxSending\<rparr>"
    using assms(2) i by (simp add: wsender_insert_def)
  have win: "window_ok q (wt_limit s) ((wt_slots s)[i := Some ?x])" using assms(3) [OF i] by simp
  have "sl_retries_left sl \<le> max_retries (wt_policy s)" if "Some sl \<in> set ((wt_slots s)[i := Some ?x])" for sl
    using in_set_update [OF that] assms(1) by (auto simp: wsender_wf_def)
  moreover have "k \<noteq> i" if "wt_writing s = Some k" for k
    using assms(1) that free by (auto simp: wsender_wf_def)
  ultimately show ?thesis using assms(1) win unfolding s' wsender_wf_def
    by (auto simp: nth_list_update)
qed

lemma wsender_insert_Inl: "wsender_insert kind seq payload s = (s', Inl e) \<Longrightarrow> s' = s"
  by (auto simp: wsender_insert_def split: option.splits)

lemma wnext_same [simp]: "wt_next_seq s = q \<Longrightarrow> s\<lparr>wt_next_seq := q\<rparr> = s"
  by (cases s) simp

lemma wsender_insert_next: "wsender_insert kind seq payload s = (s', r) \<Longrightarrow> wt_next_seq s' = wt_next_seq s"
  by (auto simp: wsender_insert_def split: option.splits)

lemma wsender_wf_insert_session:
  assumes "wsender_wf s" and "occupied (wt_slots s) = 0" and "kind \<noteq> WData"
    and "kind \<in> {WStart, WAbort} \<longrightarrow> wt_next_seq s = 0" and "seq = wt_next_seq s"
    and "wsender_insert kind seq payload s = (s', r)"
  shows "wsender_wf s'"
proof (cases r)
  case (Inl e)
  then show ?thesis using assms wsender_insert_Inl by blast
next
  case (Inr u)
  then have r: "r = Inr ()" by simp
  have "wsender_wf (s'\<lparr>wt_next_seq := wt_next_seq s\<rparr>)"
  proof (rule wsender_wf_insert [OF assms(1) assms(6) [unfolded r]])
    show "window_ok (wt_next_seq s) (wt_limit s) ((wt_slots s)[i := Some x])"
      if "wsender_find_free s = Some i" "sl_kind x = kind" "sl_seq x = seq" for i x
      using window_ok_alone [OF assms(2) find_free_SomeD(1) [OF that(1)]] that assms by auto
  qed
  then show ?thesis using wsender_insert_next [OF assms(6)] by simp
qed

lemma has_kind_nth: "has_kind ks s \<longleftrightarrow> (\<exists>i < length (wt_slots s). \<exists>sl. wt_slots s ! i = Some sl \<and> sl_kind sl \<in> ks)"
  by (auto simp: has_kind_def list_ex_length split: option.splits)

lemma wsender_oldest:
  assumes "wsender_wf s" and "\<not> wsender_has_session_flight s"
  shows "(wsender_oldest_unacked s = None \<longleftrightarrow> occupied (wt_slots s) = 0) \<and>
    (\<forall>q. wsender_oldest_unacked s = Some q \<longrightarrow>
       (\<exists>sl. Some sl \<in> set (wt_slots s) \<and> q = sl_seq sl) \<and>
       (\<forall>sl. Some sl \<in> set (wt_slots s) \<longrightarrow>
          unat (wt_next_seq s - sl_seq sl) \<le> unat (wt_next_seq s - q)))"
proof -
  have data: "sl_kind sl = WData" if "Some sl \<in> set (wt_slots s)" for sl
    using assms(2) that
    by (cases "sl_kind sl") (auto simp: wsender_has_session_flight_def has_kind_nth in_set_conv_nth)
  have "unat (wt_next_seq s - sl_seq sl) \<le> wt_limit s" if "Some sl \<in> set (wt_slots s)" for sl
    using assms(1) window_ok_data [OF _ that data [OF that]] by (auto simp: wsender_wf_def)
  moreover have "wt_limit s \<le> 8"
    using assms(1) by (auto simp: wsender_wf_def check_window_def MAX_WINDOW_def)
  ultimately show ?thesis
    using older_fold [of "wt_limit s" "wt_slots s" "wt_next_seq s" None]
    unfolding wsender_oldest_unacked_def by auto
qed

lemma no_session_flight:
  "\<not> wsender_has_session_flight s \<Longrightarrow> Some sl \<in> set (wt_slots s) \<Longrightarrow> sl_kind sl = WData"
  by (cases "sl_kind sl") (auto simp: wsender_has_session_flight_def has_kind_nth in_set_conv_nth)

lemma in_send_window:
  assumes "wsender_wf s" and "\<not> wsender_has_session_flight s"
  shows "wsender_seq_in_send_window (wt_next_seq s) s \<longleftrightarrow>
    (\<forall>sl. Some sl \<in> set (wt_slots s) \<longrightarrow> unat (wt_next_seq s - sl_seq sl) < wt_limit s)"
proof (cases "wsender_oldest_unacked s")
  case None
  then have "occupied (wt_slots s) = 0" using wsender_oldest [OF assms] by simp
  then show ?thesis using None by (auto simp: wsender_seq_in_send_window_def occupied_0)
next
  case (Some q)
  then show ?thesis using wsender_oldest [OF assms]
    by (auto simp: wsender_seq_in_send_window_def intro: le_less_trans)
qed

lemma wsender_wf_offer:
  fixes r :: "'e error + unit"
  assumes wf: "wsender_wf s" and off: "wsender_offer b s = (s', r)"
  shows "wsender_wf s'"
proof (cases r)
  case (Inl e)
  then have "s' = s" using off
    by (auto simp: wsender_offer_def Let_def split: if_splits prod.splits sum.splits
        dest: wsender_insert_Inl)
  then show ?thesis using wf by simp
next
  case (Inr u)
  let ?q = "wt_next_seq s"
  obtain s1 where ns: "\<not> wsender_has_session_flight s"
      and win: "wsender_seq_in_send_window ?q s"
      and ins: "(wsender_insert WData ?q b s :: wsender \<times> ('e error + unit)) = (s1, Inr ())"
      and res: "s' = s1\<lparr>wt_next_seq := wt_next_seq s1 + 1\<rparr>"
    using Inr off by (auto simp: wsender_offer_def seq_defs Let_def split: if_splits prod.splits sum.splits)
  have lim: "1 \<le> wt_limit s" "wt_limit s \<le> 8"
    using wf by (auto simp: wsender_wf_def check_window_def MAX_WINDOW_def)
  have inside: "\<forall>j < length (wt_slots s). \<forall>sl. wt_slots s ! j = Some sl \<longrightarrow>
      sl_kind sl = WData \<and> unat (?q - sl_seq sl) < wt_limit s"
    using in_send_window [OF wf ns] win no_session_flight [OF ns] by (metis nth_mem)
  have "wsender_wf (s1\<lparr>wt_next_seq := ?q + 1\<rparr>)"
  proof (rule wsender_wf_insert [OF wf ins])
    fix i and x :: tx_slot assume a: "wsender_find_free s = Some i" "sl_kind x = WData" "sl_seq x = ?q"
    show "window_ok (?q + 1) (wt_limit s) ((wt_slots s)[i := Some x])"
      using window_ok_insert_data [OF _ find_free_SomeD [OF a(1)] inside a(2,3) lim] wf
      by (simp add: wsender_wf_def)
  qed
  then show ?thesis using wsender_insert_next [OF ins] res by simp
qed

lemma wsender_wf_offer_finish: "wsender_wf s \<Longrightarrow> wsender_wf (fst (wsender_offer_finish s))"
  by (auto simp: wsender_offer_finish_def seq_defs wsender_outstanding_def
      intro: wsender_wf_insert_session [OF _ _ _ _ refl surjective_pairing])

lemma wsender_wf_offer_start:
  assumes "wsender_wf s"
  shows "wsender_wf (fst (wsender_offer_start s))"
proof (cases "occupied (wt_slots s) = 0 \<and> ob_is_idle (wt_out s)")
  case True
  let ?s = "(clear_slots s)\<lparr>wt_next_seq := 0, wt_state := TxSending\<rparr>"
  have "wsender_wf ?s" using assms wsender_wf_idle [OF assms] True
    by (auto simp: wsender_wf_def clear_slots_def)
  then have "wsender_wf (fst (wsender_insert WStart 0 0 ?s))"
    by (intro wsender_wf_insert_session [OF _ _ _ _ _ surjective_pairing]) (simp_all add: clear_slots_def)
  then show ?thesis using assms True
    by (auto simp: wsender_offer_start_def seq_defs wsender_outstanding_def)
next
  case False
  then show ?thesis using assms by (auto simp: wsender_offer_start_def wsender_outstanding_def)
qed

lemma wsender_wf_offer_abort:
  assumes "wsender_wf s"
  shows "wsender_wf (fst (wsender_offer_abort s))"
proof -
  let ?s = "(clear_slots s)\<lparr>wt_out := ob_empty, wt_writing := None,
    wt_assembler := asm_reset (wt_assembler s), wt_next_seq := 0, wt_state := TxSending\<rparr>"
  have "wsender_wf ?s" using assms by (intro wsender_wf_cleared) (auto simp: wsender_wf_def)
  then have "wsender_wf (fst (wsender_insert WAbort 0 0 ?s))"
    by (intro wsender_wf_insert_session [OF _ _ _ _ _ surjective_pairing]) (simp_all add: clear_slots_def)
  then show ?thesis using assms by (auto simp: wsender_offer_abort_def seq_defs)
qed

lemma wsender_wf_set_window_limit: "wsender_wf s \<Longrightarrow> wsender_wf (wsender_set_window_limit k s)"
proof (cases "occupied (wt_slots s) = 0 \<and> ob_is_idle (wt_out s)")
  case True
  assume wf: "wsender_wf s"
  have "window_ok (wt_next_seq s) k (wt_slots s)" for k
    using occupied_0_nth [of "wt_slots s"] True by (simp add: window_ok_def)
  then show ?thesis using wf True
    by (auto simp: wsender_set_window_limit_def wsender_wf_def check_window_def)
next
  case False
  then show "wsender_wf s \<Longrightarrow> ?thesis"
    by (auto simp: wsender_set_window_limit_def wsender_outstanding_def)
qed

section \<open>A poll keeps the invariant\<close>

text \<open>Slots updated in place (ticks, retries, the written flag), while nothing is being written.\<close>

lemma wsender_wf_same_slots:
  assumes "wsender_wf s" and "ob_is_idle (wt_out s)" and "same_slots (wt_slots s) slots"
    and "st \<notin> {TxIdle, TxFinished, TxAborted, TxFailed}"
  shows "wsender_wf (s\<lparr>wt_slots := slots, wt_state := st, wt_mark := m\<rparr>)"
proof -
  note len = same_slots_length [OF assms(3)]
  have "sl_retries_left sl \<le> max_retries (wt_policy s)" if sl: "Some sl \<in> set slots" for sl
  proof -
    obtain i where "i < length slots" "slots ! i = Some sl" using sl by (auto simp: in_set_conv_nth)
    then obtain a where "wt_slots s ! i = Some a" "same_flight a sl" "i < length (wt_slots s)"
      using same_slots_Some [OF assms(3)] by metis
    then have "sl_retries_left sl \<le> sl_retries_left a" "Some a \<in> set (wt_slots s)"
      by (auto simp: same_flight_def) (metis nth_mem)
    then show ?thesis using assms(1) by (auto simp: wsender_wf_def intro: order_trans)
  qed
  then show ?thesis
    using assms window_ok_same [OF _ assms(3)] same_slots_occupied [OF assms(3)] len
    by (auto simp: wsender_wf_def)
qed

lemma wsender_wf_mark [simp]: "wsender_wf (s\<lparr>wt_mark := m\<rparr>) = wsender_wf s"
  by (simp add: wsender_wf_def)

lemma wsender_wf_assembler: "wsender_wf s \<Longrightarrow> asm_wf a \<Longrightarrow> wsender_wf (s\<lparr>wt_assembler := a\<rparr>)"
  by (simp add: wsender_wf_def)

lemma wsender_wf_finish_write:
  assumes "wsender_wf s" and "wt_out s = ob" and "ob_wf out" and "ob_is_idle out"
    and "wt_writing s = Some i"
  shows "wsender_wf (wsender_finish_write (s\<lparr>wt_out := out\<rparr>))"
proof -
  obtain sl where sl: "i < length (wt_slots s)" "wt_slots s ! i = Some sl"
    using assms(1,5) by (auto simp: wsender_wf_def)
  let ?sl = "sl\<lparr>sl_written := True, sl_needs_retransmit := False, sl_empty_ticks := 0\<rparr>"
  have same: "same_slots (wt_slots s) ((wt_slots s)[i := Some ?sl])"
    using sl by (intro same_slots_update) (auto simp: same_flight_def)
  have occ: "occupied ((wt_slots s)[i := Some ?sl]) \<noteq> 0"
    using same_slots_occupied [OF same] occupied_pos [OF sl(1)] sl(2) by simp
  let ?s0 = "s\<lparr>wt_out := out, wt_writing := None, wt_assembler := asm_reset (wt_assembler s)\<rparr>"
  have "wsender_wf ?s0" using assms by (simp add: wsender_wf_def)
  then have "wsender_wf (?s0\<lparr>wt_slots := (wt_slots s)[i := Some ?sl], wt_state := TxWaitingAck,
      wt_mark := (wt_mark s)\<lparr>im_frame_on_wire := True\<rparr>\<rparr>)"
    using assms(4) same by (intro wsender_wf_same_slots) simp_all
  moreover have "wsender_finish_write (s\<lparr>wt_out := out\<rparr>) = ?s0\<lparr>wt_slots := (wt_slots s)[i := Some ?sl],
      wt_state := TxWaitingAck, wt_mark := (wt_mark s)\<lparr>im_frame_on_wire := True\<rparr>\<rparr>"
    using assms(5) sl occ
    by (intro wsender.equality) (simp_all add: wsender_finish_write_def wsender_outstanding_def Let_def)
  ultimately show ?thesis by simp
qed

lemma wsender_wf_write:
  assumes "wsender_wf s" and "\<not> ob_is_idle (wt_out s)"
  shows "wsender_wf (fst (snd (wsender_write p w s)))"
proof -
  obtain w' out' r where op: "out_pump p w (wt_out s) = (w', out', r)"
    by (cases "out_pump p w (wt_out s)") auto
  obtain i where i: "wt_writing s = Some i" using assms by (auto simp: wsender_wf_def)
  have ob: "ob_wf (wt_out s)" using assms(1) by (simp add: wsender_wf_def)
  note rest = out_pump_rest [OF ob op] and buf = out_pump_buf [OF op]
  show ?thesis
  proof (cases r)
    case (Inl e)
    then show ?thesis using rest op assms(1) by (simp add: wsender_write_def wsender_pump_out_def)
  next
    case (Inr d)
    show ?thesis
    proof (cases d)
      case True
      then show ?thesis using Inr rest op i wsender_wf_finish_write [OF assms(1) refl]
        by (simp add: wsender_write_def wsender_pump_out_def)
    next
      case False
      then have "wsender_wf (s\<lparr>wt_out := out'\<rparr>)"
        using Inr rest buf assms by (auto simp: wsender_wf_def)
      then show ?thesis using Inr False op by (simp add: wsender_write_def wsender_pump_out_def)
    qed
  qed
qed

lemma next_to_write_from_Some:
  assumes "next_to_write_from k acc slots = Some i"
  shows "acc = Some i \<or> (k \<le> i \<and> i < k + length slots \<and>
    (\<exists>sl. slots ! (i - k) = Some sl \<and> (sl_needs_retransmit sl \<or> \<not> sl_written sl)))"
  using assms
proof (induction k acc slots rule: next_to_write_from.induct)
  case (1 i first_new)
  then show ?case by simp
next
  case (2 k acc slots)
  then show ?case by (auto simp: nth_Cons' Suc_le_eq)
next
  case (3 k acc sl slots)
  then show ?case by (auto simp: nth_Cons' Suc_le_eq split: if_splits)
qed

lemma next_to_write_SomeD:
  assumes "wsender_next_to_write s = Some i"
  shows "i < length (wt_slots s) \<and>
    (\<exists>sl. wt_slots s ! i = Some sl \<and> (sl_needs_retransmit sl \<or> \<not> sl_written sl))"
  using next_to_write_from_Some [OF assms [unfolded wsender_next_to_write_def]] by simp

lemma next_to_write_from_None:
  assumes "next_to_write_from k acc slots = None"
  shows "acc = None \<and> (\<forall>sl. Some sl \<in> set slots \<longrightarrow> sl_written sl \<and> \<not> sl_needs_retransmit sl)"
  using assms
  by (induction k acc slots rule: next_to_write_from.induct) (auto split: if_splits)

lemma window_ok_vacant: "occupied slots = 0 \<Longrightarrow> window_ok q limit slots"
  using occupied_0_nth [of slots] by (simp add: window_ok_def)

lemma find_seq_SomeD:
  assumes "wsender_find_seq q s = Some i"
  obtains sl where "i < length (wt_slots s)" "wt_slots s ! i = Some sl" "sl_seq sl = q"
  using position_SomeD [OF assms [unfolded wsender_find_seq_def]] by auto

lemma wsender_wf_removed:
  assumes "wsender_wf s" and "ob_is_idle (wt_out s)" and "slots = (wt_slots s)[i := None]"
    and "st \<in> {TxIdle, TxFinished, TxAborted, TxFailed} \<longrightarrow> occupied slots = 0"
    and "q = wt_next_seq s \<or> occupied slots = 0"
  shows "wsender_wf (s\<lparr>wt_slots := slots, wt_next_seq := q, wt_state := st\<rparr>)"
proof -
  have "window_ok (wt_next_seq s) (wt_limit s) slots"
    using assms(1,3) window_ok_clear by (auto simp: wsender_wf_def)
  then have "window_ok q (wt_limit s) slots" using assms(5) window_ok_vacant by auto
  moreover have "wt_writing s = None" using assms(1,2) by (simp add: wsender_wf_def)
  moreover have "sl_retries_left sl \<le> max_retries (wt_policy s)" if "Some sl \<in> set slots" for sl
    using in_set_update [OF that [unfolded assms(3)]] assms(1) by (auto simp: wsender_wf_def)
  moreover have "length slots = length (wt_slots s)" using assms(3) by simp
  ultimately show ?thesis using assms(1,2,4) by (simp add: wsender_wf_def)
qed

lemma wslots_state: "s\<lparr>wt_slots := x, wt_state := st\<rparr> = s\<lparr>wt_slots := x, wt_next_seq := wt_next_seq s, wt_state := st\<rparr>"
  by simp

lemma wsender_wf_on_ack:
  assumes "wsender_wf s" and "ob_is_idle (wt_out s)"
  shows "wsender_wf (fst (wsender_on_ack q s))"
proof (cases "wsender_find_seq q s")
  case None
  then show ?thesis using assms(1) by (simp add: wsender_on_ack_def)
next
  case (Some i)
  obtain sl where sl: "i < length (wt_slots s)" "wt_slots s ! i = Some sl" "sl_seq sl = q"
    using find_seq_SomeD [OF Some] .
  let ?slots = "(wt_slots s)[i := None]"
  have win: "window_ok (wt_next_seq s) (wt_limit s) (wt_slots s)"
    using assms(1) by (simp add: wsender_wf_def)
  have alone: "occupied ?slots = 0" if "sl_kind sl \<noteq> WData"
  proof -
    have "\<forall>j < length (wt_slots s). wt_slots s ! j \<noteq> None \<longrightarrow> j = i"
      using win sl that unfolding window_ok_def by (metis (full_types))
    then have "?slots ! j = None" if "j < length ?slots" for j
      using that by (cases "j = i") auto
    then show ?thesis by (auto simp: occupied_0 in_set_conv_nth)
  qed
  have r: "wsender_wf (s\<lparr>wt_slots := ?slots, wt_next_seq := q', wt_state := st\<rparr>)"
    if "st \<in> {TxIdle, TxFinished, TxAborted, TxFailed} \<longrightarrow> occupied ?slots = 0"
      "q' = wt_next_seq s \<or> occupied ?slots = 0" for q' st
    using wsender_wf_removed [OF assms refl that] .
  have r0: "wsender_wf (s\<lparr>wt_slots := ?slots, wt_state := st\<rparr>)"
    if "st \<in> {TxIdle, TxFinished, TxAborted, TxFailed} \<longrightarrow> occupied ?slots = 0" for st
    using r [OF that, of "wt_next_seq s"] unfolding wslots_state by simp
  show ?thesis using Some sl assms(1) alone r r0
    by (cases "sl_kind sl") (auto simp: wsender_on_ack_def wsender_outstanding_def Let_def)
qed

lemma same_flight_retry: "sl_retries_left sl \<noteq> 0 \<Longrightarrow> same_flight sl (slot_retry sl)"
  by (auto simp: same_flight_def slot_retry_def word_dec_le)

lemma wsender_wf_on_nack:
  assumes "wsender_wf s" and "ob_is_idle (wt_out s)"
  shows "wsender_wf (fst (wsender_on_nack q s))"
proof (cases "wsender_find_seq q s")
  case None
  then show ?thesis using assms(1) by (simp add: wsender_on_nack_def)
next
  case (Some i)
  obtain sl where sl: "i < length (wt_slots s)" "wt_slots s ! i = Some sl" "sl_seq sl = q"
    using find_seq_SomeD [OF Some] .
  show ?thesis
  proof (cases "sl_written sl \<and> sl_retries_left sl \<noteq> 0")
    case True
    then have "same_slots (wt_slots s) ((wt_slots s)[i := Some (slot_retry sl)])"
      using sl same_flight_retry by (intro same_slots_update) auto
    then show ?thesis using wsender_wf_same_slots [OF assms] Some sl True
      by (simp add: wsender_on_nack_def)
  next
    case False
    then show ?thesis using Some sl assms wsender_wf_failed [OF assms]
      by (auto simp: wsender_on_nack_def)
  qed
qed

lemma same_slots_Cons [simp]:
  "same_slots (None # xs) (None # ys) = same_slots xs ys"
  "same_slots (Some a # xs) (Some b # ys) = (same_flight a b \<and> same_slots xs ys)"
  "same_slots [] []"
  by (simp_all add: same_slots_def)

lemma same_flight_ticks [simp]: "same_flight a (b\<lparr>sl_empty_ticks := n\<rparr>) = same_flight a b"
  "same_flight (a\<lparr>sl_empty_ticks := n\<rparr>) b = same_flight a b"
  by (simp_all add: same_flight_def)

lemma wtick_slots_same:
  assumes "wtick_slots timeout writing i slots = (slots', again, failed)"
  shows "same_slots slots slots'"
  using assms
proof (induction timeout writing i slots arbitrary: slots' again failed rule: wtick_slots.induct)
  case (1 timeout writing i)
  then show ?case by simp
next
  case (2 timeout writing i slots)
  then show ?case by (auto split: prod.splits)
next
  case (3 timeout writing i sl slots)
  let ?sl = "sl\<lparr>sl_empty_ticks := sat_inc (sl_empty_ticks sl)\<rparr>"
  obtain slots1 again1 failed1 where rest: "wtick_slots timeout writing (Suc i) slots =
      (slots1, again1, failed1)" by (metis prod_cases3)
  show ?case
  proof (cases "writing = Some i \<or> \<not> sl_written sl \<or> sl_needs_retransmit sl")
    case True
    then show ?thesis using 3(1) [OF True rest] 3(4) rest by auto
  next
    case skip: False
    show ?thesis
    proof (cases "sl_empty_ticks ?sl < timeout")
      case True
      then show ?thesis using 3(2) [OF skip refl True rest] 3(4) rest skip by (auto simp: Let_def)
    next
      case False
      then show ?thesis
        using 3(3) [OF skip refl False _ rest] 3(4) rest skip same_flight_retry [of ?sl]
        by (cases "sl_retries_left sl = 0") (auto simp: Let_def)
    qed
  qed
qed

lemma wslots_state_mark: "s\<lparr>wt_state := st, wt_mark := m, wt_slots := x\<rparr> = s\<lparr>wt_slots := x, wt_state := st, wt_mark := m\<rparr>"
  "s\<lparr>wt_slots := x\<rparr> = s\<lparr>wt_slots := x, wt_state := wt_state s, wt_mark := wt_mark s\<rparr>"
  by (cases s, simp)+

lemma wsender_wf_tick:
  assumes "wsender_wf s" and "ob_is_idle (wt_out s)"
  shows "wsender_wf (fst (wsender_tick_timeouts s))"
proof -
  obtain slots again failed where t: "wtick_slots (timeout_ticks (wt_policy s)) (wt_writing s) 0 (wt_slots s)
      = (slots, again, failed)" by (metis prod_cases3)
  note same = wtick_slots_same [OF t]
  show ?thesis
  proof (cases failed)
    case True
    let ?s1 = "if again then s\<lparr>wt_state := TxRetrying, wt_mark := (wt_mark s)\<lparr>im_retransmit := True\<rparr>\<rparr> else s"
    have "(clear_slots ?s1)\<lparr>wt_state := TxFailed\<rparr> =
        ((clear_slots s)\<lparr>wt_state := TxFailed\<rparr>)\<lparr>wt_mark := wt_mark ?s1\<rparr>"
      by (cases s) (simp add: clear_slots_def)
    then show ?thesis using wsender_wf_failed [OF assms, of TxFailed] t True
      by (simp add: wsender_tick_timeouts_def Let_def)
  next
    case False
    show ?thesis
    proof (cases again)
      case True
      then show ?thesis using wsender_wf_same_slots [OF assms same, of TxRetrying] t False
        by (simp add: wsender_tick_timeouts_def wslots_state_mark(1))
    next
      case nag: False
      have "wsender_wf (s\<lparr>wt_slots := slots\<rparr>)"
      proof (cases "wt_state s \<in> {TxIdle, TxFinished, TxAborted, TxFailed}")
        case True
        then have "occupied (wt_slots s) = 0" using assms(1) by (simp add: wsender_wf_def)
        then have o: "occupied slots = 0" "length slots = length (wt_slots s)"
          using same_slots_occupied [OF same] same_slots_length [OF same] by simp_all
        then have "\<forall>x \<in> set slots. x = None" using occupied_0 by blast
        then show ?thesis using assms o by (auto simp: wsender_wf_def window_ok_vacant)
      next
        case False
        then show ?thesis using wsender_wf_same_slots [OF assms same, of "wt_state s" "wt_mark s"]
          by (subst wslots_state_mark(2)) simp
      qed
      then show ?thesis using t False nag by (simp add: wsender_tick_timeouts_def)
    qed
  qed
qed

lemma wsender_wf_read:
  assumes "wsender_wf s" and "ob_is_idle (wt_out s)"
  shows "wsender_wf (fst (snd (wsender_read p w s)))"
proof -
  have a: "asm_wf a" if "asm_push b (wt_assembler s) = (a, r)" for a b r
    using asm_push_wf [of "wt_assembler s" b] assms(1) that by (simp add: wsender_wf_def)
  have c: "wsender_wf (fst (wsender_on_control f (s\<lparr>wt_assembler := a\<rparr>)))"
    if "asm_push b (wt_assembler s) = (a, r)" for f a b r
    using wsender_wf_assembler [OF assms(1) a [OF that]] assms(2)
      wsender_wf_on_ack [of "s\<lparr>wt_assembler := a\<rparr>" "fr_seq f"]
      wsender_wf_on_nack [of "s\<lparr>wt_assembler := a\<rparr>" "fr_seq f"]
    by (cases "fr_type f") (simp_all add: wsender_on_control_def)
  show ?thesis using assms(1) wsender_wf_tick [OF assms]
    by (auto simp: wsender_read_def wsender_wf_assembler dest: a c
        split: prod.splits sum.splits option.splits)
qed

text \<open>A poll does one of four things; each keeps the invariant.\<close>

lemma wsender_poll_cases:
  assumes "wsender_wf s"
  obtains (stopped) r where "wsender_poll p w s = (w, s, r)" "wt_state s \<in> {TxFinished, TxAborted, TxFailed}"
        "r \<noteq> Inr PollAcked"
    | (writing) "wsender_poll p w s = wsender_write p w s" "\<not> ob_is_idle (wt_out s)"
    | (loading) i where "wsender_next_to_write s = Some i" "ob_is_idle (wt_out s)"
        "wsender_poll p w s = wsender_write p w (fst (wsender_load_slot i s))"
        "snd (wsender_load_slot i s)"
    | (reading) "wsender_next_to_write s = None" "ob_is_idle (wt_out s)"
        "wsender_poll p w s = wsender_read p w s"
proof -
  consider "wt_state s = TxFailed" | "wt_state s = TxAborted" | "wt_state s = TxFinished"
    | (run) "wt_state s \<notin> {TxFinished, TxAborted, TxFailed}" by auto
  then show ?thesis
  proof cases
    case run
    show ?thesis
    proof (cases "ob_is_idle (wt_out s)")
      case True
      show ?thesis
      proof (cases "wsender_next_to_write s")
        case None
        then show ?thesis using reading run True by (simp add: wsender_poll_def)
      next
        case (Some i)
        then obtain sl where "wt_slots s ! i = Some sl" using next_to_write_SomeD [OF Some] by auto
        then show ?thesis using loading [OF Some True] run True Some
          by (simp add: wsender_poll_def wsender_load_slot_def)
      qed
    qed (use writing run in \<open>simp add: wsender_poll_def\<close>)
  qed (use assms stopped in \<open>auto simp: wsender_poll_def wsender_wf_def wsender_outstanding_def\<close>)
qed

lemma wsender_wf_load:
  assumes "wsender_wf s" and "wsender_next_to_write s = Some i" and "ob_is_idle (wt_out s)"
  shows "wsender_wf (fst (wsender_load_slot i s)) \<and> \<not> ob_is_idle (wt_out (fst (wsender_load_slot i s)))"
proof -
  obtain sl where "i < length (wt_slots s)" "wt_slots s ! i = Some sl"
      "sl_needs_retransmit sl \<or> \<not> sl_written sl"
    using next_to_write_SomeD [OF assms(2)] by auto
  then show ?thesis using assms(1) occupied_pos [of i "wt_slots s"]
    by (auto simp: wsender_load_slot_def wsender_wf_def)
qed

lemma wsender_wf_poll:
  assumes "wsender_wf s" and "wsender_poll p w s = (w', s', r)"
  shows "wsender_wf s'"
  using assms(1)
proof (cases rule: wsender_poll_cases [of s p w])
  case (loading i)
  then show ?thesis using wsender_wf_load [OF assms(1) loading(1,2)] assms(2)
      wsender_wf_write [of "fst (wsender_load_slot i s)" p w] by (metis fst_conv snd_conv)
next
  case writing
  then show ?thesis using wsender_wf_write [OF assms(1), of p w] assms(2) by (metis fst_conv snd_conv)
next
  case reading
  then show ?thesis using wsender_wf_read [OF assms(1), of p w] assms(2) by (metis fst_conv snd_conv)
qed (use assms in auto)

section \<open>Reachable senders\<close>

inductive wsender_reachable :: "nat \<Rightarrow> retry_policy \<Rightarrow> ('w, 'e) port \<Rightarrow> wsender \<Rightarrow> bool" for n pol p where
  wreach_new: "wsender_reachable n pol p (wsender_with_policy n pol)"
| wreach_start: "wsender_reachable n pol p s \<Longrightarrow>
    wsender_reachable n pol p (fst (wsender_offer_start s :: wsender \<times> ('e error + unit)))"
| wreach_offer: "wsender_reachable n pol p s \<Longrightarrow>
    wsender_reachable n pol p (fst (wsender_offer b s :: wsender \<times> ('e error + unit)))"
| wreach_finish: "wsender_reachable n pol p s \<Longrightarrow>
    wsender_reachable n pol p (fst (wsender_offer_finish s :: wsender \<times> ('e error + unit)))"
| wreach_abort: "wsender_reachable n pol p s \<Longrightarrow>
    wsender_reachable n pol p (fst (wsender_offer_abort s :: wsender \<times> ('e error + unit)))"
| wreach_force: "wsender_reachable n pol p s \<Longrightarrow> wsender_reachable n pol p (wsender_force_abort s)"
| wreach_limit: "wsender_reachable n pol p s \<Longrightarrow>
    wsender_reachable n pol p (wsender_set_window_limit k s)"
| wreach_mark: "wsender_reachable n pol p s \<Longrightarrow>
    wsender_reachable n pol p (fst (wsender_take_mark s))"
| wreach_poll: "wsender_reachable n pol p s \<Longrightarrow> wsender_poll p w s = (w', s', r) \<Longrightarrow>
    wsender_reachable n pol p s'"

lemma wsender_reachable_wf:
  assumes "check_window n" and "wsender_reachable n pol p s"
  shows "wsender_wf s"
  using assms(2)
proof (induction rule: wsender_reachable.induct)
  case wreach_new
  show ?case using assms(1) by simp
next
  case (wreach_offer s b)
  then show ?case using wsender_wf_offer surjective_pairing by blast
next
  case (wreach_poll s w w' s' r)
  show ?case using wsender_wf_poll [OF wreach_poll(3,2)] .
qed (simp_all add: wsender_wf_offer_start wsender_wf_offer_finish wsender_wf_offer_abort
    wsender_wf_set_window_limit wsender_take_mark_def)

lemma window_room:
  assumes "wsender_wf s" and "\<not> wsender_has_session_flight s"
    and "\<forall>sl. Some sl \<in> set (wt_slots s) \<longrightarrow> unat (wt_next_seq s - sl_seq sl) < k"
    and "k \<le> length (wt_slots s)" and "1 \<le> k"
  shows "wsender_find_free s \<noteq> None"
proof
  let ?f = "\<lambda>i. unat (wt_next_seq s - sl_seq (the (wt_slots s ! i)))"
  assume "wsender_find_free s = None"
  then have full: "\<exists>sl. wt_slots s ! i = Some sl" if "i < length (wt_slots s)" for i
    using that by (auto simp: wsender_find_free_def position_None)
  have win: "window_ok (wt_next_seq s) (wt_limit s) (wt_slots s)"
    using assms(1) by (simp add: wsender_wf_def)
  have "inj_on ?f {..<length (wt_slots s)}"
  proof (rule inj_onI)
    fix i j assume ij: "i \<in> {..<length (wt_slots s)}" "j \<in> {..<length (wt_slots s)}" "?f i = ?f j"
    then obtain a b where ab: "wt_slots s ! i = Some a" "wt_slots s ! j = Some b"
      using full by (meson lessThan_iff)
    then have "sl_seq a = sl_seq b" using ij(3) by (simp add: word_unat_eq_iff [symmetric])
    then show "i = j" using window_ok_inj [OF win] ij ab by blast
  qed
  moreover have "?f ` {..<length (wt_slots s)} \<subseteq> {1..<k}"
  proof
    fix x assume "x \<in> ?f ` {..<length (wt_slots s)}"
    then obtain i sl where "i < length (wt_slots s)" "wt_slots s ! i = Some sl"
        "x = unat (wt_next_seq s - sl_seq sl)"
      using full by fastforce
    then have "Some sl \<in> set (wt_slots s)" "x = unat (wt_next_seq s - sl_seq sl)"
      by (metis nth_mem, simp)
    then show "x \<in> {1..<k}"
      using window_ok_data [OF win _ no_session_flight [OF assms(2)]] assms(3) by auto
  qed
  ultimately have "length (wt_slots s) \<le> card {1..<k}"
    using card_inj_on_le [of ?f "{..<length (wt_slots s)}" "{1..<k}"] by simp
  then show False using assms(4,5) by simp
qed

text \<open>
  C8: in any reachable state of a running window without a session frame in flight, the code's
  wrapping comparison finds the oldest unacknowledged byte, no byte is more than \<open>limit\<close> behind
  the next sequence number, and \<open>offer\<close> accepts the next byte exactly when every unacknowledged
  one is strictly inside the window: it is never refused for want of a slot.
\<close>

theorem window_offer_exact:
  fixes p :: "('w, 'e) port"
  assumes "check_window n" and "wsender_reachable n pol p s"
    and "wt_state s \<notin> {TxFinished, TxAborted, TxFailed}" and "\<not> wsender_has_session_flight s"
  shows "(\<forall>sl. Some sl \<in> set (wt_slots s) \<longrightarrow> unat (wsender_next_seq s - sl_seq sl) \<in> {1..wt_limit s} \<and>
      (\<exists>q. wsender_oldest_unacked s = Some q \<and>
         unat (wsender_next_seq s - sl_seq sl) \<le> unat (wsender_next_seq s - q))) \<and>
    snd (wsender_offer b s :: wsender \<times> ('e error + unit)) =
      (if \<forall>sl. Some sl \<in> set (wt_slots s) \<longrightarrow> unat (wsender_next_seq s - sl_seq sl) < wt_limit s
       then Inr () else Inl ErrWindowFull)"
proof -
  have wf: "wsender_wf s" using assms(1,2) by (rule wsender_reachable_wf)
  have q: "wsender_next_seq s = wt_next_seq s" by (simp add: wsender_next_seq_def seq_defs)
  have win: "window_ok (wt_next_seq s) (wt_limit s) (wt_slots s)"
    using wf by (simp add: wsender_wf_def)
  have lim: "1 \<le> wt_limit s" "wt_limit s \<le> length (wt_slots s)" using wf by (auto simp: wsender_wf_def)
  have 1: "\<forall>sl. Some sl \<in> set (wt_slots s) \<longrightarrow> unat (wt_next_seq s - sl_seq sl) \<in> {1..wt_limit s}"
    using window_ok_data [OF win _ no_session_flight [OF assms(4)]] by auto
  have 2: "\<exists>q. wsender_oldest_unacked s = Some q \<and>
      unat (wt_next_seq s - sl_seq sl) \<le> unat (wt_next_seq s - q)" if "Some sl \<in> set (wt_slots s)" for sl
    using wsender_oldest [OF wf assms(4)] that by (cases "wsender_oldest_unacked s") (auto simp: occupied_0)
  have "snd (wsender_offer b s :: wsender \<times> ('e error + unit)) =
      (if wsender_seq_in_send_window (wt_next_seq s) s \<and> wsender_find_free s \<noteq> None
       then Inr () else Inl ErrWindowFull)"
    using assms(3,4) by (auto simp: wsender_offer_def seq_defs wsender_insert_def Let_def
        split: option.splits)
  then show ?thesis
    using 1 2 in_send_window [OF wf assms(4)] window_room [OF wf assms(4) _ lim(2,1)] unfolding q by auto
qed

theorem window_offer_exact_witness:
  "let s = fst (wsender_offer 6 (fst (wsender_offer 5 (wsender_new 2) :: wsender \<times> (mock_full error + unit)))
      :: wsender \<times> (mock_full error + unit))
   in wsender_oldest_unacked s = Some 0 \<and>
      snd (wsender_offer 7 s :: wsender \<times> (mock_full error + unit)) = Inl ErrWindowFull"
proof -
  let ?s1 = "fst (wsender_offer 5 (wsender_new 2) :: wsender \<times> (mock_full error + unit))"
  let ?s2 = "fst (wsender_offer 6 ?s1 :: wsender \<times> (mock_full error + unit))"
  let ?sl = "\<lambda>q b. \<lparr>sl_kind = WData, sl_seq = q, sl_payload = b, sl_retries_left = 5, sl_written = False,
    sl_needs_retransmit = False, sl_empty_ticks = 0\<rparr>"
  have s1: "?s1 = (wsender_new 2)\<lparr>wt_slots := [Some (?sl 0 5), None], wt_state := TxSending, wt_next_seq := 1\<rparr>"
    by (simp add: wsender_offer_def wsender_insert_def wsender_new_def wsender_with_policy_def
        wsender_has_session_flight_def has_kind_def wsender_seq_in_send_window_def
        wsender_oldest_unacked_def older_def wsender_find_free_def position_def seq_defs
        retry_policy_default_def retry_policy_new_def numeral_2_eq_2)
  have s2: "?s2 = (wsender_new 2)\<lparr>wt_slots := [Some (?sl 0 5), Some (?sl 1 6)], wt_state := TxSending,
      wt_next_seq := 2\<rparr>"
    unfolding s1
    by (simp add: wsender_offer_def wsender_insert_def wsender_new_def wsender_with_policy_def
        wsender_has_session_flight_def has_kind_def wsender_seq_in_send_window_def
        wsender_oldest_unacked_def older_def wsender_find_free_def position_def seq_defs
        retry_policy_default_def retry_policy_new_def)
  have "wsender_reachable 2 retry_policy_default mock_port ?s2"
    by (rule wsender_reachable.wreach_offer, rule wsender_reachable.wreach_offer,
        unfold wsender_new_def, rule wsender_reachable.wreach_new)
  moreover have "check_window 2" by (simp add: check_window_def MAX_WINDOW_def)
  moreover have "wt_state ?s2 \<notin> {TxFinished, TxAborted, TxFailed}" "\<not> wsender_has_session_flight ?s2"
    "wt_limit ?s2 = 2" "wsender_next_seq ?s2 = 2" "wt_slots ?s2 = [Some (?sl 0 5), Some (?sl 1 6)]"
    unfolding s2 by (simp_all add: wsender_has_session_flight_def has_kind_def wsender_next_seq_def
        seq_defs wsender_new_def wsender_with_policy_def)
  ultimately have "snd (wsender_offer 7 ?s2 :: wsender \<times> (mock_full error + unit)) = Inl ErrWindowFull"
    using window_offer_exact [of 2 retry_policy_default mock_port ?s2 7] by auto
  moreover have "wsender_oldest_unacked ?s2 = Some 0"
    unfolding s2 by (simp add: wsender_oldest_unacked_def older_def wsender_new_def wsender_with_policy_def)
  ultimately show ?thesis by (simp add: Let_def)
qed

section \<open>What acknowledges a byte\<close>

lemma wsender_on_ack_acked:
  assumes "wsender_on_ack q s = (s', Inr PollAcked)"
  shows "\<exists>i sl. i < length (wt_slots s) \<and> wt_slots s ! i = Some sl \<and> sl_kind sl = WData \<and>
    sl_written sl \<and> sl_seq sl = q \<and> wt_slots s' = (wt_slots s)[i := None] \<and>
    wt_next_seq s' = wt_next_seq s"
  using assms
  by (auto simp: wsender_on_ack_def Let_def split: option.splits if_splits wflight_kind.splits
      elim!: find_seq_SomeD)

lemma wsender_not_acked:
  "wsender_on_nack q s = (s', Inr PollAcked) \<longleftrightarrow> False"
  "wsender_tick_timeouts s = (s', Inr PollAcked) \<longleftrightarrow> False"
  "wsender_write p w s = (w', s', Inr PollAcked) \<longleftrightarrow> False"
  by (auto simp: wsender_on_nack_def wsender_tick_timeouts_def wsender_write_def Let_def
      split: option.splits if_splits prod.splits sum.splits)

text \<open>
  C11: a poll reports a byte as acknowledged only when the transport has just completed a valid
  ACK frame whose number is that of a DATA slot already written; exactly that slot is freed and
  every other outstanding byte, and the next number, stay as they are.
\<close>

theorem wsender_acked:
  fixes p :: "('w, 'e) port"
  assumes "wsender_wf s" and "wsender_poll p w s = (w', s', Inr PollAcked)"
  shows "\<exists>b a i sl. read_byte p w = (w', Inr (Some b)) \<and>
    asm_push b (wt_assembler s) = (a, Some (Inr (ack_frame (sl_seq sl)))) \<and>
    i < length (wt_slots s) \<and> wt_slots s ! i = Some sl \<and> sl_kind sl = WData \<and> sl_written sl \<and>
    wt_slots s' = (wt_slots s)[i := None] \<and> wsender_next_seq s' = wsender_next_seq s"
  using assms(1)
proof (cases rule: wsender_poll_cases [of s p w])
  case reading
  then have "wsender_read p w s = (w', s', Inr PollAcked)" using assms(2) by simp
  then obtain b a f where r: "read_byte p w = (w', Inr (Some b))"
      "asm_push b (wt_assembler s) = (a, Some (Inr f))"
      "wsender_on_control f (s\<lparr>wt_assembler := a\<rparr>) = (s', Inr PollAcked :: 'e error + tx_poll)"
    by (auto simp: wsender_read_def wsender_not_acked
        split: prod.splits sum.splits option.splits)
  then have ack: "fr_type f = Ack" "wsender_on_ack (fr_seq f) (s\<lparr>wt_assembler := a\<rparr>) = (s', Inr PollAcked :: 'e error + tx_poll)"
    by (auto simp: wsender_on_control_def wsender_not_acked split: frame_type.splits)
  have f: "f = ack_frame (fr_seq f)" using ok_ack_frame [OF asm_push_ok [OF r(2)] ack(1)] .
  obtain i sl where sl: "i < length (wt_slots s)" "wt_slots s ! i = Some sl" "sl_kind sl = WData"
      "sl_written sl" "sl_seq sl = fr_seq f" "wt_slots s' = (wt_slots s)[i := None]"
      "wt_next_seq s' = wt_next_seq s"
    using wsender_on_ack_acked [OF ack(2)] by auto
  have "f = ack_frame (sl_seq sl)" using f sl(5) by simp
  with sl r(1,2) show ?thesis
    by (intro exI [of _ b] exI [of _ a] exI [of _ i] exI [of _ sl]) (simp add: wsender_next_seq_def)
next
  case writing
  then have "wsender_write p w s = (w', s', Inr PollAcked)" using assms(2) by simp
  then show ?thesis by (simp add: wsender_not_acked)
next
  case (loading i)
  then have "wsender_write p w (fst (wsender_load_slot i s)) = (w', s', Inr PollAcked)"
    using assms(2) by simp
  then show ?thesis by (simp add: wsender_not_acked)
qed (use assms(2) in auto)

theorem wsender_acked_witness:
  "case wsender_poll mock_port (mock_with_incoming [0xbd])
      ((wsender_new 2)\<lparr>wt_slots := [None, Some \<lparr>sl_kind = WData, sl_seq = 7, sl_payload = 9,
         sl_retries_left = 5, sl_written = True, sl_needs_retransmit = False, sl_empty_ticks = 3\<rparr>],
       wt_next_seq := 8, wt_state := TxWaitingAck, wt_assembler :=
         \<lparr>as_buf = [2, 7, 0, 0], as_last = [0, 0, 0, 0], as_filled = 3, as_resync = False\<rparr>\<rparr>)
    of (w', s', r) \<Rightarrow> r = (Inr PollAcked :: mock_full error + tx_poll) \<and> wt_slots s' = [None, None] \<and>
      wsender_next_seq s' = 8"
proof -
  let ?sl = "\<lparr>sl_kind = WData, sl_seq = 7, sl_payload = 9,
         sl_retries_left = 5, sl_written = True, sl_needs_retransmit = False, sl_empty_ticks = 3\<rparr>"
  let ?s = "(wsender_new 2)\<lparr>wt_slots := [None, Some ?sl],
       wt_next_seq := 8, wt_state := TxWaitingAck, wt_assembler :=
         \<lparr>as_buf = [2, 7, 0, 0], as_last = [0, 0, 0, 0], as_filled = 3, as_resync = False\<rparr>\<rparr>"
  have less2: "(\<forall>i < Suc (Suc 0). P i) \<longleftrightarrow> P 0 \<and> P (Suc 0)" for P
    by (auto simp: less_Suc_eq)
  have wf: "wsender_wf ?s"
    by (simp add: wsender_wf_def wsender_new_def wsender_with_policy_def asm_wf_def FRAME_LEN_def
        check_window_def MAX_WINDOW_def window_ok_def less2 retry_policy_default_def retry_policy_new_def)
  have push: "asm_push 0xbd (wt_assembler ?s) = (\<lparr>as_buf = [2, 7, 0, 0xbd], as_last = [2, 7, 0, 0xbd],
      as_filled = 0, as_resync = False\<rparr>, Some (Inr (ack_frame 7)))"
    by (simp add: asm_push_def FRAME_LEN_def from_bytes_def from_u8_def crc8_header_def crc_eval
        semantics_ok_def is_control_def frame_defs Let_def)
  have read: "read_byte mock_port (mock_with_incoming [0xbd]) =
      ((mock_with_incoming [0xbd])\<lparr>mk_incoming_pos := 1\<rparr>, Inr (Some 0xbd))"
    by (simp add: mock_port_def mock_with_incoming_def Let_def MOCK_CAP_def)
  obtain w' s' where p: "wsender_poll mock_port (mock_with_incoming [0xbd]) ?s = (w', s', Inr PollAcked)"
    using push by (auto simp: wsender_poll_def wsender_next_to_write_def wsender_read_def read
        wsender_on_control_def wsender_on_ack_def wsender_find_seq_def position_def wsender_new_def
        wsender_with_policy_def Let_def)
  have "wsender_next_seq ?s = 8" by (simp add: wsender_next_seq_def seq_defs)
  moreover have "wt_slots s' = [None, None]"
  proof -
    obtain i where "i < length (wt_slots ?s)" "wt_slots ?s ! i \<noteq> None" "wt_slots s' = (wt_slots ?s)[i := None]"
      using wsender_acked [OF wf p] by auto
    then show ?thesis by (cases i) (auto simp: less_Suc_eq)
  qed
  ultimately show ?thesis using wsender_acked [OF wf p] p by auto
qed

section \<open>Retransmissions are bounded\<close>

definition slot_left :: "tx_slot option \<Rightarrow> nat" where
  "slot_left slot = (case slot of None \<Rightarrow> 0
     | Some sl \<Rightarrow> unat (sl_retries_left sl) + (if sl_needs_retransmit sl \<or> \<not> sl_written sl then 1 else 0))"

definition slots_left :: "tx_slot option list \<Rightarrow> nat" where
  "slots_left slots = sum_list (map slot_left slots)"

text \<open>A caller that offers bytes and polls in any order, counting frames written and bytes accepted.\<close>

datatype wcmd = WOffer u8 | WPoll

fun wsender_run :: "('w, 'e) port \<Rightarrow> wcmd list \<Rightarrow> 'w \<Rightarrow> wsender \<Rightarrow> 'w \<times> wsender \<times> nat \<times> nat" where
  "wsender_run p [] w s = (w, s, 0, 0)"
| "wsender_run p (WOffer b # cmds) w s =
     (case (wsender_offer b s :: wsender \<times> ('e error + unit)) of (s', r) \<Rightarrow>
        case wsender_run p cmds w s' of (w'', s'', frames, accepted) \<Rightarrow>
          (w'', s'', frames, accepted + (case r of Inl _ \<Rightarrow> 0 | Inr _ \<Rightarrow> 1)))"
| "wsender_run p (WPoll # cmds) w s =
     (case wsender_poll p w s of (w', s1, r) \<Rightarrow>
        case wsender_take_mark s1 of (s', mark) \<Rightarrow>
          case wsender_run p cmds w' s' of (w'', s'', frames, accepted) \<Rightarrow>
            (w'', s'', frames + (if im_frame_on_wire mark then 1 else 0), accepted))"

lemma slots_left_update:
  "i < length xs \<Longrightarrow> slots_left (xs[i := y]) + slot_left (xs ! i) = slots_left xs + slot_left y"
  unfolding slots_left_def
proof (induction xs arbitrary: i)
  case (Cons x xs)
  then show ?case by (cases i) auto
qed simp

lemma slots_left_none [simp]: "slots_left (replicate n None) = 0"
  by (simp add: slots_left_def slot_left_def sum_list_replicate)

lemma slots_left_clear: "slots_left (xs[i := None]) \<le> slots_left xs"
proof (cases "i < length xs")
  case True
  then show ?thesis using slots_left_update [OF True, of None] by (simp add: slot_left_def)
next
  case False
  then have "xs[i := None] = xs" by (intro list_update_beyond) simp
  then show ?thesis by simp
qed

lemma wtick_slots_left:
  assumes "wtick_slots timeout writing i slots = (slots', again, failed)"
  shows "slots_left slots' \<le> slots_left slots"
  using assms
proof (induction timeout writing i slots arbitrary: slots' again failed rule: wtick_slots.induct)
  case (1 timeout writing i)
  then show ?case by simp
next
  case (2 timeout writing i slots)
  then show ?case by (auto simp: slots_left_def split: prod.splits)
next
  case (3 timeout writing i sl slots)
  let ?sl = "sl\<lparr>sl_empty_ticks := sat_inc (sl_empty_ticks sl)\<rparr>"
  obtain slots1 again1 failed1 where rest: "wtick_slots timeout writing (Suc i) slots =
      (slots1, again1, failed1)" by (metis prod_cases3)
  show ?case
  proof (cases "writing = Some i \<or> \<not> sl_written sl \<or> sl_needs_retransmit sl")
    case True
    then show ?thesis using 3(1) [OF True rest] 3(4) rest by (auto simp: slots_left_def)
  next
    case skip: False
    show ?thesis
    proof (cases "sl_empty_ticks ?sl < timeout")
      case True
      then show ?thesis using 3(2) [OF skip refl True rest] 3(4) rest skip
        by (auto simp: slots_left_def slot_left_def Let_def)
    next
      case False
      then show ?thesis
        using 3(3) [OF skip refl False _ rest] 3(4) rest skip unat_dec [of "sl_retries_left sl"]
        by (cases "sl_retries_left sl = 0")
          (auto simp: slots_left_def slot_left_def slot_retry_def Let_def)
    qed
  qed
qed

lemma offer_left:
  fixes r :: "'e error + unit"
  assumes "wsender_offer b s = (s', r)"
  shows "slots_left (wt_slots s') = slots_left (wt_slots s) +
      (case r of Inl _ \<Rightarrow> 0 | Inr _ \<Rightarrow> unat (max_retries (wt_policy s)) + 1) \<and>
    wt_policy s' = wt_policy s \<and> wt_mark s' = wt_mark s"
proof (cases r)
  case (Inl e)
  then show ?thesis using assms
    by (auto simp: wsender_offer_def Let_def split: if_splits prod.splits sum.splits
        dest: wsender_insert_Inl)
next
  case (Inr u)
  then obtain i where i: "wsender_find_free s = Some i"
    using assms by (auto simp: wsender_offer_def wsender_insert_def Let_def split: if_splits option.splits)
  show ?thesis using assms Inr i find_free_SomeD [OF i] slots_left_update [of i "wt_slots s"]
    by (auto simp: wsender_offer_def wsender_insert_def Let_def slot_left_def split: if_splits)
qed

lemma nack_left:
  "slots_left (wt_slots (fst (wsender_on_nack q s))) \<le> slots_left (wt_slots s)"
proof (cases "wsender_find_seq q s")
  case (Some i)
  then obtain sl where sl: "i < length (wt_slots s)" "wt_slots s ! i = Some sl"
    using find_seq_SomeD by metis
  then show ?thesis using Some slots_left_update [OF sl(1), of "Some (slot_retry sl)"]
      unat_dec [of "sl_retries_left sl"]
    by (auto simp: wsender_on_nack_def clear_slots_def slot_left_def slot_retry_def)
qed (simp add: wsender_on_nack_def)

lemma ack_left:
  "slots_left (wt_slots (fst (wsender_on_ack q s))) \<le> slots_left (wt_slots s)"
  using slots_left_clear
  by (auto simp: wsender_on_ack_def Let_def split: option.splits wflight_kind.splits)

lemma tick_left:
  "slots_left (wt_slots (fst (wsender_tick_timeouts s))) \<le> slots_left (wt_slots s)"
proof -
  obtain slots again failed where t: "wtick_slots (timeout_ticks (wt_policy s)) (wt_writing s) 0 (wt_slots s)
      = (slots, again, failed)" by (metis prod_cases3)
  show ?thesis using wtick_slots_left [OF t] t
    by (simp add: wsender_tick_timeouts_def clear_slots_def Let_def)
qed

lemma control_left:
  "slots_left (wt_slots (fst (wsender_on_control f s))) \<le> slots_left (wt_slots s)"
  using ack_left [of "fr_seq f" s] nack_left [of "fr_seq f" s]
  by (cases "fr_type f") (auto simp: wsender_on_control_def wsender_force_abort_def clear_slots_def)

text \<open>Reading changes neither the policy nor whether a frame went out.\<close>

definition same_log :: "wsender \<Rightarrow> wsender \<Rightarrow> bool" where
  "same_log s s' = (wt_policy s' = wt_policy s \<and>
     im_frame_on_wire (wt_mark s') = im_frame_on_wire (wt_mark s))"

lemma control_log: "same_log s (fst (wsender_on_control f s))"
  by (auto simp: same_log_def wsender_on_control_def wsender_on_ack_def wsender_on_nack_def
      wsender_force_abort_def clear_slots_def Let_def
      split: frame_type.splits option.splits wflight_kind.splits)

lemma tick_log: "same_log s (fst (wsender_tick_timeouts s))"
  by (auto simp: same_log_def wsender_tick_timeouts_def clear_slots_def Let_def split: prod.splits)

lemma read_left:
  fixes p :: "('w, 'e) port"
  assumes "wsender_read p w s = (w', s', r)"
  shows "slots_left (wt_slots s') \<le> slots_left (wt_slots s) \<and> same_log s s'"
proof -
  have tick: "slots_left (wt_slots s2) \<le> slots_left (wt_slots s) \<and> same_log s s2"
    if "wsender_tick_timeouts s = (s2, r2 :: 'e error + tx_poll)" for s2 r2
    using tick_left [of s, where ?'a = 'e] tick_log [of s, where ?'a = 'e] that by simp
  have control: "slots_left (wt_slots s2) \<le> slots_left (wt_slots s) \<and> same_log s s2"
    if "wsender_on_control f (s\<lparr>wt_assembler := a\<rparr>) = (s2, r2 :: 'e error + tx_poll)" for f a s2 r2
    using control_left [of f "s\<lparr>wt_assembler := a\<rparr>", where ?'a = 'e]
      control_log [of "s\<lparr>wt_assembler := a\<rparr>" f, where ?'a = 'e] that by (simp add: same_log_def)
  show ?thesis using assms
    by (auto simp: wsender_read_def same_log_def dest: tick control
        split: prod.splits sum.splits option.splits)
qed

lemma write_left:
  assumes "wsender_wf s" and "\<not> ob_is_idle (wt_out s)" and "wsender_write p w s = (w', s', r)"
  shows "slots_left (wt_slots s') + (if im_frame_on_wire (wt_mark s') then 1 else 0) \<le>
      slots_left (wt_slots s) + (if im_frame_on_wire (wt_mark s) then 1 else 0) \<and>
    wt_policy s' = wt_policy s"
proof -
  obtain i sl where i: "wt_writing s = Some i" "i < length (wt_slots s)" "wt_slots s ! i = Some sl"
      "sl_needs_retransmit sl \<or> \<not> sl_written sl"
    using assms(1,2) by (auto simp: wsender_wf_def)
  let ?sl = "sl\<lparr>sl_written := True, sl_needs_retransmit := False, sl_empty_ticks := 0\<rparr>"
  have "Suc (slots_left ((wt_slots s)[i := Some ?sl])) = slots_left (wt_slots s)"
    using slots_left_update [OF i(2), of "Some ?sl"] i(3,4) by (simp add: slot_left_def)
  then show ?thesis using assms(3) i
    by (auto simp: wsender_write_def wsender_pump_out_def wsender_finish_write_def Let_def
        split: prod.splits sum.splits if_splits)
qed

lemma poll_left:
  assumes "wsender_wf s" and "wsender_poll p w s = (w', s', r)" and "\<not> im_frame_on_wire (wt_mark s)"
  shows "slots_left (wt_slots s') + (if im_frame_on_wire (wt_mark s') then 1 else 0) \<le>
      slots_left (wt_slots s) \<and> wt_policy s' = wt_policy s"
  using assms(1)
proof (cases rule: wsender_poll_cases [of s p w])
  case writing
  then show ?thesis using write_left [OF assms(1), of p w w' s' r] assms(2,3) by simp
next
  case (loading i)
  let ?s = "fst (wsender_load_slot i s)"
  have "wt_slots ?s = wt_slots s" "wt_mark ?s = wt_mark s" "wt_policy ?s = wt_policy s"
    by (auto simp: wsender_load_slot_def split: option.splits)
  then show ?thesis using write_left [of ?s p w w' s' r] wsender_wf_load [OF assms(1) loading(1,2)]
      assms(2,3) loading(3) by simp
next
  case reading
  then show ?thesis using read_left [of p w s w' s' r] assms(2,3) by (simp add: same_log_def)
qed (use assms in auto)

lemma run_left:
  assumes "wsender_wf s" and "wsender_run p cmds w s = (w', s', frames, accepted)"
    and "\<not> im_frame_on_wire (wt_mark s)"
  shows "slots_left (wt_slots s') + frames \<le>
    slots_left (wt_slots s) + accepted * (unat (max_retries (wt_policy s)) + 1)"
  using assms
proof (induction p cmds w s arbitrary: w' s' frames accepted rule: wsender_run.induct)
  case (1 p w s)
  then show ?case by simp
next
  case (2 p b cmds w s)
  obtain s1 r where o: "(wsender_offer b s :: wsender \<times> ('b error + unit)) = (s1, r)" by fastforce
  obtain w2 s2 f a where run: "wsender_run p cmds w s1 = (w2, s2, f, a)" by (metis prod_cases4)
  note left = offer_left [OF o]
  have "slots_left (wt_slots s2) + f \<le>
      slots_left (wt_slots s1) + a * (unat (max_retries (wt_policy s1)) + 1)"
    using 2(1) [OF o [symmetric] wsender_wf_offer [OF 2(2) o] run] left 2(4) by simp
  then show ?case using left 2(3) o run by (cases r) (auto simp: algebra_simps)
next
  case (3 p cmds w s)
  obtain w1 s1 r where o: "wsender_poll p w s = (w1, s1, r)" by (metis prod_cases3)
  let ?s = "s1\<lparr>wt_mark := io_mark_default\<rparr>"
  have tm: "wsender_take_mark s1 = (?s, wt_mark s1)" by (simp add: wsender_take_mark_def)
  obtain w2 s2 f a where run: "wsender_run p cmds w1 ?s = (w2, s2, f, a)" by (metis prod_cases4)
  note left = poll_left [OF 3(2) o 3(4)]
  have "slots_left (wt_slots s2) + f \<le>
      slots_left (wt_slots ?s) + a * (unat (max_retries (wt_policy ?s)) + 1)"
    using 3(1) [OF o [symmetric] refl tm [symmetric] _ run] wsender_wf_poll [OF 3(2) o]
    by (simp add: io_mark_default_def)
  then show ?case using left 3(3) o run tm by auto
qed

text \<open>
  C9: however the transport behaves and however offers and polls are interleaved, a windowed
  sender that starts with an empty window puts at most \<open>max_retries + 1\<close> frames on the wire for
  each byte it accepts.
\<close>

theorem wretransmissions_bounded:
  assumes "wsender_wf s" and "wsender_outstanding s = 0" and "\<not> im_frame_on_wire (wt_mark s)"
    and "wsender_run p cmds w s = (w', s', frames, accepted)"
  shows "frames \<le> accepted * (unat (max_retries (wt_policy s)) + 1)"
proof -
  have "slots_left (wt_slots s) = 0"
    using assms(2) by (auto simp: wsender_outstanding_def occupied_0 slots_left_def slot_left_def)
  then show ?thesis using run_left [OF assms(1,4,3)] by simp
qed

theorem wretransmissions_bounded_witness:
  "case wsender_run mock_port (WOffer 7 # WOffer 8 # replicate 50 WPoll) (mock_with_incoming [3, 0, 0, 9])
      (wsender_with_policy 4 (retry_policy_new 2 3))
   of (w', s', frames, accepted) \<Rightarrow> frames \<le> accepted * (3 + 1)"
proof -
  let ?s = "wsender_with_policy 4 (retry_policy_new 2 3)"
  obtain w' s' frames accepted where r: "wsender_run mock_port (WOffer 7 # WOffer 8 # replicate 50 WPoll)
      (mock_with_incoming [3, 0, 0, 9]) ?s = (w', s', frames, accepted)" by (metis prod_cases4)
  have "frames \<le> accepted * (unat (max_retries (wt_policy ?s)) + 1)"
  proof (rule wretransmissions_bounded [OF _ _ _ r])
    show "wsender_wf ?s" by (rule wsender_wf_with_policy) (simp add: check_window_def MAX_WINDOW_def)
  qed (simp_all add: wsender_outstanding_def wsender_with_policy_def io_mark_default_def)
  then show ?thesis unfolding r by (simp add: wsender_with_policy_def retry_policy_new_def)
qed

end
