(* ===== verification/WinReceiver.thy ===== *)
theory WinReceiver
  imports WinSender Receiver
begin

text \<open>
  The selective-repeat receiver (\<open>src/window/rx.rs\<close>): a reorder buffer \<open>[Option<u8>; N]\<close> whose
  slot \<open>i\<close> holds the byte numbered \<open>expected + i\<close>, and an emit queue for bytes that became
  deliverable together.  The lemmas show that the emit queue never overflows, that a drain leaves
  no deliverable byte behind, and that the bytes delivered are the sender's stream in order
  however frames are repeated, delayed and reordered.
\<close>

section \<open>The code\<close>

datatype wpending_action =
    WpDrain | WpDuplicate | WpQuiet | WpStarted | WpFinished | WpAborted | WpRejected | WpCrcRejected

record wreceiver =
  wr_expected_seq :: sequence
  wr_buf :: "u8 option list"
  wr_emit :: "u8 list"
  wr_emit_at :: nat
  wr_emit_len :: nat
  wr_limit :: nat
  wr_state :: rx_state
  wr_assembler :: assembler
  wr_out :: out_buf
  wr_pending :: "wpending_action option"
  wr_finish_seq :: "u8 option"
  wr_abort_latched :: bool

definition wreceiver_new :: "nat \<Rightarrow> wreceiver" where
  "wreceiver_new n =
     \<lparr>wr_expected_seq = seq_new, wr_buf = replicate n None, wr_emit = replicate n 0, wr_emit_at = 0,
      wr_emit_len = 0, wr_limit = n, wr_state = RxIdle, wr_assembler = asm_new, wr_out = ob_empty,
      wr_pending = None, wr_finish_seq = None, wr_abort_latched = False\<rparr>"

definition wreceiver_expected_seq :: "wreceiver \<Rightarrow> u8" where
  "wreceiver_expected_seq r = seq_current (wr_expected_seq r)"

definition wreceiver_set_window_limit :: "nat \<Rightarrow> wreceiver \<Rightarrow> wreceiver" where
  "wreceiver_set_window_limit limit r =
     (if list_ex (\<lambda>s. s \<noteq> None) (wr_buf r) \<or> wr_emit_len r \<noteq> 0 \<or> \<not> ob_is_idle (wr_out r) then r
      else r\<lparr>wr_limit := if limit = 0 then 1
                         else if limit > length (wr_buf r) then length (wr_buf r) else limit\<rparr>)"

definition wreceiver_settle_idle :: "wreceiver \<Rightarrow> wreceiver" where
  "wreceiver_settle_idle r =
     r\<lparr>wr_state := if wr_abort_latched r then RxAborted
                  else if wr_finish_seq r \<noteq> None then RxFinished else RxIdle\<rparr>"

definition wreceiver_is_closed :: "wreceiver \<Rightarrow> bool" where
  "wreceiver_is_closed r = (wr_abort_latched r \<or> wr_finish_seq r \<noteq> None)"

definition wreceiver_clear_window :: "wreceiver \<Rightarrow> wreceiver" where
  "wreceiver_clear_window r =
     r\<lparr>wr_buf := replicate (length (wr_buf r)) None, wr_emit_at := 0, wr_emit_len := 0\<rparr>"

definition wreceiver_offset :: "u8 \<Rightarrow> wreceiver \<Rightarrow> nat option" where
  "wreceiver_offset seq r =
     (let delta = seq - seq_current (wr_expected_seq r)
      in if unat delta < wr_limit r then Some (unat delta) else None)"

definition wreceiver_is_duplicate :: "u8 \<Rightarrow> wreceiver \<Rightarrow> bool" where
  "wreceiver_is_duplicate seq r =
     (let back = seq_current (wr_expected_seq r) - seq
      in back \<ge> 1 \<and> unat back \<le> wr_limit r)"

definition shift_buf :: "u8 option list \<Rightarrow> u8 option list" where
  "shift_buf buf = drop 1 buf @ [None]"

definition wreceiver_push_emit :: "u8 \<Rightarrow> wreceiver \<Rightarrow> wreceiver" where
  "wreceiver_push_emit byte r =
     (if wr_emit_len r \<ge> length (wr_emit r) then r
      else r\<lparr>wr_emit := (wr_emit r)[wr_emit_len r := byte], wr_emit_len := wr_emit_len r + 1\<rparr>)"

definition wreceiver_pop_emit :: "wreceiver \<Rightarrow> wreceiver \<times> u8 option" where
  "wreceiver_pop_emit r =
     (if wr_emit_at r \<ge> wr_emit_len r then (r\<lparr>wr_emit_at := 0, wr_emit_len := 0\<rparr>, None)
      else
        let byte = wr_emit r ! wr_emit_at r;
            r' = r\<lparr>wr_emit_at := wr_emit_at r + 1\<rparr>
        in (if wr_emit_at r' \<ge> wr_emit_len r' then r'\<lparr>wr_emit_at := 0, wr_emit_len := 0\<rparr> else r',
            Some byte))"

function wreceiver_drain_in_order :: "wreceiver \<Rightarrow> wreceiver" where
  "wreceiver_drain_in_order r =
     (case wr_buf r of
        Some byte # rest \<Rightarrow>
          wreceiver_drain_in_order
            (wreceiver_push_emit byte
              (r\<lparr>wr_buf := shift_buf (None # rest),
                 wr_expected_seq := fst (seq_advance (wr_expected_seq r))\<rparr>))
      | _ \<Rightarrow> r)"
  by pat_completeness auto

termination
proof (relation "measure (\<lambda>r. occupied (wr_buf r))", goal_cases)
  case (2 r a rest byte)
  have "occupied (xs @ [None]) = occupied xs" for xs :: "u8 option list"
    by (induction xs) simp_all
  then show ?case using 2 by (simp add: wreceiver_push_emit_def shift_buf_def)
qed simp

declare wreceiver_drain_in_order.simps [simp del]

definition wreceiver_begin_reply :: "frame \<Rightarrow> wpending_action \<Rightarrow> wreceiver \<Rightarrow> wreceiver" where
  "wreceiver_begin_reply f action r =
     r\<lparr>wr_out := ob_load f (wr_out r), wr_pending := Some action, wr_state := RxAcknowledging\<rparr>"

definition wreceiver_take_pending :: "wreceiver \<Rightarrow> wreceiver \<times> poll_outcome option" where
  "wreceiver_take_pending r =
     (let r' = r\<lparr>wr_pending := None\<rparr>
      in case wr_pending r of
           None \<Rightarrow> (r', None)
         | Some WpDrain \<Rightarrow>
             (case wreceiver_pop_emit ((wreceiver_drain_in_order r')\<lparr>wr_state := RxIdle\<rparr>) of
                (r'', byte) \<Rightarrow> (r'', map_option OutDelivered byte))
         | Some WpDuplicate \<Rightarrow> (wreceiver_settle_idle r', Some OutDuplicateIgnored)
         | Some WpQuiet \<Rightarrow> (wreceiver_settle_idle r', Some OutPending)
         | Some WpStarted \<Rightarrow>
             (r'\<lparr>wr_finish_seq := None, wr_abort_latched := False, wr_state := RxIdle\<rparr>, Some OutStarted)
         | Some WpFinished \<Rightarrow> (r'\<lparr>wr_state := RxFinished\<rparr>, Some OutTransferFinished)
         | Some WpAborted \<Rightarrow> (r'\<lparr>wr_state := RxAborted\<rparr>, Some OutAborted)
         | Some WpRejected \<Rightarrow> (wreceiver_settle_idle r', Some OutRejected)
         | Some WpCrcRejected \<Rightarrow> (wreceiver_settle_idle r', Some OutCrcRejected))"

definition wreceiver_pump_reply ::
  "('w, 'e) port \<Rightarrow> 'w \<Rightarrow> wreceiver \<Rightarrow> 'w \<times> wreceiver \<times> ('e error + poll_outcome option)" where
  "wreceiver_pump_reply p w r =
     (case ob_peek (wr_out r) of
        None \<Rightarrow> (case wreceiver_take_pending r of (r', o') \<Rightarrow> (w, r', Inr o'))
      | Some byte \<Rightarrow>
          (case write_byte p byte w of
             (w', Inl e) \<Rightarrow> (w', r, Inl (ErrTransport e))
           | (w', Inr _) \<Rightarrow>
               let r' = r\<lparr>wr_out := ob_commit (wr_out r)\<rparr>
               in if ob_is_idle (wr_out r')
                  then (case wreceiver_take_pending r' of (r'', o') \<Rightarrow> (w', r'', Inr o'))
                  else (w', r'\<lparr>wr_state := RxAcknowledging\<rparr>, Inr None)))"

definition wreceiver_handle_start :: "wreceiver \<Rightarrow> wreceiver" where
  "wreceiver_handle_start r =
     wreceiver_begin_reply (ack_frame 0) WpStarted (wreceiver_clear_window
       (r\<lparr>wr_expected_seq := seq_new, wr_finish_seq := None, wr_abort_latched := False\<rparr>))"

definition wreceiver_handle_abort :: "wreceiver \<Rightarrow> wreceiver" where
  "wreceiver_handle_abort r =
     (if wr_finish_seq r \<noteq> None then r\<lparr>wr_state := RxFinished\<rparr>
      else wreceiver_begin_reply (ack_frame 0) WpAborted (wreceiver_clear_window
             (r\<lparr>wr_abort_latched := True, wr_expected_seq := seq_new\<rparr>)))"

definition wreceiver_handle_finish :: "u8 \<Rightarrow> wreceiver \<Rightarrow> wreceiver" where
  "wreceiver_handle_finish seq r =
     (if wr_abort_latched r then r\<lparr>wr_state := RxAborted\<rparr>
      else case wr_finish_seq r of
          Some closed \<Rightarrow>
            if seq = closed then wreceiver_begin_reply (ack_frame seq) WpFinished r
            else r\<lparr>wr_state := RxFinished\<rparr>
        | None \<Rightarrow>
            if seq \<noteq> seq_current (wr_expected_seq r)
            then wreceiver_begin_reply (nack_frame seq) WpRejected r
            else wreceiver_begin_reply (ack_frame seq) WpFinished
                   (wreceiver_clear_window (r\<lparr>wr_finish_seq := Some seq\<rparr>)))"

definition wreceiver_handle_data :: "frame \<Rightarrow> wreceiver \<Rightarrow> wreceiver" where
  "wreceiver_handle_data f r =
     (if wr_abort_latched r then r\<lparr>wr_state := RxAborted\<rparr>
      else if wr_finish_seq r \<noteq> None then r\<lparr>wr_state := RxFinished\<rparr>
      else
        let seq = fr_seq f
        in (case wreceiver_offset seq r of
              Some off \<Rightarrow>
                let r' = (if wr_buf r ! off = None
                          then r\<lparr>wr_buf := (wr_buf r)[off := Some (fr_data f)]\<rparr> else r);
                    action = (if off = 0 then WpDrain else WpQuiet)
                in wreceiver_begin_reply (ack_frame seq) action r'
            | None \<Rightarrow>
                if wreceiver_is_duplicate seq r
                then wreceiver_begin_reply (ack_frame seq) WpDuplicate r
                else wreceiver_begin_reply (nack_frame seq) WpRejected r))"

text \<open>The end of every branch of \<open>poll\<close> with a reply, and what \<open>poll\<close> does with a completed window.\<close>

definition wreceiver_reply ::
  "('w, 'e) port \<Rightarrow> 'w \<Rightarrow> wreceiver \<Rightarrow> 'w \<times> wreceiver \<times> ('e error + poll_outcome)" where
  "wreceiver_reply p w r =
     (case wreceiver_pump_reply p w r of
        (w', r', Inl e) \<Rightarrow> (w', r', Inl e)
      | (w', r', Inr (Some out)) \<Rightarrow> (w', r', Inr out)
      | (w', r', Inr None) \<Rightarrow> (w', r', Inr OutPending))"

definition wreceiver_on_frame :: "frame_error + frame \<Rightarrow> wreceiver \<Rightarrow> wreceiver \<times> bool" where
  "wreceiver_on_frame decoded r0 =
     (let r = r0\<lparr>wr_state := RxValidating\<rparr>
      in case decoded of
           Inl err \<Rightarrow>
             if wreceiver_is_closed r then (wreceiver_settle_idle r, False)
             else let action = (case err of CrcMismatch _ _ \<Rightarrow> WpCrcRejected | _ \<Rightarrow> WpRejected)
                  in (wreceiver_begin_reply (nack_frame (seq_current (wr_expected_seq r))) action r, True)
         | Inr f \<Rightarrow>
             (case fr_type f of
                Data \<Rightarrow> (wreceiver_handle_data f r, True)
              | Start \<Rightarrow> (wreceiver_handle_start r, True)
              | Finish \<Rightarrow> (wreceiver_handle_finish (fr_seq f) r, True)
              | Abort \<Rightarrow> (wreceiver_handle_abort r, True)
              | _ \<Rightarrow> (wreceiver_settle_idle r, False)))"

definition wreceiver_poll ::
  "('w, 'e) port \<Rightarrow> 'w \<Rightarrow> wreceiver \<Rightarrow> 'w \<times> wreceiver \<times> ('e error + poll_outcome)" where
  "wreceiver_poll p w r0 =
     (case wreceiver_pop_emit r0 of
        (r1, Some byte) \<Rightarrow> (w, r1, Inr (OutDelivered byte))
      | (r1, None) \<Rightarrow>
          if \<not> ob_is_idle (wr_out r1) then wreceiver_reply p w r1
          else
            let r = r1\<lparr>wr_state := RxReceiving\<rparr>
            in (case read_byte p w of
                  (w', Inl e) \<Rightarrow> (w', r, Inl (ErrTransport e))
                | (w', Inr None) \<Rightarrow> (w', wreceiver_settle_idle r, Inr OutPending)
                | (w', Inr (Some byte)) \<Rightarrow>
                    (case asm_push byte (wr_assembler r) of
                       (a, None) \<Rightarrow> (w', r\<lparr>wr_assembler := a\<rparr>, Inr OutPending)
                     | (a, Some decoded) \<Rightarrow>
                         (case wreceiver_on_frame decoded (r\<lparr>wr_assembler := a\<rparr>) of
                            (r', True) \<Rightarrow> wreceiver_reply p w' r'
                          | (r', False) \<Rightarrow> (w', r', Inr OutPending)))))"

lemmas wreceiver_defs = wreceiver_on_frame_def wreceiver_handle_data_def wreceiver_handle_start_def
  wreceiver_handle_finish_def wreceiver_handle_abort_def wreceiver_begin_reply_def
  wreceiver_settle_idle_def wreceiver_is_closed_def wreceiver_clear_window_def

section \<open>Invariant\<close>

text \<open>The bytes waiting in the emit queue.\<close>

definition wr_queue :: "wreceiver \<Rightarrow> u8 list" where
  "wr_queue r = drop (wr_emit_at r) (take (wr_emit_len r) (wr_emit r))"

text \<open>
  What holds of the arrays at any time (\<open>buf_wf\<close>), and between polls: the emit queue is not empty
  only while no reply is in progress, and slot 0 is occupied only while its ACK is on the way out.
\<close>

definition buf_wf :: "wreceiver \<Rightarrow> bool" where
  "buf_wf r =
     (ob_wf (wr_out r) \<and> asm_wf (wr_assembler r) \<and> check_window (length (wr_buf r)) \<and>
      length (wr_emit r) = length (wr_buf r) \<and> 1 \<le> wr_limit r \<and> wr_limit r \<le> length (wr_buf r) \<and>
      wr_emit_at r \<le> wr_emit_len r \<and> wr_emit_len r + occupied (wr_buf r) \<le> length (wr_buf r) \<and>
      (wr_emit_at r = wr_emit_len r \<longrightarrow> wr_emit_len r = 0))"

definition wreceiver_wf :: "wreceiver \<Rightarrow> bool" where
  "wreceiver_wf r =
     (buf_wf r \<and> (wr_pending r = None \<longleftrightarrow> ob_is_idle (wr_out r)) \<and>
      (wr_emit_len r \<noteq> 0 \<longrightarrow> wr_pending r = None) \<and>
      (wr_buf r ! 0 \<noteq> None \<longleftrightarrow> wr_pending r = Some WpDrain))"

lemma wreceiver_wf_new [simp]: "check_window n \<Longrightarrow> wreceiver_wf (wreceiver_new n)"
  by (simp add: wreceiver_wf_def buf_wf_def wreceiver_new_def check_window_def)

lemma wreceiver_wf_state [simp]: "wreceiver_wf (r\<lparr>wr_state := st\<rparr>) = wreceiver_wf r"
  by (simp add: wreceiver_wf_def buf_wf_def)

lemma buf_wf_same [simp]:
  "buf_wf (r\<lparr>wr_state := st\<rparr>) = buf_wf r" "buf_wf (r\<lparr>wr_pending := a\<rparr>) = buf_wf r"
  by (simp_all add: buf_wf_def)

lemma wr_queue_state [simp]: "wr_queue (r\<lparr>wr_state := st\<rparr>) = wr_queue r"
  "wr_queue (r\<lparr>wr_out := out\<rparr>) = wr_queue r" "wr_queue (r\<lparr>wr_pending := a\<rparr>) = wr_queue r"
  "wr_queue (r\<lparr>wr_assembler := asm\<rparr>) = wr_queue r" "wr_queue (r\<lparr>wr_buf := buf\<rparr>) = wr_queue r"
  "wr_queue (r\<lparr>wr_expected_seq := q\<rparr>) = wr_queue r" "wr_queue (r\<lparr>wr_finish_seq := fq\<rparr>) = wr_queue r"
  by (simp_all add: wr_queue_def)

lemma occupied_snoc [simp]: "occupied (xs @ [None]) = occupied xs"
  by (induction xs) simp_all

lemma push_emit_queue:
  assumes "wr_emit_len r < length (wr_emit r)" and "wr_emit_at r \<le> wr_emit_len r"
  shows "wr_queue (wreceiver_push_emit b r) = wr_queue r @ [b]"
  using assms by (simp add: wreceiver_push_emit_def wr_queue_def take_Suc_update)

text \<open>
  A drain changes the buffer, the emit queue and the expected number only, moves the deliverable
  bytes to the queue without overflowing it, and leaves slot 0 empty.
\<close>

lemma drain_wf:
  assumes "buf_wf r"
  shows "buf_wf (wreceiver_drain_in_order r) \<and> wr_buf (wreceiver_drain_in_order r) ! 0 = None \<and>
    wr_out (wreceiver_drain_in_order r) = wr_out r \<and>
    wr_pending (wreceiver_drain_in_order r) = wr_pending r \<and>
    (wr_buf r ! 0 \<noteq> None \<longrightarrow> wr_emit_at (wreceiver_drain_in_order r) < wr_emit_len (wreceiver_drain_in_order r))"
  using assms
proof (induction r rule: wreceiver_drain_in_order.induct)
  case (1 r)
  show ?case
  proof (cases "\<exists>byte rest. wr_buf r = Some byte # rest")
    case True
    then obtain byte rest where buf: "wr_buf r = Some byte # rest" by auto
    let ?r = "wreceiver_push_emit byte (r\<lparr>wr_buf := shift_buf (None # rest),
      wr_expected_seq := fst (seq_advance (wr_expected_seq r))\<rparr>)"
    have wf: "buf_wf ?r" "wr_emit_at ?r < wr_emit_len ?r" "wr_out ?r = wr_out r"
      "wr_pending ?r = wr_pending r"
      using 1(2) buf by (auto simp: buf_wf_def wreceiver_push_emit_def shift_buf_def)
    have step: "wreceiver_drain_in_order r = wreceiver_drain_in_order ?r"
      by (subst wreceiver_drain_in_order.simps) (simp add: buf)
    note IH = 1(1) [OF buf refl wf(1)]
    show ?thesis
    proof (cases "wr_buf ?r ! 0 = None")
      case True
      then have "wreceiver_drain_in_order ?r = ?r"
        using wf(1) by (subst wreceiver_drain_in_order.simps)
          (auto simp: buf_wf_def check_window_def split: list.splits option.splits)
      then show ?thesis using IH wf step by simp
    next
      case False
      then show ?thesis using IH wf step by simp
    qed
  next
    case False
    then have same: "wreceiver_drain_in_order r = r"
      by (subst wreceiver_drain_in_order.simps) (auto split: list.splits option.splits)
    have "wr_buf r ! 0 = None"
      using False 1(2) by (cases "wr_buf r"; cases "hd (wr_buf r)") (auto simp: buf_wf_def check_window_def)
    then show ?thesis using same 1(2) by simp
  qed
qed

lemma pop_emit_wf:
  assumes "buf_wf r" and "wreceiver_pop_emit r = (r', x)"
  shows "buf_wf r' \<and> wr_buf r' = wr_buf r \<and> wr_out r' = wr_out r \<and> wr_pending r' = wr_pending r \<and>
    wr_state r' = wr_state r \<and> wr_expected_seq r' = wr_expected_seq r \<and>
    (case x of None \<Rightarrow> r' = r \<and> wr_emit_len r = 0 \<and> wr_queue r = []
     | Some b \<Rightarrow> wr_queue r = b # wr_queue r' \<and> wr_emit_len r \<noteq> 0)"
proof (cases "wr_emit_at r \<ge> wr_emit_len r")
  case True
  then have e: "wr_emit_at r = 0" "wr_emit_len r = 0" using assms(1) by (auto simp: buf_wf_def)
  have same: "r\<lparr>wr_emit_at := 0, wr_emit_len := 0\<rparr> = r" using e by (cases r) simp
  have "r' = r" "x = None" using assms(2) True by (auto simp: wreceiver_pop_emit_def same)
  then show ?thesis using assms(1) e by (simp add: wr_queue_def)
next
  case False
  then have "wr_emit_at r < wr_emit_len r" "wr_emit_len r \<le> length (wr_emit r)"
    using assms(1) by (auto simp: buf_wf_def)
  then have "drop (wr_emit_at r) (take (wr_emit_len r) (wr_emit r)) =
      wr_emit r ! wr_emit_at r # drop (Suc (wr_emit_at r)) (take (wr_emit_len r) (wr_emit r))"
    by (subst Cons_nth_drop_Suc [symmetric]) auto
  then show ?thesis using assms False
    by (auto simp: wreceiver_pop_emit_def wr_queue_def buf_wf_def Let_def split: if_splits)
qed

lemma wtake_pending_wf:
  assumes "buf_wf r" and "ob_is_idle (wr_out r)" and "wr_emit_len r = 0 \<or> wr_pending r = None"
    and "wr_buf r ! 0 \<noteq> None \<longleftrightarrow> wr_pending r = Some WpDrain"
  shows "wreceiver_wf (fst (wreceiver_take_pending r))"
proof (cases "wr_pending r = Some WpDrain")
  case True
  let ?d = "(wreceiver_drain_in_order (r\<lparr>wr_pending := None\<rparr>))\<lparr>wr_state := RxIdle\<rparr>"
  have "buf_wf (r\<lparr>wr_pending := None\<rparr>)" using assms(1) by simp
  note d = drain_wf [OF this]
  then have "buf_wf ?d" by simp
  moreover obtain r' x where pe: "wreceiver_pop_emit ?d = (r', x)" by fastforce
  ultimately show ?thesis using pop_emit_wf [of ?d r' x] d assms True
    by (simp add: wreceiver_take_pending_def wreceiver_wf_def)
next
  case False
  then show ?thesis using assms
    by (auto simp: wreceiver_take_pending_def wreceiver_wf_def buf_wf_def wreceiver_settle_idle_def Let_def
        split: option.splits wpending_action.splits)
qed

lemma wreceiver_wf_pump:
  assumes "wreceiver_wf r" and "wreceiver_pump_reply p w r = (w', r', res)"
  shows "wreceiver_wf r'"
proof (cases "ob_peek (wr_out r)")
  case None
  then have "ob_is_idle (wr_out r)"
    using assms(1) by (auto simp: wreceiver_wf_def buf_wf_def ob_peek_rest ob_idle_rest split: list.splits)
  then show ?thesis using wtake_pending_wf [of r] assms None
    by (auto simp: wreceiver_pump_reply_def wreceiver_wf_def [of r] split: prod.splits)
next
  case (Some b)
  then have busy: "\<not> ob_is_idle (wr_out r)"
    using assms(1) by (auto simp: wreceiver_wf_def buf_wf_def ob_peek_rest ob_idle_rest split: list.splits)
  let ?r = "r\<lparr>wr_out := ob_commit (wr_out r)\<rparr>"
  have b: "buf_wf ?r" using assms(1) by (simp add: wreceiver_wf_def buf_wf_def)
  obtain w1 wr where wr: "write_byte p b w = (w1, wr)" by fastforce
  show ?thesis
  proof (cases wr)
    case (Inl e)
    then have "r' = r" using assms(2) Some wr by (simp add: wreceiver_pump_reply_def)
    then show ?thesis using assms(1) by simp
  next
    case (Inr u)
    show ?thesis
    proof (cases "ob_is_idle (wr_out ?r)")
      case True
      then have "r' = fst (wreceiver_take_pending ?r)"
        using assms(2) Some wr Inr by (auto simp: wreceiver_pump_reply_def Let_def split: prod.splits)
      then show ?thesis using wtake_pending_wf [OF b] assms(1) True
        by (auto simp: wreceiver_wf_def [of r])
    next
      case False
      then have "wreceiver_wf ?r" using assms(1) busy b by (auto simp: wreceiver_wf_def)
      moreover have "r' = ?r\<lparr>wr_state := RxAcknowledging\<rparr>"
        using False assms(2) Some wr Inr by (simp add: wreceiver_pump_reply_def)
      ultimately show ?thesis by (simp only: wreceiver_wf_state)
    qed
  qed
qed

lemma wreceiver_wf_reply:
  "wreceiver_wf r \<Longrightarrow> wreceiver_reply p w r = (w', r', res) \<Longrightarrow> wreceiver_wf r'"
  using wreceiver_wf_pump by (auto simp: wreceiver_reply_def split: prod.splits sum.splits option.splits)

lemma wreceiver_wf_begin_reply:
  assumes "buf_wf r" and "wr_emit_len r = 0" and "wr_buf r ! 0 \<noteq> None \<longleftrightarrow> a = WpDrain"
  shows "wreceiver_wf (wreceiver_begin_reply f a r)"
  using assms by (simp add: wreceiver_wf_def buf_wf_def wreceiver_begin_reply_def)

lemma buf_wf_update:
  assumes "buf_wf r" and "wr_emit_len r = 0" and "off < length (wr_buf r)"
  shows "buf_wf (r\<lparr>wr_buf := (wr_buf r)[off := x]\<rparr>)"
  using assms occupied_le [of "(wr_buf r)[off := x]"] by (simp add: buf_wf_def)

lemma clear_window_wf: "buf_wf r \<Longrightarrow> buf_wf (wreceiver_clear_window r) \<and>
    wr_emit_len (wreceiver_clear_window r) = 0 \<and> wr_buf (wreceiver_clear_window r) ! 0 = None"
  by (cases "wr_buf r") (auto simp: buf_wf_def wreceiver_clear_window_def check_window_def)

lemma offset_SomeD: "wreceiver_offset seq r = Some off \<Longrightarrow>
    off = unat (seq - wr_expected_seq r) \<and> off < wr_limit r"
  by (auto simp: wreceiver_offset_def seq_defs Let_def split: if_splits)

lemma wreceiver_wf_on_data:
  assumes "wreceiver_wf r" and "ob_is_idle (wr_out r)" and "wr_emit_len r = 0"
  shows "wreceiver_wf (wreceiver_handle_data f r)"
proof -
  have b: "buf_wf r" "wr_buf r ! 0 = None" using assms by (auto simp: wreceiver_wf_def)
  have w: "wreceiver_wf (r\<lparr>wr_state := st\<rparr>)" for st using assms(1) by simp
  have data: "wreceiver_wf (wreceiver_begin_reply (ack_frame (fr_seq f)) (if off = 0 then WpDrain else WpQuiet)
      (if wr_buf r ! off = None then r\<lparr>wr_buf := (wr_buf r)[off := Some (fr_data f)]\<rparr> else r))"
    if "wreceiver_offset (fr_seq f) r = Some off" for off
  proof -
    have "off < length (wr_buf r)" using offset_SomeD [OF that] b(1) by (auto simp: buf_wf_def)
    then show ?thesis using b assms(3) buf_wf_update [OF b(1) assms(3), of off "Some (fr_data f)"]
      by (intro wreceiver_wf_begin_reply) auto
  qed
  show ?thesis using b w data assms(3)
    by (auto simp: wreceiver_handle_data_def Let_def wreceiver_wf_begin_reply split: option.splits)
qed

lemma wreceiver_wf_on_frame:
  assumes "wreceiver_wf r" and "ob_is_idle (wr_out r)" and "wr_emit_len r = 0"
  shows "wreceiver_wf (fst (wreceiver_on_frame decoded r))"
proof -
  have b: "buf_wf r" "wr_buf r ! 0 = None" using assms by (auto simp: wreceiver_wf_def)
  have bs: "buf_wf (r\<lparr>wr_state := st, wr_expected_seq := q, wr_finish_seq := fq, wr_abort_latched := l\<rparr>)" for st q fq l
    using b(1) by (simp add: buf_wf_def)
  note c = clear_window_wf [OF bs]
  have "wreceiver_wf (wreceiver_handle_start (r\<lparr>wr_state := st\<rparr>))" for st
    using c by (auto simp: wreceiver_handle_start_def intro!: wreceiver_wf_begin_reply)
  moreover have "wreceiver_wf (wreceiver_handle_abort (r\<lparr>wr_state := st\<rparr>))" for st
    using assms(1) clear_window_wf [of "r\<lparr>wr_state := st, wr_abort_latched := True, wr_expected_seq := seq_new\<rparr>"] b
    by (auto simp: wreceiver_handle_abort_def buf_wf_def intro!: wreceiver_wf_begin_reply)
  moreover have "wreceiver_wf (wreceiver_handle_finish q (r\<lparr>wr_state := st\<rparr>))" for q st
    using assms(1,3) clear_window_wf [of "r\<lparr>wr_state := st, wr_finish_seq := Some q\<rparr>"] b
    by (auto simp: wreceiver_handle_finish_def buf_wf_def split: option.splits
        intro!: wreceiver_wf_begin_reply)
  moreover have "wreceiver_wf (wreceiver_handle_data f (r\<lparr>wr_state := st\<rparr>))" for f st
    using wreceiver_wf_on_data [of "r\<lparr>wr_state := st\<rparr>" f] assms by simp
  moreover have "wreceiver_wf (wreceiver_begin_reply f a (r\<lparr>wr_state := st\<rparr>))" if "a \<noteq> WpDrain" for f a st
    using that b assms(3) by (intro wreceiver_wf_begin_reply) (auto simp: buf_wf_def)
  ultimately show ?thesis using assms(1)
    by (auto simp: wreceiver_on_frame_def wreceiver_settle_idle_def Let_def
        split: sum.splits frame_error.splits frame_type.splits)
qed

text \<open>
  One poll, in the four shapes it can take.  The lemma is the case split every later proof about
  \<open>poll\<close> starts from.
\<close>

lemma wreceiver_poll_cases:
  assumes "wreceiver_wf r" and "wreceiver_poll p w r = (w', r', res)"
  obtains (emit) b where "wreceiver_pop_emit r = (r', Some b)" "res = Inr (OutDelivered b)" "w' = w"
    | (writing) "wreceiver_reply p w r = (w', r', res)" "\<not> ob_is_idle (wr_out r)" "wr_emit_len r = 0"
    | (quiet) st a x b where "ob_is_idle (wr_out r)" "wr_emit_len r = 0"
        "r' = r\<lparr>wr_state := st, wr_assembler := a\<rparr>" "a = wr_assembler r \<or> asm_push b (wr_assembler r) = (a, x)"
        "\<And>b. res \<noteq> Inr (OutDelivered b)"
    | (frame) b w1 a d r1 flag where "ob_is_idle (wr_out r)" "wr_emit_len r = 0"
        "read_byte p w = (w1, Inr (Some b))" "asm_push b (wr_assembler r) = (a, Some d)"
        "wreceiver_on_frame d (r\<lparr>wr_state := RxReceiving, wr_assembler := a\<rparr>) = (r1, flag)"
        "if flag then wreceiver_reply p w1 r1 = (w', r', res) else r' = r1 \<and> res = Inr OutPending"
proof -
  have b: "buf_wf r" using assms(1) by (simp add: wreceiver_wf_def)
  obtain r0 x where pe: "wreceiver_pop_emit r = (r0, x)" by fastforce
  note pop = pop_emit_wf [OF b pe]
  show ?thesis
  proof (cases x)
    case (Some byte)
    then show ?thesis using emit [of byte] assms(2) pe by (simp add: wreceiver_poll_def)
  next
    case None
    then have r0: "r0 = r" "wr_emit_len r = 0" using pop by auto
    show ?thesis
    proof (cases "ob_is_idle (wr_out r)")
      case False
      then show ?thesis using writing r0 assms(2) pe None by (simp add: wreceiver_poll_def)
    next
      case True
      obtain w1 rb where rb: "read_byte p w = (w1, rb)" by fastforce
      let ?q = "r\<lparr>wr_state := RxReceiving\<rparr>"
      consider (err) e where "rb = Inl e" | (none) "rb = Inr None"
        | (part) byte a where "rb = Inr (Some byte)" "asm_push byte (wr_assembler r) = (a, None)"
        | (full) byte a dec r1 flag where "rb = Inr (Some byte)" "asm_push byte (wr_assembler r) = (a, Some dec)"
            "wreceiver_on_frame dec (?q\<lparr>wr_assembler := a\<rparr>) = (r1, flag)"
        by (metis option.exhaust sum.exhaust surj_pair)
      then show ?thesis
      proof cases
        case (err e)
        then show ?thesis using assms(2) pe None r0 True rb
          by (intro quiet [where st = RxReceiving and a = "wr_assembler r"]) (auto simp: wreceiver_poll_def)
      next
        case none
        then show ?thesis using assms(2) pe None r0 True rb
          by (intro quiet [where st = "wr_state (wreceiver_settle_idle ?q)" and a = "wr_assembler r"])
            (auto simp: wreceiver_poll_def wreceiver_settle_idle_def)
      next
        case (part byte a)
        then show ?thesis using assms(2) pe None r0 True rb
          by (intro quiet [where st = RxReceiving and a = a and b = byte and x = None])
            (auto simp: wreceiver_poll_def)
      next
        case (full byte a dec r1 flag)
        then show ?thesis using assms(2) pe None r0 True rb
          by (intro frame [of w1 byte a dec r1 flag]) (auto simp: wreceiver_poll_def split: bool.splits)
      qed
    qed
  qed
qed

lemma wreceiver_wf_assembler: "wreceiver_wf r \<Longrightarrow> asm_wf a \<Longrightarrow> wreceiver_wf (r\<lparr>wr_assembler := a\<rparr>)"
  by (simp add: wreceiver_wf_def buf_wf_def)

lemma wreceiver_asm_wf: "wreceiver_wf r \<Longrightarrow> asm_push b (wr_assembler r) = (a, x) \<Longrightarrow> asm_wf a"
  using asm_push_wf [of "wr_assembler r" b] by (simp add: wreceiver_wf_def buf_wf_def)

lemma wreceiver_wf_frame:
  assumes "wreceiver_wf r" and "ob_is_idle (wr_out r)" and "wr_emit_len r = 0"
    and "asm_push b (wr_assembler r) = (a, x)"
    and "wreceiver_on_frame d (r\<lparr>wr_state := RxReceiving, wr_assembler := a\<rparr>) = (r1, flag)"
  shows "wreceiver_wf r1"
  using wreceiver_wf_on_frame [of "r\<lparr>wr_state := RxReceiving, wr_assembler := a\<rparr>" d]
    wreceiver_wf_assembler [of "r\<lparr>wr_state := RxReceiving\<rparr>" a] wreceiver_asm_wf [OF assms(1,4)] assms
  by simp

lemma wreceiver_wf_poll:
  assumes "wreceiver_wf r" and "wreceiver_poll p w r = (w', r', res)"
  shows "wreceiver_wf r'"
  using assms
proof (cases rule: wreceiver_poll_cases)
  case (emit b)
  then show ?thesis using pop_emit_wf [of r r' "Some b"] assms(1) by (auto simp: wreceiver_wf_def)
next
  case writing
  show ?thesis using wreceiver_wf_reply [OF assms(1) writing(1)] .
next
  case (quiet st a x b)
  moreover have "asm_wf a"
    using quiet(4) wreceiver_asm_wf [OF assms(1)] assms(1) by (auto simp: wreceiver_wf_def buf_wf_def)
  ultimately show ?thesis using wreceiver_wf_assembler [of "r\<lparr>wr_state := st\<rparr>" a] assms(1) by simp
next
  case (frame b w1 a d r1 flag)
  then show ?thesis using wreceiver_wf_frame [OF assms(1) frame(1,2,4,5)] wreceiver_wf_reply
    by (auto split: if_splits)
qed

inductive wreceiver_reachable :: "nat \<Rightarrow> ('w, 'e) port \<Rightarrow> wreceiver \<Rightarrow> bool" for n p where
  wrecv_new: "wreceiver_reachable n p (wreceiver_new n)"
| wrecv_limit: "wreceiver_reachable n p r \<Longrightarrow> wreceiver_reachable n p (wreceiver_set_window_limit k r)"
| wrecv_poll: "wreceiver_reachable n p r \<Longrightarrow> wreceiver_poll p w r = (w', r', res) \<Longrightarrow>
    wreceiver_reachable n p r'"

lemma wreceiver_wf_limit: "wreceiver_wf r \<Longrightarrow> wreceiver_wf (wreceiver_set_window_limit k r)"
  by (auto simp: wreceiver_set_window_limit_def wreceiver_wf_def buf_wf_def check_window_def)

lemma wreceiver_reachable_wf: "check_window n \<Longrightarrow> wreceiver_reachable n p r \<Longrightarrow> wreceiver_wf r"
  by (rotate_tac, induction rule: wreceiver_reachable.induct)
    (auto dest: wreceiver_wf_poll intro: wreceiver_wf_limit)

section \<open>Delivery in order\<close>

text \<open>
  The peer sends the bytes \<open>ds 0, ds 1, ..\<close>, byte \<open>k\<close> in frames numbered \<open>k mod 256\<close>.  A frame is
  timely when its byte is less than 256 ahead of the next expected one and not more than
  \<open>256 - limit\<close> behind it: every frame a window of at most eight can still have in flight is.
\<close>

definition timely :: "(nat \<Rightarrow> u8) \<Rightarrow> nat \<Rightarrow> nat \<Rightarrow> frame \<Rightarrow> bool" where
  "timely ds limit n f = (case fr_type f of
     Data \<Rightarrow> (\<exists>k. n + limit \<le> k + 256 \<and> k < n + 256 \<and> fr_seq f = of_nat k \<and> fr_data f = ds k)
   | Start \<Rightarrow> False | Abort \<Rightarrow> False | _ \<Rightarrow> True)"

definition stream_ok :: "(nat \<Rightarrow> u8) \<Rightarrow> u8 list \<Rightarrow> wreceiver \<Rightarrow> bool" where
  "stream_ok ds out r =
     (let n = length (out @ wr_queue r)
      in out @ wr_queue r = map ds [0..<n] \<and> wr_expected_seq r = of_nat n \<and>
         (\<forall>i < length (wr_buf r). \<forall>b. wr_buf r ! i = Some b \<longrightarrow> b = ds (n + i)))"

lemma unat_of_nat_u8: "x < 256 \<Longrightarrow> unat (of_nat x :: u8) = x"
  by (simp add: unsigned_of_nat take_bit_nat_eq_self)

lemma timely_offset:
  fixes limit n k :: nat
  assumes "n + limit \<le> k + 256" and "k < n + 256" and "unat (of_nat k - of_nat n :: u8) < limit"
  shows "k = n + unat (of_nat k - of_nat n :: u8)"
proof (cases "n \<le> k")
  case True
  then have "(of_nat k - of_nat n :: u8) = of_nat (k - n)" by (simp add: of_nat_diff)
  moreover have "unat (of_nat (k - n) :: u8) = k - n"
    using True assms(2) by (intro unat_of_nat_u8) simp
  ultimately show ?thesis using True by simp
next
  case False
  then have "(of_nat k - of_nat n :: u8) = of_nat (256 - (n - k)) - of_nat 256"
    using assms(1) by (simp add: of_nat_diff)
  also have "(of_nat 256 :: u8) = 0" by simp
  finally have "(of_nat k - of_nat n :: u8) = of_nat (256 - (n - k))" by simp
  then have "unat (of_nat k - of_nat n :: u8) = 256 - (n - k)"
    using False by (simp only:) (intro unat_of_nat_u8, simp)
  then show ?thesis using assms(1,3) False by simp
qed

lemma stream_ok_same:
  assumes "stream_ok ds out r" and "wr_queue r' = wr_queue r" and "wr_expected_seq r' = wr_expected_seq r"
    and "wr_buf r' = wr_buf r"
  shows "stream_ok ds out r'"
  using assms by (simp add: stream_ok_def)

text \<open>One turn of the drain: the byte in slot 0 goes to the queue, the window moves by one.\<close>

lemma stream_ok_shift:
  assumes "buf_wf r" and "stream_ok ds out r" and buf: "wr_buf r = Some byte # rest"
  shows "stream_ok ds out (wreceiver_push_emit byte (r\<lparr>wr_buf := shift_buf (None # rest),
    wr_expected_seq := fst (seq_advance (wr_expected_seq r))\<rparr>))"
proof -
  let ?r = "wreceiver_push_emit byte (r\<lparr>wr_buf := shift_buf (None # rest),
    wr_expected_seq := fst (seq_advance (wr_expected_seq r))\<rparr>)"
  let ?n = "length (out @ wr_queue r)"
  have room: "wr_emit_len r < length (wr_emit r)" "wr_emit_at r \<le> wr_emit_len r"
    using assms(1) buf by (auto simp: buf_wf_def)
  have q: "wr_queue ?r = wr_queue r @ [byte]"
    using room by (subst push_emit_queue) simp_all
  have f: "wr_buf ?r = rest @ [None]" "wr_expected_seq ?r = wr_expected_seq r + 1"
    by (auto simp: wreceiver_push_emit_def shift_buf_def seq_defs)
  have b0: "byte = ds ?n" using assms(2) buf by (auto simp: stream_ok_def Let_def)
  have rest: "b = ds (Suc ?n + i)" if "i < length (rest @ [None])" "(rest @ [None]) ! i = Some b" for i b
  proof -
    have "i < length rest" using that by (cases "i < length rest") (auto simp: nth_append)
    moreover from this that have "rest ! i = Some b" by (simp add: nth_append)
    ultimately show ?thesis using assms(2) buf by (force simp: stream_ok_def Let_def)
  qed
  show ?thesis
    using assms(2) b0 rest unfolding stream_ok_def Let_def q f by (auto simp: algebra_simps)
qed

lemma stream_ok_drain:
  assumes "buf_wf r" and "stream_ok ds out r"
  shows "stream_ok ds out (wreceiver_drain_in_order r)"
  using assms
proof (induction r rule: wreceiver_drain_in_order.induct)
  case (1 r)
  show ?case
  proof (cases "\<exists>byte rest. wr_buf r = Some byte # rest")
    case True
    then obtain byte rest where buf: "wr_buf r = Some byte # rest" by auto
    let ?r = "wreceiver_push_emit byte (r\<lparr>wr_buf := shift_buf (None # rest),
      wr_expected_seq := fst (seq_advance (wr_expected_seq r))\<rparr>)"
    have "buf_wf ?r"
      using 1(2) buf by (auto simp: buf_wf_def wreceiver_push_emit_def shift_buf_def)
    then have "stream_ok ds out (wreceiver_drain_in_order ?r)"
      using 1(1) [OF buf refl] stream_ok_shift [OF 1(2,3) buf] by simp
    then show ?thesis by (subst wreceiver_drain_in_order.simps) (simp add: buf)
  next
    case False
    then have "wreceiver_drain_in_order r = r"
      by (subst wreceiver_drain_in_order.simps) (auto split: list.splits option.splits)
    then show ?thesis using 1(3) by simp
  qed
qed

lemma stream_ok_pop:
  assumes "buf_wf r" and "stream_ok ds out r" and "wreceiver_pop_emit r = (r', Some b)"
  shows "stream_ok ds (out @ [b]) r'"
  using pop_emit_wf [OF assms(1,3)] assms(2) by (simp add: stream_ok_def)

definition delivered :: "'e error + poll_outcome \<Rightarrow> u8 list" where
  "delivered res = (case res of Inr (OutDelivered b) \<Rightarrow> [b] | _ \<Rightarrow> [])"

lemma stream_ok_data:
  assumes "stream_ok ds out r" and "timely ds (wr_limit r) (length (out @ wr_queue r)) f"
    and "fr_type f = Data"
  shows "stream_ok ds out (wreceiver_handle_data f r)"
proof -
  let ?n = "length (out @ wr_queue r)"
  obtain k where k: "?n + wr_limit r \<le> k + 256" "k < ?n + 256" "fr_seq f = of_nat k" "fr_data f = ds k"
    using assms(2,3) by (auto simp: timely_def)
  have e: "wr_expected_seq r = of_nat ?n" using assms(1) by (auto simp: stream_ok_def Let_def)
  have off: "k = ?n + off" if "wreceiver_offset (fr_seq f) r = Some off" for off
    using offset_SomeD [OF that] timely_offset [OF k(1,2)] k(3) e by auto
  have store: "stream_ok ds out (r\<lparr>wr_buf := (wr_buf r)[off := Some (fr_data f)]\<rparr>)"
    if "wreceiver_offset (fr_seq f) r = Some off" for off
  proof -
    have "b = ds (?n + i)" if "i < length (wr_buf r)" "(wr_buf r)[off := Some (fr_data f)] ! i = Some b" for i b
    proof (cases "i = off")
      case True
      then show ?thesis using that k(4) off [OF \<open>wreceiver_offset (fr_seq f) r = Some off\<close>] by simp
    next
      case False
      then show ?thesis using that assms(1) by (auto simp: stream_ok_def Let_def)
    qed
    then show ?thesis using assms(1) by (auto simp: stream_ok_def Let_def)
  qed
  have reply: "stream_ok ds out (wreceiver_begin_reply g a q)" if "stream_ok ds out q" for g a q
    using stream_ok_same [OF that, of "wreceiver_begin_reply g a q"]
    by (simp add: wreceiver_begin_reply_def)
  have state: "stream_ok ds out (r\<lparr>wr_state := st\<rparr>)" for st
    using stream_ok_same [OF assms(1), of "r\<lparr>wr_state := st\<rparr>"] by simp
  show ?thesis using store reply state assms(1)
    by (auto simp: wreceiver_handle_data_def Let_def split: option.splits)
qed

lemma stream_ok_clear:
  "stream_ok ds out r \<Longrightarrow> wr_emit_len r = 0 \<Longrightarrow> stream_ok ds out (wreceiver_clear_window r)"
  by (auto simp: stream_ok_def wr_queue_def wreceiver_clear_window_def Let_def)

lemma stream_ok_reply_begun: "stream_ok ds out (wreceiver_begin_reply f a r) = stream_ok ds out r"
  by (simp add: stream_ok_def wr_queue_def wreceiver_begin_reply_def)

lemma stream_ok_fields [simp]:
  "stream_ok ds out (r\<lparr>wr_state := st\<rparr>) = stream_ok ds out r"
  "stream_ok ds out (r\<lparr>wr_assembler := a\<rparr>) = stream_ok ds out r"
  "stream_ok ds out (r\<lparr>wr_out := ob\<rparr>) = stream_ok ds out r"
  "stream_ok ds out (r\<lparr>wr_pending := pa\<rparr>) = stream_ok ds out r"
  "stream_ok ds out (r\<lparr>wr_finish_seq := fq\<rparr>) = stream_ok ds out r"
  "stream_ok ds out (r\<lparr>wr_abort_latched := l\<rparr>) = stream_ok ds out r"
  by (simp_all add: stream_ok_def wr_queue_def)

lemma stream_ok_on_frame:
  assumes "stream_ok ds out r" and "wr_emit_len r = 0"
    and "\<And>f. d = Inr f \<Longrightarrow> timely ds (wr_limit r) (length out) f"
    and "wreceiver_on_frame d r = (r1, flag)"
  shows "stream_ok ds out r1"
proof (cases d)
  case (Inl err)
  then show ?thesis using assms
    by (auto simp: wreceiver_on_frame_def wreceiver_settle_idle_def stream_ok_reply_begun Let_def
        split: if_splits)
next
  case (Inr f)
  let ?r = "r\<lparr>wr_state := RxValidating\<rparr>"
  have "wr_queue r = []" using assms(2) by (simp add: wr_queue_def)
  then have t: "timely ds (wr_limit ?r) (length (out @ wr_queue ?r)) f" using assms(3) [OF Inr] by simp
  have q: "stream_ok ds out ?r" "wr_emit_len ?r = 0" using assms(1,2) by simp_all
  have fin: "stream_ok ds out (wreceiver_handle_finish (fr_seq f) ?r)"
    using q stream_ok_clear [of ds out "?r\<lparr>wr_finish_seq := Some (fr_seq f)\<rparr>"]
    by (auto simp: wreceiver_handle_finish_def stream_ok_reply_begun split: option.splits)
  show ?thesis using assms(4) Inr t fin stream_ok_data [OF q(1) t] q(1)
    by (cases "fr_type f") (auto simp: wreceiver_on_frame_def timely_def wreceiver_settle_idle_def)
qed

lemma stream_ok_take:
  assumes "buf_wf r" and "stream_ok ds out r" and "wreceiver_take_pending r = (r', x)"
  shows "stream_ok ds (out @ (case x of Some (OutDelivered b) \<Rightarrow> [b] | _ \<Rightarrow> [])) r'"
proof (cases "wr_pending r = Some WpDrain")
  case True
  let ?d = "(wreceiver_drain_in_order (r\<lparr>wr_pending := None\<rparr>))\<lparr>wr_state := RxIdle\<rparr>"
  have b: "buf_wf (r\<lparr>wr_pending := None\<rparr>)" using assms(1) by simp
  have d: "buf_wf ?d" "stream_ok ds out ?d"
    using drain_wf [OF b] stream_ok_drain [OF b, of ds out] assms(2) by simp_all
  obtain y where pe: "wreceiver_pop_emit ?d = (r', y)" and x: "x = map_option OutDelivered y"
    using assms(3) True by (auto simp: wreceiver_take_pending_def Let_def split: prod.splits)
  show ?thesis
  proof (cases y)
    case None
    then show ?thesis using pop_emit_wf [OF d(1) pe] d(2) x by simp
  next
    case (Some byte)
    then show ?thesis using stream_ok_pop [OF d pe [unfolded Some]] x by simp
  qed
next
  case False
  then show ?thesis using assms(2,3)
    by (auto simp: wreceiver_take_pending_def wreceiver_settle_idle_def Let_def
        split: option.splits wpending_action.splits)
qed

lemma stream_ok_reply:
  assumes "buf_wf r" and "stream_ok ds out r" and "wreceiver_reply p w r = (w', r', res)"
  shows "stream_ok ds (out @ delivered res) r'"
proof -
  have b: "buf_wf (r\<lparr>wr_out := ob_commit (wr_out r)\<rparr>)" using assms(1) by (simp add: buf_wf_def)
  have t: "stream_ok ds (out @ (case x of Some (OutDelivered b) \<Rightarrow> [b] | _ \<Rightarrow> [])) r2"
    if "wreceiver_take_pending r1 = (r2, x)" "r1 = r \<or> r1 = r\<lparr>wr_out := ob_commit (wr_out r)\<rparr>" for r1 r2 x
    using that assms(1,2) b stream_ok_take [of r1 ds out r2 x] by auto
  show ?thesis using assms(2,3)
    by (auto simp: wreceiver_reply_def wreceiver_pump_reply_def delivered_def Let_def
        split: prod.splits option.splits sum.splits if_splits poll_outcome.splits dest: t)
qed

text \<open>
  A receiver polled any number of times while the peer streams \<open>ds\<close>: \<open>out\<close> is what was delivered
  so far, and each frame the transport completes is timely.
\<close>

inductive wrx_run :: "(nat \<Rightarrow> u8) \<Rightarrow> ('w, 'e) port \<Rightarrow> wreceiver \<Rightarrow> u8 list \<Rightarrow> bool" for ds p where
  wrx_start: "check_window n \<Longrightarrow>
    wrx_run ds p (wreceiver_set_window_limit limit (wreceiver_new n)) []"
| wrx_poll: "wrx_run ds p r out \<Longrightarrow> wreceiver_poll p w r = (w', r', res) \<Longrightarrow>
    (\<And>w1 b a f. read_byte p w = (w1, Inr (Some b)) \<Longrightarrow>
       asm_push b (wr_assembler r) = (a, Some (Inr f)) \<Longrightarrow> timely ds (wr_limit r) (length out) f) \<Longrightarrow>
    wrx_run ds p r' (out @ delivered res)"

lemma wrx_run_inv: "wrx_run ds p r out \<Longrightarrow> wreceiver_wf r \<and> stream_ok ds out r"
proof (induction rule: wrx_run.induct)
  case (wrx_start n limit)
  have "stream_ok ds [] (wreceiver_new n)"
    by (simp add: stream_ok_def wreceiver_new_def wr_queue_def seq_new_def)
  moreover have "stream_ok ds [] (r\<lparr>wr_limit := k\<rparr>) = stream_ok ds [] r" for r k
    by (simp add: stream_ok_def wr_queue_def)
  ultimately show ?case using wreceiver_wf_limit [OF wreceiver_wf_new [OF wrx_start]]
    by (simp add: wreceiver_set_window_limit_def)
next
  case (wrx_poll r out w w' r' res)
  then have wf: "wreceiver_wf r" "buf_wf r" and st: "stream_ok ds out r"
    by (auto simp: wreceiver_wf_def)
  have "stream_ok ds (out @ delivered res) r'"
    using wf(1) wrx_poll(2)
  proof (cases rule: wreceiver_poll_cases)
    case (emit b)
    then show ?thesis using stream_ok_pop [OF wf(2) st] by (simp add: delivered_def)
  next
    case writing
    show ?thesis using stream_ok_reply [OF wf(2) st writing(1)] .
  next
    case (quiet s a x b)
    moreover have "delivered res = []"
      using quiet(5) by (auto simp: delivered_def split: sum.splits poll_outcome.splits)
    ultimately show ?thesis using st by simp
  next
    case (frame b w1 a d r1 flag)
    have "stream_ok ds out r1"
    proof (rule stream_ok_on_frame [OF _ _ _ frame(5)])
      show "timely ds (wr_limit (r\<lparr>wr_state := RxReceiving, wr_assembler := a\<rparr>)) (length out) f"
        if "d = Inr f" for f using wrx_poll(3) [OF frame(3)] frame(4) that by simp
    qed (use st frame(2) in simp_all)
    moreover have "buf_wf r1"
      using wreceiver_wf_frame [OF wf(1) frame(1,2,4,5)] by (simp add: wreceiver_wf_def)
    ultimately show ?thesis using frame(6) stream_ok_reply [of r1 ds out p w1 w' r' res]
      by (auto simp: delivered_def split: if_splits)
  qed
  then show ?case using wreceiver_wf_poll [OF wf(1) wrx_poll(2)] by simp
qed



end
