(* ===== verification/WinExchange.thy ===== *)
theory WinExchange
  imports Main
begin

text \<open>
  Selective repeat on whole frames, with unbounded numbers: what \<open>src/window/tx.rs\<close> and
  \<open>src/window/rx.rs\<close> promise together.  The sender's items are its bytes and at last FINISH; a
  frame on the way is the number of its item, \<open>None\<close> once it is damaged, and a reply is the number
  it acknowledges, \<open>None\<close> for a NACK or a damaged reply.  The invariant bounds how far any number
  on the way can be from the two ends, so that eight bits tell them apart: the theory
  \<open>WinDelivery\<close> uses this to show that the polls of the code implement this system.
\<close>

section \<open>The system\<close>

datatype 'b item = ItemByte 'b | ItemFinish

record 'b wexchange =
  wx_items :: "'b item list"
  wx_flight :: "nat set"
  wx_failed :: bool
  wx_fwd :: "nat option list"
  wx_next :: nat
  wx_held :: "nat set"
  wx_closed :: bool
  wx_back :: "nat option list"

definition wexchange_new :: "'b wexchange" where
  "wexchange_new = \<lparr>wx_items = [], wx_flight = {}, wx_failed = False, wx_fwd = [], wx_next = 0,
     wx_held = {}, wx_closed = False, wx_back = []\<rparr>"

text \<open>A channel loses any element, or damages it.\<close>

inductive tag_fault :: "nat option list \<Rightarrow> nat option list \<Rightarrow> bool" where
  tag_loss: "tag_fault (xs @ x # ys) (xs @ ys)"
| tag_damage: "tag_fault (xs @ x # ys) (xs @ None # ys)"

inductive wexchange_step :: "nat \<Rightarrow> 'b wexchange \<Rightarrow> 'b wexchange \<Rightarrow> bool" for N where
  wx_offer: "\<not> wx_failed x \<Longrightarrow> ItemFinish \<notin> set (wx_items x) \<Longrightarrow>
    \<forall>i \<in> wx_flight x. length (wx_items x) < i + N \<Longrightarrow>
    wexchange_step N x (x\<lparr>wx_items := wx_items x @ [ItemByte b],
      wx_flight := insert (length (wx_items x)) (wx_flight x)\<rparr>)"
| wx_finish: "\<not> wx_failed x \<Longrightarrow> ItemFinish \<notin> set (wx_items x) \<Longrightarrow> wx_flight x = {} \<Longrightarrow>
    wexchange_step N x (x\<lparr>wx_items := wx_items x @ [ItemFinish], wx_flight := {length (wx_items x)}\<rparr>)"
| wx_send: "\<not> wx_failed x \<Longrightarrow> i \<in> wx_flight x \<Longrightarrow>
    wexchange_step N x (x\<lparr>wx_fwd := wx_fwd x @ [Some i]\<rparr>)"
| wx_ack: "\<not> wx_failed x \<Longrightarrow> wx_back x = Some i # ys \<Longrightarrow>
    wexchange_step N x (x\<lparr>wx_back := ys, wx_flight := wx_flight x - {i}\<rparr>)"
| wx_skip: "wx_back x = y # ys \<Longrightarrow> wexchange_step N x (x\<lparr>wx_back := ys\<rparr>)"
| wx_fail: "wexchange_step N x (x\<lparr>wx_failed := True\<rparr>)"
| wx_ignore: "wx_fwd x = y # ys \<Longrightarrow> wexchange_step N x (x\<lparr>wx_fwd := ys\<rparr>)"
| wx_reject: "wx_fwd x = y # ys \<Longrightarrow>
    wexchange_step N x (x\<lparr>wx_fwd := ys, wx_back := wx_back x @ [None]\<rparr>)"
| wx_store: "wx_fwd x = Some i # ys \<Longrightarrow> wx_items x ! i \<noteq> ItemFinish \<Longrightarrow> wx_next x \<le> i \<Longrightarrow>
    i < wx_next x + N \<Longrightarrow> \<not> wx_closed x \<Longrightarrow>
    wexchange_step N x (x\<lparr>wx_fwd := ys, wx_held := insert i (wx_held x),
      wx_back := wx_back x @ [Some i]\<rparr>)"
| wx_again: "wx_fwd x = Some i # ys \<Longrightarrow> i < wx_next x \<Longrightarrow>
    wexchange_step N x (x\<lparr>wx_fwd := ys, wx_back := wx_back x @ [Some i]\<rparr>)"
| wx_close: "wx_fwd x = Some i # ys \<Longrightarrow> wx_items x ! i = ItemFinish \<Longrightarrow> i = wx_next x \<Longrightarrow>
    wexchange_step N x (x\<lparr>wx_fwd := ys, wx_closed := True, wx_back := wx_back x @ [Some i]\<rparr>)"
| wx_drain: "wx_next x \<in> wx_held x \<Longrightarrow>
    wexchange_step N x (x\<lparr>wx_next := Suc (wx_next x), wx_held := wx_held x - {wx_next x}\<rparr>)"
| wx_fault_fwd: "tag_fault (wx_fwd x) ys \<Longrightarrow> wexchange_step N x (x\<lparr>wx_fwd := ys\<rparr>)"
| wx_fault_back: "tag_fault (wx_back x) ys \<Longrightarrow> wexchange_step N x (x\<lparr>wx_back := ys\<rparr>)"

section \<open>Numbers on the way\<close>

text \<open>
  No number is more than \<open>k\<close> behind the bound \<open>m\<close> or behind a number in front of it: what first-in
  first-out channels keep of a window.
\<close>

fun spaced :: "nat \<Rightarrow> nat \<Rightarrow> nat option list \<Rightarrow> bool" where
  "spaced k m [] = True"
| "spaced k m (None # ts) = spaced k m ts"
| "spaced k m (Some i # ts) = (m \<le> i + k \<and> spaced k (max m (Suc i)) ts)"

lemma spaced_mono: "spaced k m ts \<Longrightarrow> m' \<le> m \<Longrightarrow> spaced k m' ts"
proof (induction k m ts arbitrary: m' rule: spaced.induct)
  case (3 k m i ts)
  then show ?case using 3(1) [of "max m' (Suc i)"] by auto
qed auto

lemma spaced_snoc:
  "spaced k m ts \<Longrightarrow> \<forall>j. Some j \<in> set ts \<longrightarrow> j < M \<Longrightarrow> m \<le> M \<Longrightarrow> M \<le> i + k \<Longrightarrow> spaced k m (ts @ [Some i])"
  by (induction k m ts rule: spaced.induct) auto

lemma spaced_snoc_None [simp]: "spaced k m (ts @ [None]) = spaced k m ts"
  by (induction k m ts rule: spaced.induct) auto

lemma spaced_tail: "spaced k m (t # ts) \<Longrightarrow> spaced k m ts"
  by (cases t) (auto intro: spaced_mono)

lemma spaced_loss: "spaced k m (xs @ x # ys) \<Longrightarrow> spaced k m (xs @ ys)"
proof (induction k m xs rule: spaced.induct)
  case (1 k m)
  then show ?case using spaced_tail [of k m x ys] by simp
qed auto

lemma spaced_damage: "spaced k m (xs @ x # ys) \<Longrightarrow> spaced k m (xs @ None # ys)"
proof (induction k m xs rule: spaced.induct)
  case (1 k m)
  then show ?case using spaced_tail [of k m x ys] by simp
qed auto

lemma fault_spaced: "tag_fault ts us \<Longrightarrow> spaced k m ts \<Longrightarrow> spaced k m us"
  by (induction rule: tag_fault.induct) (auto intro: spaced_loss spaced_damage)

lemma fault_subset: "tag_fault ts us \<Longrightarrow> Some i \<in> set us \<Longrightarrow> Some i \<in> set ts"
  by (induction rule: tag_fault.induct) auto

section \<open>The invariant\<close>

definition wx_received :: "'b wexchange \<Rightarrow> nat set" where
  "wx_received x = {..<wx_next x} \<union> wx_held x \<union> (if wx_closed x then {wx_next x} else {})"

text \<open>
  \<open>m\<close> bounds what the receiver has taken, \<open>b\<close> what the sender has seen acknowledged.
\<close>

definition wx_sender_ok :: "nat \<Rightarrow> nat \<Rightarrow> 'b wexchange \<Rightarrow> bool" where
  "wx_sender_ok N b x = (let n = length (wx_items x) in
     (\<forall>i \<in> wx_flight x. i < n \<and> n \<le> i + N) \<and>
     (\<forall>i < n. i \<notin> wx_flight x \<longrightarrow> i < b \<and> i \<in> wx_received x) \<and>
     (\<forall>i < n. wx_items x ! i = ItemFinish \<longrightarrow> Suc i = n \<and> wx_flight x \<subseteq> {i}))"

definition wx_receiver_ok :: "nat \<Rightarrow> nat \<Rightarrow> 'b wexchange \<Rightarrow> bool" where
  "wx_receiver_ok N m x = (let n = length (wx_items x); r = wx_next x in
     r \<le> m \<and> m \<le> r + N \<and> m \<le> n \<and>
     (\<forall>i \<in> wx_held x. r \<le> i \<and> i < m) \<and>
     (\<forall>i < r. wx_items x ! i \<noteq> ItemFinish) \<and> (\<forall>i \<in> wx_held x. wx_items x ! i \<noteq> ItemFinish) \<and>
     (wx_closed x \<longrightarrow> m = n \<and> Suc r = n \<and> wx_items x ! r = ItemFinish))"

definition wx_channels_ok :: "nat \<Rightarrow> nat \<Rightarrow> nat \<Rightarrow> 'b wexchange \<Rightarrow> bool" where
  "wx_channels_ok N m b x =
     (b \<le> m \<and> spaced N m (wx_fwd x) \<and> (\<forall>i. Some i \<in> set (wx_fwd x) \<longrightarrow> i < length (wx_items x)) \<and>
      spaced (2 * N) b (wx_back x) \<and> (\<forall>i. Some i \<in> set (wx_back x) \<longrightarrow> i \<in> wx_received x))"

definition wexchange_inv :: "nat \<Rightarrow> 'b wexchange \<Rightarrow> bool" where
  "wexchange_inv N x = (1 \<le> N \<and> (\<exists>m b. wx_sender_ok N b x \<and> wx_receiver_ok N m x \<and> wx_channels_ok N m b x))"

lemmas wx_ok_defs = wx_sender_ok_def wx_receiver_ok_def wx_channels_ok_def wx_received_def

lemma wexchange_inv_new: "1 \<le> N \<Longrightarrow> wexchange_inv N wexchange_new"
  by (auto simp: wexchange_inv_def wexchange_new_def wx_ok_defs intro!: exI [of _ 0])

lemma wexchange_invI:
  "1 \<le> N \<Longrightarrow> wx_sender_ok N b x \<Longrightarrow> wx_receiver_ok N m x \<Longrightarrow> wx_channels_ok N m b x \<Longrightarrow> wexchange_inv N x"
  by (auto simp: wexchange_inv_def)

lemma wx_ok_same [simp]:
  "wx_received (x\<lparr>wx_fwd := ts\<rparr>) = wx_received x" "wx_received (x\<lparr>wx_back := ts\<rparr>) = wx_received x"
  "wx_received (x\<lparr>wx_failed := f\<rparr>) = wx_received x" "wx_received (x\<lparr>wx_flight := fl\<rparr>) = wx_received x"
  "wx_sender_ok N b (x\<lparr>wx_fwd := ts\<rparr>) = wx_sender_ok N b x" "wx_sender_ok N b (x\<lparr>wx_back := ts\<rparr>) = wx_sender_ok N b x"
  "wx_sender_ok N b (x\<lparr>wx_failed := f\<rparr>) = wx_sender_ok N b x"
  "wx_receiver_ok N m (x\<lparr>wx_fwd := ts\<rparr>) = wx_receiver_ok N m x" "wx_receiver_ok N m (x\<lparr>wx_back := ts\<rparr>) = wx_receiver_ok N m x"
  "wx_receiver_ok N m (x\<lparr>wx_failed := f\<rparr>) = wx_receiver_ok N m x"
  "wx_receiver_ok N m (x\<lparr>wx_flight := fl\<rparr>) = wx_receiver_ok N m x"
  by (simp_all add: wx_ok_defs Let_def)

lemma received_bound: "wx_receiver_ok N m x \<Longrightarrow> i \<in> wx_received x \<Longrightarrow> i < m"
  by (auto simp: wx_receiver_ok_def wx_received_def Let_def split: if_splits)

lemma wexchange_step_inv:
  assumes "wexchange_step N x x'" and "wexchange_inv N x"
  shows "wexchange_inv N x'"
proof -
  obtain m b where N: "1 \<le> N" and s: "wx_sender_ok N b x" and r: "wx_receiver_ok N m x"
    and c: "wx_channels_ok N m b x"
    using assms(2) by (auto simp: wexchange_inv_def)
  show ?thesis using assms(1)
  proof cases
    case (wx_offer d)
    then have nf: "\<forall>i < length (wx_items x). wx_items x ! i \<noteq> ItemFinish" by (metis nth_mem)
    have "wx_sender_ok N b x'" using s wx_offer nf N
      by (auto simp: wx_ok_defs Let_def nth_append less_Suc_eq)
    moreover have "wx_receiver_ok N m x'" using r wx_offer nf
      by (auto simp: wx_ok_defs Let_def nth_append)
    moreover have "wx_channels_ok N m b x'" using c wx_offer by (auto simp: wx_ok_defs less_Suc_eq)
    ultimately show ?thesis using N by (intro wexchange_invI)
  next
    case wx_finish
    then have nf: "\<forall>i < length (wx_items x). wx_items x ! i \<noteq> ItemFinish" by (metis nth_mem)
    have "wx_sender_ok N b x'" using s wx_finish N nf
      by (auto simp: wx_ok_defs Let_def nth_append less_Suc_eq)
    moreover have "wx_receiver_ok N m x'" using r wx_finish nf
      by (auto simp: wx_ok_defs Let_def nth_append)
    moreover have "wx_channels_ok N m b x'" using c wx_finish by (auto simp: wx_ok_defs less_Suc_eq)
    ultimately show ?thesis using N by (intro wexchange_invI)
  next
    case (wx_send i)
    have i: "i < length (wx_items x)" "length (wx_items x) \<le> i + N" using s wx_send by (auto simp: wx_ok_defs Let_def)
    have "wx_sender_ok N b x'" using s wx_send by simp
    moreover have "wx_receiver_ok N m x'" using r wx_send by simp
    moreover have "m \<le> length (wx_items x)" using r by (simp add: wx_receiver_ok_def Let_def)
    then have "wx_channels_ok N m b x'" using c wx_send i
      by (auto simp: wx_channels_ok_def intro!: spaced_snoc [where M = "length (wx_items x)"])
    ultimately show ?thesis using N by (intro wexchange_invI)
  next
    case (wx_ack i ys)
    let ?b = "max b (Suc i)"
    have "wx_sender_ok N ?b x'" using s c wx_ack by (auto simp: wx_ok_defs Let_def)
    moreover have "wx_receiver_ok N m x'" using r wx_ack by simp
    moreover have "wx_channels_ok N m ?b x'" using c wx_ack received_bound [OF r, of i] by (auto simp: wx_channels_ok_def)
    ultimately show ?thesis using N by (intro wexchange_invI)
  next
    case (wx_skip y ys)
    have "wx_sender_ok N b x'" "wx_receiver_ok N m x'" using s r wx_skip by simp_all
    moreover have "wx_channels_ok N m b x'" using c wx_skip
      by (auto simp: wx_channels_ok_def dest: spaced_tail)
    ultimately show ?thesis using N by (intro wexchange_invI)
  next
    case wx_fail
    then have "wx_sender_ok N b x'" "wx_receiver_ok N m x'" "wx_channels_ok N m b x'"
      using s r c by (simp_all add: wx_channels_ok_def)
    then show ?thesis using N by (intro wexchange_invI)
  next
    case (wx_ignore y ys)
    have "wx_sender_ok N b x'" "wx_receiver_ok N m x'" using s r wx_ignore by simp_all
    moreover have "wx_channels_ok N m b x'" using c wx_ignore
      by (auto simp: wx_channels_ok_def dest: spaced_tail)
    ultimately show ?thesis using N by (intro wexchange_invI)
  next
    case (wx_reject y ys)
    have "wx_sender_ok N b x'" "wx_receiver_ok N m x'" using s r wx_reject by simp_all
    moreover have "wx_channels_ok N m b x'" using c wx_reject
      by (auto simp: wx_channels_ok_def dest: spaced_tail)
    ultimately show ?thesis using N by (intro wexchange_invI)
  next
    case (wx_store i ys)
    let ?m = "max m (Suc i)"
    have mi: "m \<le> i + N" "spaced N ?m ys" "i < length (wx_items x)" using c wx_store by (auto simp: wx_channels_ok_def)
    have "wx_sender_ok N b x'" using s wx_store by (auto simp: wx_sender_ok_def wx_received_def Let_def)
    moreover have "wx_receiver_ok N ?m x'" using r wx_store mi by (auto simp: wx_receiver_ok_def Let_def)
    moreover have "wx_channels_ok N ?m b x'"
      using c wx_store mi received_bound [OF r] r
      by (auto simp: wx_channels_ok_def wx_received_def wx_receiver_ok_def Let_def
        intro!: spaced_snoc [where M = m])
    ultimately show ?thesis using N by (intro wexchange_invI)
  next
    case (wx_again i ys)
    have mi: "m \<le> i + N" "spaced N (max m (Suc i)) ys" using c wx_again by (auto simp: wx_channels_ok_def)
    have "wx_sender_ok N b x'" "wx_receiver_ok N m x'" using s r wx_again by simp_all
    moreover have "wx_channels_ok N m b x'"
      using c wx_again mi received_bound [OF r]
      by (auto simp: wx_channels_ok_def wx_received_def intro: spaced_mono
        intro!: spaced_snoc [where M = m])
    ultimately show ?thesis using N by (intro wexchange_invI)
  next
    case (wx_close i ys)
    let ?m = "Suc i"
    have i: "i < length (wx_items x)" "m \<le> i + N" "spaced N (max m ?m) ys"
      using c wx_close by (auto simp: wx_channels_ok_def)
    have n: "Suc i = length (wx_items x)" "m \<le> Suc i"
      using s r wx_close i(1) by (auto simp: wx_sender_ok_def wx_receiver_ok_def Let_def)
    have "wx_sender_ok N b x'" using s wx_close
      by (auto simp: wx_sender_ok_def wx_received_def Let_def split: if_splits)
    moreover have "wx_receiver_ok N ?m x'" using r wx_close n N
      by (auto simp: wx_receiver_ok_def Let_def)
    moreover have "wx_channels_ok N ?m b x'"
      using c wx_close i n received_bound [OF r] N
      by (auto simp: wx_channels_ok_def wx_received_def max_def intro!: spaced_snoc [where M = m] split: if_splits)
    ultimately show ?thesis using N by (intro wexchange_invI)
  next
    case wx_drain
    have "wx_sender_ok N b x'" "wx_receiver_ok N m x'" using s r wx_drain by (auto simp: wx_ok_defs Let_def less_Suc_eq)
    moreover have "wx_received x \<subseteq> wx_received x'"
      using r wx_drain by (auto simp: wx_received_def wx_receiver_ok_def Let_def split: if_splits)
    then have "wx_channels_ok N m b x'" using c wx_drain by (auto simp: wx_channels_ok_def)
    ultimately show ?thesis using N by (intro wexchange_invI)
  next
    case (wx_fault_fwd ys)
    have "wx_sender_ok N b x'" "wx_receiver_ok N m x'" using s r wx_fault_fwd by simp_all
    moreover have "wx_channels_ok N m b x'" using c wx_fault_fwd
      by (auto simp: wx_channels_ok_def dest: fault_spaced fault_subset)
    ultimately show ?thesis using N by (intro wexchange_invI)
  next
    case (wx_fault_back ys)
    have "wx_sender_ok N b x'" "wx_receiver_ok N m x'" using s r wx_fault_back by simp_all
    moreover have "wx_channels_ok N m b x'" using c wx_fault_back
      by (auto simp: wx_channels_ok_def dest: fault_spaced fault_subset)
    ultimately show ?thesis using N by (intro wexchange_invI)
  qed
qed

section \<open>What the ends can rely on\<close>

text \<open>The sender is at most two windows ahead of the receiver.\<close>

lemma wexchange_lead:
  assumes "wexchange_inv N x"
  shows "length (wx_items x) \<le> wx_next x + 2 * N"
proof -
  obtain m b where N: "1 \<le> N" and s: "wx_sender_ok N b x" and r: "wx_receiver_ok N m x"
    using assms by (auto simp: wexchange_inv_def)
  let ?n = "length (wx_items x)"
  show ?thesis
  proof (cases "wx_next x + N < ?n")
    case True
    have "wx_next x + N \<notin> wx_received x"
      using received_bound [OF r, of "wx_next x + N"] r by (auto simp: wx_receiver_ok_def Let_def)
    then have "wx_next x + N \<in> wx_flight x" using True s by (auto simp: wx_sender_ok_def Let_def)
    then show ?thesis using s by (auto simp: wx_sender_ok_def Let_def)
  qed simp
qed

text \<open>A frame at the head of its channel is numbered within two windows of the receiver.\<close>

lemma wexchange_head:
  assumes "wexchange_inv N x" and "wx_fwd x = Some i # ys"
  shows "i < length (wx_items x)" and "wx_next x \<le> i + N" and "i < wx_next x + 2 * N"
proof -
  obtain m b where r: "wx_receiver_ok N m x" and c: "wx_channels_ok N m b x"
    using assms by (auto simp: wexchange_inv_def)
  show i: "i < length (wx_items x)" using c assms(2) by (auto simp: wx_channels_ok_def)
  show "wx_next x \<le> i + N" using c r assms(2) by (auto simp: wx_channels_ok_def wx_receiver_ok_def Let_def)
  show "i < wx_next x + 2 * N" using i wexchange_lead [OF assms(1)] by simp
qed

text \<open>An acknowledgement at the head of its channel is within three windows of every item in flight.\<close>

lemma wexchange_ack_head:
  assumes "wexchange_inv N x" and "wx_back x = Some i # ys" and "j \<in> wx_flight x"
  shows "j < i + 3 * N" and "i < j + N"
proof -
  obtain m b where s: "wx_sender_ok N b x" and r: "wx_receiver_ok N m x" and c: "wx_channels_ok N m b x"
    using assms by (auto simp: wexchange_inv_def)
  let ?n = "length (wx_items x)"
  have b: "b \<le> i + 2 * N" and i: "i \<in> wx_received x" using c assms(2) by (auto simp: wx_channels_ok_def)
  have j: "j < ?n" "?n \<le> j + N" using s assms(3) by (auto simp: wx_sender_ok_def Let_def)
  have "i < m" "m \<le> ?n" using received_bound [OF r i] r by (auto simp: wx_receiver_ok_def Let_def)
  then show "i < j + N" using j(2) by simp
  show "j < i + 3 * N"
  proof (cases "\<exists>f \<in> wx_flight x. f \<le> b")
    case True
    then have "?n \<le> b + N" using s by (fastforce simp: wx_sender_ok_def Let_def)
    then show ?thesis using b j(1) by simp
  next
    case False
    then have "b \<notin> wx_flight x" by auto
    moreover have "\<forall>i < ?n. i \<notin> wx_flight x \<longrightarrow> i < b" using s by (simp add: wx_sender_ok_def Let_def)
    ultimately have "?n \<le> b" by (meson less_irrefl not_less)
    then show ?thesis using b j(1) by simp
  qed
qed

text \<open>Once FINISH is on the way everything before it was received; it is taken only at its turn.\<close>

lemma wexchange_finish:
  assumes "wexchange_inv N x" and "wx_items x ! i = ItemFinish" and "i < length (wx_items x)"
  shows "Suc i = length (wx_items x)" and "wx_flight x \<subseteq> {i}" and "i \<notin> wx_held x"
    and "wx_next x \<le> i" and "i \<notin> wx_flight x \<Longrightarrow> wx_closed x" and "wx_closed x \<Longrightarrow> wx_next x = i"
proof -
  obtain m b where s: "wx_sender_ok N b x" and r: "wx_receiver_ok N m x"
    using assms(1) by (auto simp: wexchange_inv_def)
  have "\<forall>i < length (wx_items x). wx_items x ! i = ItemFinish \<longrightarrow>
      Suc i = length (wx_items x) \<and> wx_flight x \<subseteq> {i}"
    using s by (simp add: wx_sender_ok_def Let_def)
  then show last: "Suc i = length (wx_items x)" "wx_flight x \<subseteq> {i}" using assms(2,3) by blast+
  have "(\<forall>i < wx_next x. wx_items x ! i \<noteq> ItemFinish) \<and> (\<forall>i \<in> wx_held x. wx_items x ! i \<noteq> ItemFinish)"
    using r by (simp add: wx_receiver_ok_def Let_def)
  then show held: "i \<notin> wx_held x" "wx_next x \<le> i" using assms(2) by (blast intro: leI)+
  have "i \<notin> wx_flight x \<Longrightarrow> i \<in> wx_received x" using s assms(3) by (simp add: wx_sender_ok_def Let_def)
  then show "i \<notin> wx_flight x \<Longrightarrow> wx_closed x"
    using held by (simp add: wx_received_def split: if_splits)
  have "wx_closed x \<Longrightarrow> Suc (wx_next x) = length (wx_items x)" using r by (simp add: wx_receiver_ok_def Let_def)
  then show "wx_closed x \<Longrightarrow> wx_next x = i" using last(1) by simp
qed

lemma wexchange_closed:
  assumes "wexchange_inv N x" and "wx_closed x"
  shows "Suc (wx_next x) = length (wx_items x)" and "wx_items x ! wx_next x = ItemFinish" and "wx_held x = {}"
proof -
  obtain m b where s: "wx_sender_ok N b x" and r: "wx_receiver_ok N m x"
    using assms(1) by (auto simp: wexchange_inv_def)
  show n: "Suc (wx_next x) = length (wx_items x)" "wx_items x ! wx_next x = ItemFinish"
    using r assms(2) by (auto simp: wx_receiver_ok_def Let_def)
  show "wx_held x = {}" using r n assms(2)
    by (auto simp: wx_receiver_ok_def Let_def) (metis le_antisym less_Suc_eq_le)
qed

text \<open>Every item before the receiver's next is a byte, and every acknowledged item was received.\<close>

lemma wexchange_safe:
  assumes "wexchange_inv N x"
  shows "wx_next x \<le> length (wx_items x)" and "i < wx_next x \<Longrightarrow> wx_items x ! i \<noteq> ItemFinish"
    and "i \<in> wx_held x \<Longrightarrow> wx_next x \<le> i \<and> i < wx_next x + N \<and> i < length (wx_items x) \<and> wx_items x ! i \<noteq> ItemFinish"
    and "i < length (wx_items x) \<Longrightarrow> i \<notin> wx_flight x \<Longrightarrow> i \<in> wx_received x"
    and "i \<in> wx_flight x \<Longrightarrow> i < length (wx_items x) \<and> length (wx_items x) \<le> i + N"
proof -
  obtain m b where s: "wx_sender_ok N b x" and r: "wx_receiver_ok N m x"
    using assms(1) by (auto simp: wexchange_inv_def)
  show "wx_next x \<le> length (wx_items x)" "i < wx_next x \<Longrightarrow> wx_items x ! i \<noteq> ItemFinish"
    "i \<in> wx_held x \<Longrightarrow> wx_next x \<le> i \<and> i < wx_next x + N \<and> i < length (wx_items x) \<and> wx_items x ! i \<noteq> ItemFinish"
    using r by (fastforce simp: wx_receiver_ok_def Let_def)+
  show "i < length (wx_items x) \<Longrightarrow> i \<notin> wx_flight x \<Longrightarrow> i \<in> wx_received x"
    "i \<in> wx_flight x \<Longrightarrow> i < length (wx_items x) \<and> length (wx_items x) \<le> i + N"
    using s by (auto simp: wx_sender_ok_def Let_def)
qed

lemma wexchange_steps_closed: "(wexchange_step N)\<^sup>*\<^sup>* x x' \<Longrightarrow> wx_closed x \<Longrightarrow> wx_closed x'"
  by (induction rule: rtranclp_induct) (auto elim: wexchange_step.cases)

end
