(* ===== verification/WinSending.thy ===== *)
theory WinSending
  imports WinReceiver Line WinExchange
begin

text \<open>
  The sender's half of the windowed line: what the window of \<open>src/window/tx.rs\<close> says of the
  selective-repeat system of \<open>WinExchange\<close>, and that every poll of the sender is some of its
  steps.  Frames on the line stand for numbers of items; the invariant of that system keeps those
  numbers close enough for the eight-bit comparisons of the code.
\<close>

section \<open>Eight bits are enough\<close>

lemma of_nat_inj_u8:
  fixes i j :: nat
  assumes "(of_nat i :: u8) = of_nat j" and "i < j + 256" and "j < i + 256"
  shows "i = j"
proof -
  have ij: "i mod 256 = j mod 256"
    using assms(1) by (simp add: word_of_nat_eq_iff take_bit_eq_mod)
  have near: "x = y" if "x \<le> y" "y < x + 256" "y mod 256 = x mod 256" for x y :: nat
  proof -
    have "256 dvd y - x" using that by (simp add: mod_eq_dvd_iff_nat)
    then have "y - x = 0" using that(2) by (cases "y - x = 0") (auto dest: dvd_imp_le)
    then show ?thesis using that(1) by simp
  qed
  show ?thesis using near [of i j] near [of j i] assms(2,3) ij by (cases "i \<le> j") simp_all
qed

lemma unat_diff_u8:
  fixes i n :: nat
  assumes "i \<le> n" and "n < i + 256"
  shows "unat (of_nat n - of_nat i :: u8) = n - i"
proof -
  have "(of_nat n - of_nat i :: u8) = of_nat (n - i)" using assms(1) by (simp add: of_nat_diff)
  moreover have "unat (of_nat (n - i) :: u8) = n - i" using assms by (intro unat_of_nat_u8) simp
  ultimately show ?thesis by simp
qed

section \<open>Frames and numbers\<close>

definition item_frame :: "u8 item list \<Rightarrow> nat \<Rightarrow> frame" where
  "item_frame items i = (case items ! i of
     ItemByte b \<Rightarrow> data_frame (of_nat i) b | ItemFinish \<Rightarrow> finish_frame (of_nat i))"

definition frame_is :: "u8 item list \<Rightarrow> nat option \<Rightarrow> frame_error + frame \<Rightarrow> bool" where
  "frame_is items t d = (case t of
     None \<Rightarrow> (\<exists>e. d = Inl e) | Some i \<Rightarrow> i < length items \<and> d = Inr (item_frame items i))"

definition reply_is :: "nat option \<Rightarrow> frame_error + frame \<Rightarrow> bool" where
  "reply_is t d = (case t of
     None \<Rightarrow> (\<forall>f. d = Inr f \<longrightarrow> fr_type f = Nack) | Some i \<Rightarrow> d = Inr (ack_frame (of_nat i)))"

lemma frame_is_snoc: "frame_is items t d \<Longrightarrow> frame_is (items @ xs) t d"
  by (auto simp: frame_is_def item_frame_def nth_append split: option.splits)

lemma frames_snoc: "list_all2 (frame_is items) ts ds \<Longrightarrow> list_all2 (frame_is (items @ xs)) ts ds"
  by (erule list_all2_mono) (rule frame_is_snoc)

lemma tags_fault:
  assumes "channel_fault ds ds'" and "list_all2 R ts ds" and "\<And>e. R None (Inl e)"
  shows "\<exists>ts'. tag_fault ts ts' \<and> list_all2 R ts' ds'"
  using assms(1)
proof cases
  case (fault_loss xs x ys)
  then obtain us t vs where "ts = us @ t # vs" "list_all2 R us xs" "list_all2 R vs ys"
    using assms(2) by (auto simp: list_all2_append2 list_all2_Cons2)
  then show ?thesis using fault_loss by (auto intro!: exI [of _ "us @ vs"] tag_loss list_all2_appendI)
next
  case (fault_damage xs x ys err)
  then obtain us t vs where "ts = us @ t # vs" "list_all2 R us xs" "list_all2 R vs ys"
    using assms(2) by (auto simp: list_all2_append2 list_all2_Cons2)
  then show ?thesis using fault_damage assms(3)
    by (auto intro!: exI [of _ "us @ None # vs"] tag_damage list_all2_appendI)
qed

lemma tag_fault_append: "tag_fault ts us \<Longrightarrow> tag_fault (ts @ vs) (us @ vs)"
  by (induction rule: tag_fault.induct) (use tag_loss tag_damage in auto)

section \<open>The polls of the sender\<close>

definition slot_for :: "u8 item list \<Rightarrow> nat \<Rightarrow> tx_slot \<Rightarrow> bool" where
  "slot_for items i sl = (sl_seq sl = of_nat i \<and> i < length items \<and> (case items ! i of
     ItemByte b \<Rightarrow> sl_kind sl = WData \<and> sl_payload sl = b | ItemFinish \<Rightarrow> sl_kind sl = WFinish))"

lemma slot_for_frame: "slot_for items i sl \<Longrightarrow> slot_frame sl = item_frame items i"
  by (auto simp: slot_for_def slot_frame_def item_frame_def split: item.splits)

lemma slot_for_same: "slot_for items i a \<Longrightarrow> same_flight a b \<Longrightarrow> slot_for items i b"
  by (auto simp: slot_for_def same_flight_def split: item.splits)

lemma slot_for_snoc: "slot_for items i sl \<Longrightarrow> slot_for (items @ xs) i sl"
  by (auto simp: slot_for_def nth_append)

definition slots_sim :: "tx_slot option list \<Rightarrow> u8 item list \<Rightarrow> nat set \<Rightarrow> bool" where
  "slots_sim slots items flight =
     ((\<forall>sl. Some sl \<in> set slots \<longrightarrow> (\<exists>i \<in> flight. slot_for items i sl)) \<and>
      (\<forall>i \<in> flight. \<exists>sl. Some sl \<in> set slots \<and> slot_for items i sl))"

lemma slots_sim_same:
  assumes "slots_sim xs items flight" and "same_slots xs ys"
  shows "slots_sim ys items flight"
proof -
  have "\<exists>a. Some a \<in> set xs \<and> same_flight a b" if "Some b \<in> set ys" for b
    using that same_slots_Some [OF assms(2)] by (metis in_set_conv_nth)
  moreover have "\<exists>b. Some b \<in> set ys \<and> same_flight a b" if a: "Some a \<in> set xs" for a
  proof -
    obtain k where k: "k < length xs" "xs ! k = Some a" using a by (auto simp: in_set_conv_nth)
    then obtain b where "ys ! k = Some b" "same_flight a b"
      using same_slots_nth [OF assms(2) k(1)] by (cases "ys ! k") auto
    then show ?thesis using k(1) same_slots_length [OF assms(2)] by (metis nth_mem)
  qed
  ultimately show ?thesis using assms(1) unfolding slots_sim_def by (meson slot_for_same)
qed

definition data_count :: "u8 item list \<Rightarrow> nat" where
  "data_count items = (if ItemFinish \<in> set items then length items - 1 else length items)"

definition wsender_sim :: "nat \<Rightarrow> wsender \<Rightarrow> track \<Rightarrow> track \<Rightarrow> u8 wexchange \<Rightarrow> bool" where
  "wsender_sim N s there back x =
     (wsender_wf s \<and> wt_limit s = N \<and> writes (wt_out s) there \<and> reads (wt_assembler s) back \<and>
      (tk_rest back \<noteq> [] \<longrightarrow> ob_is_idle (wt_out s) \<and> wsender_next_to_write s = None) \<and>
      wt_state s \<noteq> TxAborted \<and> (wx_failed x \<longleftrightarrow> wt_state s = TxFailed) \<and>
      (\<not> wx_failed x \<longrightarrow> slots_sim (wt_slots s) (wx_items x) (wx_flight x) \<and>
         wt_next_seq s = of_nat (data_count (wx_items x)) \<and>
         (wt_state s = TxFinished \<longleftrightarrow> ItemFinish \<in> set (wx_items x) \<and> wx_flight x = {})))"

definition data_flight :: "u8 wexchange \<Rightarrow> nat set" where
  "data_flight x = {i \<in> wx_flight x. wx_items x ! i \<noteq> ItemFinish}"

text \<open>
  What a poll of the sender is for the exchange.  The replies on the way are those on the track,
  and behind them what the receiver is still writing, \<open>rt\<close>.
\<close>

definition wsender_polled ::
  "nat \<Rightarrow> u8 wexchange \<Rightarrow> track \<Rightarrow> track \<Rightarrow> nat option list \<Rightarrow>
     (track \<times> track) \<times> wsender \<times> (unit error + tx_poll) \<Rightarrow> bool" where
  "wsender_polled N x there back rt res = (case res of ((there', back'), s', r) \<Rightarrow>
     tk_part back' = tk_part back \<and>
     (\<exists>x' ts fs bt. (wexchange_step N)\<^sup>*\<^sup>* x x' \<and> wsender_sim N s' there' back' x' \<and>
        extends there there' fs \<and> list_all2 (frame_is (wx_items x)) ts fs \<and> wx_fwd x' = wx_fwd x @ ts \<and>
        wx_back x' = bt @ rt \<and> list_all2 reply_is bt (coming back') \<and>
        wx_next x' = wx_next x \<and> wx_held x' = wx_held x \<and> wx_closed x' = wx_closed x \<and>
        wx_items x' = wx_items x \<and>
        (r = Inr PollTransferDone \<longrightarrow> wx_closed x) \<and>
        card (data_flight x') + (if r = Inr PollAcked then 1 else 0) = card (data_flight x)))"

lemma wsender_polled_intro:
  assumes "tk_part back' = tk_part back" and "(wexchange_step N)\<^sup>*\<^sup>* x x'" and "wsender_sim N s' there' back' x'"
    and "extends there there' fs" and "list_all2 (frame_is (wx_items x)) ts fs" and "wx_fwd x' = wx_fwd x @ ts"
    and "wx_back x' = bt @ rt" and "list_all2 reply_is bt (coming back')"
    and "wx_next x' = wx_next x" and "wx_held x' = wx_held x" and "wx_closed x' = wx_closed x"
    and "wx_items x' = wx_items x" and "r = Inr PollTransferDone \<longrightarrow> wx_closed x"
    and "card (data_flight x') + (if r = Inr PollAcked then 1 else 0) = card (data_flight x)"
  shows "wsender_polled N x there back rt ((there', back'), s', r)"
  unfolding wsender_polled_def prod.case
  by (rule conjI, rule assms, rule exI [of _ x'], rule exI [of _ ts], rule exI [of _ fs], rule exI [of _ bt])
    (intro conjI; rule assms)

lemma wsender_polledI:
  assumes "(wexchange_step N)\<^sup>*\<^sup>* x x'" and "wsender_sim N s' there back' x'" and "tk_part back' = tk_part back"
    and "wx_fwd x' = wx_fwd x" and "wx_back x' = bt @ rt" and "list_all2 reply_is bt (coming back')"
    and "wx_next x' = wx_next x" and "wx_held x' = wx_held x" and "wx_closed x' = wx_closed x"
    and "wx_items x' = wx_items x" and "r = Inr PollTransferDone \<longrightarrow> wx_closed x"
    and "card (data_flight x') + (if r = Inr PollAcked then 1 else 0) = card (data_flight x)"
  shows "wsender_polled N x there back rt ((there, back'), s', r)"
  by (rule wsender_polled_intro [where ts = "[]" and fs = "[]" and bt = bt, OF assms(3,1,2)])
    (use assms(4-) in simp_all)

lemma wsender_polled_quiet:
  assumes "wsender_sim N s' there back x" and "r \<noteq> Inr PollAcked" and "r = Inr PollTransferDone \<longrightarrow> wx_closed x"
    and "wx_back x = bt @ rt" and "list_all2 reply_is bt (coming back)"
  shows "wsender_polled N x there back rt ((there, back), s', r)"
  using assms by (intro wsender_polledI [of N x x]) auto

text \<open>A byte of the frame of the slot being written, or its last.\<close>

lemma finish_write_slots:
  assumes "wsender_wf s" and "wt_writing s = Some i" and "wt_slots s ! i = Some sl"
  shows "same_slots (wt_slots s) (wt_slots (wsender_finish_write s))"
proof -
  have "i < length (wt_slots s)" using assms(1,2) by (auto simp: wsender_wf_def)
  then show ?thesis using assms(2,3)
    by (auto simp: wsender_finish_write_def Let_def same_flight_def intro: same_slots_update)
qed

lemma wsender_polled_write:
  assumes inv: "wexchange_inv N x" and sim: "wsender_sim N s there back x" and busy: "\<not> ob_is_idle (wt_out s)"
    and bt: "wx_back x = bt @ rt" "list_all2 reply_is bt (coming back)"
  shows "wsender_polled N x there back rt (wsender_write (end_port up) (there, back) s)"
proof -
  have wf: "wsender_wf s" "ob_wf (wt_out s)" and wr: "writes (wt_out s) there"
    and rd: "reads (wt_assembler s) back" and tr: "tk_rest back = []"
    using sim busy by (auto simp: wsender_sim_def wsender_wf_def)
  obtain b bs where rest: "ob_rest (wt_out s) = b # bs"
    using busy wf(2) by (cases "ob_rest (wt_out s)") (auto simp: ob_idle_rest)
  obtain i sl where sl: "wt_writing s = Some i" "i < length (wt_slots s)" "wt_slots s ! i = Some sl"
      "ob_buf (wt_out s) = to_bytes (slot_frame sl)"
    using wf(1) busy by (cases "wt_writing s") (auto simp: wsender_wf_def)
  then have set: "Some sl \<in> set (wt_slots s)" by (metis nth_mem)
  then have occ: "occupied (wt_slots s) \<noteq> 0" by (auto simp: occupied_0)
  then have st: "wt_state s \<notin> {TxIdle, TxFinished, TxAborted, TxFailed}"
    using wf(1) by (auto simp: wsender_wf_def)
  then have nf: "\<not> wx_failed x" using sim by (simp add: wsender_sim_def)
  show ?thesis
  proof (cases up)
    case False
    then have "wsender_write (end_port up) (there, back) s = ((there, back), s, Inl (ErrTransport ()))"
      using rest wf by (simp add: wsender_write_def wsender_pump_out_def out_pump_def end_port_def ob_peek_rest)
    then show ?thesis using sim bt by (auto intro: wsender_polled_quiet)
  next
    case True
    let ?o = "s\<lparr>wt_out := ob_commit (wt_out s)\<rparr>"
    let ?s = "if bs = [] then wsender_finish_write ?o else ?o"
    have p: "wsender_write (end_port up) (there, back) s = ((track_write b there, back), ?s, Inr PollPending)"
      using True out_pump_write [OF wf(2) rest, of "end_port True" "(there, back)" "(track_write b there, back)"]
      by (simp add: wsender_write_def wsender_pump_out_def end_port_def)
    have wf': "wsender_wf ?s" using wsender_wf_write [OF wf(1) busy, of "end_port up" "(there, back)"] p by simp
    obtain k where k: "k \<in> wx_flight x" "slot_for (wx_items x) k sl"
      using sim nf set by (auto simp: wsender_sim_def slots_sim_def)
    let ?ts = "if bs = [] then [Some k] else []" and ?fs = "if bs = [] then [from_bytes (ob_buf (wt_out s))] else []"
    let ?x = "x\<lparr>wx_fwd := wx_fwd x @ ?ts\<rparr>"
    have x: "(wexchange_step N)\<^sup>*\<^sup>* x ?x" using wx_send [OF nf k(1), of N] by auto
    have "frame_ok (item_frame (wx_items x) k)" by (auto simp: item_frame_def split: item.splits)
    then have fr: "list_all2 (frame_is (wx_items x)) ?ts ?fs"
      using k slot_for_frame [OF k(2)] sl(4) by (auto simp: frame_is_def slot_for_def)
    have keep: "same_slots (wt_slots s) (wt_slots ?s)" "wt_limit ?s = wt_limit s" "wt_next_seq ?s = wt_next_seq s"
      "wt_out ?s = ob_commit (wt_out s)" "reads (wt_assembler ?s) back"
      using sl rd tr by (auto simp: wsender_finish_write_def Let_def same_flight_def reads_def intro: same_slots_update)
    have occ': "occupied (wt_slots ?s) \<noteq> 0" using same_slots_occupied [OF keep(1)] occ by simp
    then have st': "wt_state ?s \<notin> {TxIdle, TxFinished, TxAborted, TxFailed}"
      using wf' by (auto simp: wsender_wf_def)
    have "wsender_sim N ?s (track_write b there) back ?x"
      using sim nf wf' keep writes_pump(2) [OF wr rest] tr st st' slots_sim_same [OF _ keep(1)]
      by (simp add: wsender_sim_def del: if_split_asm split del: if_split)
    then show ?thesis unfolding p
      using bt by (intro wsender_polled_intro [OF refl x _ extends_write [OF wr rest] fr]) (simp_all add: data_flight_def)
  qed
qed

section \<open>What the sender does next\<close>

lemma wsender_sim_next: "wsender_sim N s there back x \<Longrightarrow> wsender_next_to_write s = Some i \<Longrightarrow> tk_rest back = []"
  by (auto simp: wsender_sim_def)

lemma wsender_sim_load:
  assumes sim: "wsender_sim N s there back x" and i: "wsender_next_to_write s = Some i" "ob_is_idle (wt_out s)"
  shows "wsender_sim N (fst (wsender_load_slot i s)) there back x"
proof -
  have wf: "wsender_wf s" "ob_wf (wt_out s)" and tr: "tk_rest back = []"
    using sim wsender_sim_next [OF sim i(1)] by (auto simp: wsender_sim_def wsender_wf_def)
  obtain sl where sl: "i < length (wt_slots s)" "wt_slots s ! i = Some sl"
    using next_to_write_SomeD [OF i(1)] by auto
  then have set: "Some sl \<in> set (wt_slots s)" by (metis nth_mem)
  then have "occupied (wt_slots s) \<noteq> 0" by (auto simp: occupied_0)
  then have st: "wt_state s \<notin> {TxIdle, TxFinished, TxAborted, TxFailed}"
    using wf(1) by (auto simp: wsender_wf_def)
  have "wsender_wf (fst (wsender_load_slot i s))" using wsender_wf_load [OF wf(1) i] by simp
  then show ?thesis using sim st set sl tr i(2) wf(2)
    by (auto simp: wsender_sim_def wsender_load_slot_def slots_sim_def writes_def ob_idle_rest)
qed

lemma wtick_slots_again:
  "wtick_slots timeout writing i slots = (slots', True, failed) \<Longrightarrow> occupied slots \<noteq> 0"
  by (induction timeout writing i slots arbitrary: slots' failed rule: wtick_slots.induct)
    (auto split: prod.splits)

text \<open>Slots changed in place, by a tick or a NACK.\<close>

lemma wsender_sim_same:
  assumes sim: "wsender_sim N s there back x" and same: "same_slots (wt_slots s) slots"
    and st: "st = wt_state s \<or> st = TxRetrying \<and> occupied (wt_slots s) \<noteq> 0"
    and wf: "wsender_wf (s\<lparr>wt_slots := slots, wt_state := st, wt_mark := m\<rparr>)"
    and tr: "tk_rest back = []"
  shows "wsender_sim N (s\<lparr>wt_slots := slots, wt_state := st, wt_mark := m\<rparr>) there back x"
proof -
  have "wt_state s \<notin> {TxIdle, TxFinished, TxAborted, TxFailed}" if "occupied (wt_slots s) \<noteq> 0"
    using that sim by (auto simp: wsender_sim_def wsender_wf_def)
  then show ?thesis using sim st wf tr slots_sim_same [OF _ same] by (auto simp: wsender_sim_def)
qed

lemma wsender_sim_failed:
  assumes "wsender_sim N s there back x" and "ob_is_idle (wt_out s)" and "tk_rest back = []"
  shows "wsender_sim N ((clear_slots s)\<lparr>wt_state := TxFailed\<rparr>) there back (x\<lparr>wx_failed := True\<rparr>)"
  using assms wsender_wf_failed [of s TxFailed] by (auto simp: wsender_sim_def clear_slots_def)

lemma wsender_polled_fail:
  assumes sim: "wsender_sim N s there back' x1" and idle: "ob_is_idle (wt_out s)" "tk_rest back' = []"
    and x1: "(wexchange_step N)\<^sup>*\<^sup>* x x1" "x1 = x\<lparr>wx_back := bt @ rt\<rparr>"
    and bt: "list_all2 reply_is bt (coming back')" and part: "tk_part back' = tk_part back"
    and s': "s' = (clear_slots s)\<lparr>wt_state := TxFailed\<rparr>\<lparr>wt_mark := m\<rparr>"
  shows "wsender_polled N x there back rt ((there, back'), s', Inl ErrRetriesExhausted)"
proof -
  have "wsender_sim N s' there back' (x1\<lparr>wx_failed := True\<rparr>)"
    using wsender_sim_failed [OF sim idle] s' by (simp add: wsender_sim_def wsender_next_to_write_def)
  moreover have "(wexchange_step N)\<^sup>*\<^sup>* x (x1\<lparr>wx_failed := True\<rparr>)"
    using x1(1) wx_fail [of N x1] by (rule rtranclp.rtrancl_into_rtrancl)
  ultimately show ?thesis using x1(2) bt part
    by (intro wsender_polledI [of N x "x1\<lparr>wx_failed := True\<rparr>"]) (simp_all add: data_flight_def)
qed

lemma wsender_polled_tick:
  assumes sim: "wsender_sim N s there back x" and idle: "ob_is_idle (wt_out s)" "tk_rest back = []"
    and bt: "wx_back x = bt @ rt" "list_all2 reply_is bt (coming back)"
    and t: "wsender_tick_timeouts s = (s', r)"
  shows "wsender_polled N x there back rt ((there, back), s', r)"
proof -
  obtain slots again failed where w: "wtick_slots (timeout_ticks (wt_policy s)) (wt_writing s) 0 (wt_slots s)
      = (slots, again, failed)" by (metis prod_cases3)
  note same = wtick_slots_same [OF w]
  have wf: "wsender_wf s'" using wsender_wf_tick [of s, where ?'a = unit] sim idle(1) t by (simp add: wsender_sim_def)
  have xb: "x\<lparr>wx_back := bt @ rt\<rparr> = x" using bt(1) by (cases x) simp
  let ?st = "if again then TxRetrying else wt_state s"
  let ?m = "if again then (wt_mark s)\<lparr>im_retransmit := True\<rparr> else wt_mark s"
  show ?thesis
  proof (cases failed)
    case True
    then have "s' = (clear_slots s)\<lparr>wt_state := TxFailed\<rparr>\<lparr>wt_mark := ?m\<rparr>" "r = Inl ErrRetriesExhausted"
      using t w by (auto simp: wsender_tick_timeouts_def clear_slots_def Let_def)
    then show ?thesis using wsender_polled_fail [OF sim idle _ _ bt(2) refl, of x] xb by simp
  next
    case False
    then have s': "s' = s\<lparr>wt_slots := slots, wt_state := ?st, wt_mark := ?m\<rparr>" "r = Inr PollPending"
      using t w by (auto simp: wsender_tick_timeouts_def Let_def)
    have "occupied (wt_slots s) \<noteq> 0" if again
      using that w wtick_slots_again by metis
    then have "wsender_sim N s' there back x"
      using wf idle(2) unfolding s'(1) by (intro wsender_sim_same [OF sim same]) auto
    then show ?thesis unfolding s'(2) using bt by (intro wsender_polled_quiet) auto
  qed
qed

lemma wsender_polled_nack:
  assumes sim: "wsender_sim N s there back' x1" and idle: "ob_is_idle (wt_out s)" "tk_rest back' = []"
    and x1: "(wexchange_step N)\<^sup>*\<^sup>* x x1" "x1 = x\<lparr>wx_back := bt @ rt\<rparr>"
    and bt: "list_all2 reply_is bt (coming back')" and part: "tk_part back' = tk_part back"
    and n: "wsender_on_nack q s = (s', r)"
  shows "wsender_polled N x there back rt ((there, back'), s', r)"
proof -
  have dull: "wsender_polled N x there back rt ((there, back'), s2, Inr PollPending)"
    if "wsender_sim N s2 there back' x1" for s2
    using that x1 bt part by (intro wsender_polledI [of N x x1]) (simp_all add: data_flight_def)
  have wf: "wsender_wf s'" using wsender_wf_on_nack [of s q, where ?'a = unit] sim idle(1) n by (simp add: wsender_sim_def)
  show ?thesis
  proof (cases "wsender_find_seq q s")
    case None
    then show ?thesis using dull [OF sim] n by (simp add: wsender_on_nack_def)
  next
    case (Some i)
    obtain sl where sl: "i < length (wt_slots s)" "wt_slots s ! i = Some sl" "sl_seq sl = q"
      using find_seq_SomeD [OF Some] .
    consider "\<not> sl_written sl" | (fail) "sl_written sl" "sl_retries_left sl = 0"
      | (retry) "sl_written sl" "sl_retries_left sl \<noteq> 0" by blast
    then show ?thesis
    proof cases
      case 1
      then show ?thesis using dull [OF sim] n Some sl by (simp add: wsender_on_nack_def)
    next
      case fail
      then have "s' = (clear_slots s)\<lparr>wt_state := TxFailed\<rparr>\<lparr>wt_mark := wt_mark s\<rparr>" "r = Inl ErrRetriesExhausted"
        using n Some sl by (auto simp: wsender_on_nack_def clear_slots_def)
      then show ?thesis using wsender_polled_fail [OF sim idle x1 bt part] by simp
    next
      case retry
      then have s': "s' = s\<lparr>wt_slots := (wt_slots s)[i := Some (slot_retry sl)], wt_state := TxRetrying,
          wt_mark := (wt_mark s)\<lparr>im_nack := True, im_retransmit := True\<rparr>\<rparr>" "r = Inr PollPending"
        using n Some sl by (auto simp: wsender_on_nack_def)
      have "same_slots (wt_slots s) ((wt_slots s)[i := Some (slot_retry sl)])"
        using sl retry same_flight_retry by (intro same_slots_update) auto
      moreover have "occupied (wt_slots s) \<noteq> 0" using occupied_pos [OF sl(1)] sl(2) by simp
      ultimately have "wsender_sim N s' there back' x1"
        using wf idle(2) unfolding s'(1) by (intro wsender_sim_same [OF sim]) auto
      then show ?thesis unfolding s'(2) by (rule dull)
    qed
  qed
qed

text \<open>An acknowledgement names at most one item in flight, its own.\<close>

lemma wsender_limit: "wsender_sim N s there back x \<Longrightarrow> 1 \<le> N \<and> N \<le> 8"
  by (auto simp: wsender_sim_def wsender_wf_def check_window_def MAX_WINDOW_def)

lemma slots_sim_unique:
  assumes "wexchange_inv N x" and "N \<le> 8" and "i \<in> wx_flight x" and "j \<in> wx_flight x"
    and "slot_for items i sl" and "slot_for items j sl"
  shows "i = j"
  using wexchange_safe(5) [OF assms(1,3)] wexchange_safe(5) [OF assms(1,4)] assms(2,5,6)
  by (intro of_nat_inj_u8) (auto simp: slot_for_def)

lemma slots_sim_removed:
  assumes inv: "wexchange_inv N x" "N \<le> 8" and sim: "slots_sim slots (wx_items x) (wx_flight x)"
    and win: "window_ok q limit slots" and k: "k < length slots" "slots ! k = Some sl"
    and i: "i \<in> wx_flight x" "slot_for (wx_items x) i sl"
  shows "slots_sim (slots[k := None]) (wx_items x) (wx_flight x - {i})"
proof -
  have 1: "\<exists>j \<in> wx_flight x - {i}. slot_for (wx_items x) j a" if a: "Some a \<in> set (slots[k := None])" for a
  proof -
    obtain l where u: "l < length (slots[k := None])" "slots[k := None] ! l = Some a"
      using a by (meson in_set_conv_nth)
    then have l: "l < length slots" "slots ! l = Some a" "l \<noteq> k" by (cases "l = k", simp_all)+
    then obtain j where j: "j \<in> wx_flight x" "slot_for (wx_items x) j a"
      using sim by (metis slots_sim_def nth_mem)
    have "j \<noteq> i" using window_ok_inj [OF win] l k j(2) i(2) by (auto simp: slot_for_def)
    then show ?thesis using j by blast
  qed
  have 2: "\<exists>a. Some a \<in> set (slots[k := None]) \<and> slot_for (wx_items x) j a" if j: "j \<in> wx_flight x - {i}" for j
  proof -
    obtain a l where a: "slot_for (wx_items x) j a" "l < length slots" "slots ! l = Some a"
      using sim j unfolding slots_sim_def by (meson Diff_iff in_set_conv_nth)
    have "l \<noteq> k" using slots_sim_unique [OF inv i(1) _ i(2)] a k j by auto
    then have "Some a \<in> set (slots[k := None])" using a by (auto simp: in_set_conv_nth)
    then show ?thesis using a by blast
  qed
  show ?thesis using 1 2 unfolding slots_sim_def by blast
qed

lemma flight_finite: "wexchange_inv N x \<Longrightarrow> finite (wx_flight x)"
  using wexchange_safe(5) by (intro finite_subset [of "wx_flight x" "{..<length (wx_items x)}"]) auto

lemma wsender_polled_ack:
  assumes inv: "wexchange_inv N x" and head: "wx_back x = Some i # bt @ rt"
    and sim: "wsender_sim N s there back' (x\<lparr>wx_back := bt @ rt\<rparr>)" and nf: "\<not> wx_failed x"
    and idle: "ob_is_idle (wt_out s)" "tk_rest back' = []"
    and bt: "list_all2 reply_is bt (coming back')" and part: "tk_part back' = tk_part back"
    and n: "wsender_on_ack (of_nat i) s = (s', r)"
  shows "wsender_polled N x there back rt ((there, back'), s', r)"
proof -
  note N = wsender_limit [OF sim]
  let ?x1 = "x\<lparr>wx_back := bt @ rt\<rparr>"
  have dull: ?thesis if "s' = s" "r = Inr PollPending"
    using wx_skip [OF head, of N] sim bt part that
    by (intro wsender_polledI [of N x ?x1]) (auto simp: data_flight_def)
  have wf0: "wsender_wf s" using sim by (simp add: wsender_sim_def)
  have wf: "wsender_wf s" "wsender_wf s'"
    using wf0 wsender_wf_on_ack [OF wf0 idle(1), of "of_nat i", where ?'a = unit] n by simp_all
  show ?thesis
  proof (cases "wsender_find_seq (of_nat i) s")
    case None
    then show ?thesis using dull n by (simp add: wsender_on_ack_def)
  next
    case (Some k)
    obtain sl where sl: "k < length (wt_slots s)" "wt_slots s ! k = Some sl" "sl_seq sl = of_nat i"
      using find_seq_SomeD [OF Some] .
    have slots: "slots_sim (wt_slots s) (wx_items x) (wx_flight x)" using sim nf by (simp add: wsender_sim_def)
    then obtain j where j: "j \<in> wx_flight x" "slot_for (wx_items x) j sl"
      using sl by (metis slots_sim_def nth_mem)
    have "i = j"
      using wexchange_ack_head [OF inv _ j(1), of i "bt @ rt"] head N j(2) sl(3)
      by (intro of_nat_inj_u8) (auto simp: slot_for_def)
    then have i: "i \<in> wx_flight x" "slot_for (wx_items x) i sl" using j by simp_all
    let ?y = "x\<lparr>wx_back := bt @ rt, wx_flight := wx_flight x - {i}\<rparr>"
    have y: "wexchange_step N x ?y" using nf head by (rule wx_ack)
    then have invy: "wexchange_inv N ?y" using inv by (rule wexchange_step_inv)
    have win: "window_ok (wt_next_seq s) (wt_limit s) (wt_slots s)" using wf by (simp add: wsender_wf_def)
    have gone: "slots_sim ((wt_slots s)[k := None]) (wx_items x) (wx_flight x - {i})"
      using slots_sim_removed [OF inv _ slots win sl(1,2) i] N by simp
    show ?thesis
    proof (cases "sl_written sl")
      case False
      then show ?thesis using dull n Some sl by (simp add: wsender_on_ack_def)
    next
      case written: True
      show ?thesis
      proof (cases "wx_items x ! i")
        case (ItemByte b)
        then have kind: "sl_kind sl = WData" using i(2) by (auto simp: slot_for_def)
        obtain st where s': "s' = s\<lparr>wt_slots := (wt_slots s)[k := None], wt_state := st\<rparr>" "r = Inr PollAcked"
            "st \<in> {TxIdle, TxWaitingAck}"
          using n Some sl written kind by (auto simp: wsender_on_ack_def Let_def split: if_splits)
        have "\<not> (ItemFinish \<in> set (wx_items x) \<and> wx_flight x - {i} = {})"
        proof
          assume "ItemFinish \<in> set (wx_items x) \<and> wx_flight x - {i} = {}"
          then obtain f where "f < length (wx_items x)" "wx_items x ! f = ItemFinish" by (auto simp: in_set_conv_nth)
          then have "wx_flight x \<subseteq> {f}" using wexchange_finish(2) [OF inv] by blast
          then show False using i(1) ItemByte \<open>wx_items x ! f = ItemFinish\<close> by auto
        qed
        then have "wsender_sim N s' there back' ?y"
          using sim nf wf(2) gone idle(2) s' by (auto simp: wsender_sim_def)
        moreover have "data_flight ?y = data_flight x - {i}" "i \<in> data_flight x" "finite (data_flight x)"
          using i(1) ItemByte flight_finite [OF inv] by (auto simp: data_flight_def)
        then have "card (data_flight ?y) + 1 = card (data_flight x)" using card_Suc_Diff1 by fastforce
        ultimately show ?thesis unfolding s'(2) using r_into_rtranclp [of "wexchange_step N", OF y] bt part
          by (intro wsender_polledI [of N x ?y]) simp_all
      next
        case ItemFinish
        then have kind: "sl_kind sl = WFinish" using i(2) by (auto simp: slot_for_def)
        then have s': "s' = s\<lparr>wt_slots := (wt_slots s)[k := None], wt_state := TxFinished\<rparr>" "r = Inr PollTransferDone"
          using n Some sl written by (auto simp: wsender_on_ack_def Let_def)
        have il: "i < length (wx_items x)" using i(2) by (simp add: slot_for_def)
        then have fin: "ItemFinish \<in> set (wx_items x)" using ItemFinish by (metis nth_mem)
        have none: "wx_flight x = {i}" using wexchange_finish(2) [OF inv ItemFinish il] i(1) by auto
        have "wx_closed x" using wexchange_finish(5) [OF invy, of i] ItemFinish il by simp
        moreover have "wsender_sim N s' there back' ?y"
          using sim nf wf(2) gone idle(2) s' none fin by (auto simp: wsender_sim_def)
        moreover have "data_flight ?y = data_flight x"
          using ItemFinish by (auto simp: data_flight_def)
        ultimately show ?thesis unfolding s'(2) using r_into_rtranclp [of "wexchange_step N", OF y] bt part
          by (intro wsender_polledI [of N x ?y]) simp_all
      qed
    qed
  qed
qed

lemma wsender_sim_assembler:
  assumes "wsender_sim N s there back x" and "reads a back'" and "ob_is_idle (wt_out s)"
    and "wsender_next_to_write s = None"
  shows "wsender_sim N (s\<lparr>wt_assembler := a\<rparr>) there back' x"
proof -
  have "asm_wf a" using assms(2) by (simp add: reads_def)
  then show ?thesis using assms wsender_wf_assembler [of s a]
    by (auto simp: wsender_sim_def wsender_next_to_write_def)
qed

lemma wsender_sim_back [simp]: "wsender_sim N s there back (x\<lparr>wx_back := ts\<rparr>) = wsender_sim N s there back x"
  by (simp add: wsender_sim_def)

lemma wsender_polled_read:
  assumes inv: "wexchange_inv N x" and sim: "wsender_sim N s there back x" and nf: "\<not> wx_failed x"
    and idle: "ob_is_idle (wt_out s)" "wsender_next_to_write s = None"
    and bt: "wx_back x = bt @ rt" "list_all2 reply_is bt (coming back)"
  shows "wsender_polled N x there back rt (wsender_read (end_port up) (there, back) s)"
proof (cases up)
  case False
  then have "wsender_read (end_port up) (there, back) s = ((there, back), s, Inl (ErrTransport ()))"
    by (simp add: wsender_read_def end_port_def)
  then show ?thesis using sim bt by (auto intro: wsender_polled_quiet)
next
  case True
  have rd: "reads (wt_assembler s) back" using sim by (simp add: wsender_sim_def)
  obtain back' q where tr: "track_read back = (back', q)" by fastforce
  note got = reads_track_read [OF rd tr]
  show ?thesis
  proof (cases q)
    case None
    then have none: "back' = back" "tk_rest back = []" using got by auto
    obtain s' and r :: "unit error + tx_poll" where "wsender_tick_timeouts s = (s', r)" by fastforce
    then show ?thesis using wsender_polled_tick [OF sim idle(1) none(2) bt] True tr None none
      by (simp add: wsender_read_def end_port_def)
  next
    case (Some b)
    obtain a d where ap: "asm_push b (wt_assembler s) = (a, d)" by fastforce
    note got' = got [unfolded Some, simplified, unfolded ap, simplified]
    let ?s = "s\<lparr>wt_assembler := a\<rparr>"
    have part: "tk_part back' = tk_part back" using got' by (auto split: option.splits)
    have "reads a back'" using got' by (auto split: option.splits)
    then have s: "wsender_sim N ?s there back' x" using wsender_sim_assembler [OF sim _ idle] by simp
    have xb: "x\<lparr>wx_back := bt @ rt\<rparr> = x" using bt(1) by (cases x) simp
    show ?thesis
    proof (cases d)
      case None
      then show ?thesis using True tr Some ap got' s bt part
        by (auto simp: wsender_read_def end_port_def intro!: wsender_polledI [of N x x])
    next
      case full: (Some d')
      have c: "coming back = d' # coming back'" "tk_rest back' = []" using got' full by auto
      then obtain t ts where t: "bt = t # ts" "reply_is t d'" "list_all2 reply_is ts (coming back')"
        using bt(2) by (auto simp: list_all2_Cons2)
      have head: "wx_back x = t # ts @ rt" using bt(1) t(1) by simp
      let ?x1 = "x\<lparr>wx_back := ts @ rt\<rparr>"
      have skip: "(wexchange_step N)\<^sup>*\<^sup>* x ?x1" using wx_skip [OF head, of N] by simp
      have dull: "wsender_polled N x there back rt ((there, back'), ?s, Inr PollPending)"
        using skip s t(3) part by (intro wsender_polledI [of N x ?x1]) (simp_all add: data_flight_def)
      have p: "wsender_read (end_port up) (there, back) s =
          ((there, back'), case d' of Inl _ \<Rightarrow> (?s, Inr PollPending) | Inr f \<Rightarrow> wsender_on_control f ?s)"
        using True tr Some ap full by (simp add: wsender_read_def end_port_def split: sum.splits)
      show ?thesis
      proof (cases d')
        case (Inl e)
        then show ?thesis using dull p by simp
      next
        case (Inr f)
        show ?thesis
        proof (cases t)
          case None
          then have "fr_type f = Nack" using t(2) Inr by (simp add: reply_is_def)
          moreover obtain s' and r :: "unit error + tx_poll" where "wsender_on_nack (fr_seq f) ?s = (s', r)"
            by fastforce
          ultimately show ?thesis
            using wsender_polled_nack [OF _ _ c(2) skip refl t(3) part, of ?s there] s idle(1) p Inr
            by (simp add: wsender_on_control_def)
        next
          case (Some i)
          then have f: "f = ack_frame (of_nat i)" using t(2) Inr by (simp add: reply_is_def)
          obtain s' and r :: "unit error + tx_poll" where "wsender_on_ack (of_nat i) ?s = (s', r)"
            by fastforce
          then show ?thesis
            using wsender_polled_ack [OF inv _ _ nf _ c(2) t(3) part, of i rt ?s there] head Some s idle(1) p Inr f
            by (simp add: wsender_on_control_def)
        qed
      qed
    qed
  qed
qed

lemma wsender_polled_poll:
  assumes inv: "wexchange_inv N x" and sim: "wsender_sim N s there back x"
    and bt: "wx_back x = bt @ rt" "list_all2 reply_is bt (coming back)"
  shows "wsender_polled N x there back rt (wsender_poll (end_port up) (there, back) s)"
proof -
  have wf: "wsender_wf s" "wt_state s \<noteq> TxAborted" using sim by (simp_all add: wsender_sim_def)
  show ?thesis
  proof (cases "wt_state s = TxFailed \<or> wt_state s = TxFinished")
    case True
    have "wsender_poll (end_port up) (there, back) s = ((there, back), s,
        if wt_state s = TxFailed then Inl ErrRetriesExhausted else Inr PollTransferDone)"
      using True wf(1) by (auto simp: wsender_poll_def wsender_wf_def wsender_outstanding_def)
    moreover have "wx_closed x" if "wt_state s = TxFinished"
    proof -
      have "ItemFinish \<in> set (wx_items x)" "wx_flight x = {}" using that sim by (auto simp: wsender_sim_def)
      then show ?thesis using wexchange_finish(5) [OF inv] by (auto simp: in_set_conv_nth)
    qed
    moreover have "wt_state s = TxFailed \<or> wt_state s = TxFinished" by (rule True)
    ultimately show ?thesis
      using wsender_polled_quiet [OF sim _ _ bt, of "if wt_state s = TxFailed then Inl ErrRetriesExhausted else Inr PollTransferDone"]
      by (auto split: if_splits)
  next
    case False
    then have nf: "\<not> wx_failed x" using sim by (simp add: wsender_sim_def)
    show ?thesis using wf(1)
    proof (cases rule: wsender_poll_cases [of s "end_port up" "(there, back)"])
      case (stopped r)
      then show ?thesis using False wf(2) by auto
    next
      case writing
      then show ?thesis using wsender_polled_write [OF inv sim _ bt] by simp
    next
      case (loading i)
      then show ?thesis using wsender_polled_write [OF inv wsender_sim_load [OF sim loading(1,2)] _ bt]
          wsender_wf_load [OF wf(1) loading(1,2)] by simp
    next
      case reading
      then show ?thesis using wsender_polled_read [OF inv sim nf _ _ bt] by simp
    qed
  qed
qed

end
