(* ===== verification/WinReceiving.thy ===== *)
theory WinReceiving
  imports WinSending
begin

text \<open>
  The receiver's half of the windowed line: what its buffer, its emit queue and its reply say of
  the selective-repeat system, and that every poll of \<open>src/window/rx.rs\<close> is some of its steps.
\<close>

section \<open>The receiver and the exchange\<close>

definition item_byte :: "u8 item list \<Rightarrow> nat \<Rightarrow> u8" where
  "item_byte items i = (case items ! i of ItemByte b \<Rightarrow> b | ItemFinish \<Rightarrow> 0)"

text \<open>The reply being written, if any.\<close>

definition rx_reply :: "wreceiver \<Rightarrow> (frame_error + frame) list" where
  "rx_reply r = (if ob_is_idle (wr_out r) then [] else [from_bytes (ob_buf (wr_out r))])"

definition window_sim :: "wreceiver \<Rightarrow> u8 wexchange \<Rightarrow> u8 list \<Rightarrow> bool" where
  "window_sim r x out =
     (stream_ok (item_byte (wx_items x)) out r \<and> wx_next x = length (out @ wr_queue r) \<and>
      (\<forall>i < length (wr_buf r). wr_buf r ! i \<noteq> None \<longleftrightarrow> wx_next x + i \<in> wx_held x))"

definition closing_sim :: "wreceiver \<Rightarrow> u8 wexchange \<Rightarrow> bool" where
  "closing_sim r x =
     (\<not> wr_abort_latched r \<and> wr_finish_seq r = (if wx_closed x then Some (of_nat (wx_next x)) else None) \<and>
      (wx_closed x \<longrightarrow> wr_queue r = []) \<and> wr_pending r \<notin> {Some WpStarted, Some WpAborted} \<and>
      (wr_pending r = Some WpFinished \<longrightarrow> wx_closed x))"

definition wreceiver_sim :: "nat \<Rightarrow> wreceiver \<Rightarrow> track \<Rightarrow> track \<Rightarrow> u8 wexchange \<Rightarrow> u8 list \<Rightarrow> bool" where
  "wreceiver_sim N r back there x out =
     (wreceiver_wf r \<and> wr_limit r = N \<and> writes (wr_out r) back \<and> reads (wr_assembler r) there \<and>
      list_all2 (frame_is (wx_items x)) (wx_fwd x) (coming there) \<and>
      list_all2 reply_is (wx_back x) (coming back @ rx_reply r) \<and> window_sim r x out \<and> closing_sim r x)"

definition wreceiver_polled ::
  "nat \<Rightarrow> u8 wexchange \<Rightarrow> u8 list \<Rightarrow> track \<Rightarrow> track \<Rightarrow>
     (track \<times> track) \<times> wreceiver \<times> (unit error + poll_outcome) \<Rightarrow> bool" where
  "wreceiver_polled N x out back there res = (case res of ((back', there'), r', o') \<Rightarrow>
     tk_part there' = tk_part there \<and>
     (\<exists>x' fs. (wexchange_step N)\<^sup>*\<^sup>* x x' \<and> wreceiver_sim N r' back' there' x' (out @ delivered o') \<and>
        extends back back' fs \<and> wx_items x' = wx_items x \<and> wx_flight x' = wx_flight x \<and>
        wx_failed x' = wx_failed x \<and> (o' = Inr OutTransferFinished \<longrightarrow> wx_closed x')))"

lemma wreceiver_polledI:
  assumes "tk_part there' = tk_part there" and "(wexchange_step N)\<^sup>*\<^sup>* x x'"
    and "wreceiver_sim N r' back' there' x' (out @ delivered o')" and "extends back back' fs"
    and "wx_items x' = wx_items x" and "wx_flight x' = wx_flight x" and "wx_failed x' = wx_failed x"
    and "o' = Inr OutTransferFinished \<longrightarrow> wx_closed x'"
  shows "wreceiver_polled N x out back there ((back', there'), r', o')"
  using assms unfolding wreceiver_polled_def by (auto intro!: exI [of _ x'] exI [of _ fs])

lemma wreceiver_polled_quiet:
  assumes "wreceiver_sim N r' back there' x out" and "tk_part there' = tk_part there"
    and "delivered o' = []" and "o' \<noteq> Inr OutTransferFinished"
  shows "wreceiver_polled N x out back there ((back, there'), r', o')"
  using assms by (intro wreceiver_polledI [where x' = x and fs = "[]"]) simp_all

text \<open>Polls after steps are steps.\<close>

lemma wreceiver_polled_after:
  assumes "(wexchange_step N)\<^sup>*\<^sup>* x x1" and "wreceiver_polled N x1 out back there1 res"
    and "tk_part there1 = tk_part there" and "wx_items x1 = wx_items x" and "wx_flight x1 = wx_flight x"
    and "wx_failed x1 = wx_failed x"
  shows "wreceiver_polled N x out back there res"
proof -
  obtain back' there' r' o' where res: "res = ((back', there'), r', o')" by (metis surj_pair)
  obtain x' fs where x': "tk_part there' = tk_part there1" "(wexchange_step N)\<^sup>*\<^sup>* x1 x'"
      "wreceiver_sim N r' back' there' x' (out @ delivered o')" "extends back back' fs"
      "wx_items x' = wx_items x1" "wx_flight x' = wx_flight x1" "wx_failed x' = wx_failed x1"
      "o' = Inr OutTransferFinished \<longrightarrow> wx_closed x'"
    using assms(2) unfolding wreceiver_polled_def res by auto
  show ?thesis unfolding res
    by (rule wreceiver_polledI [OF _ rtranclp_trans [OF assms(1) x'(2)] x'(3,4)]) (use x' assms in simp_all)
qed

lemma wreceiver_sim_state [simp]:
  "wreceiver_sim N (r\<lparr>wr_state := st\<rparr>) back there x out = wreceiver_sim N r back there x out"
  by (simp add: wreceiver_sim_def window_sim_def closing_sim_def rx_reply_def)

section \<open>Draining\<close>

lemma drain_keeps:
  "wr_limit (wreceiver_drain_in_order r) = wr_limit r \<and> wr_assembler (wreceiver_drain_in_order r) = wr_assembler r \<and>
   wr_finish_seq (wreceiver_drain_in_order r) = wr_finish_seq r \<and>
   wr_abort_latched (wreceiver_drain_in_order r) = wr_abort_latched r"
proof (induction r rule: wreceiver_drain_in_order.induct)
  case (1 r)
  then show ?case
    by (subst (1 2 3 4) wreceiver_drain_in_order.simps)
      (auto simp: wreceiver_push_emit_def split: list.splits option.splits)
qed

lemma window_sim_drain:
  assumes "buf_wf r" and "wr_limit r = N" and "window_sim r x out" and "wexchange_inv N x"
  shows "\<exists>n h. (wexchange_step N)\<^sup>*\<^sup>* x (x\<lparr>wx_next := n, wx_held := h\<rparr>) \<and>
    window_sim (wreceiver_drain_in_order r) (x\<lparr>wx_next := n, wx_held := h\<rparr>) out"
  using assms
proof (induction r arbitrary: x rule: wreceiver_drain_in_order.induct)
  case (1 r)
  show ?case
  proof (cases "\<exists>byte rest. wr_buf r = Some byte # rest")
    case True
    then obtain byte rest where buf: "wr_buf r = Some byte # rest" by auto
    let ?r = "wreceiver_push_emit byte (r\<lparr>wr_buf := shift_buf (None # rest),
      wr_expected_seq := fst (seq_advance (wr_expected_seq r))\<rparr>)"
    let ?y = "x\<lparr>wx_next := Suc (wx_next x), wx_held := wx_held x - {wx_next x}\<rparr>"
    have wf: "buf_wf ?r" "wr_limit ?r = N"
      using 1(2,3) buf by (auto simp: buf_wf_def wreceiver_push_emit_def shift_buf_def)
    have room: "wr_emit_len r < length (wr_emit r)" "wr_emit_at r \<le> wr_emit_len r"
      using 1(2) buf by (auto simp: buf_wf_def)
    have q: "wr_queue ?r = wr_queue r @ [byte]"
      using room by (subst push_emit_queue) simp_all
    have f: "wr_buf ?r = rest @ [None]" by (simp add: wreceiver_push_emit_def shift_buf_def)
    have held: "\<forall>i < Suc (length rest). (Some byte # rest) ! i \<noteq> None \<longleftrightarrow> wx_next x + i \<in> wx_held x"
      using 1(4) buf by (simp add: window_sim_def)
    then have head: "wx_next x \<in> wx_held x" by (auto dest: spec [of _ 0])
    then have y: "wexchange_step N x ?y" by (rule wx_drain)
    have len: "N \<le> Suc (length rest)" using 1(2,3) buf by (auto simp: buf_wf_def)
    have "(rest @ [None]) ! i \<noteq> None \<longleftrightarrow> Suc (wx_next x) + i \<in> wx_held x - {wx_next x}"
      if "i < Suc (length rest)" for i
    proof (cases "i < length rest")
      case True
      then show ?thesis using held [rule_format, of "Suc i"] by (simp add: nth_append)
    next
      case False
      then have "i = length rest" using that by simp
      then show ?thesis using wexchange_safe(3) [OF 1(5), of "Suc (wx_next x) + i"] len by (auto simp: nth_append)
    qed
    moreover have "stream_ok (item_byte (wx_items x)) out ?r"
      using 1(4) by (intro stream_ok_shift [OF 1(2) _ buf]) (simp add: window_sim_def)
    ultimately have "window_sim ?r ?y out" using 1(4) q f by (simp add: window_sim_def)
    from 1(1) [OF buf refl wf this wexchange_step_inv [OF y 1(5)]] obtain n h where
      n: "(wexchange_step N)\<^sup>*\<^sup>* ?y (?y\<lparr>wx_next := n, wx_held := h\<rparr>)"
        "window_sim (wreceiver_drain_in_order ?r) (?y\<lparr>wx_next := n, wx_held := h\<rparr>) out" by blast
    have "(wexchange_step N)\<^sup>*\<^sup>* x (?y\<lparr>wx_next := n, wx_held := h\<rparr>)"
      using y n(1) by (rule converse_rtranclp_into_rtranclp)
    then show ?thesis using n(2)
      by (subst wreceiver_drain_in_order.simps) (auto simp: buf)
  next
    case False
    then have "wreceiver_drain_in_order r = r"
      by (subst wreceiver_drain_in_order.simps) (auto split: list.splits option.splits)
    then show ?thesis using 1(4) by (intro exI [of _ "wx_next x"] exI [of _ "wx_held x"]) simp
  qed
qed

section \<open>The polls of the receiver\<close>

lemma pop_emit_keeps:
  "wreceiver_pop_emit r = (r', y) \<Longrightarrow> wr_limit r' = wr_limit r \<and> wr_assembler r' = wr_assembler r \<and>
     wr_finish_seq r' = wr_finish_seq r \<and> wr_abort_latched r' = wr_abort_latched r"
  by (auto simp: wreceiver_pop_emit_def Let_def split: if_splits)

lemma window_sim_pop:
  assumes "buf_wf r" and "window_sim r x out" and "wreceiver_pop_emit r = (r', y)"
  shows "window_sim r' x (out @ (case y of None \<Rightarrow> [] | Some b \<Rightarrow> [b]))"
proof (cases y)
  case None
  then show ?thesis using pop_emit_wf [OF assms(1,3)] assms(2) by simp
next
  case (Some b)
  then show ?thesis using pop_emit_wf [OF assms(1,3)] stream_ok_pop [OF assms(1) _ assms(3) [unfolded Some]] assms(2)
    by (simp add: window_sim_def)
qed

definition outcome_bytes :: "poll_outcome option \<Rightarrow> u8 list" where
  "outcome_bytes y = (case y of Some (OutDelivered b) \<Rightarrow> [b] | _ \<Rightarrow> [])"

text \<open>The end of a reply: the action that was pending takes effect.\<close>

lemma wreceiver_sim_take:
  assumes inv: "wexchange_inv N x" and wf: "buf_wf r" "wr_limit r = N"
    and drain: "wr_buf r ! 0 \<noteq> None \<longleftrightarrow> wr_pending r = Some WpDrain"
    and sim: "window_sim r x out" "closing_sim r x" and tp: "wreceiver_take_pending r = (r', y)"
  shows "\<exists>n h. (wexchange_step N)\<^sup>*\<^sup>* x (x\<lparr>wx_next := n, wx_held := h\<rparr>) \<and>
    window_sim r' (x\<lparr>wx_next := n, wx_held := h\<rparr>) (out @ outcome_bytes y) \<and>
    closing_sim r' (x\<lparr>wx_next := n, wx_held := h\<rparr>) \<and> wr_out r' = wr_out r \<and>
    wr_assembler r' = wr_assembler r \<and> wr_limit r' = N \<and> (y = Some OutTransferFinished \<longrightarrow> wx_closed x)"
proof (cases "wr_pending r = Some WpDrain")
  case True
  let ?q = "r\<lparr>wr_pending := None\<rparr>"
  let ?d = "(wreceiver_drain_in_order ?q)\<lparr>wr_state := RxIdle\<rparr>"
  have b: "buf_wf ?q" "wr_limit ?q = N" using wf by simp_all
  note d = drain_wf [OF b(1)] and keeps = drain_keeps [of ?q]
  have "0 < length (wr_buf r)" using wf(1) by (auto simp: buf_wf_def check_window_def)
  then have "wx_next x + 0 \<in> wx_held x" using drain True sim(1) unfolding window_sim_def by blast
  then have open_: "\<not> wx_closed x" using wexchange_closed(3) [OF inv] by auto
  have "window_sim ?q x out" using sim(1) by (simp add: window_sim_def)
  from window_sim_drain [OF b this inv] obtain n h where
    n: "(wexchange_step N)\<^sup>*\<^sup>* x (x\<lparr>wx_next := n, wx_held := h\<rparr>)"
      "window_sim (wreceiver_drain_in_order ?q) (x\<lparr>wx_next := n, wx_held := h\<rparr>) out" by blast
  obtain z where pe: "wreceiver_pop_emit ?d = (r', z)" and y: "y = map_option OutDelivered z"
    using tp True by (auto simp: wreceiver_take_pending_def Let_def split: prod.splits)
  have bd: "buf_wf ?d" using d by simp
  have "window_sim ?d (x\<lparr>wx_next := n, wx_held := h\<rparr>) out" using n(2) by (simp add: window_sim_def)
  from window_sim_pop [OF bd this pe]
  have "window_sim r' (x\<lparr>wx_next := n, wx_held := h\<rparr>) (out @ outcome_bytes y)"
    using y by (cases z) (simp_all add: outcome_bytes_def)
  moreover have "closing_sim r' (x\<lparr>wx_next := n, wx_held := h\<rparr>)"
    using sim(2) open_ pop_emit_wf [OF bd pe] pop_emit_keeps [OF pe] keeps d by (simp add: closing_sim_def)
  moreover have "wr_out r' = wr_out r" "wr_assembler r' = wr_assembler r" "wr_limit r' = N"
    using pop_emit_wf [OF bd pe] pop_emit_keeps [OF pe] keeps d wf(2) by simp_all
  ultimately show ?thesis using n(1) y by (intro exI [of _ n] exI [of _ h]) auto
next
  case False
  then have r': "r' = r\<lparr>wr_pending := None, wr_state := wr_state r'\<rparr> \<or>
      wr_pending r = Some WpStarted" "outcome_bytes y = []"
      "y = Some OutTransferFinished \<longrightarrow> wr_pending r = Some WpFinished"
    using tp by (auto simp: wreceiver_take_pending_def wreceiver_settle_idle_def outcome_bytes_def Let_def
        split: option.splits wpending_action.splits)
  moreover have "wr_pending r \<noteq> Some WpStarted" "wr_pending r = Some WpFinished \<longrightarrow> wx_closed x"
    using sim(2) by (simp_all add: closing_sim_def)
  ultimately obtain st where "r' = r\<lparr>wr_pending := None, wr_state := st\<rparr>" "y = Some OutTransferFinished \<longrightarrow> wx_closed x"
    by blast
  moreover from this have "window_sim r' x out" "closing_sim r' x"
    using sim by (simp_all add: window_sim_def closing_sim_def)
  ultimately show ?thesis using wf r'(2)
    by (intro exI [of _ "wx_next x"] exI [of _ "wx_held x"]) simp
qed

lemma wreceiver_polled_reply:
  assumes inv: "wexchange_inv N x" and sim: "wreceiver_sim N r back there x out"
  shows "wreceiver_polled N x out back there (wreceiver_reply (end_port up) (back, there) r)"
proof -
  have wf: "wreceiver_wf r" "buf_wf r" "ob_wf (wr_out r)" and wr: "writes (wr_out r) back" and lim: "wr_limit r = N"
    using sim by (auto simp: wreceiver_sim_def wreceiver_wf_def buf_wf_def)
  show ?thesis
  proof (cases "ob_rest (wr_out r)")
    case Nil
    then have "wr_pending r = None" using wf by (simp add: wreceiver_wf_def ob_idle_rest)
    then have "r\<lparr>wr_pending := None\<rparr> = r" by (cases r) simp
    then have "wreceiver_reply (end_port up) (back, there) r = ((back, there), r, Inr OutPending)"
      using Nil wf \<open>wr_pending r = None\<close>
      by (simp add: wreceiver_reply_def wreceiver_pump_reply_def ob_peek_rest wreceiver_take_pending_def)
    then show ?thesis using sim by (simp add: wreceiver_polled_quiet delivered_def)
  next
    case rest: (Cons b bs)
    show ?thesis
    proof (cases up)
      case False
      then have "wreceiver_reply (end_port up) (back, there) r = ((back, there), r, Inl (ErrTransport ()))"
        using rest wf by (simp add: wreceiver_reply_def wreceiver_pump_reply_def end_port_def ob_peek_rest)
      then show ?thesis using sim by (simp add: wreceiver_polled_quiet delivered_def)
    next
      case True
      let ?c = "r\<lparr>wr_out := ob_commit (wr_out r)\<rparr>"
      have busy: "\<not> ob_is_idle (wr_out r)" using rest wf(3) by (simp add: ob_idle_rest)
      obtain r' y where tp: "wreceiver_take_pending ?c = (r', y)" by fastforce
      have rep: "wreceiver_reply (end_port up) (back, there) r =
          (if bs = [] then ((track_write b back, there), r', Inr (case y of None \<Rightarrow> OutPending | Some z \<Rightarrow> z))
           else ((track_write b back, there), ?c\<lparr>wr_state := RxAcknowledging\<rparr>, Inr OutPending))"
        using True rest wf tp by (auto simp: wreceiver_reply_def wreceiver_pump_reply_def end_port_def
            ob_peek_rest ob_idle_rest ob_commit_rest split: option.splits)
      have wf': "wreceiver_wf (fst (snd (wreceiver_reply (end_port up) (back, there) r)))"
        using wreceiver_wf_reply [OF wf(1), of "end_port up" "(back, there)"]
        by (cases "wreceiver_reply (end_port up) (back, there) r") auto
      note wr' = writes_pump(2) [OF wr rest] and ext = extends_write [OF wr rest]
      have co: "coming (track_write b back) = coming back @ (if bs = [] then [from_bytes (ob_buf (wr_out r))] else [])"
        using extends_coming [OF ext] by simp
      show ?thesis
      proof (cases "bs = []")
        case False
        have "\<not> ob_is_idle (ob_commit (wr_out r))" using False rest wf(3) by (simp add: ob_idle_rest ob_commit_rest)
        then have "rx_reply ?c = rx_reply r" using busy by (simp add: rx_reply_def ob_commit_def)
        then have "wreceiver_sim N ?c (track_write b back) there x out"
          using sim wf' wr' rep False co by (simp add: wreceiver_sim_def window_sim_def closing_sim_def)
        then show ?thesis using False rep ext
          by (auto intro!: wreceiver_polledI [where x' = x and fs = "[]"] simp: delivered_def)
      next
        case last: True
        have b: "buf_wf ?c" using wf by (simp add: buf_wf_def)
        have "wr_buf ?c ! 0 \<noteq> None \<longleftrightarrow> wr_pending ?c = Some WpDrain" using wf(1) by (simp add: wreceiver_wf_def)
        moreover have "window_sim ?c x out" "closing_sim ?c x" "wr_limit ?c = N"
          using sim by (simp_all add: wreceiver_sim_def window_sim_def closing_sim_def)
        ultimately obtain n h where n: "(wexchange_step N)\<^sup>*\<^sup>* x (x\<lparr>wx_next := n, wx_held := h\<rparr>)"
            "window_sim r' (x\<lparr>wx_next := n, wx_held := h\<rparr>) (out @ outcome_bytes y)"
            "closing_sim r' (x\<lparr>wx_next := n, wx_held := h\<rparr>)" "wr_out r' = wr_out ?c"
            "wr_assembler r' = wr_assembler ?c" "wr_limit r' = N" "y = Some OutTransferFinished \<longrightarrow> wx_closed x"
          using wreceiver_sim_take [OF inv b _ _ _ _ tp] by blast
        have "ob_is_idle (wr_out r')" using n(4) rest last wf(3) by (simp add: ob_idle_rest ob_commit_rest)
        then have "rx_reply r' = []" "rx_reply r = [from_bytes (ob_buf (wr_out r))]" using busy by (simp_all add: rx_reply_def)
        then have "wreceiver_sim N r' (track_write b back) there (x\<lparr>wx_next := n, wx_held := h\<rparr>) (out @ outcome_bytes y)"
          using sim n wf' rep last wr' co by (simp add: wreceiver_sim_def)
        moreover have "outcome_bytes y = delivered (Inr (case y of None \<Rightarrow> OutPending | Some z \<Rightarrow> z) :: unit error + poll_outcome)"
          by (auto simp: outcome_bytes_def delivered_def split: option.splits)
        ultimately show ?thesis using last rep ext n(1,7)
          by (auto intro!: wreceiver_polledI [where x' = "x\<lparr>wx_next := n, wx_held := h\<rparr>"] split: option.splits)
      qed
    qed
  qed
qed

section \<open>A completed frame\<close>

lemma rx_reply_begun [simp]: "frame_ok f \<Longrightarrow> rx_reply (wreceiver_begin_reply f a r) = [Inr f]"
  by (simp add: rx_reply_def wreceiver_begin_reply_def)

text \<open>What is left to show when a reply begins: the window and the session.\<close>

lemma wreceiver_sim_begin:
  assumes sim: "wreceiver_sim N r back there x out" and idle: "ob_is_idle (wr_out r)"
    and wf: "wreceiver_wf (wreceiver_begin_reply f a q)"
    and q: "wr_out q = wr_out r" "wr_limit q = wr_limit r" "wr_assembler q = wr_assembler r"
    and f: "frame_ok f" "reply_is t (Inr f)"
    and x': "wx_items x' = wx_items x" "wx_fwd x' = wx_fwd x" "wx_back x' = wx_back x @ [t]"
    and w: "window_sim q x' out" and c: "closing_sim (q\<lparr>wr_pending := Some a\<rparr>) x'"
  shows "wreceiver_sim N (wreceiver_begin_reply f a q) back there x' out"
proof -
  have o: "ob_wf (wr_out r)" using sim by (simp add: wreceiver_sim_def wreceiver_wf_def buf_wf_def)
  then have part: "tk_part back = []" using sim idle by (simp add: wreceiver_sim_def writes_def ob_idle_rest)
  have "rx_reply r = []" using idle by (simp add: rx_reply_def)
  then have "list_all2 reply_is (wx_back x') (coming back @ rx_reply (wreceiver_begin_reply f a q))"
    using sim f x'(3) by (auto simp: wreceiver_sim_def intro!: list_all2_appendI)
  moreover have "writes (wr_out (wreceiver_begin_reply f a q)) back"
    using part by (simp add: wreceiver_begin_reply_def writes_def)
  moreover have "window_sim (wreceiver_begin_reply f a q) x' out" "closing_sim (wreceiver_begin_reply f a q) x'"
    using w c by (simp_all add: window_sim_def closing_sim_def wreceiver_begin_reply_def wr_queue_def)
  ultimately show ?thesis using sim wf q x' by (simp add: wreceiver_sim_def wreceiver_begin_reply_def)
qed

lemma wreceiver_sim_same:
  assumes "wreceiver_sim N r back there x out" and "wx_items x' = wx_items x" and "wx_fwd x' = wx_fwd x"
    and "wx_back x' = wx_back x" and "wx_next x' = wx_next x" and "wx_held x' = wx_held x"
    and "wx_closed x' = wx_closed x"
  shows "wreceiver_sim N r back there x' out"
  using assms by (simp add: wreceiver_sim_def window_sim_def closing_sim_def)

text \<open>Where the number of a frame at the head of the line stands to the window, in eight bits.\<close>

lemma offset_item:
  assumes "next \<le> i + N" and "i < next + 2 * N" and "N \<le> 8" and "wr_limit r = N" and "wr_expected_seq r = of_nat next"
  shows "wreceiver_offset (of_nat i) r = Some off \<longleftrightarrow> next \<le> i \<and> i < next + N \<and> off = i - next"
    and "wreceiver_is_duplicate (of_nat i) r \<Longrightarrow> wreceiver_offset (of_nat i) r = None \<Longrightarrow> i < next"
proof -
  have 1: "unat (of_nat i - of_nat next :: u8) = i - next" if "next \<le> i"
    using unat_diff_u8 [OF that] assms(2,3) by simp
  have 2: "i = next + unat (of_nat i - of_nat next :: u8)" if "unat (of_nat i - of_nat next :: u8) < N"
    using timely_offset [of "next" N i] that assms(1-3) by simp
  show off: "wreceiver_offset (of_nat i) r = Some off \<longleftrightarrow> next \<le> i \<and> i < next + N \<and> off = i - next" for off
    using 1 2 assms(4,5) by (auto simp: wreceiver_offset_def seq_defs Let_def)
  show "i < next" if dup: "wreceiver_is_duplicate (of_nat i) r" and none: "wreceiver_offset (of_nat i) r = None"
  proof (rule ccontr)
    assume "\<not> i < next"
    then have le: "next + N \<le> i" using off [of "i - next"] none by auto
    have "unat (of_nat next - of_nat i :: u8) \<le> N" using dup assms(4,5)
      by (simp add: wreceiver_is_duplicate_def seq_defs Let_def)
    moreover have "(of_nat next - of_nat i :: u8) = of_nat (next + 256) - of_nat i" by simp
    then have "unat (of_nat next - of_nat i :: u8) = next + 256 - i"
      using unat_diff_u8 [of i "next + 256"] le assms(2,3) by (simp only:)
    ultimately show False using assms(2,3) by simp
  qed
qed

text \<open>
  The receiver after a completed frame, for a step that takes the head off the line and answers
  with \<open>rs\<close>, one reply or none.
\<close>

definition wreceiver_took ::
  "nat \<Rightarrow> wreceiver \<Rightarrow> track \<Rightarrow> track \<Rightarrow> u8 wexchange \<Rightarrow> u8 list \<Rightarrow> bool" where
  "wreceiver_took N r back there x out =
     (\<exists>x'. wexchange_step N x x' \<and> wreceiver_sim N r back there x' out \<and> wx_items x' = wx_items x \<and>
        wx_flight x' = wx_flight x \<and> wx_failed x' = wx_failed x)"

lemma reply_is_nack: "reply_is None (Inr (nack_frame n))"
  by (simp add: reply_is_def frame_defs)

lemma wreceiver_took_ignored:
  assumes "wreceiver_sim N r back there (x\<lparr>wx_fwd := ys\<rparr>) out" and "wx_fwd x = y # ys"
  shows "wreceiver_took N (r\<lparr>wr_state := st\<rparr>) back there x out"
  using assms wx_ignore [OF assms(2), of N] unfolding wreceiver_took_def
  by (intro exI [of _ "x\<lparr>wx_fwd := ys\<rparr>"]) simp

lemma wreceiver_took_rejected:
  assumes "wreceiver_sim N r back there (x\<lparr>wx_fwd := ys\<rparr>) out" and "wx_fwd x = y # ys"
    and "ob_is_idle (wr_out r)" and "wreceiver_wf (wreceiver_begin_reply (nack_frame n) a (r\<lparr>wr_state := st\<rparr>))"
    and "a \<in> {WpRejected, WpCrcRejected}"
  shows "wreceiver_took N (wreceiver_begin_reply (nack_frame n) a (r\<lparr>wr_state := st\<rparr>)) back there x out"
proof -
  let ?x = "x\<lparr>wx_fwd := ys, wx_back := wx_back x @ [None]\<rparr>"
  have "window_sim r (x\<lparr>wx_fwd := ys\<rparr>) out" "closing_sim r (x\<lparr>wx_fwd := ys\<rparr>)"
    using assms(1) by (simp_all add: wreceiver_sim_def)
  then have "wreceiver_sim N (wreceiver_begin_reply (nack_frame n) a (r\<lparr>wr_state := st\<rparr>)) back there ?x out"
    using assms(5)
    by (intro wreceiver_sim_begin [OF assms(1,3,4), where t = None])
      (auto simp: reply_is_nack window_sim_def closing_sim_def)
  then show ?thesis using wx_reject [OF assms(2), of N] unfolding wreceiver_took_def
    by (intro exI [of _ ?x]) simp
qed

lemma wreceiver_took_again:
  assumes "wreceiver_sim N r back there (x\<lparr>wx_fwd := ys\<rparr>) out" and "wx_fwd x = Some i # ys"
    and "ob_is_idle (wr_out r)" and "wreceiver_wf (wreceiver_begin_reply (ack_frame (of_nat i)) a (r\<lparr>wr_state := st\<rparr>))"
    and "a = WpDuplicate \<and> i < wx_next x \<or> a = WpFinished \<and> wx_closed x \<and> wx_items x ! i = ItemFinish \<and> i = wx_next x"
  shows "wreceiver_took N (wreceiver_begin_reply (ack_frame (of_nat i)) a (r\<lparr>wr_state := st\<rparr>)) back there x out"
proof -
  let ?x = "x\<lparr>wx_fwd := ys, wx_back := wx_back x @ [Some i]\<rparr>"
  have "x\<lparr>wx_fwd := ys, wx_closed := True, wx_back := wx_back x @ [Some i]\<rparr> = ?x" if "wx_closed x"
    using that by (cases x) simp
  then have step: "wexchange_step N x ?x"
    using assms(5) wx_again [OF assms(2), of N] wx_close [OF assms(2), of N] by metis
  have "window_sim r (x\<lparr>wx_fwd := ys\<rparr>) out" "closing_sim r (x\<lparr>wx_fwd := ys\<rparr>)"
    using assms(1) by (simp_all add: wreceiver_sim_def)
  then have "wreceiver_sim N (wreceiver_begin_reply (ack_frame (of_nat i)) a (r\<lparr>wr_state := st\<rparr>)) back there ?x out"
    using assms(5)
    by (intro wreceiver_sim_begin [OF assms(1,3,4), where t = "Some i"])
      (auto simp: reply_is_def window_sim_def closing_sim_def)
  then show ?thesis using step unfolding wreceiver_took_def
    by (intro exI [of _ ?x]) simp
qed

lemma wreceiver_took_closed:
  assumes inv: "wexchange_inv N x" and sim: "wreceiver_sim N r back there (x\<lparr>wx_fwd := ys\<rparr>) out"
    and head: "wx_fwd x = Some i # ys" and idle: "ob_is_idle (wr_out r)" "wr_emit_len r = 0"
    and fin: "wx_items x ! i = ItemFinish" "i = wx_next x" and new: "\<not> wx_closed x"
    and q: "q = wreceiver_clear_window (r\<lparr>wr_state := st, wr_finish_seq := Some (of_nat i)\<rparr>)"
    and wf: "wreceiver_wf (wreceiver_begin_reply (ack_frame (of_nat i)) WpFinished q)"
  shows "wreceiver_took N (wreceiver_begin_reply (ack_frame (of_nat i)) WpFinished q) back there x out"
proof -
  let ?x = "x\<lparr>wx_fwd := ys, wx_closed := True, wx_back := wx_back x @ [Some i]\<rparr>"
  have step: "wexchange_step N x ?x" using head fin by (rule wx_close)
  have held: "wx_held x = {}" using wexchange_closed(3) [OF wexchange_step_inv [OF step inv]] by simp
  have old: "window_sim r (x\<lparr>wx_fwd := ys\<rparr>) out" "closing_sim r (x\<lparr>wx_fwd := ys\<rparr>)"
    using sim by (simp_all add: wreceiver_sim_def)
  have none: "wr_queue r = []" "wr_queue q = []" using idle(2) q by (simp_all add: wr_queue_def wreceiver_clear_window_def)
  have "stream_ok (item_byte (wx_items x)) out (r\<lparr>wr_state := st, wr_finish_seq := Some (of_nat i)\<rparr>)"
    using old(1) by (simp add: window_sim_def)
  then have "stream_ok (item_byte (wx_items x)) out q"
    unfolding q using idle(2) by (intro stream_ok_clear) simp_all
  then have "window_sim q ?x out" using old(1) none held q by (simp add: window_sim_def wreceiver_clear_window_def)
  moreover have "closing_sim (q\<lparr>wr_pending := Some WpFinished\<rparr>) ?x"
    using old(2) none fin(2) q by (simp add: closing_sim_def wreceiver_clear_window_def)
  ultimately have "wreceiver_sim N (wreceiver_begin_reply (ack_frame (of_nat i)) WpFinished q) back there ?x out"
    using q by (intro wreceiver_sim_begin [OF sim idle(1) wf, where t = "Some i"])
      (simp_all add: reply_is_def wreceiver_clear_window_def)
  then show ?thesis using step unfolding wreceiver_took_def by (intro exI [of _ ?x]) simp
qed

lemma wreceiver_took_stored:
  assumes inv: "wexchange_inv N x" and sim: "wreceiver_sim N r back there (x\<lparr>wx_fwd := ys\<rparr>) out"
    and head: "wx_fwd x = Some i # ys" and idle: "ob_is_idle (wr_out r)" "wr_emit_len r = 0"
    and i: "wx_items x ! i = ItemByte b" "wx_next x \<le> i" "i < wx_next x + N" "\<not> wx_closed x"
    and q: "q = (if wr_buf r ! (i - wx_next x) = None
      then r\<lparr>wr_state := st, wr_buf := (wr_buf r)[i - wx_next x := Some b]\<rparr> else r\<lparr>wr_state := st\<rparr>)"
    and a: "a \<in> {WpDrain, WpQuiet}" and wf: "wreceiver_wf (wreceiver_begin_reply (ack_frame (of_nat i)) a q)"
    and str: "stream_ok (item_byte (wx_items x)) out (wreceiver_begin_reply (ack_frame (of_nat i)) a q)"
  shows "wreceiver_took N (wreceiver_begin_reply (ack_frame (of_nat i)) a q) back there x out"
proof -
  let ?x = "x\<lparr>wx_fwd := ys, wx_held := insert i (wx_held x), wx_back := wx_back x @ [Some i]\<rparr>"
  have step: "wexchange_step N x ?x" using head i by (intro wx_store) simp_all
  have old: "window_sim r (x\<lparr>wx_fwd := ys\<rparr>) out" "closing_sim r (x\<lparr>wx_fwd := ys\<rparr>)"
    using sim by (simp_all add: wreceiver_sim_def)
  have off: "i - wx_next x < length (wr_buf r)"
    using sim i(2,3) by (auto simp: wreceiver_sim_def wreceiver_wf_def buf_wf_def)
  have held: "\<forall>k < length (wr_buf r). wr_buf r ! k \<noteq> None \<longleftrightarrow> wx_next x + k \<in> wx_held x"
    using old(1) by (simp add: window_sim_def)
  have "wr_buf q ! k \<noteq> None \<longleftrightarrow> wx_next x + k \<in> insert i (wx_held x)" if k: "k < length (wr_buf r)" for k
  proof (cases "k = i - wx_next x")
    case True
    then show ?thesis using off q i(2) by auto
  next
    case False
    then have "wr_buf q ! k = wr_buf r ! k" "wx_next x + k \<noteq> i" using q i(2) by auto
    then show ?thesis using held k by auto
  qed
  moreover have "length (wr_buf q) = length (wr_buf r)" "wr_queue q = wr_queue r" using q by auto
  moreover have "stream_ok (item_byte (wx_items x)) out q" using str by (simp add: stream_ok_reply_begun)
  ultimately have "window_sim q ?x out" using old(1) by (simp add: window_sim_def)
  moreover have "closing_sim (q\<lparr>wr_pending := Some a\<rparr>) ?x"
    using old(2) i(4) q a by (auto simp: closing_sim_def)
  ultimately have "wreceiver_sim N (wreceiver_begin_reply (ack_frame (of_nat i)) a q) back there ?x out"
    using q by (intro wreceiver_sim_begin [OF sim idle(1) wf, where t = "Some i"]) (auto simp: reply_is_def)
  then show ?thesis using step unfolding wreceiver_took_def by (intro exI [of _ ?x]) simp
qed

lemma wreceiver_sim_quiet:
  assumes "wreceiver_sim N r back there x out" and "wr_emit_len r = 0"
  shows "N \<le> 8" and "wr_expected_seq r = of_nat (wx_next x)" and "wx_next x = length out" and "wr_limit r = N"
    and "wr_finish_seq r = (if wx_closed x then Some (of_nat (wx_next x)) else None)" and "\<not> wr_abort_latched r"
proof -
  have "window_sim r x out" "closing_sim r x" using assms(1) by (simp_all add: wreceiver_sim_def)
  then show "wr_expected_seq r = of_nat (wx_next x)" "wx_next x = length out"
    "wr_finish_seq r = (if wx_closed x then Some (of_nat (wx_next x)) else None)" "\<not> wr_abort_latched r"
    using assms(2) by (auto simp: window_sim_def stream_ok_def wr_queue_def closing_sim_def Let_def)
  show "N \<le> 8" "wr_limit r = N"
    using assms(1) by (auto simp: wreceiver_sim_def wreceiver_wf_def buf_wf_def check_window_def MAX_WINDOW_def)
qed

lemma wreceiver_took_data:
  assumes inv: "wexchange_inv N x" and sim: "wreceiver_sim N r back there (x\<lparr>wx_fwd := ys\<rparr>) out"
    and head: "wx_fwd x = Some i # ys" and b: "wx_items x ! i = ItemByte b"
    and idle: "ob_is_idle (wr_out r)" "wr_emit_len r = 0" and wf: "wreceiver_wf r1"
    and r1: "r1 = wreceiver_handle_data (data_frame (of_nat i) b) (r\<lparr>wr_state := RxValidating\<rparr>)"
  shows "wreceiver_took N r1 back there x out"
proof -
  let ?r = "r\<lparr>wr_state := RxValidating\<rparr>"
  note near = wexchange_head [OF inv head] and q = wreceiver_sim_quiet [OF sim idle(2), simplified]
  note off = offset_item [OF near(2,3) q(1), of ?r, simplified, OF q(4) q(2)]
  have "window_sim r (x\<lparr>wx_fwd := ys\<rparr>) out" using sim by (simp add: wreceiver_sim_def)
  moreover have "timely (item_byte (wx_items x)) N (length out) (data_frame (of_nat i) b)"
    using near(2,3) q(1,3) b by (auto simp: timely_def item_byte_def intro!: exI [of _ i])
  moreover have on: "wreceiver_on_frame (Inr (data_frame (of_nat i) b)) r = (r1, True)"
    using r1 by (simp add: wreceiver_on_frame_def)
  ultimately have str: "stream_ok (item_byte (wx_items x)) out r1"
    using q(4) by (intro stream_ok_on_frame [OF _ idle(2) _ on]) (auto simp: window_sim_def)
  consider (closed) "wx_closed x" | (store) k where "\<not> wx_closed x" "wreceiver_offset (of_nat i) ?r = Some k"
    | (again) "\<not> wx_closed x" "wreceiver_offset (of_nat i) ?r = None" "wreceiver_is_duplicate (of_nat i) ?r"
    | (reject) "\<not> wx_closed x" "wreceiver_offset (of_nat i) ?r = None" "\<not> wreceiver_is_duplicate (of_nat i) ?r"
    using option.exhaust by metis
  then show ?thesis
  proof cases
    case closed
    then have "r1 = r\<lparr>wr_state := RxFinished\<rparr>" using r1 q by (simp add: wreceiver_handle_data_def)
    then show ?thesis using wreceiver_took_ignored [OF sim head] by simp
  next
    case (store k)
    then have k: "wx_next x \<le> i" "i < wx_next x + N" "k = i - wx_next x" using off(1) by simp_all
    let ?q = "if wr_buf r ! (i - wx_next x) = None
      then r\<lparr>wr_state := RxValidating, wr_buf := (wr_buf r)[i - wx_next x := Some b]\<rparr> else ?r"
    have r1': "r1 = wreceiver_begin_reply (ack_frame (of_nat i)) (if k = 0 then WpDrain else WpQuiet) ?q"
      using r1 q store k(3) by (simp add: wreceiver_handle_data_def Let_def)
    show ?thesis unfolding r1'
      by (rule wreceiver_took_stored [OF inv sim head idle b k(1,2) store(1) refl]) (use wf str r1' in auto)
  next
    case again
    then have "r1 = wreceiver_begin_reply (ack_frame (of_nat i)) WpDuplicate ?r"
      using r1 q by (simp add: wreceiver_handle_data_def Let_def)
    then show ?thesis using wreceiver_took_again [OF sim head idle(1)] wf off(2) [OF again(3,2)] by simp
  next
    case reject
    then have "r1 = wreceiver_begin_reply (nack_frame (of_nat i)) WpRejected ?r"
      using r1 q by (simp add: wreceiver_handle_data_def Let_def)
    then show ?thesis using wreceiver_took_rejected [OF sim head idle(1)] wf by simp
  qed
qed

lemma wreceiver_took_finish:
  assumes inv: "wexchange_inv N x" and sim: "wreceiver_sim N r back there (x\<lparr>wx_fwd := ys\<rparr>) out"
    and head: "wx_fwd x = Some i # ys" and f: "wx_items x ! i = ItemFinish"
    and idle: "ob_is_idle (wr_out r)" "wr_emit_len r = 0" and wf: "wreceiver_wf r1"
    and r1: "r1 = wreceiver_handle_finish (of_nat i) (r\<lparr>wr_state := RxValidating\<rparr>)"
  shows "wreceiver_took N r1 back there x out"
proof -
  let ?r = "r\<lparr>wr_state := RxValidating\<rparr>"
  note near = wexchange_head [OF inv head] and q = wreceiver_sim_quiet [OF sim idle(2), simplified]
  consider (closed) "wx_closed x" | (close) "\<not> wx_closed x" "(of_nat i :: u8) = of_nat (wx_next x)"
    | (reject) "\<not> wx_closed x" "(of_nat i :: u8) \<noteq> of_nat (wx_next x)" by blast
  then show ?thesis
  proof cases
    case closed
    then have n: "wx_next x = i" using wexchange_finish(6) [OF inv f near(1)] by simp
    then have "r1 = wreceiver_begin_reply (ack_frame (of_nat i)) WpFinished ?r"
      using r1 q closed by (simp add: wreceiver_handle_finish_def)
    then show ?thesis using wreceiver_took_again [OF sim head idle(1)] wf closed f n by simp
  next
    case close
    then have n: "i = wx_next x" using near(2,3) q(1) by (intro of_nat_inj_u8) auto
    have "r1 = wreceiver_begin_reply (ack_frame (of_nat i)) WpFinished
        (wreceiver_clear_window (r\<lparr>wr_state := RxValidating, wr_finish_seq := Some (of_nat i)\<rparr>))"
      using r1 q close by (simp add: wreceiver_handle_finish_def seq_defs)
    then show ?thesis using wreceiver_took_closed [OF inv sim head idle f n close(1) refl] wf by simp
  next
    case reject
    then have "r1 = wreceiver_begin_reply (nack_frame (of_nat i)) WpRejected ?r"
      using r1 q by (simp add: wreceiver_handle_finish_def seq_defs)
    then show ?thesis using wreceiver_took_rejected [OF sim head idle(1)] wf by simp
  qed
qed

lemma wreceiver_took_frame:
  assumes inv: "wexchange_inv N x" and sim: "wreceiver_sim N r back there (x\<lparr>wx_fwd := ys\<rparr>) out"
    and head: "wx_fwd x = t # ys" and d: "frame_is (wx_items x) t d"
    and idle: "ob_is_idle (wr_out r)" "wr_emit_len r = 0"
    and on: "wreceiver_on_frame d r = (r1, flag)"
  shows "wreceiver_took N r1 back there x out"
proof -
  have "wreceiver_wf r" using sim by (simp add: wreceiver_sim_def)
  then have wf1: "wreceiver_wf r1" using wreceiver_wf_on_frame [OF _ idle, of d] on by simp
  note q = wreceiver_sim_quiet [OF sim idle(2), simplified]
  show ?thesis
  proof (cases t)
    case None
    then obtain e where e: "d = Inl e" using d by (auto simp: frame_is_def)
    show ?thesis
    proof (cases "wx_closed x")
      case True
      then have "r1 = r\<lparr>wr_state := RxFinished\<rparr>"
        using on e q by (simp add: wreceiver_on_frame_def wreceiver_is_closed_def wreceiver_settle_idle_def)
      then show ?thesis using wreceiver_took_ignored [OF sim head] by simp
    next
      case False
      then obtain a where "r1 = wreceiver_begin_reply (nack_frame (wr_expected_seq r)) a (r\<lparr>wr_state := RxValidating\<rparr>)"
          "a \<in> {WpRejected, WpCrcRejected}"
        using on e q by (auto simp: wreceiver_on_frame_def wreceiver_is_closed_def Let_def seq_defs
            split: frame_error.splits)
      then show ?thesis using wreceiver_took_rejected [OF sim head idle(1)] wf1 by simp
    qed
  next
    case (Some i)
    then have d': "d = Inr (item_frame (wx_items x) i)" "wx_fwd x = Some i # ys"
      using d head by (auto simp: frame_is_def)
    show ?thesis
    proof (cases "wx_items x ! i")
      case (ItemByte b)
      then show ?thesis using wreceiver_took_data [OF inv sim d'(2) _ idle wf1] on d'(1)
        by (simp add: item_frame_def wreceiver_on_frame_def)
    next
      case ItemFinish
      then show ?thesis using wreceiver_took_finish [OF inv sim d'(2) _ idle wf1] on d'(1)
        by (simp add: item_frame_def wreceiver_on_frame_def)
    qed
  qed
qed

section \<open>A poll\<close>

lemma wreceiver_polled_took:
  assumes inv: "wexchange_inv N x" and took: "wreceiver_took N r back there' x out"
    and part: "tk_part there' = tk_part there"
  shows "wreceiver_polled N x out back there
    (if flag then wreceiver_reply (end_port up) (back, there') r else ((back, there'), r, Inr OutPending))"
proof -
  obtain x' where x': "wexchange_step N x x'" "wreceiver_sim N r back there' x' out" "wx_items x' = wx_items x"
      "wx_flight x' = wx_flight x" "wx_failed x' = wx_failed x"
    using took by (auto simp: wreceiver_took_def)
  have "wreceiver_polled N x' out back there'
      (if flag then wreceiver_reply (end_port up) (back, there') r else ((back, there'), r, Inr OutPending))"
    using wreceiver_polled_reply [OF wexchange_step_inv [OF x'(1) inv] x'(2)] wreceiver_polled_quiet [OF x'(2) refl]
    by (simp add: delivered_def)
  then show ?thesis using wreceiver_polled_after r_into_rtranclp [of "wexchange_step N", OF x'(1)] part x'(3-5) by metis
qed

lemma wreceiver_sim_read:
  assumes "wreceiver_sim N r back there x out" and "reads a there'" and "wx_items x' = wx_items x"
    and "list_all2 (frame_is (wx_items x)) (wx_fwd x') (coming there')" and "wx_back x' = wx_back x"
    and "wx_next x' = wx_next x" and "wx_held x' = wx_held x" and "wx_closed x' = wx_closed x"
  shows "wreceiver_sim N (r\<lparr>wr_state := st, wr_assembler := a\<rparr>) back there' x' out"
proof -
  have "asm_wf a" using assms(2) by (simp add: reads_def)
  then have "wreceiver_wf (r\<lparr>wr_state := st, wr_assembler := a\<rparr>)"
    using wreceiver_wf_assembler [of "r\<lparr>wr_state := st\<rparr>" a] assms(1) by (simp add: wreceiver_sim_def)
  moreover have "rx_reply (r\<lparr>wr_state := st, wr_assembler := a\<rparr>) = rx_reply r" by (simp add: rx_reply_def)
  ultimately show ?thesis using assms by (simp add: wreceiver_sim_def window_sim_def closing_sim_def)
qed

lemma wreceiver_polled_poll:
  assumes inv: "wexchange_inv N x" and sim: "wreceiver_sim N r back there x out"
  shows "wreceiver_polled N x out back there (wreceiver_poll (end_port up) (back, there) r)"
proof -
  have wf: "wreceiver_wf r" "buf_wf r" and rd: "reads (wr_assembler r) there" and win: "window_sim r x out"
    and close: "closing_sim r x"
    using sim by (auto simp: wreceiver_sim_def wreceiver_wf_def)
  obtain r0 y where pe: "wreceiver_pop_emit r = (r0, y)" by fastforce
  note pop = pop_emit_wf [OF wf(2) pe] and keeps = pop_emit_keeps [OF pe]
  show ?thesis
  proof (cases y)
    case (Some byte)
    have p: "wreceiver_poll (end_port up) (back, there) r = ((back, there), r0, Inr (OutDelivered byte))"
      using pe Some by (simp add: wreceiver_poll_def)
    have "window_sim r0 x (out @ [byte])" using window_sim_pop [OF wf(2) win pe] Some by simp
    moreover have "wreceiver_wf r0" using wreceiver_wf_poll [OF wf(1) p] .
    moreover have "closing_sim r0 x" using close pop keeps Some by (auto simp: closing_sim_def)
    moreover have "rx_reply r0 = rx_reply r" using pop by (simp add: rx_reply_def)
    ultimately have "wreceiver_sim N r0 back there x (out @ [byte])"
      using sim pop keeps by (simp add: wreceiver_sim_def)
    then show ?thesis unfolding p by (intro wreceiver_polledI [where x' = x and fs = "[]"]) (simp_all add: delivered_def)
  next
    case none: None
    then have r0: "r0 = r" "wr_emit_len r = 0" using pop by auto
    show ?thesis
    proof (cases "ob_is_idle (wr_out r)")
      case False
      then have "wreceiver_poll (end_port up) (back, there) r = wreceiver_reply (end_port up) (back, there) r"
        using pe none r0 by (simp add: wreceiver_poll_def)
      then show ?thesis using wreceiver_polled_reply [OF inv sim] by simp
    next
      case idle: True
      let ?r = "r\<lparr>wr_state := RxReceiving\<rparr>"
      obtain there' q where tr: "track_read there = (there', q)" by fastforce
      note got = reads_track_read [OF rd tr]
      consider (down) "\<not> up" | (nothing) "up" "q = None" | (part) b a where "up" "q = Some b" "asm_push b (wr_assembler r) = (a, None)"
        | (full) b a d where "up" "q = Some b" "asm_push b (wr_assembler r) = (a, Some d)"
        by (metis option.exhaust surj_pair)
      then show ?thesis
      proof cases
        case down
        then have "wreceiver_poll (end_port up) (back, there) r = ((back, there), ?r, Inl (ErrTransport ()))"
          using pe none r0 idle by (simp add: wreceiver_poll_def end_port_def)
        then show ?thesis using sim by (simp add: wreceiver_polled_quiet delivered_def)
      next
        case nothing
        then have "wreceiver_poll (end_port up) (back, there) r = ((back, there), wreceiver_settle_idle ?r, Inr OutPending)"
          using pe none r0 idle tr got by (simp add: wreceiver_poll_def end_port_def)
        then show ?thesis using sim by (simp add: wreceiver_settle_idle_def wreceiver_polled_quiet delivered_def)
      next
        case (part b a)
        have p: "wreceiver_poll (end_port up) (back, there) r = ((back, there'), ?r\<lparr>wr_assembler := a\<rparr>, Inr OutPending)"
          using part pe none r0 idle tr by (simp add: wreceiver_poll_def end_port_def)
        have "wreceiver_sim N (r\<lparr>wr_state := RxReceiving, wr_assembler := a\<rparr>) back there' x out"
          using got part sim by (intro wreceiver_sim_read [OF sim]) (simp_all add: wreceiver_sim_def)
        then show ?thesis unfolding p using got part by (intro wreceiver_polled_quiet) (simp_all add: delivered_def)
      next
        case (full b a d)
        obtain r1 flag where on: "wreceiver_on_frame d (?r\<lparr>wr_assembler := a\<rparr>) = (r1, flag)" by fastforce
        have p: "wreceiver_poll (end_port up) (back, there) r =
            (if flag then wreceiver_reply (end_port up) (back, there') r1 else ((back, there'), r1, Inr OutPending))"
          using full on pe none r0 idle tr by (simp add: wreceiver_poll_def end_port_def)
        have c: "coming there = d # coming there'" "reads a there'" "tk_part there' = tk_part there" using got full by auto
        then obtain t ys where t: "wx_fwd x = t # ys" "frame_is (wx_items x) t d"
            "list_all2 (frame_is (wx_items x)) ys (coming there')"
          using sim by (auto simp: wreceiver_sim_def list_all2_Cons2)
        have "wreceiver_sim N (?r\<lparr>wr_assembler := a\<rparr>) back there' (x\<lparr>wx_fwd := ys\<rparr>) out"
          using t(3) by (intro wreceiver_sim_read [OF sim c(2)]) simp_all
        from wreceiver_took_frame [OF inv this t(1,2) _ _ on]
        have "wreceiver_took N r1 back there' x out" using idle r0(2) by simp
        then show ?thesis unfolding p by (rule wreceiver_polled_took [OF inv _ c(3)])
      qed
    qed
  qed
qed

end
