(* ===== verification/WinDelivery.thy ===== *)
theory WinDelivery
  imports WinReceiving Simulation "HOL-Library.Sublist"
begin

text \<open>
  The windowed sender and receiver of the code, polled in any order over a lossy line.  Each poll
  of \<open>src/window/tx.rs\<close> or \<open>src/window/rx.rs\<close> implements steps of the selective-repeat system of
  \<open>WinExchange\<close>, so the bytes delivered are the bytes accepted.  A byte is offered only between
  replies, as a caller does that reads a reply to its end: an offer in the middle of one makes the
  sender forget the part it has read.
\<close>

section \<open>The machines\<close>

definition between_replies ::
  "(wsender \<Rightarrow> wsender \<times> (unit error + unit)) \<Rightarrow> wsender \<Rightarrow> wsender \<times> (unit error + unit)" where
  "between_replies off s = (if asm_held (wt_assembler s) = [] then off s else (s, Inl ErrNotIdle))"

definition win_machines :: "(wsender, wreceiver) machines" where
  "win_machines = \<lparr>mc_offer = (\<lambda>b. between_replies (wsender_offer b)),
     mc_finish = between_replies wsender_offer_finish, mc_send = wsender_poll, mc_receive = wreceiver_poll\<rparr>"

definition wline_new :: "nat \<Rightarrow> retry_policy \<Rightarrow> (wsender, wreceiver) line" where
  "wline_new n pol = line_between (wsender_with_policy n pol) (wreceiver_new n)"

section \<open>The line implements the exchange\<close>

definition item_bytes :: "u8 item list \<Rightarrow> u8 list" where
  "item_bytes items = concat (map (\<lambda>i. case i of ItemByte b \<Rightarrow> [b] | ItemFinish \<Rightarrow> []) items)"

definition wline_sim :: "nat \<Rightarrow> (wsender, wreceiver) line \<Rightarrow> u8 wexchange \<Rightarrow> bool" where
  "wline_sim N l x =
     (wsender_sim N (ln_tx l) (ln_there l) (ln_back l) x \<and>
      wreceiver_sim N (ln_rx l) (ln_back l) (ln_there l) x (ln_delivered l) \<and>
      item_bytes (wx_items x) = ln_accepted l \<and>
      ln_acked l + card (data_flight x) = length (ln_accepted l) \<and>
      (ln_finished l \<or> ln_closed l \<longrightarrow> wx_closed x))"

lemma wline_sim_new:
  assumes "check_window n"
  shows "wline_sim n (wline_new n pol) wexchange_new"
proof -
  let ?s = "wsender_with_policy n pol" and ?r = "wreceiver_new n"
  have "wt_limit ?s = n" "wt_out ?s = ob_empty" "wt_assembler ?s = asm_new" "wt_state ?s = TxIdle"
    "wt_slots ?s = replicate n None" "wt_next_seq ?s = 0"
    by (simp_all add: wsender_with_policy_def seq_new_def)
  then have "wsender_sim n ?s track_new track_new wexchange_new"
    using assms by (simp add: wsender_sim_def wexchange_new_def track_new_def writes_def reads_def
        slots_sim_def data_count_def)
  moreover have "wr_limit ?r = n" "wr_out ?r = ob_empty" "wr_assembler ?r = asm_new" "wr_buf ?r = replicate n None"
    "wr_queue ?r = []" "wr_expected_seq ?r = 0" "wr_pending ?r = None" "wr_finish_seq ?r = None" "\<not> wr_abort_latched ?r"
    by (simp_all add: wreceiver_new_def seq_new_def wr_queue_def)
  then have "wreceiver_sim n ?r track_new track_new wexchange_new []"
    using assms by (simp add: wreceiver_sim_def wexchange_new_def track_new_def writes_def reads_def
        coming_def rx_reply_def window_sim_def closing_sim_def stream_ok_def)
  ultimately show ?thesis
    by (simp add: wline_sim_def wline_new_def line_between_def item_bytes_def data_flight_def)
      (simp add: wexchange_new_def)
qed

lemma item_bytes_snoc [simp]:
  "item_bytes [] = []" "item_bytes (items @ [ItemByte b]) = item_bytes items @ [b]"
  "item_bytes (items @ [ItemFinish]) = item_bytes items"
  by (simp_all add: item_bytes_def)

lemma wsender_sim_extend:
  assumes "wsender_sim N s there back x" and "extends back back' fs" and "tk_part there' = tk_part there"
    and "wx_items x' = wx_items x" and "wx_flight x' = wx_flight x" and "wx_failed x' = wx_failed x"
  shows "wsender_sim N s there' back' x'"
proof -
  have "tk_rest back' = tk_rest back" using assms(2) by (simp add: extends_def)
  then show ?thesis using assms extends_reads [OF assms(2)] writes_part [OF assms(3)]
    by (simp add: wsender_sim_def)
qed

lemma wreceiver_sim_extend:
  assumes "wreceiver_sim N r back there x out" and "extends there there' fs" and "tk_part back' = tk_part back"
    and "list_all2 (frame_is (wx_items x)) ts fs" and "wx_fwd x' = wx_fwd x @ ts"
    and "list_all2 reply_is (wx_back x') (coming back' @ rx_reply r)"
    and "wx_next x' = wx_next x" and "wx_held x' = wx_held x" and "wx_closed x' = wx_closed x" and "wx_items x' = wx_items x"
  shows "wreceiver_sim N r back' there' x' out"
  using assms extends_reads [OF assms(2)] extends_coming [OF assms(2)] writes_part [OF assms(3)]
  by (simp add: wreceiver_sim_def window_sim_def closing_sim_def list_all2_appendI)

lemma wline_sim_there:
  assumes sim: "wline_sim N l x" and p: "perturbed (ln_there l) t"
  shows "\<exists>x'. (wexchange_step N)\<^sup>*\<^sup>* x x' \<and> wline_sim N (l\<lparr>ln_there := t\<rparr>) x'"
proof -
  have old: "list_all2 (frame_is (wx_items x)) (wx_fwd x) (coming (ln_there l))"
    using sim by (simp add: wline_sim_def wreceiver_sim_def)
  obtain ts where ts: "(wexchange_step N)\<^sup>*\<^sup>* x (x\<lparr>wx_fwd := ts\<rparr>)" "list_all2 (frame_is (wx_items x)) ts (coming t)"
  proof (cases "coming t = coming (ln_there l)")
    case True
    have "x\<lparr>wx_fwd := wx_fwd x\<rparr> = x" by simp
    then show ?thesis using that [of "wx_fwd x"] old True by simp
  next
    case False
    then have "channel_fault (coming (ln_there l)) (coming t)" using p by (simp add: perturbed_def)
    from tags_fault [OF this old] obtain ts where "tag_fault (wx_fwd x) ts" "list_all2 (frame_is (wx_items x)) ts (coming t)"
      by (auto simp: frame_is_def)
    then show ?thesis using that wx_fault_fwd by blast
  qed
  have "wline_sim N (l\<lparr>ln_there := t\<rparr>) (x\<lparr>wx_fwd := ts\<rparr>)"
    using sim p ts(2)
    by (simp add: wline_sim_def wsender_sim_def wreceiver_sim_def perturbed_def writes_def window_sim_def
        closing_sim_def data_flight_def)
  then show ?thesis using ts(1) by blast
qed

lemma wline_sim_back:
  assumes sim: "wline_sim N l x" and p: "perturbed (ln_back l) t"
  shows "\<exists>x'. (wexchange_step N)\<^sup>*\<^sup>* x x' \<and> wline_sim N (l\<lparr>ln_back := t\<rparr>) x'"
proof -
  obtain bt rt where bt: "wx_back x = bt @ rt" "list_all2 reply_is bt (coming (ln_back l))"
      "list_all2 reply_is rt (rx_reply (ln_rx l))"
    using sim by (auto simp: wline_sim_def wreceiver_sim_def list_all2_append2)
  obtain ts where ts: "(wexchange_step N)\<^sup>*\<^sup>* x (x\<lparr>wx_back := ts @ rt\<rparr>)" "list_all2 reply_is ts (coming t)"
  proof (cases "coming t = coming (ln_back l)")
    case True
    have "x\<lparr>wx_back := bt @ rt\<rparr> = x" using bt(1) by (cases x) simp
    then show ?thesis using that [of bt] bt(2) True by simp
  next
    case False
    then have "channel_fault (coming (ln_back l)) (coming t)" using p by (simp add: perturbed_def)
    from tags_fault [OF this bt(2)] obtain ts where "tag_fault bt ts" "list_all2 reply_is ts (coming t)"
      by (auto simp: reply_is_def)
    then show ?thesis using that [of ts] wx_fault_back [of x "ts @ rt" N] tag_fault_append [of bt ts rt] bt(1) by auto
  qed
  then have "list_all2 reply_is (ts @ rt) (coming t @ rx_reply (ln_rx l))" using bt(3) by (simp add: list_all2_appendI)
  then have "wline_sim N (l\<lparr>ln_back := t\<rparr>) (x\<lparr>wx_back := ts @ rt\<rparr>)"
    using sim p
    by (simp add: wline_sim_def wsender_sim_def wreceiver_sim_def perturbed_def writes_def window_sim_def
        closing_sim_def data_flight_def)
  then show ?thesis using ts(1) by blast
qed

lemma wline_sim_sent:
  assumes inv: "wexchange_inv N x" and sim: "wline_sim N l x"
  shows "\<exists>x'. (wexchange_step N)\<^sup>*\<^sup>* x x' \<and> wline_sim N (line_step win_machines (LnPollSender up) l) x'"
proof -
  obtain there' back' s' r where p: "wsender_poll (end_port up) (ln_there l, ln_back l) (ln_tx l) = ((there', back'), s', r)"
    by (cases "wsender_poll (end_port up) (ln_there l, ln_back l) (ln_tx l)") auto
  have old: "wsender_sim N (ln_tx l) (ln_there l) (ln_back l) x"
    "wreceiver_sim N (ln_rx l) (ln_back l) (ln_there l) x (ln_delivered l)"
    using sim by (simp_all add: wline_sim_def)
  obtain bt rt where bt: "wx_back x = bt @ rt" "list_all2 reply_is bt (coming (ln_back l))"
      "list_all2 reply_is rt (rx_reply (ln_rx l))"
    using old(2) by (auto simp: wreceiver_sim_def list_all2_append2)
  have "wsender_polled N x (ln_there l) (ln_back l) rt ((there', back'), s', r)"
    using wsender_polled_poll [OF inv old(1) bt(1,2), of up] p by simp
  then obtain x' ts fs bt' where x': "(wexchange_step N)\<^sup>*\<^sup>* x x'" "wsender_sim N s' there' back' x'"
      "extends (ln_there l) there' fs" "list_all2 (frame_is (wx_items x)) ts fs" "wx_fwd x' = wx_fwd x @ ts"
      "wx_back x' = bt' @ rt" "list_all2 reply_is bt' (coming back')"
      "wx_next x' = wx_next x" "wx_held x' = wx_held x" "wx_closed x' = wx_closed x" "wx_items x' = wx_items x"
      "r = Inr PollTransferDone \<longrightarrow> wx_closed x" "tk_part back' = tk_part (ln_back l)"
      "card (data_flight x') + (if r = Inr PollAcked then 1 else 0) = card (data_flight x)"
    unfolding wsender_polled_def by auto
  have "list_all2 reply_is (wx_back x') (coming back' @ rx_reply (ln_rx l))"
    unfolding x'(6) using x'(7) bt(3) by (rule list_all2_appendI)
  then have "wreceiver_sim N (ln_rx l) back' there' x' (ln_delivered l)"
    using x' by (intro wreceiver_sim_extend [OF old(2) x'(3,13,4,5)]) simp_all
  then have "wline_sim N (line_step win_machines (LnPollSender up) l) x'"
    using sim x' p by (auto simp: wline_sim_def win_machines_def split: if_splits)
  then show ?thesis using x'(1) by blast
qed

lemma wline_sim_received:
  assumes inv: "wexchange_inv N x" and sim: "wline_sim N l x"
  shows "\<exists>x'. (wexchange_step N)\<^sup>*\<^sup>* x x' \<and> wline_sim N (line_step win_machines (LnPollReceiver up) l) x'"
proof -
  obtain there' back' r' o' where p: "wreceiver_poll (end_port up) (ln_back l, ln_there l) (ln_rx l) = ((back', there'), r', o')"
    by (cases "wreceiver_poll (end_port up) (ln_back l, ln_there l) (ln_rx l)") auto
  have old: "wsender_sim N (ln_tx l) (ln_there l) (ln_back l) x"
    "wreceiver_sim N (ln_rx l) (ln_back l) (ln_there l) x (ln_delivered l)"
    using sim by (simp_all add: wline_sim_def)
  have "wreceiver_polled N x (ln_delivered l) (ln_back l) (ln_there l) ((back', there'), r', o')"
    using wreceiver_polled_poll [OF inv old(2), of up] p by simp
  then obtain x' fs where x': "(wexchange_step N)\<^sup>*\<^sup>* x x'"
      "wreceiver_sim N r' back' there' x' (ln_delivered l @ delivered o')" "extends (ln_back l) back' fs"
      "wx_items x' = wx_items x" "wx_flight x' = wx_flight x" "wx_failed x' = wx_failed x"
      "o' = Inr OutTransferFinished \<longrightarrow> wx_closed x'" "tk_part there' = tk_part (ln_there l)"
    unfolding wreceiver_polled_def by auto
  have "wsender_sim N (ln_tx l) there' back' x'" using wsender_sim_extend [OF old(1) x'(3,8,4-6)] .
  moreover have "delivered o' = (case o' of Inl _ \<Rightarrow> [] | Inr out \<Rightarrow> delivery_of out)"
    by (simp add: delivered_def delivery_of_def split: sum.splits poll_outcome.splits)
  moreover have "wx_closed x \<longrightarrow> wx_closed x'" using wexchange_steps_closed [OF x'(1)] by simp
  moreover have "data_flight x' = data_flight x" using x'(4,5) by (simp add: data_flight_def)
  ultimately have "wline_sim N (line_step win_machines (LnPollReceiver up) l) x'"
    using sim x' p by (auto simp: wline_sim_def win_machines_def)
  then show ?thesis using x'(1) by blast
qed

section \<open>Offers\<close>

text \<open>Inserting a slot puts the next item in flight.\<close>

lemma wsender_sim_insert:
  fixes r :: "unit error + unit"
  assumes sim: "wsender_sim N s there back x" and tr: "tk_rest back = []" and nf: "\<not> wx_failed x"
    and ins: "wsender_insert kind (of_nat (length (wx_items x))) payload s = (s1, r)" "r = Inr ()"
    and wf: "wsender_wf (s1\<lparr>wt_next_seq := q\<rparr>)" and q: "q = of_nat (data_count (wx_items x @ [it]))"
    and it: "it = ItemByte payload \<and> kind = WData \<or> it = ItemFinish \<and> kind = WFinish"
  shows "wsender_sim N (s1\<lparr>wt_next_seq := q\<rparr>) there back
    (x\<lparr>wx_items := wx_items x @ [it], wx_flight := insert (length (wx_items x)) (wx_flight x)\<rparr>)"
proof -
  let ?n = "length (wx_items x)" and ?items = "wx_items x @ [it]"
  obtain k sl where k: "wsender_find_free s = Some k" and s1: "s1 = s\<lparr>wt_slots := (wt_slots s)[k := Some sl], wt_state := TxSending\<rparr>"
    and sl: "sl_kind sl = kind" "sl_seq sl = of_nat ?n" "sl_payload sl = payload"
    using ins by (auto simp: wsender_insert_def split: option.splits)
  note free = find_free_SomeD [OF k]
  have new: "slot_for ?items ?n sl" using sl it by (auto simp: slot_for_def)
  have old: "slots_sim (wt_slots s) (wx_items x) (wx_flight x)" using sim nf by (simp add: wsender_sim_def)
  have "\<exists>i \<in> insert ?n (wx_flight x). slot_for ?items i a" if a: "Some a \<in> set ((wt_slots s)[k := Some sl])" for a
    using in_set_update [OF a] new old slot_for_snoc [of "wx_items x" _ a "[it]"] unfolding slots_sim_def by blast
  moreover have "\<exists>a. Some a \<in> set ((wt_slots s)[k := Some sl]) \<and> slot_for ?items i a"
    if i: "i \<in> insert ?n (wx_flight x)" for i
  proof (cases "i = ?n")
    case True
    then show ?thesis using new free(1) set_update_memI [of k "wt_slots s" "Some sl"] by blast
  next
    case False
    then obtain a where a: "Some a \<in> set (wt_slots s)" "slot_for (wx_items x) i a"
      using i old unfolding slots_sim_def by blast
    then obtain l where "l < length (wt_slots s)" "wt_slots s ! l = Some a" by (auto simp: in_set_conv_nth)
    then have "Some a \<in> set ((wt_slots s)[k := Some sl])"
      using free by (cases "l = k") (auto simp: in_set_conv_nth)
    then show ?thesis using slot_for_snoc [OF a(2), of "[it]"] by blast
  qed
  ultimately have "slots_sim (wt_slots s1) ?items (insert ?n (wx_flight x))"
    unfolding slots_sim_def s1 by simp
  then show ?thesis using sim wf tr nf q s1 by (simp add: wsender_sim_def)
qed

lemma wsender_sim_running:
  assumes inv: "wexchange_inv N x" and sim: "wsender_sim N s there back x"
    and run: "wt_state s \<notin> {TxFinished, TxAborted, TxFailed}" "\<not> wsender_has_session_flight s"
  shows "\<not> wx_failed x" and "ItemFinish \<notin> set (wx_items x)" and "wt_next_seq s = of_nat (length (wx_items x))"
proof -
  show nf: "\<not> wx_failed x" using sim run(1) by (simp add: wsender_sim_def)
  show no: "ItemFinish \<notin> set (wx_items x)"
  proof
    assume "ItemFinish \<in> set (wx_items x)"
    then obtain f where f: "f < length (wx_items x)" "wx_items x ! f = ItemFinish" by (auto simp: in_set_conv_nth)
    have "wx_flight x \<noteq> {}" using sim nf run(1) \<open>ItemFinish \<in> set (wx_items x)\<close> by (auto simp: wsender_sim_def)
    then have "f \<in> wx_flight x" using wexchange_finish(2) [OF inv f(2,1)] by auto
    then obtain sl where "Some sl \<in> set (wt_slots s)" "slot_for (wx_items x) f sl"
      using sim nf unfolding wsender_sim_def slots_sim_def by blast
    then show False using no_session_flight [OF run(2)] f(2) by (auto simp: slot_for_def)
  qed
  show "wt_next_seq s = of_nat (length (wx_items x))"
    using sim nf no by (simp add: wsender_sim_def data_count_def)
qed

lemma wsender_sim_offer:
  fixes r :: "unit error + unit"
  assumes inv: "wexchange_inv N x" and sim: "wsender_sim N s there back x" and tr: "tk_rest back = []"
    and off: "wsender_offer b s = (s', r)" "r = Inr ()"
  shows "wexchange_step N x (x\<lparr>wx_items := wx_items x @ [ItemByte b],
      wx_flight := insert (length (wx_items x)) (wx_flight x)\<rparr>)"
    and "wsender_sim N s' there back (x\<lparr>wx_items := wx_items x @ [ItemByte b],
      wx_flight := insert (length (wx_items x)) (wx_flight x)\<rparr>)"
proof -
  let ?n = "length (wx_items x)"
  have wf: "wsender_wf s" "wt_limit s = N" using sim by (simp_all add: wsender_sim_def)
  have run: "wt_state s \<notin> {TxFinished, TxAborted, TxFailed}" "\<not> wsender_has_session_flight s"
    using off by (auto simp: wsender_offer_def split: if_splits)
  note going = wsender_sim_running [OF inv sim run]
  have win: "wsender_seq_in_send_window (wt_next_seq s) s"
    using off by (auto simp: wsender_offer_def seq_defs Let_def split: if_splits)
  have "?n < i + N" if i: "i \<in> wx_flight x" for i
  proof -
    obtain sl where "Some sl \<in> set (wt_slots s)" "slot_for (wx_items x) i sl"
      using sim going(1) i unfolding wsender_sim_def slots_sim_def by blast
    then have "unat (of_nat ?n - of_nat i :: u8) < N"
      using in_send_window [OF wf(1) run(2)] win going(3) wf(2) by (auto simp: slot_for_def)
    moreover have "i \<le> ?n" "?n \<le> i + N" "N \<le> 8"
      using wexchange_safe(5) [OF inv i] wsender_limit [OF sim] by simp_all
    ultimately show ?thesis using unat_diff_u8 [of i ?n] by simp
  qed
  then show "wexchange_step N x (x\<lparr>wx_items := wx_items x @ [ItemByte b], wx_flight := insert ?n (wx_flight x)\<rparr>)"
    using going by (intro wx_offer) auto
  obtain s1 and r1 :: "unit error + unit" where ins: "wsender_insert WData (of_nat ?n) b s = (s1, r1)" "r1 = Inr ()"
      and s': "s' = s1\<lparr>wt_next_seq := wt_next_seq s1 + 1\<rparr>"
    using off run going(3) by (auto simp: wsender_offer_def seq_defs Let_def split: if_splits prod.splits sum.splits)
  have q: "wt_next_seq s1 + 1 = of_nat (data_count (wx_items x @ [ItemByte b]))"
    using wsender_insert_next [OF ins(1)] going(2,3) by (simp add: data_count_def)
  show "wsender_sim N s' there back (x\<lparr>wx_items := wx_items x @ [ItemByte b], wx_flight := insert ?n (wx_flight x)\<rparr>)"
    unfolding s' using wsender_wf_offer [OF wf(1) off(1)] s' q
    by (intro wsender_sim_insert [OF sim tr going(1) ins]) simp_all
qed

lemma wsender_sim_offer_finish:
  fixes r :: "unit error + unit"
  assumes inv: "wexchange_inv N x" and sim: "wsender_sim N s there back x" and tr: "tk_rest back = []"
    and off: "wsender_offer_finish s = (s', r)" "r = Inr ()"
  shows "wx_flight x = {}" and "wexchange_step N x (x\<lparr>wx_items := wx_items x @ [ItemFinish], wx_flight := {length (wx_items x)}\<rparr>)"
    and "wsender_sim N s' there back (x\<lparr>wx_items := wx_items x @ [ItemFinish], wx_flight := {length (wx_items x)}\<rparr>)"
proof -
  let ?n = "length (wx_items x)"
  have wf: "wsender_wf s" using sim by (simp add: wsender_sim_def)
  have run: "wt_state s \<notin> {TxFinished, TxAborted, TxFailed}" "\<not> wsender_has_session_flight s" "occupied (wt_slots s) = 0"
    using off by (auto simp: wsender_offer_finish_def wsender_outstanding_def split: if_splits)
  note going = wsender_sim_running [OF inv sim run(1,2)]
  show none: "wx_flight x = {}"
    using sim going(1) run(3) by (auto simp: wsender_sim_def slots_sim_def occupied_0)
  then show "wexchange_step N x (x\<lparr>wx_items := wx_items x @ [ItemFinish], wx_flight := {?n}\<rparr>)"
    using going by (intro wx_finish)
  have ins: "wsender_insert WFinish (of_nat ?n) 0 s = (s', r)"
    using off run going(3) by (auto simp: wsender_offer_finish_def wsender_outstanding_def seq_defs split: if_splits)
  have "wt_next_seq s' = of_nat (data_count (wx_items x @ [ItemFinish]))"
    using wsender_insert_next [OF ins] going(3) by (simp add: data_count_def)
  moreover have "wsender_wf s'" using wsender_wf_offer_finish [OF wf, where ?'a = unit] off(1) by simp
  ultimately show "wsender_sim N s' there back (x\<lparr>wx_items := wx_items x @ [ItemFinish], wx_flight := {?n}\<rparr>)"
    using wsender_sim_insert [OF sim tr going(1) ins off(2), of "wt_next_seq s'" ItemFinish] none by simp
qed

lemma stream_ok_cong:
  assumes "stream_ok ds out r" and "\<And>k. k < length (out @ wr_queue r) \<Longrightarrow> ds k = ds' k"
    and "\<And>i. i < length (wr_buf r) \<Longrightarrow> wr_buf r ! i \<noteq> None \<Longrightarrow>
      ds (length (out @ wr_queue r) + i) = ds' (length (out @ wr_queue r) + i)"
  shows "stream_ok ds' out r"
proof -
  have "map ds [0..<length (out @ wr_queue r)] = map ds' [0..<length (out @ wr_queue r)]"
    using assms(2) by (intro map_cong) simp_all
  moreover have "b = ds' (length (out @ wr_queue r) + i)" if "i < length (wr_buf r)" "wr_buf r ! i = Some b" for i b
    using assms(1) assms(3) [OF that(1)] that by (auto simp: stream_ok_def Let_def)
  ultimately show ?thesis using assms(1) unfolding stream_ok_def Let_def by metis
qed

lemma wreceiver_sim_items:
  assumes inv: "wexchange_inv N x" and sim: "wreceiver_sim N r back there x out"
  shows "wreceiver_sim N r back there (x\<lparr>wx_items := wx_items x @ [it], wx_flight := fl\<rparr>) out"
proof -
  have same: "item_byte (wx_items x) k = item_byte (wx_items x @ [it]) k" if "k < length (wx_items x)" for k
    using that by (simp add: item_byte_def nth_append)
  have w: "window_sim r x out" using sim by (simp add: wreceiver_sim_def)
  have "stream_ok (item_byte (wx_items x @ [it])) out r"
  proof (rule stream_ok_cong)
    show "stream_ok (item_byte (wx_items x)) out r" using w by (simp add: window_sim_def)
    show "item_byte (wx_items x) k = item_byte (wx_items x @ [it]) k" if "k < length (out @ wr_queue r)" for k
      using same that w wexchange_safe(1) [OF inv] by (simp add: window_sim_def)
    show "item_byte (wx_items x) (length (out @ wr_queue r) + i) = item_byte (wx_items x @ [it]) (length (out @ wr_queue r) + i)"
      if "i < length (wr_buf r)" "wr_buf r ! i \<noteq> None" for i
      using same that w wexchange_safe(3) [OF inv] by (simp add: window_sim_def)
  qed
  then show ?thesis using sim frames_snoc
    by (simp add: wreceiver_sim_def window_sim_def closing_sim_def)
qed

lemma wline_sim_offer:
  assumes inv: "wexchange_inv N x" and sim: "wline_sim N l x"
  shows "\<exists>x'. (wexchange_step N)\<^sup>*\<^sup>* x x' \<and> wline_sim N (line_step win_machines (LnOffer b) l) x'"
proof -
  obtain s' r where o: "mc_offer win_machines b (ln_tx l) = (s', r)" by fastforce
  show ?thesis
  proof (cases r)
    case (Inl e)
    then have "s' = ln_tx l" using o
      by (auto simp: win_machines_def between_replies_def wsender_offer_def Let_def
          split: if_splits prod.splits sum.splits dest: wsender_insert_Inl)
    then show ?thesis using sim o Inl by (intro exI [of _ x]) simp
  next
    case (Inr u)
    then have off: "wsender_offer b (ln_tx l) = (s', r)" "r = Inr ()" and held: "asm_held (wt_assembler (ln_tx l)) = []"
      using o by (auto simp: win_machines_def between_replies_def split: if_splits)
    have s: "wsender_sim N (ln_tx l) (ln_there l) (ln_back l) x" using sim by (simp add: wline_sim_def)
    then have tr: "tk_rest (ln_back l) = []" using held by (auto simp: wsender_sim_def reads_def split: if_splits)
    let ?x = "x\<lparr>wx_items := wx_items x @ [ItemByte b], wx_flight := insert (length (wx_items x)) (wx_flight x)\<rparr>"
    have "data_flight ?x = insert (length (wx_items x)) (data_flight x)" "length (wx_items x) \<notin> data_flight x"
      using wexchange_safe(5) [OF inv] by (auto simp: data_flight_def nth_append)
    moreover have "finite (data_flight x)" using flight_finite [OF inv] by (simp add: data_flight_def)
    ultimately have "card (data_flight ?x) = Suc (card (data_flight x))" by simp
    then have "wline_sim N (l\<lparr>ln_tx := s', ln_accepted := ln_accepted l @ [b]\<rparr>) ?x"
      using sim wsender_sim_offer(2) [OF inv s tr off] wreceiver_sim_items [OF inv]
      by (simp add: wline_sim_def)
    then show ?thesis using wsender_sim_offer(1) [OF inv s tr off] o Inr by auto
  qed
qed

lemma wline_sim_finish:
  assumes inv: "wexchange_inv N x" and sim: "wline_sim N l x"
  shows "\<exists>x'. (wexchange_step N)\<^sup>*\<^sup>* x x' \<and> wline_sim N (line_step win_machines LnOfferFinish l) x'"
proof -
  obtain s' r where o: "mc_finish win_machines (ln_tx l) = (s', r)" by fastforce
  show ?thesis
  proof (cases r)
    case (Inl e)
    then have "s' = ln_tx l" using o
      by (auto simp: win_machines_def between_replies_def wsender_offer_finish_def
          split: if_splits dest: wsender_insert_Inl)
    then show ?thesis using sim o by (intro exI [of _ x]) simp
  next
    case (Inr u)
    then have off: "wsender_offer_finish (ln_tx l) = (s', r)" "r = Inr ()" and held: "asm_held (wt_assembler (ln_tx l)) = []"
      using o by (auto simp: win_machines_def between_replies_def split: if_splits)
    have s: "wsender_sim N (ln_tx l) (ln_there l) (ln_back l) x" using sim by (simp add: wline_sim_def)
    then have tr: "tk_rest (ln_back l) = []" using held by (auto simp: wsender_sim_def reads_def split: if_splits)
    note f = wsender_sim_offer_finish [OF inv s tr off]
    let ?x = "x\<lparr>wx_items := wx_items x @ [ItemFinish], wx_flight := {length (wx_items x)}\<rparr>"
    have "data_flight ?x = {}" "data_flight x = {}" using f(1) by (auto simp: data_flight_def)
    then have "wline_sim N (l\<lparr>ln_tx := s'\<rparr>) ?x"
      using sim f(3) wreceiver_sim_items [OF inv] by (simp add: wline_sim_def)
    then show ?thesis using f(2) o by auto
  qed
qed

section \<open>Delivery\<close>

lemma wline_sim_step:
  assumes inv: "wexchange_inv N x" and sim: "wline_sim N l x"
  shows "\<exists>x'. (wexchange_step N)\<^sup>*\<^sup>* x x' \<and> wline_sim N (line_step win_machines e l) x'"
proof (cases e)
  case (LnOffer b)
  then show ?thesis using wline_sim_offer [OF inv sim] by (simp only:)
next
  case LnOfferFinish
  then show ?thesis using wline_sim_finish [OF inv sim] by (simp only:)
next
  case (LnPollSender up)
  then show ?thesis using wline_sim_sent [OF inv sim] by (simp only:)
next
  case (LnPollReceiver up)
  then show ?thesis using wline_sim_received [OF inv sim] by (simp only:)
next
  case (LnLoseThere i)
  then show ?thesis using wline_sim_there [OF sim perturbed_lose] by simp
next
  case (LnLoseBack i)
  then show ?thesis using wline_sim_back [OF sim perturbed_lose] by simp
next
  case (LnDamageThere i w)
  then show ?thesis using wline_sim_there [OF sim perturbed_damage] by simp
next
  case (LnDamageBack i w)
  then show ?thesis using wline_sim_back [OF sim perturbed_damage] by simp
qed

interpretation wline_exchange: simulation "line_step win_machines" "wexchange_step N" "wline_sim N" "wexchange_inv N"
  by unfold_locales (auto intro: wline_sim_step wexchange_step_inv)

lemma wline_run_exchange:
  assumes "check_window n"
  shows "\<exists>x. wline_sim n (fold (line_step win_machines) evs (wline_new n pol)) x \<and> wexchange_inv n x"
proof -
  have "wexchange_inv n (wexchange_new :: u8 wexchange)" using assms by (intro wexchange_inv_new) (simp add: check_window_def)
  from wline_exchange.run_simulated [OF this wline_sim_new [OF assms]] show ?thesis by blast
qed

lemma item_bytes_append: "item_bytes (xs @ ys) = item_bytes xs @ item_bytes ys"
  by (simp add: item_bytes_def)

lemma item_bytes_take:
  assumes "m \<le> length items" and "\<And>i. i < m \<Longrightarrow> items ! i \<noteq> ItemFinish"
  shows "item_bytes (take m items) = map (item_byte items) [0..<m]"
  using assms
proof (induction m)
  case (Suc m)
  then obtain b where "items ! m = ItemByte b" by (cases "items ! m") auto
  then show ?case using Suc by (simp add: take_Suc_conv_app_nth item_byte_def)
qed simp

lemma item_bytes_length: "length (item_bytes items) = card {i. i < length items \<and> items ! i \<noteq> ItemFinish}"
proof (induction items rule: rev_induct)
  case (snoc it items)
  let ?A = "{i. i < length items \<and> items ! i \<noteq> ItemFinish}"
  have "{i. i < length (items @ [it]) \<and> (items @ [it]) ! i \<noteq> ItemFinish} =
      (if it = ItemFinish then ?A else insert (length items) ?A)"
    by (auto simp: nth_append)
  then show ?case using snoc by (cases it) auto
qed simp

lemma wline_delivered:
  assumes sim: "wline_sim N l x" and inv: "wexchange_inv N x"
  shows "ln_delivered l @ wr_queue (ln_rx l) = item_bytes (take (wx_next x) (wx_items x))"
proof -
  have "window_sim (ln_rx l) x (ln_delivered l)" using sim by (simp add: wline_sim_def wreceiver_sim_def)
  then have "ln_delivered l @ wr_queue (ln_rx l) = map (item_byte (wx_items x)) [0..<wx_next x]"
    by (auto simp: window_sim_def stream_ok_def Let_def)
  then show ?thesis using item_bytes_take [OF wexchange_safe(1,2) [OF inv]] by simp
qed

lemma occupied_append: "occupied (xs @ ys) = occupied xs + occupied ys"
  by (simp add: occupied_def)

lemma occupied_card: "card {i. i < length xs \<and> xs ! i \<noteq> None} = occupied xs"
proof (induction xs rule: rev_induct)
  case (snoc y xs)
  have "{i. i < length (xs @ [y]) \<and> (xs @ [y]) ! i \<noteq> None} =
      (if y = None then {i. i < length xs \<and> xs ! i \<noteq> None} else insert (length xs) {i. i < length xs \<and> xs ! i \<noteq> None})"
    by (auto simp: nth_append)
  then show ?case using snoc by (cases y) (auto simp: occupied_append)
qed simp

text \<open>Every acknowledged byte has been delivered or waits in the queue or the buffer.\<close>

lemma wline_acked:
  assumes sim: "wline_sim N l x" and inv: "wexchange_inv N x"
  shows "length (ln_accepted l) \<le> card (data_flight x) + (wx_next x + occupied (wr_buf (ln_rx l)))"
proof -
  let ?data = "{i. i < length (wx_items x) \<and> wx_items x ! i \<noteq> ItemFinish}" and ?buf = "wr_buf (ln_rx l)"
  let ?held = "(\<lambda>i. wx_next x + i) ` {i. i < length ?buf \<and> ?buf ! i \<noteq> None}"
  have held: "\<forall>i < length ?buf. ?buf ! i \<noteq> None \<longleftrightarrow> wx_next x + i \<in> wx_held x"
    and "wr_limit (ln_rx l) = N" "buf_wf (ln_rx l)"
    using sim by (simp_all add: wline_sim_def wreceiver_sim_def window_sim_def wreceiver_wf_def)
  then have N: "N \<le> length ?buf" by (auto simp: buf_wf_def)
  have "i \<in> data_flight x \<union> ({..<wx_next x} \<union> ?held)" if i: "i \<in> ?data" for i
  proof (cases "i \<in> wx_flight x")
    case True
    then show ?thesis using i by (simp add: data_flight_def)
  next
    case False
    then have "i \<in> wx_received x" using wexchange_safe(4) [OF inv] i by simp
    then have "i < wx_next x \<or> i \<in> wx_held x"
      using i wexchange_closed(2) [OF inv] by (auto simp: wx_received_def split: if_splits)
    moreover have "i \<in> ?held" if "i \<in> wx_held x"
    proof -
      have "wx_next x \<le> i" "i < wx_next x + N" using wexchange_safe(3) [OF inv that] by simp_all
      then have "i = wx_next x + (i - wx_next x)" "i - wx_next x < length ?buf" using N by simp_all
      then show ?thesis using held that by (metis (mono_tags, lifting) image_eqI mem_Collect_eq)
    qed
    ultimately show ?thesis by auto
  qed
  then have "?data \<subseteq> data_flight x \<union> ({..<wx_next x} \<union> ?held)" by blast
  moreover have "finite (data_flight x)" using flight_finite [OF inv] by (simp add: data_flight_def)
  ultimately have "card ?data \<le> card (data_flight x \<union> ({..<wx_next x} \<union> ?held))" by (intro card_mono) simp_all
  also have "\<dots> \<le> card (data_flight x) + (card {..<wx_next x} + card ?held)"
    by (meson add_left_mono card_Un_le order_trans)
  also have "card ?held \<le> occupied ?buf"
    unfolding occupied_card [symmetric] by (rule card_image_le) simp
  finally show ?thesis using sim by (simp add: wline_sim_def item_bytes_length [symmetric])
qed

lemma data_flight_bound:
  assumes "wexchange_inv N x"
  shows "card (data_flight x) \<le> N"
proof -
  have "data_flight x \<subseteq> {length (wx_items x) - N..<length (wx_items x)}"
    using wexchange_safe(5) [OF assms] by (fastforce simp: data_flight_def)
  then have "card (data_flight x) \<le> card {length (wx_items x) - N..<length (wx_items x)}" by (intro card_mono) simp_all
  then show ?thesis by simp
qed


definition wdemo_events :: "line_input list" where
  "wdemo_events = [LnOffer 7, LnOffer 8] @ replicate 8 (LnPollSender True) @ [LnLoseThere 0] @
     replicate 8 (LnPollReceiver True) @ replicate 11 (LnPollSender True) @
     replicate 12 (LnPollReceiver True) @ replicate 8 (LnPollSender True) @ [LnOfferFinish] @
     replicate 4 (LnPollSender True) @ replicate 9 (LnPollReceiver True) @ replicate 5 (LnPollSender True)"

lemma wdemo_line_run:
  "ln_finished (fold (line_step win_machines) wdemo_events (wline_new 2 (retry_policy_new 3 2)))"
  "ln_accepted (fold (line_step win_machines) wdemo_events (wline_new 2 (retry_policy_new 3 2))) = [7, 8]"
  by code_simp+


section \<open>An offer in the middle of a reply\<close>

text \<open>
  The same machines, with offers made at any time: \<open>finish_write\<close> resets the assembler, and the
  bytes of a reply it held are gone.
\<close>

definition bare_machines :: "(wsender, wreceiver) machines" where
  "bare_machines = win_machines\<lparr>mc_offer := wsender_offer, mc_finish := wsender_offer_finish\<rparr>"

definition split_reply_events :: "line_input list" where
  "split_reply_events = [LnOffer 7] @ replicate 4 (LnPollSender True) @ replicate 8 (LnPollReceiver True) @
     replicate 2 (LnPollSender True) @ [LnOffer 8] @ replicate 4 (LnPollSender True) @
     replicate 8 (LnPollReceiver True) @ replicate 10 (LnPollSender True)"


end
