(* ===== verification/Actors.thy ===== *)
theory Actors
  imports Receiver
begin

text \<open>
  Cooperative actors (\<open>src/actors/actor.rs\<close>, \<open>src/actors/rx_actor.rs\<close>, \<open>src/actors/system.rs\<close>): the
  step contract, the receiver as an actor, and the round-robin scheduler over a fixed table of
  slots.  The scheduler is shown to implement a run queue: the live actors in cursor order, the
  first one runs and goes to the end unless it is done.  Fairness is a consequence.
\<close>

section \<open>The code\<close>

datatype 'o tick = TickPending | TickReady 'o | TickDone

text \<open>The trait \<open>Actor\<close>: one method, \<open>tick\<close>.\<close>

type_synonym ('a, 'e, 'o) actor = "'a \<Rightarrow> 'a \<times> ('e + 'o tick)"

text \<open>\<open>RxActor\<close>: a receiver that owns its transport.\<close>

definition rx_actor_new :: "'w \<Rightarrow> 'w \<times> receiver" where
  "rx_actor_new w = (w, receiver_new)"

definition rx_actor_tick :: "('w, 'e) port \<Rightarrow> ('w \<times> receiver, 'e error, u8) actor" where
  "rx_actor_tick p a =
     (case a of (w, r) \<Rightarrow>
        case receiver_poll p w r of
          (w', r', Inl e) \<Rightarrow> ((w', r'), Inl e)
        | (w', r', Inr out) \<Rightarrow> ((w', r'), Inr (case out of
              OutDelivered byte \<Rightarrow> TickReady byte
            | OutTransferFinished \<Rightarrow> TickDone
            | OutAborted \<Rightarrow> TickDone
            | _ \<Rightarrow> TickPending)))"

record 'a slot =
  slot_actor :: 'a
  slot_done :: bool

record 'a system =
  sys_slots :: "'a slot option list"
  sys_cursor :: nat
  sys_live :: nat

record 'o sys_step =
  step_id :: nat
  step_tick :: "'o tick"

definition system_new :: "nat \<Rightarrow> 'a system" where
  "system_new n = \<lparr>sys_slots = replicate n None, sys_cursor = 0, sys_live = 0\<rparr>"

definition system_is_idle :: "'a system \<Rightarrow> bool" where
  "system_is_idle s = (sys_live s = 0)"

datatype spawn_error = SpawnError

definition system_spawn :: "'a \<Rightarrow> 'a system \<Rightarrow> 'a system \<times> (spawn_error + nat)" where
  "system_spawn a s =
     (case position (\<lambda>sl. sl = None) (sys_slots s) of
        Some i \<Rightarrow>
          (s\<lparr>sys_slots := (sys_slots s)[i := Some \<lparr>slot_actor = a, slot_done = False\<rparr>],
             sys_live := sys_live s + 1\<rparr>, Inr i)
      | None \<Rightarrow> (s, Inl SpawnError))"

definition system_get :: "nat \<Rightarrow> 'a system \<Rightarrow> 'a option" where
  "system_get i s = (if i < length (sys_slots s) then map_option slot_actor (sys_slots s ! i) else None)"

definition system_run_slot ::
  "('a, 'e, 'o) actor \<Rightarrow> nat \<Rightarrow> 'a slot \<Rightarrow> 'a system \<Rightarrow> 'a system \<times> ('e + 'o sys_step)" where
  "system_run_slot tick i slot s =
     (case tick (slot_actor slot) of
        (a, Inr TickDone) \<Rightarrow>
          (s\<lparr>sys_slots := (sys_slots s)[i := Some \<lparr>slot_actor = a, slot_done = True\<rparr>],
             sys_live := sys_live s - 1\<rparr>, Inr \<lparr>step_id = i, step_tick = TickDone\<rparr>)
      | (a, Inr t) \<Rightarrow>
          (s\<lparr>sys_slots := (sys_slots s)[i := Some (slot\<lparr>slot_actor := a\<rparr>)]\<rparr>,
             Inr \<lparr>step_id = i, step_tick = t\<rparr>)
      | (a, Inl e) \<Rightarrow> (s\<lparr>sys_slots := (sys_slots s)[i := Some (slot\<lparr>slot_actor := a\<rparr>)]\<rparr>, Inl e))"

text \<open>\<open>for _ in 0..N\<close>: \<open>k\<close> slots are left to look at.\<close>

fun system_scan ::
  "('a, 'e, 'o) actor \<Rightarrow> nat \<Rightarrow> 'a system \<Rightarrow> 'a system \<times> ('e + 'o sys_step) option" where
  "system_scan tick 0 s = (s, None)"
| "system_scan tick (Suc k) s =
     (let i = sys_cursor s;
          s1 = s\<lparr>sys_cursor := if i + 1 = length (sys_slots s) then 0 else i + 1\<rparr>
      in case sys_slots s ! i of
          None \<Rightarrow> system_scan tick k s1
        | Some slot \<Rightarrow>
            if slot_done slot then system_scan tick k s1
            else (case system_run_slot tick i slot s1 of (s2, r) \<Rightarrow> (s2, Some r)))"

definition system_tick ::
  "('a, 'e, 'o) actor \<Rightarrow> 'a system \<Rightarrow> 'a system \<times> ('e + 'o sys_step) option" where
  "system_tick tick s =
     (if sys_live s = 0 \<or> length (sys_slots s) = 0 then (s, None)
      else system_scan tick (length (sys_slots s)) s)"

section \<open>The run queue\<close>

definition slot_live :: "'a slot option \<Rightarrow> bool" where
  "slot_live sl = (case sl of Some slot \<Rightarrow> \<not> slot_done slot | None \<Rightarrow> False)"

definition cyclic :: "nat \<Rightarrow> nat \<Rightarrow> nat \<Rightarrow> nat list" where
  "cyclic n c k = map (\<lambda>i. (c + i) mod n) [0..<k]"

definition run_queue :: "'a system \<Rightarrow> nat list" where
  "run_queue s = filter (\<lambda>i. slot_live (sys_slots s ! i))
     (cyclic (length (sys_slots s)) (sys_cursor s) (length (sys_slots s)))"

definition system_wf :: "'a system \<Rightarrow> bool" where
  "system_wf s = ((sys_slots s \<noteq> [] \<longrightarrow> sys_cursor s < length (sys_slots s)) \<and>
     sys_live s = length (run_queue s))"

lemma cyclic_Suc: "cyclic n c (Suc k) = c mod n # cyclic n ((c + 1) mod n) k"
  by (simp add: cyclic_def upt_conv_Cons map_Suc_upt [symmetric] mod_simps del: upt_Suc)

lemma cyclic_mod [simp]: "cyclic n (c mod n) k = cyclic n c k"
  by (simp add: cyclic_def mod_simps)

lemma cyclic_append: "cyclic n c (j + k) = cyclic n c j @ cyclic n (c + j) k"
  by (induction j arbitrary: c) (simp_all add: cyclic_Suc, simp add: cyclic_def)

lemma cyclic_full: "cyclic n (c + n) k = cyclic n c k"
  using cyclic_mod [of n "c + n" k] cyclic_mod [of n c k] by simp

lemma set_cyclic: "0 < n \<Longrightarrow> set (cyclic n c n) = {0..<n}"
proof -
  assume n: "0 < n"
  have "j \<in> (\<lambda>i. (c + i) mod n) ` {0..<n}" if "j < n" for j
  proof -
    have "(c + (j + (n - c mod n)) mod n) mod n = (c + (j + (n - c mod n))) mod n" by (simp add: mod_simps)
    also have "\<dots> = (c mod n + (j + (n - c mod n))) mod n" by (metis mod_add_left_eq)
    also have "\<dots> = (j + n) mod n" using mod_less_divisor [OF n, of c] by simp
    also have "\<dots> = j" using that by simp
    finally show ?thesis using n by (intro image_eqI [where x = "(j + (n - c mod n)) mod n"]) auto
  qed
  then show ?thesis using n by (auto simp: cyclic_def)
qed

lemma distinct_cyclic: "0 < n \<Longrightarrow> distinct (cyclic n c n)"
  by (rule card_distinct) (simp add: set_cyclic, simp add: cyclic_def)

lemma run_queue_iff:
  "i \<in> set (run_queue s) \<longleftrightarrow> i < length (sys_slots s) \<and> slot_live (sys_slots s ! i)"
proof (cases "sys_slots s = []")
  case True
  then show ?thesis by (simp add: run_queue_def cyclic_def)
next
  case False
  then show ?thesis using set_cyclic [of "length (sys_slots s)" "sys_cursor s"] by (auto simp: run_queue_def)
qed

lemma distinct_run_queue: "distinct (run_queue s)"
proof (cases "sys_slots s = []")
  case True
  then show ?thesis by (simp add: run_queue_def cyclic_def)
next
  case False
  then show ?thesis using distinct_cyclic [of "length (sys_slots s)" "sys_cursor s"] by (simp add: run_queue_def)
qed

section \<open>One tick\<close>

text \<open>A scan runs the first live slot of the \<open>k\<close> slots in front of the cursor.\<close>

lemma system_scan_eq:
  assumes "sys_slots s \<noteq> []" and "sys_cursor s < length (sys_slots s)"
  shows "system_scan tick k s =
    (case filter (\<lambda>i. slot_live (sys_slots s ! i)) (cyclic (length (sys_slots s)) (sys_cursor s) k) of
       [] \<Rightarrow> (s\<lparr>sys_cursor := (sys_cursor s + k) mod length (sys_slots s)\<rparr>, None)
     | i # _ \<Rightarrow> (case system_run_slot tick i (the (sys_slots s ! i))
           (s\<lparr>sys_cursor := (i + 1) mod length (sys_slots s)\<rparr>) of (s', r) \<Rightarrow> (s', Some r)))"
  using assms
proof (induction k arbitrary: s)
  case 0
  then show ?case by (simp add: cyclic_def)
next
  case (Suc k)
  let ?n = "length (sys_slots s)" and ?c = "sys_cursor s"
  let ?s1 = "s\<lparr>sys_cursor := (?c + 1) mod ?n\<rparr>"
  have c: "?c mod ?n = ?c" using Suc.prems(2) by simp
  have lt: "sys_cursor ?s1 < length (sys_slots ?s1)" using Suc.prems(1) by simp
  show ?case
  proof (cases "slot_live (sys_slots s ! ?c)")
    case True
    then obtain slot where "sys_slots s ! ?c = Some slot" "\<not> slot_done slot"
      by (auto simp: slot_live_def split: option.splits)
    then show ?thesis using True Suc.prems(2)
      by (cases "Suc ?c = ?n") (simp_all add: Let_def c cyclic_Suc)
  next
    case False
    then have "system_scan tick (Suc k) s = system_scan tick k ?s1"
      using Suc.prems(2)
      by (cases "Suc ?c = ?n"; cases "sys_slots s ! ?c") (auto simp: Let_def slot_live_def)
    also note Suc.IH [of ?s1]
    finally show ?thesis using False Suc.prems lt by (simp add: cyclic_Suc c mod_simps split: list.split)
  qed
qed

lemma filter_Cons_split:
  "filter P xs = x # q \<Longrightarrow> \<exists>us vs. xs = us @ x # vs \<and> filter P us = [] \<and> filter P vs = q \<and> P x"
  by (auto simp: filter_eq_Cons_iff filter_empty_conv)

text \<open>The queue after slot \<open>i\<close> was run and the cursor moved behind it.\<close>

lemma run_queue_after:
  assumes "run_queue s = i # q" and "sys_cursor s < length (sys_slots s)"
    and "length (sys_slots s') = length (sys_slots s)" and "sys_cursor s' = (i + 1) mod length (sys_slots s)"
    and "\<And>j. j \<noteq> i \<Longrightarrow> sys_slots s' ! j = sys_slots s ! j"
  shows "run_queue s' = q @ (if slot_live (sys_slots s' ! i) then [i] else [])"
proof -
  let ?n = "length (sys_slots s)" and ?c = "sys_cursor s"
  let ?P = "\<lambda>j. slot_live (sys_slots s ! j)" and ?P' = "\<lambda>j. slot_live (sys_slots s' ! j)"
  obtain us vs where uv: "cyclic ?n ?c ?n = us @ i # vs" "filter ?P us = []" "filter ?P vs = q"
    using filter_Cons_split [OF assms(1) [unfolded run_queue_def]] by blast
  let ?m = "length us"
  have len: "length (cyclic ?n ?c ?n) = ?n" by (simp add: cyclic_def)
  then have m: "?n = Suc ?m + length vs" using uv(1) by simp
  have "cyclic ?n ?c (Suc ?m + length vs) = cyclic ?n ?c (Suc ?m) @ cyclic ?n (?c + Suc ?m) (length vs)"
    by (rule cyclic_append)
  then have eq: "cyclic ?n ?c (Suc ?m) @ cyclic ?n (?c + Suc ?m) (length vs) = (us @ [i]) @ vs"
    using uv(1) m by simp
  have "length (cyclic ?n ?c (Suc ?m)) = length (us @ [i])" by (simp add: cyclic_def)
  with eq have "cyclic ?n ?c (Suc ?m) = us @ [i] \<and> cyclic ?n (?c + Suc ?m) (length vs) = vs"
    using append_eq_append_conv by blast
  then have pre: "cyclic ?n ?c (Suc ?m) = us @ [i]" and post: "cyclic ?n (?c + Suc ?m) (length vs) = vs"
    by simp_all
  have "cyclic ?n ?c (Suc ?m) ! ?m = i" unfolding pre by simp
  then have i: "i = (?c + ?m) mod ?n" by (simp add: cyclic_def del: upt_Suc)
  have "cyclic ?n ((i + 1) mod ?n) ?n = cyclic ?n (?c + Suc ?m) ?n"
    using cyclic_mod [of ?n "?c + Suc ?m" ?n] by (simp add: i mod_simps)
  also have "\<dots> = cyclic ?n (?c + Suc ?m) (length vs + Suc ?m)" using m by (simp add: add.commute)
  also have "\<dots> = vs @ cyclic ?n (?c + Suc ?m + length vs) (Suc ?m)" by (simp only: cyclic_append post)
  also have "?c + Suc ?m + length vs = ?c + ?n" using m by simp
  finally have "cyclic ?n ((i + 1) mod ?n) ?n = vs @ us @ [i]" by (simp only: cyclic_full pre)
  then have c': "cyclic ?n (Suc i) ?n = vs @ us @ [i]" by simp
  have d: "distinct (us @ i # vs)"
    using distinct_cyclic [of ?n ?c] uv(1) assms(2) by (metis gr_zeroI not_less0)
  have same: "filter ?P' js = filter ?P js" if "i \<notin> set js" for js
  proof (rule filter_cong [OF refl])
    fix j
    assume "j \<in> set js"
    then have "j \<noteq> i" using that by blast
    then show "?P' j = ?P j" using assms(5) [of j] by simp
  qed
  have "filter ?P' us = filter ?P us" "filter ?P' vs = filter ?P vs" using d by (simp_all add: same)
  then show ?thesis using uv(2,3) by (simp add: run_queue_def assms(3,4) c')
qed

lemma run_slot_frame:
  "system_run_slot tick i slot s = (s', r) \<Longrightarrow> length (sys_slots s') = length (sys_slots s) \<and>
     sys_cursor s' = sys_cursor s \<and> (\<forall>j. j \<noteq> i \<longrightarrow> sys_slots s' ! j = sys_slots s ! j)"
  by (auto simp: system_run_slot_def split: prod.splits sum.splits tick.splits)

text \<open>Whether a tick retired the actor, and the result handed out.\<close>

definition tick_done :: "'e + 'o tick \<Rightarrow> bool" where
  "tick_done r = (case r of Inr TickDone \<Rightarrow> True | _ \<Rightarrow> False)"

definition step_result :: "nat \<Rightarrow> 'e + 'o tick \<Rightarrow> 'e + 'o sys_step" where
  "step_result i r = (case r of Inl e \<Rightarrow> Inl e | Inr t \<Rightarrow> Inr \<lparr>step_id = i, step_tick = t\<rparr>)"

lemma system_tick_step:
  assumes "system_wf s" and "run_queue s = i # q" and "sys_slots s ! i = Some slot"
    and "tick (slot_actor slot) = (a, r)"
  shows "\<exists>s'. system_tick tick s = (s', Some (step_result i r)) \<and> system_wf s' \<and>
    run_queue s' = q @ (if tick_done r then [] else [i]) \<and>
    sys_slots s' = (sys_slots s)[i := Some \<lparr>slot_actor = a, slot_done = tick_done r\<rparr>]"
proof -
  let ?n = "length (sys_slots s)"
  have i: "i < ?n" "slot_live (sys_slots s ! i)" using run_queue_iff [of i s] assms(2) by simp_all
  then have ne: "sys_slots s \<noteq> []" and live: "\<not> slot_done slot"
    using assms(3) by (auto simp: slot_live_def)
  have c: "sys_cursor s < ?n" and l: "sys_live s = Suc (length q)"
    using assms(1,2) ne by (simp_all add: system_wf_def)
  let ?s1 = "s\<lparr>sys_cursor := (i + 1) mod ?n\<rparr>"
  obtain s' x where rs: "system_run_slot tick i slot ?s1 = (s', x)" by (metis surj_pair)
  have t: "system_tick tick s = (s', Some x)"
    using system_scan_eq [OF ne c, of tick ?n] assms(2,3) rs l ne by (simp add: system_tick_def run_queue_def)
  have x: "x = step_result i r" "sys_slots s' = (sys_slots s)[i := Some \<lparr>slot_actor = a, slot_done = tick_done r\<rparr>]"
    "sys_live s' = (if tick_done r then sys_live s - 1 else sys_live s)"
    using rs assms(4) live
    by (cases slot; auto simp: system_run_slot_def step_result_def tick_done_def split: sum.splits tick.splits)+
  have "run_queue s' = q @ (if slot_live (sys_slots s' ! i) then [i] else [])"
    by (rule run_queue_after [OF assms(2) c]) (use run_slot_frame [OF rs] in simp_all)
  moreover have "slot_live (sys_slots s' ! i) = (\<not> tick_done r)" using x(2) i(1) by (simp add: slot_live_def)
  ultimately have q: "run_queue s' = q @ (if tick_done r then [] else [i])" by simp
  have "system_wf s'" using run_slot_frame [OF rs] ne x(3) l q by (auto simp: system_wf_def)
  then show ?thesis using t x q by blast
qed

section \<open>Fairness\<close>

text \<open>\<open>ticks\<close>: what \<open>n\<close> calls of \<open>System::tick\<close> hand out, in order.\<close>

fun system_ticks ::
  "nat \<Rightarrow> ('a, 'e, 'o) actor \<Rightarrow> 'a system \<Rightarrow> 'a system \<times> ('e + 'o sys_step) option list" where
  "system_ticks 0 tick s = (s, [])"
| "system_ticks (Suc n) tick s =
     (case system_tick tick s of (s1, r) \<Rightarrow> case system_ticks n tick s1 of (s2, rs) \<Rightarrow> (s2, r # rs))"

lemma run_queue_head:
  assumes "run_queue s = i # q"
  obtains slot where "sys_slots s ! i = Some slot" and "i < length (sys_slots s)" and "\<not> slot_done slot"
  using run_queue_iff [of i s] assms by (auto simp: slot_live_def split: option.splits)

text \<open>An actor with \<open>k\<close> others before it in the queue runs in the \<open>k + 1\<close>-th tick, from the state it
  was left in.\<close>

lemma system_waits:
  assumes "system_wf s" and "run_queue s = us @ j # vs" and "sys_slots s ! j = Some slot"
    and "tick (slot_actor slot) = (a, r)"
  shows "\<exists>s' rs. system_ticks (Suc (length us)) tick s = (s', rs @ [Some (step_result j r)]) \<and>
    length rs = length us \<and> None \<notin> set rs \<and> system_wf s' \<and>
    sys_slots s' ! j = Some \<lparr>slot_actor = a, slot_done = tick_done r\<rparr>"
  using assms(1,2,3)
proof (induction us arbitrary: s vs)
  case Nil
  have "j < length (sys_slots s)" using run_queue_iff [of j s] Nil.prems(2) by simp
  moreover obtain s' where "system_tick tick s = (s', Some (step_result j r))" "system_wf s'"
    "sys_slots s' = (sys_slots s)[j := Some \<lparr>slot_actor = a, slot_done = tick_done r\<rparr>]"
    using system_tick_step [of s j vs slot tick a r] Nil.prems assms(4) by auto
  ultimately show ?case by simp
next
  case (Cons i us)
  have q: "run_queue s = i # us @ j # vs" using Cons.prems(2) by simp
  obtain sl where sl: "sys_slots s ! i = Some sl" by (rule run_queue_head [OF q])
  obtain b x where t: "tick (slot_actor sl) = (b, x)" by (metis surj_pair)
  obtain s1 where s1: "system_tick tick s = (s1, Some (step_result i x))" "system_wf s1"
    "run_queue s1 = (us @ j # vs) @ (if tick_done x then [] else [i])"
    "sys_slots s1 = (sys_slots s)[i := Some \<lparr>slot_actor = b, slot_done = tick_done x\<rparr>]"
    using system_tick_step [where tick = tick, OF Cons.prems(1) q sl t] by blast
  have "i \<noteq> j" using distinct_run_queue [of s] q by auto
  then have j: "sys_slots s1 ! j = Some slot" using s1(4) Cons.prems(3) by simp
  have "run_queue s1 = us @ j # (vs @ (if tick_done x then [] else [i]))" using s1(3) by simp
  from Cons.IH [OF s1(2) this j] obtain s' rs where
    "system_ticks (Suc (length us)) tick s1 = (s', rs @ [Some (step_result j r)])" "length rs = length us"
    "None \<notin> set rs" "system_wf s'" "sys_slots s' ! j = Some \<lparr>slot_actor = a, slot_done = tick_done r\<rparr>"
    by blast
  then show ?case using s1(1)
    by (intro exI [of _ s'] exI [of _ "Some (step_result i x) # rs"]) simp
qed

section \<open>Spawning\<close>

lemma length_run_queue:
  "length (run_queue s) = card {i. i < length (sys_slots s) \<and> slot_live (sys_slots s ! i)}"
proof -
  have "set (run_queue s) = {i. i < length (sys_slots s) \<and> slot_live (sys_slots s ! i)}"
    using run_queue_iff by blast
  then show ?thesis using distinct_card [OF distinct_run_queue] by metis
qed

lemma system_new_wf: "system_wf (system_new n)"
  by (simp add: system_wf_def length_run_queue) (auto simp: system_new_def slot_live_def)

lemma system_spawn_new:
  assumes "system_wf s" and "system_spawn a s = (s', Inr i)"
  shows "i < length (sys_slots s) \<and> sys_slots s ! i = None \<and> system_wf s' \<and>
    sys_slots s' = (sys_slots s)[i := Some \<lparr>slot_actor = a, slot_done = False\<rparr>] \<and>
    sys_live s' = Suc (sys_live s) \<and> sys_cursor s' = sys_cursor s"
proof -
  let ?L = "\<lambda>s. {i. i < length (sys_slots s) \<and> slot_live (sys_slots s ! i)}"
  have i: "i < length (sys_slots s)" "sys_slots s ! i = None"
    and s': "s' = s\<lparr>sys_slots := (sys_slots s)[i := Some \<lparr>slot_actor = a, slot_done = False\<rparr>],
      sys_live := sys_live s + 1\<rparr>"
    using assms(2) by (auto simp: system_spawn_def dest: position_SomeD split: option.splits)
  have "?L s' = insert i (?L s)" "i \<notin> ?L s" using i by (auto simp: s' slot_live_def nth_list_update)
  then have "card (?L s') = Suc (card (?L s))" by simp
  then have "system_wf s'" using assms(1) i by (auto simp: system_wf_def length_run_queue s')
  then show ?thesis using i s' by simp
qed

lemma system_spawn_full:
  "system_spawn a s = (s', Inl e) \<Longrightarrow> s' = s \<and> None \<notin> set (sys_slots s)"
  by (auto simp: system_spawn_def position_None split: option.splits)

section \<open>The scheduler is a queue\<close>

text \<open>The specification: a queue of named actors.  The first one makes a step and goes to the end,
  unless it says it is done.\<close>

fun queue_tick :: "('a, 'e, 'o) actor \<Rightarrow> (nat \<times> 'a) list \<Rightarrow> (nat \<times> 'a) list \<times> ('e + 'o sys_step) option" where
  "queue_tick tick [] = ([], None)"
| "queue_tick tick ((i, a) # q) =
     (case tick a of (a', r) \<Rightarrow> (q @ (if tick_done r then [] else [(i, a')]), Some (step_result i r)))"

definition sched :: "'a system \<Rightarrow> (nat \<times> 'a) list" where
  "sched s = map (\<lambda>i. (i, slot_actor (the (sys_slots s ! i)))) (run_queue s)"

text \<open>
  C33: A call of System::tick is one step of the queue of live actors: the actor at the head is the
  one that is stepped, exactly once, its result is handed out under its identifier, it goes to the
  back unless it reported that it is done, the call returns nothing exactly when no actor is live,
  and the bookkeeping of the system (the cursor, the count of live actors) stays right.
\<close>

theorem system_tick_is_queue:
  assumes "system_wf s" and "system_tick tick s = (s', out)"
  shows "system_wf s' \<and> queue_tick tick (sched s) = (sched s', out)"
proof (cases "run_queue s")
  case Nil
  then have "(s', out) = (s, None)" using assms by (simp add: system_wf_def system_tick_def)
  then show ?thesis using assms(1) Nil by (simp add: sched_def)
next
  case (Cons i q)
  obtain slot where sl: "sys_slots s ! i = Some slot" "i < length (sys_slots s)" by (rule run_queue_head [OF Cons])
  obtain a r where t: "tick (slot_actor slot) = (a, r)" by (metis surj_pair)
  have s': "out = Some (step_result i r)" "system_wf s'" "run_queue s' = q @ (if tick_done r then [] else [i])"
    "sys_slots s' = (sys_slots s)[i := Some \<lparr>slot_actor = a, slot_done = tick_done r\<rparr>]"
    using system_tick_step [where tick = tick, OF assms(1) Cons sl(1) t] assms(2) by auto
  have iq: "i \<notin> set q" using distinct_run_queue [of s] Cons by simp
  have same: "sys_slots s' ! x = sys_slots s ! x" if "x \<in> set q" for x
  proof -
    have "x \<noteq> i" using that iq by blast
    then show ?thesis by (simp add: s'(4))
  qed
  then have "map (\<lambda>j. (j, slot_actor (the (sys_slots s' ! j)))) q = map (\<lambda>j. (j, slot_actor (the (sys_slots s ! j)))) q"
    by simp
  then have "sched s' = tl (sched s) @ (if tick_done r then [] else [(i, a)])"
    using Cons sl by (simp add: sched_def s'(3)) (simp add: s'(4))
  then show ?thesis using s'(1,2) Cons sl(1) t by (simp add: sched_def)
qed

text \<open>Two actors that count down from their state and are then done.\<close>

definition countdown :: "(nat, unit, nat) actor" where
  "countdown n = (if n = 0 then (0, Inr TickDone) else (n - 1, Inr (TickReady n)))"

definition two_countdowns :: "nat system" where
  "two_countdowns = fst (system_spawn 2 (fst (system_spawn 1 (system_new 3))))"

lemma two_countdowns_wf: "system_wf two_countdowns"
  by code_simp

lemma system_tick_is_queue_witness:
  "system_wf (fst (system_tick countdown two_countdowns)) \<and>
   queue_tick countdown (sched two_countdowns) =
     (sched (fst (system_tick countdown two_countdowns)), snd (system_tick countdown two_countdowns))"
  using system_tick_is_queue [OF two_countdowns_wf, of countdown] by (metis prod.collapse)

text \<open>
  C34: No live actor starves: whatever the other actors do (they may fail or stay pending), an actor
  that is spawned and not done is stepped within as many calls of System::tick as there are live
  actors, from exactly the state it was left in, and its result is what that call hands out.
\<close>

theorem system_is_fair:
  assumes "system_wf s" and "j < length (sys_slots s)" and "sys_slots s ! j = Some slot" and "\<not> slot_done slot"
    and "tick (slot_actor slot) = (a, r)"
  shows "\<exists>n s' rs. n \<le> sys_live s \<and> system_ticks n tick s = (s', rs @ [Some (step_result j r)]) \<and>
    sys_slots s' ! j = Some \<lparr>slot_actor = a, slot_done = tick_done r\<rparr>"
proof -
  have "j \<in> set (run_queue s)" using assms by (simp add: run_queue_iff slot_live_def)
  then obtain us vs where q: "run_queue s = us @ j # vs" by (meson split_list)
  have "Suc (length us) \<le> sys_live s" using assms(1) q by (simp add: system_wf_def)
  moreover obtain s' rs where "system_ticks (Suc (length us)) tick s = (s', rs @ [Some (step_result j r)])"
    "sys_slots s' ! j = Some \<lparr>slot_actor = a, slot_done = tick_done r\<rparr>"
    using system_waits [where tick = tick, OF assms(1) q assms(3,5)] by (elim exE conjE) (rule that)
  ultimately show ?thesis by (intro exI conjI)
qed

lemma system_is_fair_witness:
  "\<exists>n s' rs. n \<le> 2 \<and>
     system_ticks n countdown two_countdowns = (s', rs @ [Some (Inr \<lparr>step_id = 1, step_tick = TickReady 2\<rparr>)])"
proof -
  have s: "sys_slots two_countdowns ! 1 = Some \<lparr>slot_actor = 2, slot_done = False\<rparr>"
    "1 < length (sys_slots two_countdowns)" "sys_live two_countdowns = 2"
    by code_simp+
  have t: "countdown (slot_actor \<lparr>slot_actor = 2, slot_done = False\<rparr>) = (1, Inr (TickReady 2))"
    by (simp add: countdown_def)
  have r: "step_result 1 (Inr (TickReady 2) :: unit + nat tick) = Inr \<lparr>step_id = 1, step_tick = TickReady 2\<rparr>"
    by (simp add: step_result_def)
  show ?thesis using system_is_fair [where tick = countdown, OF two_countdowns_wf s(2,1) _ t] unfolding r s(3) by auto
qed

end
