(* ===== verification/Ring.thy ===== *)
theory Ring
  imports Frame
begin

text \<open>
  The 64-byte ring of \<open>src/p2p/duplex.rs\<close> (\<open>src/transport/face.rs\<close> has a copy of it).  The interface
  \<open>byte_fifo\<close> states what its users rely on: bytes come out in the order they went in, and a frame
  goes in whole or not at all.  The ring is shown to be such a queue of at most 64 bytes.
\<close>

section \<open>A ring of any capacity\<close>

text \<open>
  The examples and the boards have rings of their own size with the same \<open>push\<close> and \<open>pop\<close>: the
  buffer is an array of \<open>cap\<close> bytes.
\<close>

record ring =
  rg_buf :: "u8 list"
  rg_head :: nat
  rg_tail :: nat
  rg_len :: nat

definition ring_new_in :: "nat \<Rightarrow> ring" where
  "ring_new_in cap = \<lparr>rg_buf = replicate cap 0, rg_head = 0, rg_tail = 0, rg_len = 0\<rparr>"

definition ring_put_in :: "nat \<Rightarrow> u8 \<Rightarrow> ring \<Rightarrow> ring" where
  "ring_put_in cap byte r =
     r\<lparr>rg_buf := (rg_buf r)[rg_tail r := byte], rg_tail := (rg_tail r + 1) mod cap, rg_len := rg_len r + 1\<rparr>"

definition ring_push_in :: "nat \<Rightarrow> u8 \<Rightarrow> ring \<Rightarrow> ring \<times> bool" where
  "ring_push_in cap byte r = (if rg_len r = cap then (r, False) else (ring_put_in cap byte r, True))"

definition ring_pop_in :: "nat \<Rightarrow> ring \<Rightarrow> ring \<times> u8 option" where
  "ring_pop_in cap r =
     (if rg_len r = 0 then (r, None)
      else (r\<lparr>rg_head := (rg_head r + 1) mod cap, rg_len := rg_len r - 1\<rparr>, Some (rg_buf r ! rg_head r)))"

definition ring_wf_in :: "nat \<Rightarrow> ring \<Rightarrow> bool" where
  "ring_wf_in cap r = (length (rg_buf r) = cap \<and> rg_head r < cap \<and> rg_len r \<le> cap \<and>
     rg_tail r = (rg_head r + rg_len r) mod cap)"

definition ring_contents_in :: "nat \<Rightarrow> ring \<Rightarrow> u8 list" where
  "ring_contents_in cap r = map (\<lambda>i. rg_buf r ! ((rg_head r + i) mod cap)) [0..<rg_len r]"

lemma ring_new_in: "0 < cap \<Longrightarrow> ring_wf_in cap (ring_new_in cap)" "ring_contents_in cap (ring_new_in cap) = []"
  by (simp_all add: ring_wf_in_def ring_contents_in_def ring_new_in_def)

lemma length_ring_contents_in [simp]: "length (ring_contents_in cap r) = rg_len r"
  by (simp add: ring_contents_in_def)

lemma ring_slots_distinct:
  assumes "i < n" and "n < (cap :: nat)"
  shows "(h + i) mod cap \<noteq> (h + n) mod cap"
proof
  assume "(h + i) mod cap = (h + n) mod cap"
  then have "cap dvd (h + n) - (h + i)" by (metis mod_eq_dvd_iff_nat add_le_cancel_left assms(1) less_imp_le)
  then have "cap dvd n - i" by simp
  then show False using assms by (auto dest: dvd_imp_le)
qed

lemma ring_put_in:
  assumes "ring_wf_in cap r" and "rg_len r < cap"
  shows "ring_wf_in cap (ring_put_in cap b r)" and "ring_contents_in cap (ring_put_in cap b r) = ring_contents_in cap r @ [b]"
    and "rg_len (ring_put_in cap b r) = Suc (rg_len r)"
proof -
  have t: "rg_tail r < cap" using assms by (simp add: ring_wf_in_def)
  show "ring_wf_in cap (ring_put_in cap b r)"
    using assms by (simp add: ring_wf_in_def ring_put_in_def mod_Suc_eq)
  have "rg_buf (ring_put_in cap b r) ! ((rg_head r + i) mod cap) = rg_buf r ! ((rg_head r + i) mod cap)"
    if "i < rg_len r" for i
    using ring_slots_distinct [OF that assms(2), of "rg_head r"] assms(1)
    by (simp add: ring_put_in_def ring_wf_in_def)
  moreover have "rg_buf (ring_put_in cap b r) ! ((rg_head r + rg_len r) mod cap) = b"
    using assms(1) t by (simp add: ring_put_in_def ring_wf_in_def)
  moreover have "rg_head (ring_put_in cap b r) = rg_head r" "rg_len (ring_put_in cap b r) = Suc (rg_len r)"
    by (simp_all add: ring_put_in_def)
  ultimately show "ring_contents_in cap (ring_put_in cap b r) = ring_contents_in cap r @ [b]"
    by (simp add: ring_contents_in_def)
  show "rg_len (ring_put_in cap b r) = Suc (rg_len r)" by (simp add: ring_put_in_def)
qed

lemma ring_push_in:
  assumes "ring_wf_in cap r" and "ring_push_in cap b r = (r', ok)"
  shows "ring_wf_in cap r' \<and> ring_contents_in cap r' = ring_contents_in cap r @ (if ok then [b] else []) \<and>
    (ok \<longleftrightarrow> rg_len r < cap) \<and> (ok \<or> r' = r)"
  using assms ring_put_in [OF assms(1), of b] by (auto simp: ring_push_in_def ring_wf_in_def split: if_splits)

lemma ring_pop_in_Cons:
  assumes "ring_wf_in cap r" and "0 < rg_len r"
  shows "\<exists>r'. ring_pop_in cap r = (r', Some (hd (ring_contents_in cap r))) \<and> ring_wf_in cap r' \<and>
    ring_contents_in cap r' = tl (ring_contents_in cap r)"
proof -
  obtain n where n: "rg_len r = Suc n" using assms(2) by (cases "rg_len r") auto
  have "[0..<Suc n] = 0 # map Suc [0..<n]" by (simp add: map_Suc_upt upt_conv_Cons)
  then have c: "ring_contents_in cap r = rg_buf r ! rg_head r #
      map (\<lambda>i. rg_buf r ! ((rg_head r + Suc i) mod cap)) [0..<n]"
    using assms(1) by (simp add: ring_contents_in_def n ring_wf_in_def o_def)
  have "(rg_head r + Suc i) mod cap = ((rg_head r + 1) mod cap + i) mod cap" for i
    by (simp add: mod_add_left_eq)
  moreover have "0 < cap" using assms(1) by (simp add: ring_wf_in_def)
  ultimately show ?thesis using assms c n
    by (auto simp: ring_pop_in_def ring_wf_in_def ring_contents_in_def mod_simps)
qed

lemma ring_pop_in:
  assumes "ring_wf_in cap r" and "ring_pop_in cap r = (r', x)"
  shows "ring_wf_in cap r' \<and> (case x of None \<Rightarrow> ring_contents_in cap r = [] \<and> r' = r
    | Some b \<Rightarrow> ring_contents_in cap r = b # ring_contents_in cap r')"
proof (cases "rg_len r = 0")
  case True
  then have "r' = r" "x = None" "ring_contents_in cap r = []" using assms(2) by (simp_all add: ring_pop_in_def ring_contents_in_def)
  then show ?thesis using assms(1) by simp
next
  case False
  then have "ring_contents_in cap r \<noteq> []" using length_ring_contents_in [of cap r] by (metis list.size(3))
  then show ?thesis using ring_pop_in_Cons [OF assms(1)] assms(2) False by auto
qed

section \<open>The ring of 64 bytes\<close>

definition RING :: nat where "RING = 64"

definition ring_new :: ring where
  "ring_new = \<lparr>rg_buf = replicate RING 0, rg_head = 0, rg_tail = 0, rg_len = 0\<rparr>"

definition ring_put :: "u8 \<Rightarrow> ring \<Rightarrow> ring" where
  "ring_put byte r =
     r\<lparr>rg_buf := (rg_buf r)[rg_tail r := byte], rg_tail := (rg_tail r + 1) mod RING, rg_len := rg_len r + 1\<rparr>"

definition ring_push :: "u8 \<Rightarrow> ring \<Rightarrow> ring \<times> bool" where
  "ring_push byte r = (if rg_len r = RING then (r, False) else (ring_put byte r, True))"

definition ring_pop :: "ring \<Rightarrow> ring \<times> u8 option" where
  "ring_pop r =
     (if rg_len r = 0 then (r, None)
      else (r\<lparr>rg_head := (rg_head r + 1) mod RING, rg_len := rg_len r - 1\<rparr>, Some (rg_buf r ! rg_head r)))"

definition ring_push_frame :: "u8 list \<Rightarrow> ring \<Rightarrow> ring \<times> bool" where
  "ring_push_frame bytes r =
     (if rg_len r > RING - FRAME_LEN then (r, False) else (fold ring_put bytes r, True))"

lemma ring_of_64: "ring_new = ring_new_in RING" "ring_put = ring_put_in RING" "ring_push = ring_push_in RING" "ring_pop = ring_pop_in RING"
  by (simp_all add: fun_eq_iff ring_new_def ring_new_in_def ring_put_def ring_put_in_def ring_push_def ring_push_in_def
      ring_pop_def ring_pop_in_def)

section \<open>The interface\<close>

locale byte_fifo =
  fixes wf :: "'q \<Rightarrow> bool"
    and contents :: "'q \<Rightarrow> u8 list"
    and pop :: "'q \<Rightarrow> 'q \<times> u8 option"
    and push_frame :: "u8 list \<Rightarrow> 'q \<Rightarrow> 'q \<times> bool"
    and cap :: nat
  assumes pop_none: "wf q \<Longrightarrow> contents q = [] \<Longrightarrow> pop q = (q, None)"
    and pop_some: "wf q \<Longrightarrow> contents q = b # bs \<Longrightarrow> \<exists>q'. pop q = (q', Some b) \<and> wf q' \<and> contents q' = bs"
    and push_ok: "wf q \<Longrightarrow> length bs = FRAME_LEN \<Longrightarrow> length (contents q) + FRAME_LEN \<le> cap \<Longrightarrow>
      \<exists>q'. push_frame bs q = (q', True) \<and> wf q' \<and> contents q' = contents q @ bs"
    and push_full: "wf q \<Longrightarrow> cap < length (contents q) + FRAME_LEN \<Longrightarrow> push_frame bs q = (q, False)"

context byte_fifo
begin

lemma pop_cases:
  assumes "wf q" and "pop q = (q', r)"
  shows "wf q' \<and> (case r of None \<Rightarrow> contents q = [] \<and> q' = q | Some b \<Rightarrow> contents q = b # contents q')"
  using assms pop_none [of q] pop_some [of q] by (cases "contents q") auto

lemma push_cases:
  assumes "wf q" and "length bs = FRAME_LEN" and "push_frame bs q = (q', ok)"
  shows "wf q' \<and> contents q' = contents q @ (if ok then bs else []) \<and> (ok \<or> q' = q) \<and>
    (ok \<longleftrightarrow> length (contents q) + FRAME_LEN \<le> cap)"
  using assms push_ok [of q bs] push_full [of q bs] by (cases "length (contents q) + FRAME_LEN \<le> cap") auto

text \<open>Everything that is in the queue comes out, in order, and then nothing.\<close>

fun pops :: "nat \<Rightarrow> 'q \<Rightarrow> 'q \<times> u8 option list" where
  "pops 0 q = (q, [])"
| "pops (Suc n) q = (case pop q of (q', r) \<Rightarrow> case pops n q' of (q'', rs) \<Rightarrow> (q'', r # rs))"

lemma pops_drain:
  "wf q \<Longrightarrow> contents q = bs \<Longrightarrow> \<exists>q'. pops (length bs) q = (q', map Some bs) \<and> wf q' \<and> contents q' = []"
proof (induction bs arbitrary: q)
  case Nil
  then show ?case by simp
next
  case (Cons b bs)
  then obtain q1 where 1: "pop q = (q1, Some b)" "wf q1" "contents q1 = bs" using pop_some by blast
  obtain q2 where "pops (length bs) q1 = (q2, map Some bs)" "wf q2" "contents q2 = []"
    using Cons.IH [OF 1(2,3)] by blast
  then show ?case using 1(1) by simp
qed

end

section \<open>The ring is a queue\<close>

definition ring_wf :: "ring \<Rightarrow> bool" where
  "ring_wf = ring_wf_in RING"

definition ring_contents :: "ring \<Rightarrow> u8 list" where
  "ring_contents = ring_contents_in RING"

lemma ring_new_simps [simp]: "ring_wf ring_new" "ring_contents ring_new = []"
  using ring_new_in [of RING] by (simp_all add: ring_wf_def ring_contents_def ring_of_64 RING_def)

lemma length_ring_contents [simp]: "length (ring_contents r) = rg_len r"
  by (simp add: ring_contents_def)

lemma ring_wf_len: "ring_wf r \<Longrightarrow> rg_len r \<le> RING"
  by (simp add: ring_wf_def ring_wf_in_def)

lemma ring_empty: "ring_contents r = [] \<longleftrightarrow> rg_len r = 0"
  by (metis length_0_conv length_ring_contents)

lemmas ring_put = ring_put_in [of RING, folded ring_of_64 ring_wf_def ring_contents_def]
  and ring_push = ring_push_in [of RING, folded ring_of_64 ring_wf_def ring_contents_def]
  and ring_pop_Cons = ring_pop_in_Cons [of RING, folded ring_of_64 ring_wf_def ring_contents_def]

lemma ring_fold_put:
  "ring_wf r \<Longrightarrow> rg_len r + length bs \<le> RING \<Longrightarrow>
     ring_wf (fold ring_put bs r) \<and> ring_contents (fold ring_put bs r) = ring_contents r @ bs"
proof (induction bs arbitrary: r)
  case Nil
  then show ?case by simp
next
  case (Cons b bs)
  then have "rg_len r < RING" by simp
  note p = ring_put [OF Cons.prems(1) this, of b]
  show ?case using Cons.IH [OF p(1)] p Cons.prems(2) by simp
qed

interpretation rf: byte_fifo ring_wf ring_contents ring_pop ring_push_frame RING
proof (unfold_locales, goal_cases)
  case (1 q)
  then show ?case using length_ring_contents [of q] by (simp add: ring_pop_def)
next
  case (2 q b bs)
  then have "0 < rg_len q" using length_ring_contents [of q] by simp
  then show ?case using ring_pop_Cons [OF 2(1)] 2(2) by simp
next
  case (3 q bs)
  then show ?case using ring_fold_put [of q bs] by (auto simp: ring_push_frame_def)
next
  case (4 q bs)
  then show ?case by (simp add: ring_push_frame_def FRAME_LEN_def RING_def)
qed

end
