(* ===== verification/Demux.thy ===== *)
theory Demux
  imports Ring Assembler
begin

text \<open>
  The demultiplexer that \<open>src/p2p/duplex.rs\<close> (\<open>Lane\<close>) and \<open>src/transport/face.rs\<close> (\<open>FaceInner\<close>) have
  in common: an assembler cuts the incoming bytes into frames and each frame goes to the ring of
  the reader it is for, or waits in \<open>pending\<close> while that ring is full.  The lemmas keep the
  balance of what was consumed, what the readers have taken and what is still held.
\<close>

section \<open>The demultiplexer\<close>

record held =
  hd_bytes :: "u8 list"
  hd_control :: bool

record demux =
  dm_assembler :: assembler
  dm_control :: ring
  dm_payload :: ring
  dm_pending :: "held option"

definition is_reply :: "frame_type \<Rightarrow> bool" where
  "is_reply t = (t = Ack \<or> t = Nack)"

definition held_of :: "assembler \<Rightarrow> frame_error + frame \<Rightarrow> held" where
  "held_of a result =
     (case result of
        Inr f \<Rightarrow> \<lparr>hd_bytes = to_bytes f, hd_control = is_reply (fr_type f)\<rparr>
      | Inl _ \<Rightarrow> \<lparr>hd_bytes = asm_last_bytes a, hd_control = False\<rparr>)"

definition demux_store :: "held \<Rightarrow> 'a demux_scheme \<Rightarrow> 'a demux_scheme \<times> bool" where
  "demux_store h d =
     (if hd_control h
      then (case ring_push_frame (hd_bytes h) (dm_control d) of (r, ok) \<Rightarrow> (d\<lparr>dm_control := r\<rparr>, ok))
      else (case ring_push_frame (hd_bytes h) (dm_payload d) of (r, ok) \<Rightarrow> (d\<lparr>dm_payload := r\<rparr>, ok)))"

definition demux_byte :: "u8 \<Rightarrow> 'a demux_scheme \<Rightarrow> 'a demux_scheme \<times> bool" where
  "demux_byte byte d0 =
     (case asm_push byte (dm_assembler d0) of
        (a, None) \<Rightarrow> (d0\<lparr>dm_assembler := a\<rparr>, True)
      | (a, Some result) \<Rightarrow>
          (case demux_store (held_of a result) (d0\<lparr>dm_assembler := a\<rparr>) of
             (d, True) \<Rightarrow> (d, True)
           | (d, False) \<Rightarrow> (d\<lparr>dm_pending := Some (held_of a result)\<rparr>, False)))"

definition demux_retry :: "'a demux_scheme \<Rightarrow> 'a demux_scheme \<times> bool" where
  "demux_retry d =
     (case dm_pending d of
        None \<Rightarrow> (d, True)
      | Some h \<Rightarrow> (case demux_store h d of
            (d', True) \<Rightarrow> (d'\<lparr>dm_pending := None\<rparr>, True)
          | (d', False) \<Rightarrow> (d', False)))"

section \<open>Routing\<close>

text \<open>What a stream of bytes is cut into, and the bytes of the frames for one of the two readers.\<close>

fun helds :: "assembler \<Rightarrow> u8 list \<Rightarrow> assembler \<times> held list" where
  "helds a [] = (a, [])"
| "helds a (b # bs) =
     (case asm_push b a of (a', r) \<Rightarrow> case helds a' bs of (a'', hs) \<Rightarrow>
        (a'', (case r of None \<Rightarrow> [] | Some x \<Rightarrow> [held_of a' x]) @ hs))"

definition routed :: "bool \<Rightarrow> u8 list \<Rightarrow> u8 list" where
  "routed control bs =
     concat (map hd_bytes (filter (\<lambda>h. hd_control h = control) (snd (helds asm_resyncing bs))))"

lemma helds_append:
  "helds a (xs @ ys) = (case helds a xs of (a', hs) \<Rightarrow> case helds a' ys of (a'', hs') \<Rightarrow> (a'', hs @ hs'))"
  by (induction xs arbitrary: a) (auto split: prod.splits)

definition ring_for :: "bool \<Rightarrow> 'a demux_scheme \<Rightarrow> ring" where
  "ring_for control d = (if control then dm_control d else dm_payload d)"

lemma ring_for_update [simp]:
  "ring_for c (d\<lparr>dm_assembler := a\<rparr>) = ring_for c d" "ring_for c (d\<lparr>dm_pending := h\<rparr>) = ring_for c d"
  by (simp_all add: ring_for_def)

definition pending_for :: "bool \<Rightarrow> 'a demux_scheme \<Rightarrow> u8 list" where
  "pending_for control d =
     (case dm_pending d of Some h \<Rightarrow> if hd_control h = control then hd_bytes h else [] | None \<Rightarrow> [])"

text \<open>
  The demultiplexer has consumed \<open>K\<close> and its readers have taken \<open>R True\<close> and \<open>R False\<close>: nothing
  lost, nothing twice, nothing out of order.
\<close>

definition demux_inv :: "u8 list \<Rightarrow> (bool \<Rightarrow> u8 list) \<Rightarrow> 'a demux_scheme \<Rightarrow> bool" where
  "demux_inv K R d = (ring_wf (dm_control d) \<and> ring_wf (dm_payload d) \<and> asm_wf (dm_assembler d) \<and>
     fst (helds asm_resyncing K) = dm_assembler d \<and>
     (\<forall>c. routed c K = R c @ ring_contents (ring_for c d) @ pending_for c d) \<and>
     (\<forall>h. dm_pending d = Some h \<longrightarrow> length (hd_bytes h) = FRAME_LEN))"

text \<open>One more byte handed to the reader \<open>c\<close>.\<close>

definition taken :: "(bool \<Rightarrow> u8 list) \<Rightarrow> bool \<Rightarrow> u8 option \<Rightarrow> bool \<Rightarrow> u8 list" where
  "taken R c x c' = R c' @ (if c' = c then (case x of None \<Rightarrow> [] | Some b \<Rightarrow> [b]) else [])"

lemma taken_None [simp]: "taken R c None = R"
  by (simp add: taken_def fun_eq_iff)

definition blocked :: "'a demux_scheme \<Rightarrow> bool" where
  "blocked d = (\<exists>h. dm_pending d = Some h \<and> RING < rg_len (ring_for (hd_control h) d) + FRAME_LEN)"

lemma length_held_of: "asm_wf a \<Longrightarrow> length (hd_bytes (held_of a r)) = FRAME_LEN"
  by (auto simp: held_of_def to_bytes_def Let_def FRAME_LEN_def asm_wf_def asm_last_bytes_def split: sum.splits)

lemma demux_store:
  assumes "demux_store h d = (d', ok)" and "ring_wf (dm_control d)" and "ring_wf (dm_payload d)"
    and "length (hd_bytes h) = FRAME_LEN"
  shows "ring_wf (dm_control d') \<and> ring_wf (dm_payload d') \<and> dm_assembler d' = dm_assembler d \<and>
    dm_pending d' = dm_pending d \<and>
    (ok \<longrightarrow> (\<forall>c. ring_contents (ring_for c d') =
       ring_contents (ring_for c d) @ (if hd_control h = c then hd_bytes h else []))) \<and>
    (\<not> ok \<longrightarrow> d' = d \<and> RING < rg_len (ring_for (hd_control h) d) + FRAME_LEN)"
proof (cases "hd_control h")
  case True
  obtain r where r: "ring_push_frame (hd_bytes h) (dm_control d) = (r, ok)" "d' = d\<lparr>dm_control := r\<rparr>"
    using assms(1) True by (auto simp: demux_store_def split: prod.splits)
  show ?thesis using rf.push_cases [OF assms(2,4) r(1)] r(2) True assms(3)
    by (auto simp: ring_for_def)
next
  case False
  obtain r where r: "ring_push_frame (hd_bytes h) (dm_payload d) = (r, ok)" "d' = d\<lparr>dm_payload := r\<rparr>"
    using assms(1) False by (auto simp: demux_store_def split: prod.splits)
  show ?thesis using rf.push_cases [OF assms(3,4) r(1)] r(2) False assms(2)
    by (auto simp: ring_for_def)
qed

lemma routed_snoc:
  "routed c (K @ [b]) = routed c K @
     (case asm_push b (fst (helds asm_resyncing K)) of (a, None) \<Rightarrow> []
      | (a, Some x) \<Rightarrow> if hd_control (held_of a x) = c then hd_bytes (held_of a x) else [])"
  by (auto simp: routed_def helds_append split: prod.splits option.splits)

lemma helds_snoc: "fst (helds asm_resyncing (K @ [b])) = fst (asm_push b (fst (helds asm_resyncing K)))"
  by (auto simp: helds_append split: prod.splits)

lemma demux_byte_inv:
  assumes "demux_inv K R d" and "dm_pending d = None" and "demux_byte b d = (d', ok)"
  shows "demux_inv (K @ [b]) R d' \<and> (if ok then dm_pending d' = None else blocked d')"
proof -
  obtain a r where p: "asm_push b (dm_assembler d) = (a, r)" by (metis surj_pair)
  have a: "asm_wf a" using asm_push_wf [of "dm_assembler d" b] p assms(1) by (simp add: demux_inv_def)
  have k: "fst (helds asm_resyncing K) = dm_assembler d" using assms(1) by (simp add: demux_inv_def)
  note snoc = routed_snoc [of _ K b, unfolded k p] helds_snoc [of K b, unfolded k p]
  show ?thesis
  proof (cases r)
    case None
    then have "d' = d\<lparr>dm_assembler := a\<rparr>" "ok" using assms(3) p by (simp_all add: demux_byte_def)
    then show ?thesis using assms(1,2) a snoc None
      by (simp add: demux_inv_def ring_for_def pending_for_def)
  next
    case (Some x)
    let ?h = "held_of a x"
    obtain d1 ok1 where s: "demux_store ?h (d\<lparr>dm_assembler := a\<rparr>) = (d1, ok1)" by (metis surj_pair)
    have d': "ok1 = ok" "d' = (if ok then d1 else d1\<lparr>dm_pending := Some ?h\<rparr>)"
      using assms(3) p Some s by (auto simp: demux_byte_def split: bool.splits)
    note st = demux_store [OF s _ _ length_held_of [OF a]]
    have st: "ring_wf (dm_control d1) \<and> ring_wf (dm_payload d1) \<and> dm_assembler d1 = a \<and> dm_pending d1 = None"
      "ok \<Longrightarrow> ring_contents (ring_for c d1) =
         ring_contents (ring_for c d) @ (if hd_control ?h = c then hd_bytes ?h else [])"
      "\<not> ok \<Longrightarrow> d1 = d\<lparr>dm_assembler := a\<rparr> \<and> RING < rg_len (ring_for (hd_control ?h) d) + FRAME_LEN" for c
      using st assms(1,2) d'(1) by (simp_all add: demux_inv_def)
    show ?thesis
    proof (cases ok)
      case True
      then show ?thesis using st d' assms(1,2) a snoc Some
        by (simp add: demux_inv_def pending_for_def)
    next
      case False
      then show ?thesis using st(1,3) d' assms(1,2) a snoc Some length_held_of [OF a, of x]
        by (simp add: demux_inv_def pending_for_def blocked_def)
    qed
  qed
qed

lemma demux_retry_inv:
  assumes "demux_inv K R d" and "demux_retry d = (d', ok)"
  shows "demux_inv K R d' \<and> (if ok then dm_pending d' = None else blocked d')"
proof (cases "dm_pending d")
  case None
  then show ?thesis using assms by (simp add: demux_retry_def)
next
  case (Some h)
  obtain d1 ok1 where s: "demux_store h d = (d1, ok1)" by (metis surj_pair)
  have d': "ok1 = ok" "d' = (if ok then d1\<lparr>dm_pending := None\<rparr> else d1)"
    using assms(2) Some s by (auto simp: demux_retry_def split: bool.splits)
  note st = demux_store [OF s]
  have st: "ring_wf (dm_control d1) \<and> ring_wf (dm_payload d1) \<and> dm_assembler d1 = dm_assembler d"
    "ok \<Longrightarrow> ring_contents (ring_for c d1) =
       ring_contents (ring_for c d) @ (if hd_control h = c then hd_bytes h else [])"
    "\<not> ok \<Longrightarrow> d1 = d \<and> RING < rg_len (ring_for (hd_control h) d) + FRAME_LEN" for c
    using st assms(1) Some d'(1) by (simp_all add: demux_inv_def)
  show ?thesis
  proof (cases ok)
    case True
    then show ?thesis using st d' assms(1) Some
      by (simp add: demux_inv_def pending_for_def)
  next
    case False
    then show ?thesis using st(3) d' assms(1) Some by (simp add: blocked_def)
  qed
qed

lemma demux_pop_inv:
  assumes "demux_inv K R d" and "ring_pop (ring_for c d) = (r, x)"
  shows "demux_inv K (taken R c x)
      (if c then d\<lparr>dm_control := r\<rparr> else d\<lparr>dm_payload := r\<rparr>) \<and>
    (x = None \<longrightarrow> ring_contents (ring_for c d) = [])"
proof -
  have "ring_wf (ring_for c d)" using assms(1) by (simp add: demux_inv_def ring_for_def)
  from rf.pop_cases [OF this assms(2)] show ?thesis using assms(1)
    by (cases c; cases x) (auto simp: demux_inv_def ring_for_def pending_for_def taken_def)
qed

end
