(* ===== verification/Streams.thy ===== *)
theory Streams
  imports WinReceiver
begin

text \<open>
  Moving whole byte streams over a link (\<open>src/stream.rs\<close>): borrowed slices as sources and sinks,
  and the loops that drain a source into a sender or a receiver into a sink.  A loop that may poll
  for ever is a partial function, \<open>None\<close> being the run that does not end.  The lemmas show that a
  transfer over a link that moves bytes rebuilds the payload, and that a silent peer cannot hold a
  budgeted loop.
\<close>

section \<open>The code\<close>

datatype ('e, 'a) stream_error = SeProtocol "'e error" | SeApplication 'a

datatype slice_full = SliceFull

typedecl infallible

record slice_source =
  ss_rest :: "u8 list"

definition slice_source_new :: "u8 list \<Rightarrow> slice_source" where
  "slice_source_new bytes = \<lparr>ss_rest = bytes\<rparr>"

definition slice_source_remaining :: "slice_source \<Rightarrow> nat" where
  "slice_source_remaining s = length (ss_rest s)"

definition slice_byte_source :: "(slice_source, infallible) source" where
  "slice_byte_source = \<lparr>src_read = (\<lambda>s.
     case ss_rest s of
       byte # rest \<Rightarrow> (s\<lparr>ss_rest := rest\<rparr>, Inr (Some byte))
     | [] \<Rightarrow> (s, Inr None))\<rparr>"

record slice_sink =
  sk_buf :: "u8 list"
  sk_pos :: nat

definition slice_sink_new :: "u8 list \<Rightarrow> slice_sink" where
  "slice_sink_new buf = \<lparr>sk_buf = buf, sk_pos = 0\<rparr>"

definition slice_sink_filled :: "slice_sink \<Rightarrow> nat" where
  "slice_sink_filled k = sk_pos k"

definition slice_sink_written :: "slice_sink \<Rightarrow> u8 list" where
  "slice_sink_written k = take (sk_pos k) (sk_buf k)"

definition slice_byte_sink :: "(slice_sink, slice_full) sink" where
  "slice_byte_sink = \<lparr>sink_write = (\<lambda>byte k.
     if sk_pos k \<ge> length (sk_buf k) then (k, Inl SliceFull)
     else (k\<lparr>sk_buf := (sk_buf k)[sk_pos k := byte], sk_pos := sk_pos k + 1\<rparr>, Inr ()))\<rparr>"

text \<open>\<open>send_all\<close>: one byte after the other through \<open>send_byte\<close>, then FINISH.\<close>

partial_function (option) send_all_from ::
  "('w, 'e) port \<Rightarrow> ('s, 'a) source \<Rightarrow> u64 \<Rightarrow> 'w \<Rightarrow> sender \<Rightarrow> 's \<Rightarrow>
     ('w \<times> sender \<times> 's \<times> (('e, 'a) stream_error + u64)) option" where
  "send_all_from p src n w tx s =
     (case src_read src s of
        (s', Inl e) \<Rightarrow> Some (w, tx, s', Inl (SeApplication e))
      | (s', Inr (Some byte)) \<Rightarrow>
          Option.bind (sender_send_byte p byte w tx) (\<lambda>(w', tx', r). case r of
              Inl e \<Rightarrow> Some (w', tx', s', Inl (SeProtocol e))
            | Inr _ \<Rightarrow> send_all_from p src (sat_inc n) w' tx' s')
      | (s', Inr None) \<Rightarrow>
          Option.bind (sender_send_finish p w tx) (\<lambda>(w', tx', r). case r of
              Inl e \<Rightarrow> Some (w', tx', s', Inl (SeProtocol e))
            | Inr _ \<Rightarrow> Some (w', tx', s', Inr n)))"

definition send_all ::
  "('w, 'e) port \<Rightarrow> ('s, 'a) source \<Rightarrow> 'w \<Rightarrow> sender \<Rightarrow> 's \<Rightarrow>
     ('w \<times> sender \<times> 's \<times> (('e, 'a) stream_error + u64)) option" where
  "send_all p src w tx s = send_all_from p src 0 w tx s"

text \<open>
  \<open>send_all_windowed\<close>: the inner loop that offers one byte until the window takes it, the outer
  loop over the source, the wait for the last acknowledgements, and FINISH.
\<close>

partial_function (option) wsend_offer ::
  "('w, 'e) port \<Rightarrow> u8 \<Rightarrow> 'w \<Rightarrow> wsender \<Rightarrow> idle_budget \<Rightarrow> ('w \<times> wsender \<times> idle_budget \<times> ('e error + unit)) option" where
  "wsend_offer p byte w tx budget =
     (case wsender_offer byte tx of
        (tx', Inr _) \<Rightarrow> Some (w, tx', idle_reset budget, Inr ())
      | (tx', Inl e) \<Rightarrow>
          if e = ErrWindowFull
          then (case wsender_poll p w tx' of
                  (w', tx'', Inl e') \<Rightarrow> Some (w', tx'', budget, Inl e')
                | (w', tx'', Inr PollAcked) \<Rightarrow> wsend_offer p byte w' tx'' (idle_reset budget)
                | (w', tx'', Inr PollAborted) \<Rightarrow> Some (w', tx'', budget, Inl ErrAborted)
                | (w', tx'', Inr _) \<Rightarrow>
                    (case idle_tick budget of
                       (budget', Inl e') \<Rightarrow> Some (w', tx'', budget', Inl e')
                     | (budget', Inr _) \<Rightarrow> wsend_offer p byte w' tx'' budget'))
          else Some (w, tx', budget, Inl e))"

partial_function (option) wsend_flush ::
  "('w, 'e) port \<Rightarrow> 'w \<Rightarrow> wsender \<Rightarrow> idle_budget \<Rightarrow> ('w \<times> wsender \<times> ('e error + unit)) option" where
  "wsend_flush p w tx budget =
     (if wsender_outstanding tx = 0 then Some (w, tx, Inr ())
      else (case wsender_poll p w tx of
              (w', tx', Inl e) \<Rightarrow> Some (w', tx', Inl e)
            | (w', tx', Inr PollAcked) \<Rightarrow> wsend_flush p w' tx' (idle_reset budget)
            | (w', tx', Inr PollPending) \<Rightarrow>
                (case idle_tick budget of
                   (budget', Inl e) \<Rightarrow> Some (w', tx', Inl e)
                 | (budget', Inr _) \<Rightarrow> wsend_flush p w' tx' budget')
            | (w', tx', Inr PollAborted) \<Rightarrow> Some (w', tx', Inl ErrAborted)
            | (w', tx', Inr _) \<Rightarrow> Some (w', tx', Inr ())))"

partial_function (option) send_all_windowed_from ::
  "('w, 'e) port \<Rightarrow> ('s, 'a) source \<Rightarrow> u64 \<Rightarrow> 'w \<Rightarrow> wsender \<Rightarrow> 's \<Rightarrow> idle_budget \<Rightarrow>
     ('w \<times> wsender \<times> 's \<times> (('e, 'a) stream_error + u64)) option" where
  "send_all_windowed_from p src n w tx s budget =
     (case src_read src s of
        (s', Inl e) \<Rightarrow> Some (w, tx, s', Inl (SeApplication e))
      | (s', Inr (Some byte)) \<Rightarrow>
          Option.bind (wsend_offer p byte w tx budget) (\<lambda>(w', tx', budget', r). case r of
              Inl e \<Rightarrow> Some (w', tx', s', Inl (SeProtocol e))
            | Inr _ \<Rightarrow> send_all_windowed_from p src (sat_inc n) w' tx' s' budget')
      | (s', Inr None) \<Rightarrow>
          Option.bind (wsend_flush p w tx budget) (\<lambda>(w', tx', r). case r of
              Inl e \<Rightarrow> Some (w', tx', s', Inl (SeProtocol e))
            | Inr _ \<Rightarrow>
                Option.bind (wsender_send_finish p w' tx') (\<lambda>(w'', tx'', r'). case r' of
                    Inl e \<Rightarrow> Some (w'', tx'', s', Inl (SeProtocol e))
                  | Inr _ \<Rightarrow> Some (w'', tx'', s', Inr n))))"

definition send_all_windowed_budgeted ::
  "('w, 'e) port \<Rightarrow> ('s, 'a) source \<Rightarrow> 'w \<Rightarrow> wsender \<Rightarrow> 's \<Rightarrow> idle_budget \<Rightarrow>
     ('w \<times> wsender \<times> 's \<times> (('e, 'a) stream_error + u64)) option" where
  "send_all_windowed_budgeted p src w tx s budget = send_all_windowed_from p src 0 w tx s budget"

definition send_all_windowed ::
  "('w, 'e) port \<Rightarrow> ('s, 'a) source \<Rightarrow> 'w \<Rightarrow> wsender \<Rightarrow> 's \<Rightarrow>
     ('w \<times> wsender \<times> 's \<times> (('e, 'a) stream_error + u64)) option" where
  "send_all_windowed p src w tx s = send_all_windowed_budgeted p src w tx s idle_default"

text \<open>
  \<open>drain_recv\<close>: the closure \<open>poll\<close> of the code is a step of a state that holds the receiver and
  its world.
\<close>

partial_function (option) drain_recv ::
  "('st \<Rightarrow> 'st \<times> ('e error + poll_outcome)) \<Rightarrow> ('k, 'a) sink \<Rightarrow> 'st \<Rightarrow> 'k \<Rightarrow> idle_budget \<Rightarrow> u64 \<Rightarrow>
     ('st \<times> 'k \<times> (('e, 'a) stream_error + u64)) option" where
  "drain_recv poll snk st k budget n =
     (case poll st of
        (st', Inl e) \<Rightarrow> Some (st', k, Inl (SeProtocol e))
      | (st', Inr (OutDelivered byte)) \<Rightarrow>
          (case sink_write snk byte k of
             (k', Inl e) \<Rightarrow> Some (st', k', Inl (SeApplication e))
           | (k', Inr _) \<Rightarrow> drain_recv poll snk st' k' (idle_reset budget) (sat_inc n))
      | (st', Inr OutTransferFinished) \<Rightarrow> Some (st', k, Inr n)
      | (st', Inr OutAborted) \<Rightarrow> Some (st', k, Inl (SeProtocol ErrAborted))
      | (st', Inr OutPending) \<Rightarrow>
          (case idle_tick budget of
             (budget', Inl e) \<Rightarrow> Some (st', k, Inl (SeProtocol e))
           | (budget', Inr _) \<Rightarrow> drain_recv poll snk st' k budget' n)
      | (st', Inr _) \<Rightarrow> drain_recv poll snk st' k (idle_reset budget) n)"

definition receiver_step :: "('w, 'e) port \<Rightarrow> 'w \<times> receiver \<Rightarrow> ('w \<times> receiver) \<times> ('e error + poll_outcome)" where
  "receiver_step p st = (case receiver_poll p (fst st) (snd st) of (w', r', res) \<Rightarrow> ((w', r'), res))"

definition wreceiver_step :: "('w, 'e) port \<Rightarrow> 'w \<times> wreceiver \<Rightarrow> ('w \<times> wreceiver) \<times> ('e error + poll_outcome)" where
  "wreceiver_step p st = (case wreceiver_poll p (fst st) (snd st) of (w', r', res) \<Rightarrow> ((w', r'), res))"

definition recv_all_budgeted ::
  "('w, 'e) port \<Rightarrow> ('k, 'a) sink \<Rightarrow> 'w \<Rightarrow> receiver \<Rightarrow> 'k \<Rightarrow> idle_budget \<Rightarrow>
     (('w \<times> receiver) \<times> 'k \<times> (('e, 'a) stream_error + u64)) option" where
  "recv_all_budgeted p snk w r k budget = drain_recv (receiver_step p) snk (w, r) k budget 0"

definition recv_all ::
  "('w, 'e) port \<Rightarrow> ('k, 'a) sink \<Rightarrow> 'w \<Rightarrow> receiver \<Rightarrow> 'k \<Rightarrow>
     (('w \<times> receiver) \<times> 'k \<times> (('e, 'a) stream_error + u64)) option" where
  "recv_all p snk w r k = recv_all_budgeted p snk w r k idle_default"

definition recv_all_windowed_budgeted ::
  "('w, 'e) port \<Rightarrow> ('k, 'a) sink \<Rightarrow> 'w \<Rightarrow> wreceiver \<Rightarrow> 'k \<Rightarrow> idle_budget \<Rightarrow>
     (('w \<times> wreceiver) \<times> 'k \<times> (('e, 'a) stream_error + u64)) option" where
  "recv_all_windowed_budgeted p snk w r k budget = drain_recv (wreceiver_step p) snk (w, r) k budget 0"

definition recv_all_windowed ::
  "('w, 'e) port \<Rightarrow> ('k, 'a) sink \<Rightarrow> 'w \<Rightarrow> wreceiver \<Rightarrow> 'k \<Rightarrow>
     (('w \<times> wreceiver) \<times> 'k \<times> (('e, 'a) stream_error + u64)) option" where
  "recv_all_windowed p snk w r k = recv_all_windowed_budgeted p snk w r k idle_default"

text \<open>
  \<open>send_bytes\<close> and \<open>recv_bytes\<close>: a slice as the source, a slice as the sink.  A slice source never
  fails, so the code's \<open>match never {}\<close> has no value to give; the model returns \<open>None\<close> there.
\<close>

definition send_bytes ::
  "('w, 'e) port \<Rightarrow> 'w \<Rightarrow> sender \<Rightarrow> u8 list \<Rightarrow> ('w \<times> sender \<times> ('e error + u64)) option" where
  "send_bytes p w tx bytes =
     Option.bind (send_all p slice_byte_source w tx (slice_source_new bytes)) (\<lambda>(w', tx', s', r). case r of
         Inr n \<Rightarrow> Some (w', tx', Inr n)
       | Inl (SeProtocol e) \<Rightarrow> Some (w', tx', Inl e)
       | Inl (SeApplication never) \<Rightarrow> None)"

definition recv_bytes ::
  "('w, 'e) port \<Rightarrow> 'w \<Rightarrow> receiver \<Rightarrow> u8 list \<Rightarrow>
     (('w \<times> receiver) \<times> (('e, slice_full) stream_error + u8 list)) option" where
  "recv_bytes p w r buf =
     Option.bind (recv_all p slice_byte_sink w r (slice_sink_new buf)) (\<lambda>(st', k, res). case res of
         Inl e \<Rightarrow> Some (st', Inl e)
       | Inr _ \<Rightarrow> Some (st', Inr (take (slice_sink_filled k) (sk_buf k))))"

section \<open>What a transfer puts on the wire\<close>

text \<open>The frames of a payload from sequence number \<open>q\<close> on, and the replies that answer them.\<close>

fun stream_frames :: "u8 \<Rightarrow> u8 list \<Rightarrow> u8 list" where
  "stream_frames q [] = to_bytes (finish_frame q)"
| "stream_frames q (d # ds) = to_bytes (data_frame q d) @ stream_frames (q + 1) ds"

fun stream_acks :: "u8 \<Rightarrow> u8 list \<Rightarrow> u8 list" where
  "stream_acks q [] = to_bytes (ack_frame q)"
| "stream_acks q (d # ds) = to_bytes (ack_frame q) @ stream_acks (q + 1) ds"

lemma length_stream [simp]:
  "length (stream_frames q ds) = 4 * (length ds + 1)" "length (stream_acks q ds) = 4 * (length ds + 1)"
  by (induction ds arbitrary: q) (simp_all add: FRAME_LEN_def)

section \<open>Sending\<close>

lemma sat_inc_of_nat: "Suc k < 2 ^ 64 \<Longrightarrow> sat_inc (of_nat k :: u64) = of_nat (Suc k)"
proof -
  assume k: "Suc k < 2 ^ 64"
  then have "unat (of_nat k :: u64) = k" by (simp add: unsigned_of_nat take_bit_nat_eq_self)
  moreover have "unat (- 1 :: u64) = 2 ^ 64 - 1" by (simp add: unsigned_minus_1_eq_mask mask_eq_exp_minus_1)
  ultimately have "(of_nat k :: u64) \<noteq> - 1" using k by (metis diff_Suc_1 less_irrefl_nat Suc_pred zero_less_numeral zero_less_power)
  then show ?thesis by (simp add: sat_inc_def)
qed

context byte_link
begin

lemma send_all_acked:
  assumes "ok w" and "avail w = stream_acks (s_seq s) ds @ rest" and "sender_at_rest s"
    and "4 * (length ds + 1) \<le> room w" and "k + length ds < 2 ^ 64"
  shows "\<exists>w' s'. send_all_from p slice_byte_source (of_nat k) w s (slice_source_new ds) =
      Some (w', s', slice_source_new [], Inr (of_nat (k + length ds))) \<and> ok w' \<and> avail w' = rest \<and>
    sent w' = sent w @ stream_frames (s_seq s) ds \<and> s_state s' = TxFinished"
  using assms
proof (induction ds arbitrary: w s k)
  case Nil
  obtain w' s' where "sender_send_finish p w s = Some (w', s', Inr ())" "ok w'" "avail w' = rest"
      "sent w' = sent w @ to_bytes (finish_frame (s_seq s))" "s_state s' = TxFinished"
    using send_finish_acked [of w s rest] Nil by auto
  then show ?case
    by (subst send_all_from.simps) (simp add: slice_byte_source_def slice_source_new_def)
next
  case (Cons d ds)
  obtain w1 s1 where 1: "sender_send_byte p d w s = Some (w1, s1, Inr ())" "ok w1"
      "avail w1 = stream_acks (s_seq s + 1) ds @ rest" "sent w1 = sent w @ to_bytes (data_frame (s_seq s) d)"
      "room w1 + 4 = room w" "sender_at_rest s1" "s_seq s1 = s_seq s + 1"
    using send_byte_acked [of w s "stream_acks (s_seq s + 1) ds @ rest" d] Cons.prems by auto
  obtain w' s' where 2: "send_all_from p slice_byte_source (of_nat (Suc k)) w1 s1 (slice_source_new ds) =
      Some (w', s', slice_source_new [], Inr (of_nat (Suc k + length ds)))" "ok w'" "avail w' = rest"
      "sent w' = sent w1 @ stream_frames (s_seq s1) ds" "s_state s' = TxFinished"
    using Cons.IH [of w1 s1 "Suc k"] 1 Cons.prems by auto
  have read: "src_read slice_byte_source (slice_source_new (d # ds)) = (slice_source_new ds, Inr (Some d))"
    by (simp add: slice_byte_source_def slice_source_new_def)
  have inc: "sat_inc (of_nat k :: u64) = of_nat (Suc k)" using Cons.prems(5) by (intro sat_inc_of_nat) simp
  have "send_all_from p slice_byte_source (of_nat k) w s (slice_source_new (d # ds)) =
      send_all_from p slice_byte_source (of_nat (Suc k)) w1 s1 (slice_source_new ds)"
    by (subst send_all_from.simps) (simp add: read 1(1) inc del: of_nat_Suc)
  then show ?case using 1 2 by simp
qed

end

text \<open>
  C16: with the replies of the peer on the wire, \<open>send_bytes\<close> returns the number of bytes and has
  written exactly one DATA frame per byte, numbered consecutively modulo 256, and FINISH with the
  next number.
\<close>

theorem send_bytes_writes_stream:
  assumes "byte_link p sent avail room ok" and "ok w" and "sender_at_rest s"
    and "avail w = stream_acks (sender_next_seq s) ds" and "4 * (length ds + 1) \<le> room w"
    and "length ds < 2 ^ 64"
  shows "\<exists>w' s'. send_bytes p w s ds = Some (w', s', Inr (of_nat (length ds))) \<and>
    sent w' = sent w @ stream_frames (sender_next_seq s) ds \<and> s_state s' = TxFinished"
proof -
  have q: "sender_next_seq s = s_seq s" by (simp add: sender_next_seq_def seq_defs)
  show ?thesis
    using byte_link.send_all_acked [OF assms(1,2) _ assms(3,5), of "[]" 0] assms(4,6)
    unfolding q by (auto simp: send_bytes_def send_all_def)
qed

theorem send_bytes_writes_stream_witness:
  "\<exists>w' s'. send_bytes mock_port (mock_with_incoming [2, 0, 0, 0xd6, 2, 1, 0, 0xc3]) sender_new [9] =
      Some (w', s', Inr 1) \<and>
    mock_written w' = [1, 0, 9, 0x54, 5, 1, 0, 0xd5] \<and> s_state s' = TxFinished"
proof -
  have enc: "to_bytes (ack_frame 0) = [2, 0, 0, 0xd6]" "to_bytes (ack_frame 1) = [2, 1, 0, 0xc3]"
    "to_bytes (data_frame 0 9) = [1, 0, 9, 0x54]" "to_bytes (finish_frame 1) = [5, 1, 0, 0xd5]"
    by (simp_all add: to_bytes_def frame_defs crc8_header_def crc_eval)
  have s: "sender_at_rest sender_new" "sender_next_seq sender_new = 0"
    by (simp_all add: sender_at_rest_def sender_new_def sender_can_offer_data_def sender_next_seq_def seq_defs)
      (simp_all add: sender_with_policy_def seq_defs)
  show ?thesis
    using send_bytes_writes_stream [OF mock_link.byte_link_axioms, of "mock_with_incoming
        [2, 0, 0, 0xd6, 2, 1, 0, 0xc3]" sender_new "[9]"] s
    by (simp add: enc)
qed

section \<open>Receiving\<close>

lemma idle_tick_room:
  assumes "ib_limit b = Some l" and "l \<noteq> - 1" and "unat (ib_idle b) < unat l"
  shows "idle_tick b = (b\<lparr>ib_idle := ib_idle b + 1\<rparr>, Inr ()) \<and> unat (ib_idle b + 1) = unat (ib_idle b) + 1"
  using idle_tick_step [OF assms(1,2)] assms(3) by (simp add: word_le_nat_alt)

lemma drain_pending:
  "poll st = (st', Inr OutPending :: 'e error + poll_outcome) \<Longrightarrow>
    idle_tick b = (b', Inr () :: 'e error + unit) \<Longrightarrow>
    drain_recv poll snk st k b n = drain_recv poll snk st' k b' n"
  by (subst drain_recv.simps) simp

lemma drain_polls_pending:
  fixes p :: "('w, 'e) port"
  assumes "receiver_polls p m w r = (w', r', [])" and "ib_limit b = Some l" and "l \<noteq> - 1"
    and "unat (ib_idle b) + m \<le> unat l"
  shows "\<exists>b'. drain_recv (receiver_step p) snk (w, r) k b n = drain_recv (receiver_step p) snk (w', r') k b' n \<and>
    ib_limit b' = Some l \<and> unat (ib_idle b') = unat (ib_idle b) + m"
  using assms
proof (induction m arbitrary: w r b)
  case 0
  then show ?case by auto
next
  case (Suc m)
  obtain w1 r1 res where 1: "receiver_poll p w r = (w1, r1, res)" by (metis prod_cases3)
  then have 2: "res = Inr OutPending" "receiver_polls p m w1 r1 = (w', r', [])"
    using Suc.prems(1) by (auto split: prod.splits if_splits)
  let ?b = "b\<lparr>ib_idle := ib_idle b + 1\<rparr>"
  have t: "idle_tick b = (?b, Inr () :: 'e error + unit)" "unat (ib_idle ?b) = unat (ib_idle b) + 1"
    using idle_tick_room [OF Suc.prems(2,3), where ?'a = 'e] Suc.prems(4) by simp_all
  have "drain_recv (receiver_step p) snk (w, r) k b n = drain_recv (receiver_step p) snk (w1, r1) k ?b n"
    using 1 2 t(1) by (intro drain_pending) (simp_all add: receiver_step_def)
  moreover obtain b' where "drain_recv (receiver_step p) snk (w1, r1) k ?b n =
      drain_recv (receiver_step p) snk (w', r') k b' n"
    "ib_limit b' = Some l" "unat (ib_idle b') = unat (ib_idle ?b) + m"
    using Suc.IH [OF 2(2), of ?b] Suc.prems t(2) by auto
  ultimately show ?case using t(2) by auto
qed

lemma slice_sink_ok:
  assumes "sk_pos k < length (sk_buf k)"
  shows "\<exists>k'. sink_write slice_byte_sink d k = (k', Inr ()) \<and> sk_pos k' = Suc (sk_pos k) \<and>
    length (sk_buf k') = length (sk_buf k) \<and> slice_sink_written k' = slice_sink_written k @ [d]"
  using assms by (simp add: slice_byte_sink_def slice_sink_written_def take_Suc_update)

context byte_link
begin

lemma recv_all_stream:
  assumes "ok w" and "avail w = stream_frames e ds @ rest" and "at_rest r" and "rx_session_of r = RsOpen e"
    and "4 * (length ds + 1) \<le> room w" and "ib_limit b = Some l" and "l \<noteq> - 1" and "ib_idle b = 0"
    and "6 \<le> unat l" and "sk_pos k + length ds \<le> length (sk_buf k)"
  shows "\<exists>w' r' k' n'. drain_recv (receiver_step p) slice_byte_sink (w, r) k b n =
      Some ((w', r'), k', Inr n') \<and> ok w' \<and> avail w' = rest \<and> at_rest r' \<and>
    rx_session_of r' = RsFinished (e + of_nat (length ds)) \<and>
    sent w' = sent w @ stream_acks e ds \<and> slice_sink_written k' = slice_sink_written k @ ds"
  using assms
proof (induction ds arbitrary: w r b k n e)
  case Nil
  have dec: "from_bytes (to_bytes (finish_frame e)) = Inr (finish_frame e)"
    using from_bytes_iff [OF length_to_bytes] by blast
  obtain w0 r0 w' r' where 1: "receiver_polls p 6 w r = (w0, r0, [])"
      "receiver_poll p w0 r0 = (w', r', Inr OutTransferFinished)" "ok w'" "avail w' = rest"
      "sent w' = sent w @ to_bytes (ack_frame e)" "at_rest r'" "rx_session_of r' = RsFinished e"
    using window_step [of w "to_bytes (finish_frame e)" rest r "RsFinished e" "Some (ack_frame e)"
        OutTransferFinished] Nil dec by auto
  obtain b' where "drain_recv (receiver_step p) slice_byte_sink (w, r) k b n =
      drain_recv (receiver_step p) slice_byte_sink (w0, r0) k b' n"
    using drain_polls_pending [OF 1(1) Nil(6,7), where snk = slice_byte_sink and k = k and n = n] Nil(8,9) by auto
  moreover have "drain_recv (receiver_step p) slice_byte_sink (w0, r0) k b' n = Some ((w', r'), k, Inr n)"
    by (subst drain_recv.simps) (simp add: receiver_step_def 1(2))
  ultimately show ?case using 1 by simp
next
  case (Cons d ds)
  have dec: "from_bytes (to_bytes (data_frame e d)) = Inr (data_frame e d)"
    using from_bytes_iff [OF length_to_bytes] by blast
  obtain w0 r0 w1 r1 where 1: "receiver_polls p 6 w r = (w0, r0, [])"
      "receiver_poll p w0 r0 = (w1, r1, Inr (OutDelivered d))" "ok w1" "avail w1 = stream_frames (e + 1) ds @ rest"
      "sent w1 = sent w @ to_bytes (ack_frame e)" "room w1 + 4 = room w" "at_rest r1"
      "rx_session_of r1 = RsOpen (e + 1)"
    using window_step [of w "to_bytes (data_frame e d)" "stream_frames (e + 1) ds @ rest" r "RsOpen (e + 1)"
        "Some (ack_frame e)" "OutDelivered d"] Cons.prems dec by (auto simp: data_frame_def raw_frame_def)
  obtain b' where b': "drain_recv (receiver_step p) slice_byte_sink (w, r) k b n =
      drain_recv (receiver_step p) slice_byte_sink (w0, r0) k b' n" "ib_limit b' = Some l"
    using drain_polls_pending [OF 1(1) Cons.prems(6,7), where snk = slice_byte_sink and k = k and n = n]
      Cons.prems(8,9) by auto
  obtain k1 where k1: "sink_write slice_byte_sink d k = (k1, Inr ())" "sk_pos k1 = Suc (sk_pos k)"
      "length (sk_buf k1) = length (sk_buf k)" "slice_sink_written k1 = slice_sink_written k @ [d]"
    using slice_sink_ok [of k d] Cons.prems(10) by auto
  have step: "drain_recv (receiver_step p) slice_byte_sink (w0, r0) k b' n =
      drain_recv (receiver_step p) slice_byte_sink (w1, r1) k1 (idle_reset b') (sat_inc n)"
    by (subst drain_recv.simps) (simp add: receiver_step_def 1(2) k1(1))
  have rb: "ib_limit (idle_reset b') = Some l" "ib_idle (idle_reset b') = 0"
    using b'(2) by (simp_all add: idle_reset_def)
  have room: "4 * (length ds + 1) \<le> room w1" "sk_pos k1 + length ds \<le> length (sk_buf k1)"
    using Cons.prems(5,10) 1(6) k1 by simp_all
  obtain w' r' k' n' where 2: "drain_recv (receiver_step p) slice_byte_sink (w1, r1) k1 (idle_reset b') (sat_inc n) =
      Some ((w', r'), k', Inr n')" "ok w'" "avail w' = rest" "at_rest r'"
      "rx_session_of r' = RsFinished (e + 1 + of_nat (length ds))"
      "sent w' = sent w1 @ stream_acks (e + 1) ds" "slice_sink_written k' = slice_sink_written k1 @ ds"
    using Cons.IH [OF 1(3,4,7,8) room(1) rb(1) Cons.prems(7) rb(2) Cons.prems(9) room(2), of "sat_inc n"]
    by auto
  then show ?case using b'(1) step 1(5) k1(4) by (simp add: algebra_simps)
qed

end

text \<open>
  C17: fed the frames of a payload, \<open>recv_bytes\<close> returns that payload, whatever its length and
  its bytes, answers every frame with its ACK, and ends when FINISH is acknowledged.
\<close>

theorem recv_bytes_rebuilds_payload:
  assumes "byte_link p sent avail room ok" and "ok w" and "at_rest r"
    and "rx_session_of r = RsOpen e" and "avail w = stream_frames e ds"
    and "4 * (length ds + 1) \<le> room w" and "length ds \<le> length buf"
  shows "\<exists>w' r'. recv_bytes p w r buf = Some ((w', r'), Inr ds) \<and>
    sent w' = sent w @ stream_acks e ds \<and> avail w' = [] \<and>
    rx_session_of r' = RsFinished (e + of_nat (length ds))"
proof -
  have l: "ib_limit idle_default = Some 1000000" "(1000000 :: u32) \<noteq> - 1" "ib_idle idle_default = 0"
    "6 \<le> unat (1000000 :: u32)" by (simp_all add: idle_default_def idle_new_def)
  obtain w' r' k' n' where 1: "drain_recv (receiver_step p) slice_byte_sink (w, r) (slice_sink_new buf) idle_default 0 =
      Some ((w', r'), k', Inr n')" "avail w' = []" "rx_session_of r' = RsFinished (e + of_nat (length ds))"
      "sent w' = sent w @ stream_acks e ds"
      "slice_sink_written k' = slice_sink_written (slice_sink_new buf) @ ds"
    using byte_link.recv_all_stream [OF assms(1,2) _ assms(3,4,6) l, of "[]" "slice_sink_new buf" 0]
      assms(5,7) by (auto simp: slice_sink_new_def)
  have "slice_sink_written (slice_sink_new buf) = []" by (simp add: slice_sink_written_def slice_sink_new_def)
  then show ?thesis using 1
    by (simp add: recv_bytes_def recv_all_def recv_all_budgeted_def slice_sink_filled_def
        slice_sink_written_def)
qed

theorem recv_bytes_rebuilds_payload_witness:
  "\<exists>w' r'. recv_bytes mock_port (mock_with_incoming [1, 0, 9, 0x54, 5, 1, 0, 0xd5]) receiver_new [0, 0] =
      Some ((w', r'), Inr [9]) \<and> mock_written w' = [2, 0, 0, 0xd6, 2, 1, 0, 0xc3] \<and>
    rx_session_of r' = RsFinished 1"
proof -
  have enc: "to_bytes (ack_frame 0) = [2, 0, 0, 0xd6]" "to_bytes (ack_frame 1) = [2, 1, 0, 0xc3]"
    "to_bytes (data_frame 0 9) = [1, 0, 9, 0x54]" "to_bytes (finish_frame 1) = [5, 1, 0, 0xd5]"
    by (simp_all add: to_bytes_def frame_defs crc8_header_def crc_eval)
  have "rx_session_of receiver_new = RsOpen 0"
    by (simp add: rx_session_of_def receiver_new_def seq_new_def)
  then show ?thesis
    using recv_bytes_rebuilds_payload [OF mock_link.byte_link_axioms, of "mock_with_incoming
        [1, 0, 9, 0x54, 5, 1, 0, 0xd5]" receiver_new 0 "[9]" "[0, 0]"]
    by (simp add: enc) blast
qed

section \<open>Receiving from a silent peer\<close>

context byte_link
begin

lemma polls_silent:
  assumes "ok w" and "avail w = []" and "receiver_wf r" and "r_pending r = None"
  shows "\<exists>w' r'. receiver_polls p m w r = (w', r', []) \<and> ok w' \<and> avail w' = [] \<and> sent w' = sent w \<and>
    receiver_wf r' \<and> r_pending r' = None"
  using assms
proof (induction m arbitrary: w r)
  case 0
  then show ?case by simp
next
  case (Suc m)
  obtain w1 where w1: "read_byte p w = (w1, Inr None)" "ok w1" "sent w1 = sent w" "avail w1 = []"
    using read_empty [OF Suc.prems(1,2)] by auto
  let ?r = "receiver_settle_idle (r\<lparr>r_state := RxReceiving\<rparr>)"
  have p1: "receiver_poll p w r = (w1, ?r, Inr OutPending)"
    using Suc.prems(3,4) w1 by (simp add: receiver_poll_def receiver_wf_def)
  have "r_pending ?r = None" using Suc.prems(4) by (simp add: receiver_settle_idle_def)
  then show ?case
    using Suc.IH [OF w1(2,4) receiver_wf_poll [OF Suc.prems(3) p1]] p1 w1(3) by auto
qed

end

text \<open>
  Against a peer that never sends, \<open>recv_all_budgeted\<close> does not hang: whatever is left of a
  budget other than the largest one, it returns \<open>IdleBudgetExhausted\<close> without having touched the
  sink.
\<close>

theorem recv_all_silent_peer:
  assumes "byte_link p sent avail room ok" and "ok w" and "avail w = []" and "receiver_wf r"
    and "r_pending r = None" and "ib_limit b = Some l" and "l \<noteq> - 1" and "ib_idle b \<le> l"
  shows "\<exists>w' r'. recv_all_budgeted p snk w r k b =
      Some ((w', r'), k, Inl (SeProtocol ErrIdleBudgetExhausted)) \<and> sent w' = sent w"
proof -
  let ?m = "unat l - unat (ib_idle b)"
  have le: "unat (ib_idle b) + ?m = unat l" using assms(8) by (simp add: word_le_nat_alt)
  obtain w0 r0 where 0: "receiver_polls p ?m w r = (w0, r0, [])" "ok w0" "avail w0 = []" "sent w0 = sent w"
      "receiver_wf r0" "r_pending r0 = None"
    using byte_link.polls_silent [OF assms(1-5), of ?m] by auto
  obtain w' r' where 1: "receiver_polls p 1 w0 r0 = (w', r', [])" "sent w' = sent w"
    using byte_link.polls_silent [OF assms(1) 0(2,3,5,6), of 1] 0(4) by auto
  then have poll: "receiver_poll p w0 r0 = (w', r', Inr OutPending)"
    by (auto split: prod.splits if_splits)
  obtain b' where b': "drain_recv (receiver_step p) snk (w, r) k b 0 =
      drain_recv (receiver_step p) snk (w0, r0) k b' 0" "ib_limit b' = Some l"
      "unat (ib_idle b') = unat (ib_idle b) + ?m"
    using drain_polls_pending [OF 0(1) assms(6,7), where snk = snk and k = k and n = 0] le by auto
  have "ib_idle b' = l" using b'(3) le by (simp add: word_unat_eq_iff)
  then have "ib_idle b' \<le> l" "\<not> unat (ib_idle b') + 1 \<le> unat l" by simp_all
  then have "idle_tick b' = (b'\<lparr>ib_idle := ib_idle b' + 1\<rparr>, Inl ErrIdleBudgetExhausted :: 'b error + unit)"
    using idle_tick_step [OF b'(2) assms(7), where ?'a = 'b] by simp
  then have "drain_recv (receiver_step p) snk (w0, r0) k b' 0 =
      Some ((w', r'), k, Inl (SeProtocol ErrIdleBudgetExhausted))"
    by (subst drain_recv.simps) (simp add: receiver_step_def poll)
  then show ?thesis using b'(1) 1(2) by (simp add: recv_all_budgeted_def)
qed

theorem recv_all_silent_peer_witness:
  "\<exists>w' r'. recv_all_budgeted mock_port slice_byte_sink (mock_with_incoming []) receiver_new (slice_sink_new [0])
      (idle_new 3) = Some ((w', r'), slice_sink_new [0], Inl (SeProtocol ErrIdleBudgetExhausted)) \<and>
    mock_written w' = []"
  using recv_all_silent_peer [OF mock_link.byte_link_axioms, of "mock_with_incoming []" receiver_new
      "idle_new 3" 3 slice_byte_sink "slice_sink_new [0]"]
  by (simp add: receiver_new_def [THEN arg_cong [where f = r_pending]] idle_new_def)

end
