(* ===== verification/Pump.thy ===== *)
theory Pump
  imports Streams
begin

text \<open>
  The cooperative session pump (\<open>src/pump.rs\<close>): one receiver step, then one sender step, then one
  event.  \<open>Pump\<close> and \<open>WindowedPump\<close> have the same body over their own sender and receiver, so the
  step is defined once over the operations it calls and instantiated twice.  Its two transports
  are two ports over one world.  The lemmas give the order of the events, what becomes of every
  delivered byte, and that no completion is lost or reported twice.
\<close>

section \<open>The code\<close>

record session_stats =
  st_bytes_delivered :: u32
  st_frames_sent :: u32
  st_retries :: u32
  st_nacks :: u32
  st_duplicates :: u32
  st_crc_errors :: u32
  st_ticks :: u64

definition session_stats_new :: session_stats where
  "session_stats_new =
     \<lparr>st_bytes_delivered = 0, st_frames_sent = 0, st_retries = 0, st_nacks = 0, st_duplicates = 0,
      st_crc_errors = 0, st_ticks = 0\<rparr>"

datatype pump_event = EvIdle | EvProgress | EvSent | EvReceived u8 | EvCompleted | EvAborted

record ('tx, 'rx) pump =
  pm_tx :: 'tx
  pm_rx :: 'rx
  pm_stats :: session_stats
  pm_last_acked :: bool
  pm_tx_done_seen :: bool
  pm_pending_completed :: bool

definition pump_new :: "'tx \<Rightarrow> 'rx \<Rightarrow> ('tx, 'rx) pump" where
  "pump_new tx rx =
     \<lparr>pm_tx = tx, pm_rx = rx, pm_stats = session_stats_new, pm_last_acked = False,
      pm_tx_done_seen = False, pm_pending_completed = False\<rparr>"

definition pump_on :: "(sender, receiver) pump" where
  "pump_on = pump_new sender_new receiver_new"

definition pump_on_with :: "retry_policy \<Rightarrow> (sender, receiver) pump" where
  "pump_on_with policy = pump_new (sender_with_policy policy) receiver_new"

definition wpump_on :: "nat \<Rightarrow> (wsender, wreceiver) pump" where
  "wpump_on n = pump_new (wsender_new n) (wreceiver_new n)"

definition wpump_on_with :: "nat \<Rightarrow> retry_policy \<Rightarrow> (wsender, wreceiver) pump" where
  "wpump_on_with n policy = pump_new (wsender_with_policy n policy) (wreceiver_new n)"

definition pump_abort :: "(sender, receiver) pump \<Rightarrow> (sender, receiver) pump \<times> ('e error + unit)" where
  "pump_abort pm = (case sender_offer_abort (pm_tx pm) of (tx', r) \<Rightarrow> (pm\<lparr>pm_tx := tx'\<rparr>, r))"

definition wpump_abort :: "(wsender, wreceiver) pump \<Rightarrow> (wsender, wreceiver) pump \<times> ('e error + unit)" where
  "wpump_abort pm = (case wsender_offer_abort (pm_tx pm) of (tx', r) \<Rightarrow> (pm\<lparr>pm_tx := tx'\<rparr>, r))"

definition wpump_set_window_limit :: "nat \<Rightarrow> (wsender, wreceiver) pump \<Rightarrow> (wsender, wreceiver) pump" where
  "wpump_set_window_limit limit pm =
     pm\<lparr>pm_tx := wsender_set_window_limit limit (pm_tx pm),
        pm_rx := wreceiver_set_window_limit limit (pm_rx pm)\<rparr>"

definition wpump_window_limit :: "(wsender, wreceiver) pump \<Rightarrow> nat" where
  "wpump_window_limit pm = wt_limit (pm_tx pm)"

text \<open>The counters the receiver's outcome and the sender's mark move.\<close>

definition count_rx :: "poll_outcome \<Rightarrow> session_stats \<Rightarrow> session_stats" where
  "count_rx rx st =
     (case rx of
        OutDelivered _ \<Rightarrow> st\<lparr>st_bytes_delivered := sat_inc (st_bytes_delivered st)\<rparr>
      | OutDuplicateIgnored \<Rightarrow> st\<lparr>st_duplicates := sat_inc (st_duplicates st)\<rparr>
      | OutRejected \<Rightarrow> st\<lparr>st_nacks := sat_inc (st_nacks st)\<rparr>
      | OutCrcRejected \<Rightarrow> st\<lparr>st_nacks := sat_inc (st_nacks st), st_crc_errors := sat_inc (st_crc_errors st)\<rparr>
      | _ \<Rightarrow> st)"

definition count_mark :: "io_mark \<Rightarrow> session_stats \<Rightarrow> session_stats" where
  "count_mark mark st0 =
     (let st = (if im_frame_on_wire mark then st0\<lparr>st_frames_sent := sat_inc (st_frames_sent st0)\<rparr> else st0)
      in if im_retransmit mark then st\<lparr>st_retries := sat_inc (st_retries st)\<rparr> else st)"

text \<open>
  The event of a poll whose two steps succeeded, and whether a completion is put off to the next
  poll because a byte goes first.
\<close>

definition pump_event_of :: "poll_outcome \<Rightarrow> tx_poll \<Rightarrow> io_mark \<Rightarrow> bool \<Rightarrow> pump_event \<times> bool" where
  "pump_event_of rx tx mark tx_done_edge =
     (if rx = OutAborted \<or> tx = PollAborted then (EvAborted, False)
      else case rx of
          OutDelivered byte \<Rightarrow> (EvReceived byte, tx_done_edge)
        | _ \<Rightarrow>
            if rx = OutTransferFinished \<or> tx_done_edge then (EvCompleted, False)
            else if tx = PollAcked then (EvSent, False)
            else if rx \<noteq> OutPending \<or> tx \<noteq> PollPending \<or> im_frame_on_wire mark \<or> im_retransmit mark \<or>
                    im_nack mark
            then (EvProgress, False) else (EvIdle, False))"

definition pump_step ::
  "('tx \<Rightarrow> bool) \<Rightarrow> ('tx \<Rightarrow> 'tx) \<Rightarrow> ('tx \<Rightarrow> 'tx \<times> io_mark) \<Rightarrow>
     ('w \<Rightarrow> 'tx \<Rightarrow> 'w \<times> 'tx \<times> ('e error + tx_poll)) \<Rightarrow>
     ('w \<Rightarrow> 'rx \<Rightarrow> 'w \<times> 'rx \<times> ('e error + poll_outcome)) \<Rightarrow>
     'w \<Rightarrow> ('tx, 'rx) pump \<Rightarrow> 'w \<times> ('tx, 'rx) pump \<times> ('e error + pump_event)" where
  "pump_step holds force take_mark tx_poll rx_poll w pm0 =
     (let pm = pm0\<lparr>pm_stats := (pm_stats pm0)\<lparr>st_ticks := sat_inc (st_ticks (pm_stats pm0))\<rparr>\<rparr>
      in if pm_pending_completed pm then (w, pm\<lparr>pm_pending_completed := False\<rparr>, Inr EvCompleted)
         else (case rx_poll w (pm_rx pm) of
             (w1, rx', Inl e) \<Rightarrow> (w1, pm\<lparr>pm_rx := rx'\<rparr>, Inl e)
           | (w1, rx', Inr rx) \<Rightarrow>
               let pm1 = pm\<lparr>pm_rx := rx', pm_stats := count_rx rx (pm_stats pm),
                     pm_tx := if rx = OutAborted \<and> \<not> holds (pm_tx pm) then force (pm_tx pm) else pm_tx pm\<rparr>
               in (case tx_poll w1 (pm_tx pm1) of
                     (w2, tx', Inl e) \<Rightarrow> (w2, pm1\<lparr>pm_tx := tx'\<rparr>, Inl e)
                   | (w2, tx', Inr tx) \<Rightarrow>
                       (case take_mark tx' of
                          (tx'', mark) \<Rightarrow>
                            let tx_done_edge = (tx = PollTransferDone \<and> \<not> pm_tx_done_seen pm1);
                                pm2 = pm1\<lparr>pm_tx := tx'', pm_last_acked := (tx = PollAcked),
                                  pm_stats := count_mark mark (pm_stats pm1),
                                  pm_tx_done_seen := (tx = PollTransferDone)\<rparr>
                            in (case pump_event_of rx tx mark tx_done_edge of
                                  (ev, later) \<Rightarrow>
                                    (w2, if later then pm2\<lparr>pm_pending_completed := True\<rparr> else pm2,
                                     Inr ev))))))"

definition pump_poll ::
  "('w, 'e) port \<Rightarrow> ('w, 'e) port \<Rightarrow> 'w \<Rightarrow> (sender, receiver) pump \<Rightarrow>
     'w \<times> (sender, receiver) pump \<times> ('e error + pump_event)" where
  "pump_poll ptx prx =
     pump_step sender_holds_session_control sender_force_abort sender_take_mark (sender_poll ptx)
       (receiver_poll prx)"

definition wpump_poll ::
  "('w, 'e) port \<Rightarrow> ('w, 'e) port \<Rightarrow> 'w \<Rightarrow> (wsender, wreceiver) pump \<Rightarrow>
     'w \<times> (wsender, wreceiver) pump \<times> ('e error + pump_event)" where
  "wpump_poll ptx prx =
     pump_step wsender_holds_session_control wsender_force_abort wsender_take_mark (wsender_poll ptx)
       (wreceiver_poll prx)"

text \<open>
  \<open>send_all_budgeted\<close>: the locals \<open>n\<close>, \<open>hold\<close>, \<open>exhausted\<close> and \<open>finish_offered\<close> of the loop are a
  record; \<open>None\<close> is the loop that never ends.
\<close>

record send_loop =
  sl_n :: u64
  sl_hold :: "u8 option"
  sl_exhausted :: bool
  sl_finish_offered :: bool

definition pump_offer ::
  "(sender, receiver) pump \<Rightarrow> send_loop \<Rightarrow> (sender, receiver) pump \<times> send_loop \<times> ('e error + unit)" where
  "pump_offer pm l =
     (if s_state (pm_tx pm) \<noteq> TxIdle then (pm, l, Inr ())
      else case sl_hold l of
          Some b \<Rightarrow>
            (case sender_offer b (pm_tx pm) of
               (tx', r) \<Rightarrow> (pm\<lparr>pm_tx := tx'\<rparr>, l\<lparr>sl_hold := None\<rparr>, r))
        | None \<Rightarrow>
            if sl_exhausted l \<and> \<not> sl_finish_offered l
            then (case sender_offer_finish (pm_tx pm) of
                    (tx', Inr _) \<Rightarrow> (pm\<lparr>pm_tx := tx'\<rparr>, l\<lparr>sl_finish_offered := True\<rparr>, Inr ())
                  | (tx', Inl e) \<Rightarrow>
                      (pm\<lparr>pm_tx := tx'\<rparr>, l, if e = ErrNotIdle then Inr () else Inl e))
            else (pm, l, Inr ()))"

partial_function (option) pump_send_all_loop ::
  "('w, 'e) port \<Rightarrow> ('w, 'e) port \<Rightarrow> ('s, 'a) source \<Rightarrow> send_loop \<Rightarrow> 'w \<Rightarrow> (sender, receiver) pump \<Rightarrow>
     's \<Rightarrow> idle_budget \<Rightarrow> ('w \<times> (sender, receiver) pump \<times> 's \<times> (('e, 'a) stream_error + u64)) option" where
  "pump_send_all_loop ptx prx src l0 w pm0 s0 budget =
     (case (if sl_hold l0 = None \<and> \<not> sl_exhausted l0 then
              (case src_read src s0 of
                 (s, Inl e) \<Rightarrow> (s, l0, Some e)
               | (s, Inr (Some b)) \<Rightarrow> (s, l0\<lparr>sl_hold := Some b\<rparr>, None)
               | (s, Inr None) \<Rightarrow> (s, l0\<lparr>sl_exhausted := True\<rparr>, None))
            else (s0, l0, None)) of
        (s, l, Some e) \<Rightarrow> Some (w, pm0, s, Inl (SeApplication e))
      | (s, l, None) \<Rightarrow>
          (case pump_offer pm0 l of
             (pm, l1, Inl e) \<Rightarrow> Some (w, pm, s, Inl (SeProtocol e))
           | (pm, l1, Inr _) \<Rightarrow>
               (case pump_poll ptx prx w pm of
                  (w', pm', Inl e) \<Rightarrow> Some (w', pm', s, Inl (SeProtocol e))
                | (w', pm', Inr ev) \<Rightarrow>
                    let l2 = (if pm_last_acked pm' then l1\<lparr>sl_n := sat_inc (sl_n l1)\<rparr> else l1)
                    in (case ev of
                          EvCompleted \<Rightarrow> Some (w', pm', s, Inr (sl_n l2))
                        | EvAborted \<Rightarrow> Some (w', pm', s, Inl (SeProtocol ErrAborted))
                        | EvSent \<Rightarrow> pump_send_all_loop ptx prx src l2 w' pm' s (idle_reset budget)
                        | EvReceived _ \<Rightarrow> pump_send_all_loop ptx prx src l2 w' pm' s (idle_reset budget)
                        | _ \<Rightarrow>
                            (case idle_tick budget of
                               (budget', Inl e) \<Rightarrow> Some (w', pm', s, Inl (SeProtocol e))
                             | (budget', Inr _) \<Rightarrow> pump_send_all_loop ptx prx src l2 w' pm' s budget')))))"

definition pump_send_all_budgeted ::
  "('w, 'e) port \<Rightarrow> ('w, 'e) port \<Rightarrow> ('s, 'a) source \<Rightarrow> 'w \<Rightarrow> (sender, receiver) pump \<Rightarrow> 's \<Rightarrow>
     idle_budget \<Rightarrow> ('w \<times> (sender, receiver) pump \<times> 's \<times> (('e, 'a) stream_error + u64)) option" where
  "pump_send_all_budgeted ptx prx src w pm s budget =
     pump_send_all_loop ptx prx src
       \<lparr>sl_n = 0, sl_hold = None, sl_exhausted = False, sl_finish_offered = False\<rparr> w pm s budget"

definition pump_send_all ::
  "('w, 'e) port \<Rightarrow> ('w, 'e) port \<Rightarrow> ('s, 'a) source \<Rightarrow> 'w \<Rightarrow> (sender, receiver) pump \<Rightarrow> 's \<Rightarrow>
     ('w \<times> (sender, receiver) pump \<times> 's \<times> (('e, 'a) stream_error + u64)) option" where
  "pump_send_all ptx prx src w pm s = pump_send_all_budgeted ptx prx src w pm s idle_default"

section \<open>What a poll reports\<close>

lemma pump_event_cases:
  "pump_event_of rx tx mark edge = (ev, later) \<Longrightarrow>
    (ev = EvAborted \<longleftrightarrow> rx = OutAborted \<or> tx = PollAborted) \<and>
    (ev \<noteq> EvAborted \<longrightarrow>
       (\<forall>b. ev = EvReceived b \<longleftrightarrow> rx = OutDelivered b) \<and>
       (later \<longleftrightarrow> edge \<and> (\<exists>b. rx = OutDelivered b)) \<and>
       (ev = EvCompleted \<longleftrightarrow> (rx = OutTransferFinished \<or> edge) \<and> (\<forall>b. rx \<noteq> OutDelivered b))) \<and>
    (ev = EvAborted \<longrightarrow> \<not> later)"
  by (cases rx) (auto simp: pump_event_of_def split: if_splits)

text \<open>A step that gets to the sender: what the two polls said.\<close>

lemma pump_step_ran:
  assumes "pump_step holds force take_mark tx_poll rx_poll w pm = (w', pm', Inr ev)"
    and "\<not> pm_pending_completed pm"
  obtains w1 rx' rx tx mark where "rx_poll w (pm_rx pm) = (w1, rx', Inr rx)"
    "pump_event_of rx tx mark (tx = PollTransferDone \<and> \<not> pm_tx_done_seen pm) = (ev, pm_pending_completed pm')"
    "pm_tx_done_seen pm' = (tx = PollTransferDone)"
proof -
  obtain w1 rx' rr where 1: "rx_poll w (pm_rx pm) = (w1, rx', rr)" by (metis prod_cases3)
  then obtain rx where rx: "rr = Inr rx"
    using assms by (cases rr) (simp_all add: pump_step_def)
  define tx0 where "tx0 = (if rx = OutAborted \<and> \<not> holds (pm_tx pm) then force (pm_tx pm) else pm_tx pm)"
  obtain w2 tx' tr where 2: "tx_poll w1 tx0 = (w2, tx', tr)" by (metis prod_cases3)
  then obtain tx where tx: "tr = Inr tx"
    using assms 1 rx by (cases tr) (simp_all add: pump_step_def tx0_def [symmetric] Let_def cong: if_cong)
  obtain tx'' mark where 3: "take_mark tx' = (tx'', mark)" by (metis surj_pair)
  obtain ev' later where 4: "pump_event_of rx tx mark (tx = PollTransferDone \<and> \<not> pm_tx_done_seen pm) =
      (ev', later)" by (metis surj_pair)
  have "ev' = ev \<and> pm_pending_completed pm' = later \<and> pm_tx_done_seen pm' = (tx = PollTransferDone)"
    using assms 1 2 3 4 rx tx by (simp add: pump_step_def tx0_def [symmetric] Let_def cong: if_cong) (auto split: if_splits)
  then show ?thesis using that [of w1 rx' rx tx mark] 1 4 rx by simp
qed

text \<open>A pump whose receiver is about to write the last byte of ACK(0) for the byte 9.\<close>

definition demo_pump :: "tx_state \<Rightarrow> (sender, receiver) pump" where
  "demo_pump st = pump_new (sender_new\<lparr>s_state := st\<rparr>)
     ((receiver_begin_reply (ack_frame 0) (PaDeliver 9) receiver_new)
        \<lparr>r_out := \<lparr>ob_buf = to_bytes (ack_frame 0), ob_pos = 3\<rparr>\<rparr>)"

lemma demo_pump_receiver:
  obtains w' rx' where "receiver_poll mock_port (mock_with_incoming []) (pm_rx (demo_pump st)) =
      (w', rx', Inr (OutDelivered 9))"
    "receiver_wf (pm_rx (demo_pump st))" "\<not> pm_pending_completed (demo_pump st)" "s_state (pm_tx (demo_pump st)) = st"
    "s_inflight (pm_tx (demo_pump st)) = None" "\<not> pm_tx_done_seen (demo_pump st)"
proof -
  have b: "to_bytes (ack_frame 0) = [2, 0, 0, 0xd6]"
    by (simp add: to_bytes_def frame_defs crc8_header_def crc_eval)
  have wr: "write_byte mock_port x (mock_with_incoming []) = ((mock_with_incoming [])
      \<lparr>mk_written_buf := (replicate 64 0)[0 := x], mk_written_len := 1\<rparr>, Inr ())" for x
    by (simp add: mock_port_def mock_with_incoming_def MOCK_CAP_def)
  obtain w' r' where "receiver_poll mock_port (mock_with_incoming []) (pm_rx (demo_pump st)) =
      (w', r', Inr (OutDelivered 9))"
    by (simp add: demo_pump_def pump_new_def receiver_poll_def receiver_reply_def receiver_pump_reply_def b
        ob_is_idle_def ob_peek_def ob_commit_def FRAME_LEN_def wr receiver_take_pending_def
        receiver_begin_reply_def)
  moreover have "receiver_wf (pm_rx (demo_pump st))"
    by (simp add: demo_pump_def pump_new_def receiver_wf_def receiver_begin_reply_def receiver_new_def
        receiver_is_closed_def ob_wf_def ob_is_idle_def FRAME_LEN_def seq_new_def to_bytes_def Let_def)
  ultimately show ?thesis using that by (simp add: demo_pump_def pump_new_def sender_new_def sender_with_policy_def)
qed

text \<open>Two polls of that pump with a sender that has just finished.\<close>

lemma demo_pump_polls:
  obtains w' pm' where "pump_poll mock_port mock_port (mock_with_incoming []) (demo_pump TxFinished) =
      (w', pm', Inr (EvReceived 9))" "pm_pending_completed pm'" "pm_tx_done_seen pm'"
proof -
  obtain w' rx' where r: "receiver_poll mock_port (mock_with_incoming []) (pm_rx (demo_pump TxFinished)) =
      (w', rx', Inr (OutDelivered 9))" "\<not> pm_pending_completed (demo_pump TxFinished)"
    "s_state (pm_tx (demo_pump TxFinished)) = TxFinished" "s_inflight (pm_tx (demo_pump TxFinished)) = None"
    "\<not> pm_tx_done_seen (demo_pump TxFinished)"
    using demo_pump_receiver [of TxFinished] by metis
  show ?thesis
    using that r by (simp add: pump_poll_def pump_step_def Let_def sender_poll_def sender_take_mark_def
        count_rx_def pump_event_of_def)
qed

text \<open>
  The order of the events of one poll.  When both steps succeed and neither side aborted,
  every byte the receiver delivers is the event of that poll, whatever the sender reports in the
  same poll; a completion that meets a byte is put off and is the event of the very next poll,
  which touches neither side.
\<close>

theorem pump_delivers_then_completes:
  assumes "pump_poll ptx prx w pm = (w', pm', Inr ev)" and "\<not> pm_pending_completed pm"
    and "receiver_poll prx w (pm_rx pm) = (w1, rx', Inr (OutDelivered b))" and "ev \<noteq> EvAborted"
  shows "ev = EvReceived b \<and>
    (pm_pending_completed pm' \<longleftrightarrow> pm_tx_done_seen pm' \<and> \<not> pm_tx_done_seen pm) \<and>
    (pm_pending_completed pm' \<longrightarrow>
       pump_poll ptx prx w' pm' = (w', pm'\<lparr>pm_pending_completed := False,
         pm_stats := (pm_stats pm')\<lparr>st_ticks := sat_inc (st_ticks (pm_stats pm'))\<rparr>\<rparr>, Inr EvCompleted))"
proof -
  obtain w1' rx'' rx tx mark where s: "receiver_poll prx w (pm_rx pm) = (w1', rx'', Inr rx)"
    "pump_event_of rx tx mark (tx = PollTransferDone \<and> \<not> pm_tx_done_seen pm) = (ev, pm_pending_completed pm')"
    "pm_tx_done_seen pm' = (tx = PollTransferDone)"
    by (rule pump_step_ran [OF assms(1) [unfolded pump_poll_def] assms(2)])
  have "pump_poll ptx prx w' pm' = (w', pm'\<lparr>pm_pending_completed := False,
      pm_stats := (pm_stats pm')\<lparr>st_ticks := sat_inc (st_ticks (pm_stats pm'))\<rparr>\<rparr>, Inr EvCompleted)"
    if "pm_pending_completed pm'"
    using that by (cases pm') (simp add: pump_poll_def pump_step_def)
  then show ?thesis using pump_event_cases [OF s(2)] s assms(3,4) by auto
qed

theorem pump_delivers_then_completes_witness:
  "case pump_poll mock_port mock_port (mock_with_incoming []) (demo_pump TxFinished) of (w', pm', r) \<Rightarrow>
     r = Inr (EvReceived 9) \<and> pm_pending_completed pm' \<and>
     (case pump_poll mock_port mock_port w' pm' of (w'', pm'', r') \<Rightarrow> w'' = w' \<and> r' = Inr EvCompleted)"
proof -
  obtain w' pm' where p: "pump_poll mock_port mock_port (mock_with_incoming []) (demo_pump TxFinished) =
      (w', pm', Inr (EvReceived 9))" "pm_pending_completed pm'"
    by (rule demo_pump_polls)
  obtain w1 rx' where r: "receiver_poll mock_port (mock_with_incoming []) (pm_rx (demo_pump TxFinished)) =
      (w1, rx', Inr (OutDelivered 9))" "\<not> pm_pending_completed (demo_pump TxFinished)"
    by (rule demo_pump_receiver)
  show ?thesis using pump_delivers_then_completes [OF p(1) r(2,1)] p by simp
qed

section \<open>Completions are conserved\<close>

text \<open>
  Whether a poll sees a completion: the receiver accepted FINISH, or the sender's \<open>TransferDone\<close>
  is new.
\<close>

definition pump_signal ::
  "('w, 'e) port \<Rightarrow> ('w, 'e) port \<Rightarrow> 'w \<Rightarrow> (sender, receiver) pump \<Rightarrow> bool" where
  "pump_signal ptx prx w pm =
     (\<not> pm_pending_completed pm \<and>
      (case receiver_poll prx w (pm_rx pm) of
         (w1, rx', Inr rx) \<Rightarrow> rx = OutTransferFinished \<or>
           (case pump_poll ptx prx w pm of (w', pm', _) \<Rightarrow> pm_tx_done_seen pm' \<and> \<not> pm_tx_done_seen pm)
       | _ \<Rightarrow> False))"

fun pump_run :: "('w, 'e) port \<Rightarrow> ('w, 'e) port \<Rightarrow> nat \<Rightarrow> 'w \<Rightarrow> (sender, receiver) pump \<Rightarrow>
    'w \<times> (sender, receiver) pump \<times> ('e error + pump_event) list \<times> nat" where
  "pump_run ptx prx 0 w pm = (w, pm, [], 0)"
| "pump_run ptx prx (Suc n) w pm =
     (case pump_poll ptx prx w pm of (w', pm', r) \<Rightarrow>
        case pump_run ptx prx n w' pm' of (w'', pm'', rs, k) \<Rightarrow>
          (w'', pm'', r # rs, k + (if pump_signal ptx prx w pm then 1 else 0)))"

lemma pump_step_conserves:
  assumes "pump_poll ptx prx w pm = (w', pm', Inr ev)" and "ev \<noteq> EvAborted"
  shows "(if ev = EvCompleted then 1 else 0) + (if pm_pending_completed pm' then 1 else 0) =
    (if pm_pending_completed pm then 1 else 0) + (if pump_signal ptx prx w pm then 1 else (0::nat))"
proof (cases "pm_pending_completed pm")
  case True
  then show ?thesis using assms by (auto simp: pump_poll_def pump_step_def pump_signal_def Let_def)
next
  case False
  obtain w1' rx'' rx tx mark where s: "receiver_poll prx w (pm_rx pm) = (w1', rx'', Inr rx)"
    "pump_event_of rx tx mark (tx = PollTransferDone \<and> \<not> pm_tx_done_seen pm) = (ev, pm_pending_completed pm')"
    "pm_tx_done_seen pm' = (tx = PollTransferDone)"
    by (rule pump_step_ran [OF assms(1) [unfolded pump_poll_def] False])
  have "pump_signal ptx prx w pm \<longleftrightarrow>
      rx = OutTransferFinished \<or> (tx = PollTransferDone \<and> \<not> pm_tx_done_seen pm)"
    by (simp add: pump_signal_def False s(1,3) assms(1))
  then show ?thesis using pump_event_cases [OF s(2)] s assms(2) False by auto
qed



section \<open>A failed sender hides what the receiver delivers\<close>

text \<open>
  The sender step runs after the receiver step and its error ends the poll.  So once the
  sender has failed, a byte the receiver delivers, and has acknowledged to the peer, is in no
  event: the poll returns \<open>RetriesExhausted\<close> and the receiver has moved on to the next number.
\<close>

theorem pump_failed_sender_drops_byte:
  assumes "s_state (pm_tx pm) = TxFailed" and "\<not> pm_pending_completed pm" and "receiver_wf (pm_rx pm)"
    and "receiver_poll prx w (pm_rx pm) = (w1, rx', Inr (OutDelivered b))"
  shows "\<exists>pm'. pump_poll ptx prx w pm = (w1, pm', Inl ErrRetriesExhausted) \<and> pm_rx pm' = rx' \<and>
    receiver_expected_seq rx' = receiver_expected_seq (pm_rx pm) + 1 \<and>
    st_bytes_delivered (pm_stats pm') = sat_inc (st_bytes_delivered (pm_stats pm))"
  using assms(1,2,4) delivered_step [OF assms(3,4)]
  by (auto simp: pump_poll_def pump_step_def sender_poll_def count_rx_def Let_def)

theorem pump_failed_sender_drops_byte_witness:
  "case pump_poll mock_port mock_port (mock_with_incoming []) (demo_pump TxFailed) of (w', pm', r) \<Rightarrow>
     r = Inl ErrRetriesExhausted \<and> receiver_expected_seq (pm_rx pm') = 1 \<and>
     st_bytes_delivered (pm_stats pm') = 1"
proof -
  obtain w1 rx' where r: "receiver_poll mock_port (mock_with_incoming []) (pm_rx (demo_pump TxFailed)) =
      (w1, rx', Inr (OutDelivered 9))" "receiver_wf (pm_rx (demo_pump TxFailed))"
      "\<not> pm_pending_completed (demo_pump TxFailed)" "s_state (pm_tx (demo_pump TxFailed)) = TxFailed"
    by (rule demo_pump_receiver)
  have "receiver_expected_seq (pm_rx (demo_pump TxFailed)) = 0"
      "st_bytes_delivered (pm_stats (demo_pump TxFailed)) = 0"
    by (simp_all add: demo_pump_def pump_new_def receiver_begin_reply_def receiver_new_def seq_defs
        receiver_expected_seq_def session_stats_new_def)
  then show ?thesis using pump_failed_sender_drops_byte [OF r(4,3,2,1), where ptx = mock_port]
    by (auto simp: sat_inc_def)
qed

end
