(* ===== verification/Duplex.thy ===== *)
theory Duplex
  imports Demux Pump "HOL-Library.Sublist"
begin

text \<open>
  The in-memory duplex wire (\<open>src/p2p/duplex.rs\<close>).  A lane takes the bytes one peer writes, cuts
  them into frames and routes each frame to the ring of the reader it is for: ACK and NACK to the
  other peer's sender, everything else to its receiver.  Four ports share the two lanes.  The
  lemmas say that each reader gets exactly its frames, whole and in the order they were written,
  whatever the interleaving of reads and writes and however full the rings are.
\<close>

section \<open>The lane\<close>

record lane = demux +
  ln_wire :: ring

definition lane_new :: lane where
  "lane_new = \<lparr>dm_assembler = asm_resyncing, dm_control = ring_new, dm_payload = ring_new,
     dm_pending = None, ln_wire = ring_new\<rparr>"

lemma demux_store_more [simp]:
  "demux_store h (l :: lane) = (l', ok) \<Longrightarrow> ln_wire l' = ln_wire l"
  by (auto simp: demux_store_def split: if_splits prod.splits)

lemma demux_byte_more:
  "demux_byte b (l :: lane) = (l', ok) \<Longrightarrow> ln_wire l' = ln_wire l"
  by (auto simp: demux_byte_def split: prod.splits option.splits bool.splits dest!: demux_store_more)

text \<open>\<open>while let Some(byte) = self.wire.pop()\<close>: the wire gets shorter.\<close>

function lane_drain :: "lane \<Rightarrow> lane" where
  "lane_drain l =
     (case ring_pop (ln_wire l) of
        (w, None) \<Rightarrow> l
      | (w, Some byte) \<Rightarrow>
          (case demux_byte byte (l\<lparr>ln_wire := w\<rparr>) of
             (l', True) \<Rightarrow> lane_drain l'
           | (l', False) \<Rightarrow> l'))"
  by pat_completeness auto

termination lane_drain
  by (relation "measure (\<lambda>l. rg_len (ln_wire l))")
    (auto simp: ring_pop_def split: if_splits dest!: demux_byte_more [OF sym])

declare lane_drain.simps [simp del]

definition lane_ingest :: "lane \<Rightarrow> lane" where
  "lane_ingest l = (case demux_retry l of (l', True) \<Rightarrow> lane_drain l' | (l', False) \<Rightarrow> l')"

section \<open>The wire and its four ports\<close>

record lanes =
  a_to_b :: lane
  b_to_a :: lane

definition duplex_new :: lanes where
  "duplex_new = \<lparr>a_to_b = lane_new, b_to_a = lane_new\<rparr>"

datatype duplex_full = DuplexFull

definition write_lane :: "u8 \<Rightarrow> lane \<Rightarrow> lane \<times> (duplex_full + unit)" where
  "write_lane byte l =
     (case ring_push byte (ln_wire l) of
        (w, ok) \<Rightarrow> (l\<lparr>ln_wire := w\<rparr>, if ok then Inr () else Inl DuplexFull))"

definition read_lane :: "bool \<Rightarrow> lane \<Rightarrow> lane \<times> u8 option" where
  "read_lane for_tx l0 =
     (let l = lane_ingest l0
      in if for_tx then (case ring_pop (dm_control l) of (r, b) \<Rightarrow> (l\<lparr>dm_control := r\<rparr>, b))
         else (case ring_pop (dm_payload l) of (r, b) \<Rightarrow> (l\<lparr>dm_payload := r\<rparr>, b)))"

definition duplex_port :: "bool \<Rightarrow> bool \<Rightarrow> (lanes, duplex_full) port" where
  "duplex_port is_a for_tx =
     \<lparr>write_byte = (\<lambda>byte d.
        if is_a then (case write_lane byte (a_to_b d) of (l, r) \<Rightarrow> (d\<lparr>a_to_b := l\<rparr>, r))
        else (case write_lane byte (b_to_a d) of (l, r) \<Rightarrow> (d\<lparr>b_to_a := l\<rparr>, r))),
      read_byte = (\<lambda>d.
        if is_a then (case read_lane for_tx (b_to_a d) of (l, b) \<Rightarrow> (d\<lparr>b_to_a := l\<rparr>, Inr b))
        else (case read_lane for_tx (a_to_b d) of (l, b) \<Rightarrow> (d\<lparr>a_to_b := l\<rparr>, Inr b)))\<rparr>"

text \<open>
  The pumps of the two peers.  A pump takes its transports when it is polled: \<open>duplex_port is_a True\<close>
  and \<open>duplex_port is_a False\<close>.
\<close>

definition duplex_pumps :: "(sender, receiver) pump \<times> (sender, receiver) pump" where
  "duplex_pumps = (pump_on, pump_on)"

definition duplex_pumps_with :: "retry_policy \<Rightarrow> (sender, receiver) pump \<times> (sender, receiver) pump" where
  "duplex_pumps_with policy = (pump_on_with policy, pump_on_with policy)"

definition duplex_link_pumps :: "(wsender, wreceiver) pump \<times> (wsender, wreceiver) pump" where
  "duplex_link_pumps =
     (wpump_set_window_limit 1 (wpump_on MAX_WINDOW), wpump_set_window_limit 1 (wpump_on MAX_WINDOW))"

definition duplex_link_pumps_with ::
  "retry_policy \<Rightarrow> (wsender, wreceiver) pump \<times> (wsender, wreceiver) pump" where
  "duplex_link_pumps_with policy =
     (wpump_set_window_limit 1 (wpump_on_with MAX_WINDOW policy),
      wpump_set_window_limit 1 (wpump_on_with MAX_WINDOW policy))"

text \<open>
  \<open>DuplexWire::copy\<close>: the loop of at most a million rounds is recursion on the rounds left.  The
  locals \<open>hold\<close>, \<open>exhausted\<close>, \<open>finish_offered\<close> and \<open>n\<close> are a record.
\<close>

datatype wire_copy_error = WcSource | WcSink | WcProtocol | WcStalled

record copy_loop =
  cl_hold :: "u8 option"
  cl_exhausted :: bool
  cl_finish_offered :: bool
  cl_n :: nat

definition copy_read :: "('s, 'a) source \<Rightarrow> 's \<Rightarrow> copy_loop \<Rightarrow> 's \<times> (wire_copy_error + copy_loop)" where
  "copy_read src s l =
     (if cl_hold l = None \<and> \<not> cl_exhausted l
      then (case src_read src s of
              (s', Inr (Some byte)) \<Rightarrow> (s', Inr (l\<lparr>cl_hold := Some byte\<rparr>))
            | (s', Inr None) \<Rightarrow> (s', Inr (l\<lparr>cl_exhausted := True\<rparr>))
            | (s', Inl _) \<Rightarrow> (s', Inl WcSource))
      else (s, Inr l))"

definition copy_offer :: "sender \<Rightarrow> copy_loop \<Rightarrow> sender \<times> (wire_copy_error + copy_loop)" where
  "copy_offer tx l =
     (if s_state tx \<noteq> TxIdle then (tx, Inr l)
      else case cl_hold l of
          Some byte \<Rightarrow>
            (case sender_offer byte tx of
               (tx', Inr _) \<Rightarrow> (tx', Inr (l\<lparr>cl_hold := None\<rparr>))
             | (tx', Inl (_ :: duplex_full error)) \<Rightarrow> (tx', Inr l))
        | None \<Rightarrow>
            if cl_exhausted l \<and> \<not> cl_finish_offered l
            then (case sender_offer_finish tx of
                    (tx', Inr _) \<Rightarrow> (tx', Inr (l\<lparr>cl_finish_offered := True\<rparr>))
                  | (tx', Inl (e :: duplex_full error)) \<Rightarrow>
                      (tx', if e = ErrNotIdle then Inr l else Inl WcProtocol))
            else (tx, Inr l))"

fun copy_rounds ::
  "nat \<Rightarrow> ('s, 'a) source \<Rightarrow> ('k, 'b) sink \<Rightarrow> lanes \<Rightarrow> (sender, receiver) pump \<Rightarrow> (sender, receiver) pump \<Rightarrow>
     's \<Rightarrow> 'k \<Rightarrow> copy_loop \<Rightarrow> lanes \<times> 's \<times> 'k \<times> (wire_copy_error + nat)" where
  "copy_rounds 0 src snk d a b s k l = (d, s, k, Inl WcStalled)"
| "copy_rounds (Suc rounds) src snk d a b s k l =
     (case copy_read src s l of
        (s1, Inl e) \<Rightarrow> (d, s1, k, Inl e)
      | (s1, Inr l1) \<Rightarrow>
          (case copy_offer (pm_tx a) l1 of
             (tx, Inl e) \<Rightarrow> (d, s1, k, Inl e)
           | (tx, Inr l2) \<Rightarrow>
               (case pump_poll (duplex_port True True) (duplex_port True False) d (a\<lparr>pm_tx := tx\<rparr>) of
                  (d1, a1, Inl _) \<Rightarrow> (d1, s1, k, Inl WcProtocol)
                | (d1, a1, Inr EvAborted) \<Rightarrow> (d1, s1, k, Inl WcProtocol)
                | (d1, a1, Inr _) \<Rightarrow>
                    (case pump_poll (duplex_port False True) (duplex_port False False) d1 b of
                       (d2, b1, Inr (EvReceived byte)) \<Rightarrow>
                         (case sink_write snk byte k of
                            (k1, Inl _) \<Rightarrow> (d2, s1, k1, Inl WcSink)
                          | (k1, Inr _) \<Rightarrow> copy_rounds rounds src snk d2 a1 b1 s1 k1 (l2\<lparr>cl_n := cl_n l2 + 1\<rparr>))
                     | (d2, b1, Inr EvCompleted) \<Rightarrow> (d2, s1, k, Inr (cl_n l2))
                     | (d2, b1, Inr EvAborted) \<Rightarrow> (d2, s1, k, Inl WcProtocol)
                     | (d2, b1, Inr _) \<Rightarrow> copy_rounds rounds src snk d2 a1 b1 s1 k l2
                     | (d2, b1, Inl _) \<Rightarrow> (d2, s1, k, Inl WcProtocol)))))"

definition wire_copy ::
  "('s, 'a) source \<Rightarrow> ('k, 'b) sink \<Rightarrow> lanes \<Rightarrow> 's \<Rightarrow> 'k \<Rightarrow> lanes \<times> 's \<times> 'k \<times> (wire_copy_error + nat)" where
  "wire_copy src snk d s k =
     (case duplex_pumps of (a, b) \<Rightarrow> copy_rounds 1000000 src snk d a b s k
        \<lparr>cl_hold = None, cl_exhausted = False, cl_finish_offered = False, cl_n = 0\<rparr>)"

section \<open>A lane\<close>

lemma demux_inv_wire [simp]: "demux_inv K R (l\<lparr>ln_wire := w\<rparr>) = demux_inv K R l"
  by (simp add: demux_inv_def ring_for_def pending_for_def)

definition quiet :: "lane \<Rightarrow> bool" where
  "quiet l = (ring_contents (ln_wire l) = [] \<and> dm_pending l = None)"

lemma lane_drain_inv:
  assumes "demux_inv K R l" and "dm_pending l = None" and "ring_wf (ln_wire l)"
  shows "\<exists>K'. K @ ring_contents (ln_wire l) = K' @ ring_contents (ln_wire (lane_drain l)) \<and>
    ring_wf (ln_wire (lane_drain l)) \<and> demux_inv K' R (lane_drain l) \<and>
    rg_len (ln_wire (lane_drain l)) \<le> rg_len (ln_wire l) \<and>
    (quiet (lane_drain l) \<or> blocked (lane_drain l))"
  using assms
proof (induction l arbitrary: K rule: lane_drain.induct)
  case (1 l)
  obtain w x where p: "ring_pop (ln_wire l) = (w, x)" by (metis surj_pair)
  note pc = rf.pop_cases [OF 1(4) p]
  show ?case
  proof (cases x)
    case None
    then have "lane_drain l = l" using p by (subst lane_drain.simps) simp
    then show ?thesis using 1(2-4) pc None by (auto simp: quiet_def)
  next
    case (Some b)
    let ?l = "l\<lparr>ln_wire := w\<rparr>"
    obtain l1 ok where d: "demux_byte b ?l = (l1, ok)" by (metis surj_pair)
    have inv: "demux_inv (K @ [b]) R l1" "if ok then dm_pending l1 = None else blocked l1"
      using demux_byte_inv [OF _ _ d, of K R] 1(2,3) by simp_all
    have w1: "ln_wire l1 = w" using demux_byte_more [OF d] by simp
    have c: "ring_contents (ln_wire l) = b # ring_contents w" and wf: "ring_wf w" using pc Some by simp_all
    then have len: "rg_len w \<le> rg_len (ln_wire l)"
      using length_ring_contents [of "ln_wire l"] length_ring_contents [of w] by simp
    show ?thesis
    proof (cases ok)
      case True
      have "lane_drain l = lane_drain l1" using p Some d True by (subst lane_drain.simps) simp
      moreover have "\<exists>K'. (K @ [b]) @ ring_contents (ln_wire l1) = K' @ ring_contents (ln_wire (lane_drain l1)) \<and>
          ring_wf (ln_wire (lane_drain l1)) \<and> demux_inv K' R (lane_drain l1) \<and>
          rg_len (ln_wire (lane_drain l1)) \<le> rg_len (ln_wire l1) \<and> (quiet (lane_drain l1) \<or> blocked (lane_drain l1))"
        by (rule 1(1) [OF p [symmetric] Some d [symmetric]]) (use inv w1 wf True in simp_all)
      ultimately show ?thesis using w1 c len by auto
    next
      case False
      have "lane_drain l = l1" using p Some d False by (subst lane_drain.simps) simp
      then show ?thesis using inv w1 wf c len False by (intro exI [of _ "K @ [b]"]) simp
    qed
  qed
qed

definition lane_inv :: "u8 list \<Rightarrow> (bool \<Rightarrow> u8 list) \<Rightarrow> lane \<Rightarrow> bool" where
  "lane_inv W R l = (\<exists>K. W = K @ ring_contents (ln_wire l) \<and> ring_wf (ln_wire l) \<and> demux_inv K R l)"

lemma lane_inv_new: "lane_inv [] (\<lambda>_. []) lane_new"
  by (simp add: lane_inv_def lane_new_def demux_inv_def routed_def ring_for_def pending_for_def)

lemma lane_ingest_inv:
  assumes "lane_inv W R l"
  shows "lane_inv W R (lane_ingest l) \<and> rg_len (ln_wire (lane_ingest l)) \<le> rg_len (ln_wire l) \<and>
    (quiet (lane_ingest l) \<or> blocked (lane_ingest l))"
proof -
  obtain K where K: "W = K @ ring_contents (ln_wire l)" "ring_wf (ln_wire l)" "demux_inv K R l"
    using assms by (auto simp: lane_inv_def)
  obtain l1 ok where r: "demux_retry l = (l1, ok)" by (metis surj_pair)
  note inv = demux_retry_inv [OF K(3) r]
  have w: "ln_wire l1 = ln_wire l"
    using r by (auto simp: demux_retry_def split: option.splits prod.splits bool.splits dest!: demux_store_more)
  show ?thesis
  proof (cases ok)
    case True
    then show ?thesis using lane_drain_inv [of K R l1] inv w K r by (auto simp: lane_ingest_def lane_inv_def)
  next
    case False
    then show ?thesis using inv w K r by (auto simp: lane_ingest_def lane_inv_def)
  qed
qed

lemma write_lane_inv:
  assumes "lane_inv W R l" and "write_lane b l = (l', r)"
  shows "lane_inv (W @ (case r of Inr _ \<Rightarrow> [b] | Inl _ \<Rightarrow> [])) R l'"
proof -
  obtain w ok where p: "ring_push b (ln_wire l) = (w, ok)" by (metis surj_pair)
  have "ring_wf (ln_wire l)" using assms(1) by (auto simp: lane_inv_def)
  note rp = ring_push [OF this p]
  have l': "l' = l\<lparr>ln_wire := w\<rparr>" "r = (if ok then Inr () else Inl DuplexFull)"
    using assms(2) p by (simp_all add: write_lane_def)
  show ?thesis using assms(1) rp l' by (auto simp: lane_inv_def)
qed

lemma read_lane_inv:
  assumes "lane_inv W R l" and "read_lane c l = (l', x)"
  shows "lane_inv W (taken R c x) l' \<and> rg_len (ln_wire l') \<le> rg_len (ln_wire l) \<and>
    (x = None \<longrightarrow> ring_contents (ring_for c l') = [] \<and>
      (quiet l' \<or> (\<exists>h. dm_pending l' = Some h \<and> hd_control h \<noteq> c \<and> ring_contents (ring_for (\<not> c) l') \<noteq> [])))"
proof -
  let ?l = "lane_ingest l"
  obtain K where K: "W = K @ ring_contents (ln_wire ?l)" "ring_wf (ln_wire ?l)" "demux_inv K R ?l"
    "quiet ?l \<or> blocked ?l"
    using lane_ingest_inv [OF assms(1)] by (auto simp: lane_inv_def)
  obtain r y where r0: "ring_pop (ring_for c ?l) = (r, y)" by (metis surj_pair)
  have l': "l' = (if c then ?l\<lparr>dm_control := r\<rparr> else ?l\<lparr>dm_payload := r\<rparr>)" and "y = x"
    using assms(2) r0 by (cases c; simp add: read_lane_def Let_def ring_for_def)+
  then have r: "ring_pop (ring_for c ?l) = (r, x)" using r0 by simp
  note inv = demux_pop_inv [OF K(3) r]
  have "lane_inv W (taken R c x) l'"
    using inv K(1,2) unfolding l' lane_inv_def by (intro exI [of _ K]) auto
  moreover have "rg_len (ln_wire l') \<le> rg_len (ln_wire l)"
    using lane_ingest_inv [OF assms(1)] unfolding l' by simp
  moreover have "ring_contents (ring_for c l') = [] \<and> (quiet l' \<or> (\<exists>h. dm_pending l' = Some h \<and> hd_control h \<noteq> c \<and>
      ring_contents (ring_for (\<not> c) l') \<noteq> []))" if none: "x = None"
  proof -
    have wf: "ring_wf (ring_for c ?l)" using K(3) by (simp add: demux_inv_def ring_for_def)
    have e: "ring_contents (ring_for c ?l) = []" "r = ring_for c ?l"
      using rf.pop_cases [OF wf r] none by simp_all
    then have same: "l' = ?l" unfolding l' by (simp add: ring_for_def)
    have "quiet ?l \<or> (\<exists>h. dm_pending ?l = Some h \<and> hd_control h \<noteq> c \<and> ring_contents (ring_for (\<not> c) ?l) \<noteq> [])"
    proof (cases "quiet ?l")
      case False
      then obtain h where h: "dm_pending ?l = Some h" "RING < rg_len (ring_for (hd_control h) ?l) + FRAME_LEN"
        using K(4) by (auto simp: blocked_def)
      have "ring_contents (ring_for (hd_control h) ?l) \<noteq> []"
        using h(2) by (simp add: ring_empty RING_def FRAME_LEN_def)
      then have "hd_control h = (\<not> c)" using e(1) by (cases "hd_control h"; cases c) auto
      then show ?thesis using h(1) \<open>ring_contents (ring_for (hd_control h) ?l) \<noteq> []\<close> by auto
    qed simp
    then show ?thesis using e(1) same by simp
  qed
  ultimately show ?thesis by blast
qed

section \<open>The wire\<close>

text \<open>
  A run of the wire: the four ports write and read in any order.  The events are the bytes that were
  accepted, with the peer that wrote them, and the bytes that were handed out, with the port.
\<close>

datatype wire_event = Wrote bool u8 | ReadBy bool bool u8

inductive wire_run :: "lanes \<Rightarrow> wire_event list \<Rightarrow> bool" where
  wr_new: "wire_run duplex_new []"
| wr_write: "wire_run d es \<Longrightarrow> write_byte (duplex_port is_a for_tx) b d = (d', Inr ()) \<Longrightarrow>
    wire_run d' (es @ [Wrote is_a b])"
| wr_full: "wire_run d es \<Longrightarrow> write_byte (duplex_port is_a for_tx) b d = (d', Inl e) \<Longrightarrow> wire_run d' es"
| wr_read: "wire_run d es \<Longrightarrow> read_byte (duplex_port is_a for_tx) d = (d', Inr (Some b)) \<Longrightarrow>
    wire_run d' (es @ [ReadBy is_a for_tx b])"
| wr_none: "wire_run d es \<Longrightarrow> read_byte (duplex_port is_a for_tx) d = (d', Inr None) \<Longrightarrow> wire_run d' es"

definition wrote :: "bool \<Rightarrow> wire_event list \<Rightarrow> u8 list" where
  "wrote is_a es = concat (map (\<lambda>e. case e of Wrote a b \<Rightarrow> if a = is_a then [b] else [] | _ \<Rightarrow> []) es)"

definition got :: "bool \<Rightarrow> bool \<Rightarrow> wire_event list \<Rightarrow> u8 list" where
  "got is_a for_tx es = concat (map (\<lambda>e. case e of
     ReadBy a t b \<Rightarrow> if a = is_a \<and> t = for_tx then [b] else [] | _ \<Rightarrow> []) es)"

lemma wrote_simps [simp]:
  "wrote a [] = []" "wrote a (es @ [Wrote x b]) = wrote a es @ (if x = a then [b] else [])"
  "wrote a (es @ [ReadBy x t b]) = wrote a es"
  by (simp_all add: wrote_def)

lemma got_simps [simp]:
  "got a t [] = []" "got a t (es @ [Wrote x b]) = got a t es"
  "got a t (es @ [ReadBy x u b]) = got a t es @ (if x = a \<and> u = t then [b] else [])"
  by (simp_all add: got_def)

definition lane_of :: "bool \<Rightarrow> lanes \<Rightarrow> lane" where
  "lane_of is_a d = (if is_a then a_to_b d else b_to_a d)"

lemma duplex_write_lane:
  "write_byte (duplex_port is_a t) b d = (d', r) \<Longrightarrow>
     write_lane b (lane_of is_a d) = (lane_of is_a d', r) \<and> lane_of (\<not> is_a) d' = lane_of (\<not> is_a) d"
  by (auto simp: duplex_port_def lane_of_def split: prod.splits if_splits)

lemma duplex_read_lane:
  "read_byte (duplex_port is_a t) d = (d', Inr x) \<Longrightarrow>
     read_lane t (lane_of (\<not> is_a) d) = (lane_of (\<not> is_a) d', x) \<and> lane_of is_a d' = lane_of is_a d"
  by (auto simp: duplex_port_def lane_of_def split: prod.splits if_splits)

lemma wire_run_inv:
  "wire_run d es \<Longrightarrow> lane_inv (wrote a es) (\<lambda>t. got (\<not> a) t es) (lane_of a d)"
proof (induction rule: wire_run.induct)
  case wr_new
  then show ?case using lane_inv_new by (simp add: duplex_new_def lane_of_def)
next
  case (wr_write d es is_a for_tx b d')
  note l = duplex_write_lane [OF wr_write(2)]
  show ?case
  proof (cases "is_a = a")
    case True
    then show ?thesis using write_lane_inv [OF wr_write.IH, of b] l by simp
  next
    case False
    then show ?thesis using wr_write.IH l by (cases a; cases is_a) auto
  qed
next
  case (wr_full d es is_a for_tx b d' e)
  note l = duplex_write_lane [OF wr_full(2)]
  show ?case
  proof (cases "is_a = a")
    case True
    then show ?thesis using write_lane_inv [OF wr_full.IH, of b] l by simp
  next
    case False
    then show ?thesis using wr_full.IH l by (cases a; cases is_a) auto
  qed
next
  case (wr_read d es is_a for_tx d' b)
  note l = duplex_read_lane [OF wr_read(2)]
  show ?case
  proof (cases "is_a = a")
    case True
    then show ?thesis using wr_read.IH l by auto
  next
    case False
    then have "(\<not> is_a) = a" by auto
    moreover have "taken (\<lambda>t. got is_a t es) for_tx (Some b) = (\<lambda>t. got is_a t (es @ [ReadBy is_a for_tx b]))"
      by (auto simp: taken_def fun_eq_iff)
    ultimately show ?thesis using read_lane_inv [OF wr_read.IH, of for_tx] l by auto
  qed
next
  case (wr_none d es is_a for_tx d')
  note l = duplex_read_lane [OF wr_none(2)]
  show ?case
  proof (cases "is_a = a")
    case True
    then show ?thesis using wr_none.IH l by auto
  next
    case False
    then have "(\<not> is_a) = a" by auto
    then show ?thesis using read_lane_inv [OF wr_none.IH, of for_tx] l by auto
  qed
qed

lemma wire_run_prefix:
  assumes "wire_run d es"
  shows "prefix (got (\<not> a) t es) (routed t (wrote a es))"
proof -
  obtain K where K: "wrote a es = K @ ring_contents (ln_wire (lane_of a d))"
    "demux_inv K (\<lambda>t. got (\<not> a) t es) (lane_of a d)"
    using wire_run_inv [OF assms, of a] by (auto simp: lane_inv_def)
  have "prefix (routed t K) (routed t (wrote a es))"
    unfolding K(1) by (auto simp: routed_def helds_append split: prod.splits)
  moreover have "prefix (got (\<not> a) t es) (routed t K)" using K(2) by (auto simp: demux_inv_def)
  ultimately show ?thesis by (rule prefix_order.trans [rotated])
qed


section \<open>Whole frames\<close>

lemma helds_feed:
  "feed a bs = (a', map Inr fs) \<Longrightarrow>
     helds a bs = (a', map (\<lambda>f. \<lparr>hd_bytes = to_bytes f, hd_control = is_reply (fr_type f)\<rparr>) fs)"
proof (induction bs arbitrary: a fs)
  case Nil
  then show ?case by simp
next
  case (Cons b bs)
  obtain a1 r where 1: "asm_push b a = (a1, r)" by (metis surj_pair)
  obtain a2 rs where 2: "feed a1 bs = (a2, rs)" by (metis surj_pair)
  show ?case
  proof (cases r)
    case None
    then show ?thesis using Cons 1 2 by simp
  next
    case (Some x)
    then obtain f fs' where "fs = f # fs'" "x = Inr f" "rs = map Inr fs'" using Cons.prems 1 2 by (cases fs) auto
    then show ?thesis using Cons.IH [of a1 fs'] Cons.prems 1 2 Some by (simp add: held_of_def)
  qed
qed

lemma feed_frames:
  "asm_wf a \<Longrightarrow> asm_held a = [] \<Longrightarrow> \<forall>f \<in> set fs. frame_ok f \<Longrightarrow>
     \<exists>a'. feed a (concat (map to_bytes fs)) = (a', map Inr fs) \<and> asm_wf a' \<and> asm_held a' = []"
proof (induction fs arbitrary: a)
  case Nil
  then show ?case by simp
next
  case (Cons f fs)
  obtain a1 where 1: "feed a (to_bytes f) = (a1, [Inr f])" "asm_wf a1" "asm_held a1 = []"
    using feed_frame [of a f] Cons.prems by auto
  obtain a2 where "feed a1 (concat (map to_bytes fs)) = (a2, map Inr fs)" "asm_wf a2" "asm_held a2 = []"
    using Cons.IH [of a1] 1 Cons.prems by auto
  then show ?case using 1 by (simp add: feed_append)
qed

lemma routed_frames:
  assumes "\<forall>f \<in> set fs. frame_ok f"
  shows "routed t (concat (map to_bytes fs)) = concat (map to_bytes (filter (\<lambda>f. is_reply (fr_type f) = t) fs))"
proof -
  obtain a where "feed asm_resyncing (concat (map to_bytes fs)) = (a, map Inr fs)"
    using feed_frames [of asm_resyncing fs] assms by auto
  then show ?thesis by (simp add: routed_def helds_feed filter_map o_def)
qed

text \<open>
  Reading long enough ends: from every run the two readers of a lane can go on reading, at most as
  many bytes as were routed to them, until both are told that there is nothing.
\<close>

lemma duplex_read_exists:
  "\<exists>d' x. read_byte (duplex_port is_a t) d = (d', Inr x)"
  by (auto simp: duplex_port_def split: prod.splits)

lemma duplex_drains:
  assumes "wire_run d es"
  shows "\<exists>d' es' d1 d2. wire_run d' (es @ es') \<and> wrote a (es @ es') = wrote a es \<and>
    (\<forall>e \<in> set es'. \<exists>t b. e = ReadBy (\<not> a) t b) \<and>
    read_byte (duplex_port (\<not> a) True) d' = (d1, Inr None) \<and>
    read_byte (duplex_port (\<not> a) False) d1 = (d2, Inr None)"
  using assms
proof (induction "length (routed True (wrote a es)) + length (routed False (wrote a es)) -
      (length (got (\<not> a) True es) + length (got (\<not> a) False es))" arbitrary: d es rule: less_induct)
  case less
  have bound: "length (got (\<not> a) True es') + length (got (\<not> a) False es') \<le>
      length (routed True (wrote a es')) + length (routed False (wrote a es'))" if "wire_run d' es'" for d' es'
    using wire_run_prefix [OF that, of a True] wire_run_prefix [OF that, of a False]
    by (auto dest!: prefix_length_le)
  have step: "\<exists>d' es' d1 d2. wire_run d' (es @ es') \<and> wrote a (es @ es') = wrote a es \<and>
      (\<forall>e \<in> set es'. \<exists>t b. e = ReadBy (\<not> a) t b) \<and> read_byte (duplex_port (\<not> a) True) d' = (d1, Inr None) \<and>
      read_byte (duplex_port (\<not> a) False) d1 = (d2, Inr None)"
    if run: "wire_run d' es" and r: "read_byte (duplex_port (\<not> a) t) d' = (d'', Inr (Some b))" for d' d'' t b
  proof -
    note run' = wire_run.wr_read [OF run r]
    have "length (got (\<not> a) True (es @ [ReadBy (\<not> a) t b])) + length (got (\<not> a) False (es @ [ReadBy (\<not> a) t b])) =
        Suc (length (got (\<not> a) True es) + length (got (\<not> a) False es))"
      by (cases t) simp_all
    with bound [OF run'] have "length (routed True (wrote a (es @ [ReadBy (\<not> a) t b]))) +
        length (routed False (wrote a (es @ [ReadBy (\<not> a) t b]))) -
        (length (got (\<not> a) True (es @ [ReadBy (\<not> a) t b])) + length (got (\<not> a) False (es @ [ReadBy (\<not> a) t b]))) <
      length (routed True (wrote a es)) + length (routed False (wrote a es)) -
        (length (got (\<not> a) True es) + length (got (\<not> a) False es))"
      by simp
    from less.hyps [OF this run'] obtain d2 es2 d3 d4 where "wire_run d2 ((es @ [ReadBy (\<not> a) t b]) @ es2)"
      "wrote a ((es @ [ReadBy (\<not> a) t b]) @ es2) = wrote a es" "\<forall>e \<in> set es2. \<exists>t b. e = ReadBy (\<not> a) t b"
      "read_byte (duplex_port (\<not> a) True) d2 = (d3, Inr None)"
      "read_byte (duplex_port (\<not> a) False) d3 = (d4, Inr None)" by auto
    then show ?thesis by (intro exI [of _ d2] exI [of _ "ReadBy (\<not> a) t b # es2"] exI [of _ d3] exI [of _ d4]) auto
  qed
  obtain d1 x where r1: "read_byte (duplex_port (\<not> a) True) d = (d1, Inr x)" using duplex_read_exists by blast
  show ?case
  proof (cases x)
    case (Some b)
    then show ?thesis using step [OF less.prems, of True d1 b] r1 by simp
  next
    case None
    note run1 = wire_run.wr_none [OF less.prems r1 [unfolded None]]
    obtain d2 y where r2: "read_byte (duplex_port (\<not> a) False) d1 = (d2, Inr y)" using duplex_read_exists by blast
    show ?thesis
    proof (cases y)
      case (Some b)
      then show ?thesis using step [OF run1, of False d2 b] r2 by simp
    next
      case None
      then show ?thesis using less.prems r1 r2 \<open>x = None\<close>
        by (intro exI [of _ d] exI [of _ "[]"] exI [of _ d1] exI [of _ d2]) simp
    qed
  qed
qed

text \<open>
  C20: nothing gets stuck.  Once both readers of a lane are told that there is nothing to read,
  one after the other, the lane is empty, and when the peer wrote whole frames the sender port has
  read exactly its ACK and NACK frames and the receiver port exactly all the others.
\<close>

theorem duplex_delivers:
  assumes "wire_run d es" and "wrote a es = concat (map to_bytes fs)" and "\<forall>f \<in> set fs. frame_ok f"
    and "read_byte (duplex_port (\<not> a) t) d = (d1, Inr None)"
    and "read_byte (duplex_port (\<not> a) (\<not> t)) d1 = (d2, Inr None)"
  shows "got (\<not> a) c es = concat (map to_bytes (filter (\<lambda>f. is_reply (fr_type f) = c) fs))"
proof -
  let ?R = "\<lambda>t. got (\<not> a) t es"
  have r1: "read_lane t (lane_of a d) = (lane_of a d1, None)"
    and r2: "read_lane (\<not> t) (lane_of a d1) = (lane_of a d2, None)"
    using duplex_read_lane [OF assms(4)] duplex_read_lane [OF assms(5)] by simp_all
  note i1 = read_lane_inv [OF wire_run_inv [OF assms(1), of a] r1]
  have inv1: "lane_inv (wrote a es) ?R (lane_of a d1)" using i1 by simp
  note i2 = read_lane_inv [OF inv1 r2]
  have inv2: "lane_inv (wrote a es) ?R (lane_of a d2)" using i2 by simp
  obtain K1 where K1: "wrote a es = K1 @ ring_contents (ln_wire (lane_of a d1))" "demux_inv K1 ?R (lane_of a d1)"
    using inv1 by (auto simp: lane_inv_def)
  obtain K2 where K2: "wrote a es = K2 @ ring_contents (ln_wire (lane_of a d2))" "demux_inv K2 ?R (lane_of a d2)"
    using inv2 by (auto simp: lane_inv_def)
  have "length (ring_contents (ln_wire (lane_of a d2))) \<le> length (ring_contents (ln_wire (lane_of a d1)))"
    using i2 by simp
  moreover have "length (K1 @ ring_contents (ln_wire (lane_of a d1))) =
      length (K2 @ ring_contents (ln_wire (lane_of a d2)))"
    using K1(1) K2(1) by simp
  ultimately have le: "length K1 \<le> length K2" by simp
  have p1: "prefix K1 (wrote a es)" and p2: "prefix K2 (wrote a es)"
    by (metis K1(1) prefixI, metis K2(1) prefixI)
  have r2: "routed (\<not> t) K2 = ?R (\<not> t)"
    using K2(2) i2 by (auto simp: demux_inv_def pending_for_def quiet_def)
  have r1: "routed c K1 = ?R c @ ring_contents (ring_for c (lane_of a d1)) @ pending_for c (lane_of a d1)" for c
    using K1(2) by (simp add: demux_inv_def)
  have "quiet (lane_of a d1)"
  proof (rule ccontr)
    assume "\<not> quiet (lane_of a d1)"
    then have "ring_contents (ring_for (\<not> t) (lane_of a d1)) \<noteq> []" using i1 by auto
    moreover have "prefix (routed (\<not> t) K1) (routed (\<not> t) K2)"
      using prefix_length_prefix [OF p1 p2 le] by (auto simp: prefix_def routed_def helds_append split: prod.splits)
    ultimately show False using r1 r2 by (auto simp: prefix_def)
  qed
  then have "K1 = wrote a es" and q: "pending_for t (lane_of a d1) = []"
    using K1(1) by (simp_all add: quiet_def pending_for_def)
  then have "K2 = wrote a es" using le p2 by (metis prefix_length_le prefix_order.antisym prefix_length_prefix p1)
  then have "routed c (wrote a es) = ?R c"
    using r1 [of t] r2 i1 q \<open>K1 = wrote a es\<close> by (cases "c = t") auto
  then show ?thesis using routed_frames [OF assms(3), of c] assms(2) by simp
qed

text \<open>A wire on which A has written one ACK frame.\<close>

definition demo_wire :: "nat \<Rightarrow> lanes" where
  "demo_wire n = fold (\<lambda>b d. fst (write_byte (duplex_port True False) b d)) (take n [2, 0, 0, 214]) duplex_new"

lemma demo_wire_run: "wire_run (demo_wire 4) (map (Wrote True) [2, 0, 0, 214])"
proof -
  have w: "wire_run d es \<Longrightarrow> snd (write_byte (duplex_port True False) b d) = Inr () \<Longrightarrow>
      wire_run (fst (write_byte (duplex_port True False) b d)) (es @ [Wrote True b])" for d es b
    by (rule wire_run.wr_write [where for_tx = False]) (auto simp: prod_eq_iff)
  have s: "snd (write_byte (duplex_port True False) 2 (demo_wire 0)) = Inr ()"
    "snd (write_byte (duplex_port True False) 0 (demo_wire 1)) = Inr ()"
    "snd (write_byte (duplex_port True False) 0 (demo_wire 2)) = Inr ()"
    "snd (write_byte (duplex_port True False) 214 (demo_wire 3)) = Inr ()"
    by code_simp+
  have n: "fst (write_byte (duplex_port True False) 2 (demo_wire 0)) = demo_wire 1"
    "fst (write_byte (duplex_port True False) 0 (demo_wire 1)) = demo_wire 2"
    "fst (write_byte (duplex_port True False) 0 (demo_wire 2)) = demo_wire 3"
    "fst (write_byte (duplex_port True False) 214 (demo_wire 3)) = demo_wire 4"
    by (simp_all add: demo_wire_def)
  have "wire_run (demo_wire 0) []" using wire_run.wr_new by (simp add: demo_wire_def)
  from w [OF w [OF w [OF w [OF this s(1), unfolded n] s(2), unfolded n] s(3), unfolded n] s(4), unfolded n]
  show ?thesis by simp
qed


theorem duplex_delivers_witness:
  "\<exists>d es d1 d2. wire_run d es \<and> wrote True es = [2, 0, 0, 214] \<and>
    read_byte (duplex_port False True) d = (d1, Inr None) \<and> read_byte (duplex_port False False) d1 = (d2, Inr None) \<and>
    got False True es = [2, 0, 0, 214] \<and> got False False es = []"
proof -
  have b: "to_bytes (ack_frame 0) = [2, 0, 0, 214]"
    by (simp add: to_bytes_def frame_defs crc8_header_def crc_eval)
  obtain d es' d1 d2 where d: "wire_run d (map (Wrote True) [2, 0, 0, 214] @ es')"
    "wrote True (map (Wrote True) [2, 0, 0, 214] @ es') = wrote True (map (Wrote True) [2, 0, 0, 214])"
    "read_byte (duplex_port (\<not> True) True) d = (d1, Inr None)"
    "read_byte (duplex_port (\<not> True) (\<not> True)) d1 = (d2, Inr None)"
    using duplex_drains [OF demo_wire_run, of True] by auto
  have w: "wrote True (map (Wrote True) [2, 0, 0, 214] @ es') = concat (map to_bytes [ack_frame 0])"
    using d(2) b by (simp add: wrote_def)
  have ok: "\<forall>f \<in> set [ack_frame 0]. frame_ok f" "is_reply (fr_type (ack_frame 0))"
    by (simp_all add: frame_ok_def semantics_ok_def ack_frame_def raw_frame_def is_reply_def)
  show ?thesis
    using duplex_delivers [OF d(1) w ok(1) d(3,4), of True] duplex_delivers [OF d(1) w ok(1) d(3,4), of False] d w b ok(2)
    by (intro exI [of _ d] exI [of _ "map (Wrote True) [2, 0, 0, 214] @ es'"] exI [of _ d1] exI [of _ d2]) auto
qed

end
