(* ===== verification/Tandem.thy ===== *)
theory Tandem
  imports Sender Receiver
begin

text \<open>
  A stop-and-wait sender and receiver over a channel that loses nothing, one frame each way at a
  time: what the copy loops of \<open>src/p2p/duplex.rs\<close> and \<open>examples/common/link.rs\<close> drive.  Of the
  sixteen byte moves of a frame and its acknowledgement every round of polls makes at least one, in
  whatever order the two sides are polled and whenever the channel lets a byte through.
\<close>

section \<open>The channel\<close>

text \<open>
  \<open>chan w F i j G k l\<close>: \<open>j\<close> bytes of the frame \<open>F\<close> have been written and \<open>i\<close> of them read, \<open>l\<close>
  bytes of the reply \<open>G\<close> have been written and \<open>k\<close> of them read.  A byte may be held back until its
  frame is complete.
\<close>

definition is_answer :: "frame \<Rightarrow> bool" where
  "is_answer f = (fr_type f \<in> {Ack, Nack})"

locale tandem =
  fixes sp rp :: "('w, 'e) port"
    and chan :: "'w \<Rightarrow> frame \<Rightarrow> nat \<Rightarrow> nat \<Rightarrow> frame \<Rightarrow> nat \<Rightarrow> nat \<Rightarrow> bool"
  assumes speak: "chan w F i j G k l \<Longrightarrow> j < 4 \<Longrightarrow>
      \<exists>w'. write_byte sp (to_bytes F ! j) w = (w', Inr ()) \<and> chan w' F i (Suc j) G k l"
    and hear: "chan w F i j G k l \<Longrightarrow> read_byte rp w = (w', x) \<Longrightarrow>
      x = Inr None \<and> chan w' F i j G k l \<and> (j = 4 \<longrightarrow> i = 4) \<or>
      x = Inr (Some (to_bytes F ! i)) \<and> i < j \<and> chan w' F (Suc i) j G k l"
    and answer: "chan w F i j G k l \<Longrightarrow> l < 4 \<Longrightarrow>
      \<exists>w'. write_byte rp (to_bytes G ! l) w = (w', Inr ()) \<and> chan w' F i j G k (Suc l)"
    and heed: "chan w F i j G k l \<Longrightarrow> read_byte sp w = (w', x) \<Longrightarrow>
      x = Inr None \<and> chan w' F i j G k l \<and> (l = 4 \<longrightarrow> k = 4) \<or>
      x = Inr (Some (to_bytes G ! k)) \<and> k < l \<and> chan w' F i j G (Suc k) l"
    and fresh: "chan w F 4 4 G 4 4 \<Longrightarrow> frame_ok F' \<Longrightarrow> \<not> is_answer F' \<Longrightarrow> frame_ok G' \<Longrightarrow> is_answer G' \<Longrightarrow>
      chan w F' 0 0 G' 0 0"

section \<open>The two machines\<close>

text \<open>
  The sender has written \<open>j\<close> bytes of the frame of its flight and read \<open>k\<close> bytes of the ACK, and has
  ticked at most \<open>t\<close> times; the receiver has read \<open>i\<close> bytes and written \<open>l\<close> of its answer.
\<close>

definition sender_at :: "flight_kind \<Rightarrow> u8 \<Rightarrow> nat \<Rightarrow> nat \<Rightarrow> nat \<Rightarrow> sender \<Rightarrow> bool" where
  "sender_at kind q j k t s =
     (sender_wf s \<and> s_seq s = q \<and> \<not> as_resync (s_assembler s) \<and> t < unat (timeout_ticks (s_policy s)) \<and>
      j \<le> 4 \<and> k < 4 \<and>
      (\<exists>fl. s_inflight s = Some fl \<and> fl_kind fl = kind \<and>
         (if j = 4 then fl_waiting fl \<and> asm_held (s_assembler s) = take k (to_bytes (ack_frame q)) \<and>
            unat (fl_empty_ticks fl) \<le> t
          else \<not> fl_waiting fl \<and> k = 0 \<and>
            (if j = 0 then ob_is_idle (s_out s) else ob_rest (s_out s) = drop j (to_bytes (flight_frame kind q))))))"

definition sender_rest :: "u8 \<Rightarrow> nat \<Rightarrow> sender \<Rightarrow> bool" where
  "sender_rest q T s =
     (sender_wf s \<and> s_seq s = q \<and> \<not> as_resync (s_assembler s) \<and> unat (timeout_ticks (s_policy s)) = T \<and>
      s_state s = TxIdle \<and> s_inflight s = None)"

definition action_of :: "flight_kind \<Rightarrow> pending_action" where
  "action_of kind = (case kind of FData b \<Rightarrow> PaDeliver b | _ \<Rightarrow> PaFinished)"

definition outcome_of :: "flight_kind \<Rightarrow> poll_outcome" where
  "outcome_of kind = (case kind of FData b \<Rightarrow> OutDelivered b | _ \<Rightarrow> OutTransferFinished)"

definition receiver_rest :: "u8 \<Rightarrow> receiver \<Rightarrow> bool" where
  "receiver_rest q r =
     (receiver_wf r \<and> \<not> as_resync (r_assembler r) \<and> \<not> r_abort_latched r \<and> r_pending r = None \<and>
      r_expected_seq r = q \<and> r_finish_seq r = None \<and> asm_held (r_assembler r) = [])"

definition receiver_at :: "flight_kind \<Rightarrow> u8 \<Rightarrow> nat \<Rightarrow> nat \<Rightarrow> receiver \<Rightarrow> bool" where
  "receiver_at kind q i l r =
     (receiver_wf r \<and> \<not> as_resync (r_assembler r) \<and> \<not> r_abort_latched r \<and> i \<le> 4 \<and> l \<le> 4 \<and>
      (if l = 0 then i < 4 \<and> r_pending r = None \<and> r_expected_seq r = q \<and> r_finish_seq r = None \<and>
         asm_held (r_assembler r) = take i (to_bytes (flight_frame kind q))
       else i = 4 \<and> asm_held (r_assembler r) = [] \<and>
         (if l < 4 then r_pending r = Some (action_of kind) \<and> r_expected_seq r = q \<and>
            r_finish_seq r = (if kind = FFinish then Some q else None) \<and>
            ob_rest (r_out r) = drop l (to_bytes (ack_frame q))
          else r_pending r = None \<and> (kind \<noteq> FFinish \<longrightarrow> r_expected_seq r = q + 1 \<and> r_finish_seq r = None))))"

definition sent_kind :: "flight_kind \<Rightarrow> bool" where
  "sent_kind kind = (case kind of FData _ \<Rightarrow> True | FFinish \<Rightarrow> True | _ \<Rightarrow> False)"

lemma to_bytes_drop:
  assumes "i < 4"
  shows "drop i (to_bytes f) = to_bytes f ! i # drop (Suc i) (to_bytes f)"
    and "drop (Suc i) (to_bytes f) = [] \<longleftrightarrow> i = 3"
    and "take (Suc i) (to_bytes f) = take i (to_bytes f) @ [to_bytes f ! i]"
proof -
  have len: "length (to_bytes f) = 4" by (simp add: FRAME_LEN_def)
  then show "drop i (to_bytes f) = to_bytes f ! i # drop (Suc i) (to_bytes f)"
    using assms by (simp add: Cons_nth_drop_Suc)
  show "drop (Suc i) (to_bytes f) = [] \<longleftrightarrow> i = 3" using assms len by simp arith
  show "take (Suc i) (to_bytes f) = take i (to_bytes f) @ [to_bytes f ! i]"
    using assms len by (simp add: take_Suc_conv_app_nth)
qed

lemma asm_push_frame:
  assumes "asm_wf a" and "\<not> as_resync a" and "asm_held a = take i (to_bytes f)" and "i < 4" and "frame_ok f"
  shows "\<exists>a'. asm_push (to_bytes f ! i) a = (a', if i < 3 then None else Some (Inr f)) \<and> asm_wf a' \<and>
    \<not> as_resync a' \<and> asm_held a' = (if i < 3 then take (Suc i) (to_bytes f) else [])"
proof (cases "i < 3")
  case True
  then have "length (asm_held a) < 3" using assms(3) by (simp add: FRAME_LEN_def)
  from asm_push_partial [OF assms(1) this, of "to_bytes f ! i"] show ?thesis
    using True assms(2,3) to_bytes_drop(3) [of i f] by auto
next
  case False
  then have i: "i = 3" using assms(4) by simp
  have "length (to_bytes f) = 4" by (simp add: FRAME_LEN_def)
  then obtain x y z c where f: "to_bytes f = [x, y, z, c]" by (rule length4E)
  then have "asm_held a = [x, y, z]" using assms(3) i by simp
  from asm_push_complete [OF assms(1) this, of c] show ?thesis
    using i f assms(2,5) from_bytes_to_bytes [OF assms(5)] by auto
qed

lemma sat_inc_u16: "unat (x :: u16) < n \<Longrightarrow> n < 65536 \<Longrightarrow> unat (sat_inc x) = Suc (unat x)"
  using unat_not_max [of x] by (cases "x = - 1") (auto simp: sat_inc_def unat_word_ariths unsigned_minus_1_eq_mask mask_eq_exp_minus_1)

text \<open>One poll of the sender: it writes the next byte, reads the next byte, or ticks.\<close>

lemma sender_poll_speaks:
  assumes s: "sender_at kind q j k t s" and "j < 4"
    and w: "write_byte p (to_bytes (flight_frame kind q) ! j) w = (w', Inr ())"
  shows "\<exists>s'. sender_poll p w s = (w', s', Inr PollPending) \<and> sender_at kind q (Suc j) 0 t s' \<and>
    s_policy s' = s_policy s"
proof -
  obtain fl where fl: "s_inflight s = Some fl" "fl_kind fl = kind" "\<not> fl_waiting fl" and wf: "sender_wf s"
    and nr: "\<not> as_resync (s_assembler s)"
    using s assms(2) by (auto simp: sender_at_def)
  have q: "fl_seq fl = q" "s_seq s = q" using wf fl s by (auto simp: sender_wf_def flight_wf_def sender_at_def)
  let ?l = "if j = 0 then sender_load_flight_frame s else s"
  have l: "sender_poll p w s = sender_poll p w ?l" "sender_wf ?l" "s_inflight ?l = Some fl"
    "ob_rest (s_out ?l) = drop j (to_bytes (flight_frame kind q))" "s_assembler ?l = s_assembler s"
    "s_seq ?l = q" "s_policy ?l = s_policy s" "ob_wf (s_out ?l)"
  proof -
    have idle: "ob_is_idle (s_out s)" if "j = 0" using s that by (auto simp: sender_at_def)
    have "sender_wf (sender_load_flight_frame s)" if "j = 0"
      using wf fl idle [OF that] by (auto simp: sender_wf_def sender_load_flight_frame_def flight_wf_def)
    then show "sender_wf ?l" using wf by simp
    then show "ob_wf (s_out ?l)" by (simp add: sender_wf_def)
    show "sender_poll p w s = sender_poll p w ?l"
      using sender_poll_load [OF wf fl(1,3) idle] by (cases "j = 0") simp_all
    show "s_inflight ?l = Some fl" "ob_rest (s_out ?l) = drop j (to_bytes (flight_frame kind q))"
      "s_assembler ?l = s_assembler s" "s_seq ?l = q" "s_policy ?l = s_policy s"
      using fl q s assms(2) by (auto simp: sender_load_flight_frame_def sender_at_def)
  qed
  note rest = l(4) [unfolded to_bytes_drop(1) [OF assms(2)]]
  have st: "s_state ?l = TxSending"
    using l(2,3,8) rest by (auto simp: sender_wf_def flight_wf_def ob_idle_rest)
  let ?o = "?l\<lparr>s_mark := io_mark_default, s_out := ob_commit (s_out ?l)\<rparr>"
  let ?s = "if j = 3 then sender_frame_written ?o else ?o"
  have p1: "sender_poll p w ?l = (w', ?s, Inr PollPending)"
    using out_pump_write [OF l(8) rest w] st rest l(8) to_bytes_drop(2) [OF assms(2), of "flight_frame kind q"]
    by (auto simp: sender_poll_def sender_pump_out_def ob_idle_rest Let_def)
  then have "sender_wf ?s" using sender_wf_poll [OF l(2), of p w] by simp
  then have "sender_at kind q (Suc j) 0 t ?s"
    using s assms(2) fl q l(3,5,6,7) rest nr ob_commit_rest [OF l(8)]
    by (auto simp: sender_at_def sender_frame_written_def)
  moreover have "s_policy ?s = s_policy s" using l(7) by (simp add: sender_frame_written_def split: option.splits)
  ultimately show ?thesis using p1 l(1) by auto
qed

lemma sender_poll_ticks:
  assumes s: "sender_at kind q 4 k t s" and "Suc t < unat (timeout_ticks (s_policy s))"
    and w: "read_byte p w = (w', Inr None)"
  shows "\<exists>s'. sender_poll p w s = (w', s', Inr PollPending) \<and> sender_at kind q 4 k (Suc t) s' \<and>
    s_policy s' = s_policy s"
proof -
  obtain fl where fl: "s_inflight s = Some fl" "fl_kind fl = kind" "fl_waiting fl" "unat (fl_empty_ticks fl) \<le> t"
    and wf: "sender_wf s"
    using s by (auto simp: sender_at_def)
  let ?s = "s\<lparr>s_mark := io_mark_default, s_inflight := Some (fl\<lparr>fl_empty_ticks := sat_inc (fl_empty_ticks fl)\<rparr>)\<rparr>"
  have st: "ob_is_idle (s_out s)" "s_state s = TxWaitingAck" using wf fl by (auto simp: sender_wf_def flight_wf_def)
  have "unat (timeout_ticks (s_policy s)) < 65536"
    using unsigned_less [where 'a = nat, of "timeout_ticks (s_policy s)"] by simp
  then have n: "unat (sat_inc (fl_empty_ticks fl)) = Suc (unat (fl_empty_ticks fl))"
    using sat_inc_u16 [of "fl_empty_ticks fl" "Suc t"] fl(4) assms(2) by simp
  then have "\<not> timeout_ticks (s_policy s) \<le> sat_inc (fl_empty_ticks fl)"
    using assms(2) fl(4) by (simp add: word_le_nat_alt)
  then have p1: "sender_poll p w s = (w', ?s, Inr PollPending)"
    using st fl(1,3) w by (simp add: sender_poll_def sender_read_def Let_def)
  then have "sender_wf ?s" using sender_wf_poll [OF wf, of p w] by simp
  then have "sender_at kind q 4 k (Suc t) ?s" using s fl n assms(2) by (auto simp: sender_at_def)
  then show ?thesis using p1 by auto
qed

lemma sender_poll_heeds:
  assumes s: "sender_at kind q 4 k t s" and kind: "sent_kind kind"
    and w: "read_byte p w = (w', Inr (Some (to_bytes (ack_frame q) ! k)))"
  shows "\<exists>s'. if k < 3 then sender_poll p w s = (w', s', Inr PollPending) \<and> sender_at kind q 4 (Suc k) t s' \<and>
      s_policy s' = s_policy s
    else sender_poll p w s = (w', s', Inr (if kind = FFinish then PollTransferDone else PollAcked)) \<and>
      (kind \<noteq> FFinish \<longrightarrow> sender_rest (q + 1) (unat (timeout_ticks (s_policy s))) s')"
proof -
  obtain fl where fl: "s_inflight s = Some fl" "fl_kind fl = kind" "fl_waiting fl"
    and wf: "sender_wf s" and held: "asm_held (s_assembler s) = take k (to_bytes (ack_frame q))" "\<not> as_resync (s_assembler s)" "k < 4"
    using s by (auto simp: sender_at_def)
  have q: "fl_seq fl = q" "s_seq s = q" using wf fl s by (auto simp: sender_wf_def flight_wf_def sender_at_def)
  have st: "ob_is_idle (s_out s)" "s_state s = TxWaitingAck" using wf fl by (auto simp: sender_wf_def flight_wf_def)
  have "asm_wf (s_assembler s)" using wf by (simp add: sender_wf_def)
  from asm_push_frame [OF this held(2,1,3)] obtain a where
    a: "asm_push (to_bytes (ack_frame q) ! k) (s_assembler s) = (a, if k < 3 then None else Some (Inr (ack_frame q)))"
      "asm_wf a" "\<not> as_resync a" "asm_held a = (if k < 3 then take (Suc k) (to_bytes (ack_frame q)) else [])" by auto
  let ?m = "s\<lparr>s_mark := io_mark_default, s_assembler := a\<rparr>"
  have p1: "sender_poll p w s = (w', if k < 3 then (?m, Inr PollPending) else sender_on_ack ?m)"
    using st fl(1,3) w a(1) q by (simp add: sender_poll_def sender_read_def sender_on_control_def Let_def frame_defs)
  have wf': "sender_wf (fst (snd (sender_poll p w s)))" using sender_wf_poll [OF wf, of p w] by simp
  show ?thesis
  proof (cases "k < 3")
    case True
    then have "sender_at kind q 4 (Suc k) t ?m" using s a wf' p1 fl by (auto simp: sender_at_def)
    then show ?thesis using p1 True by auto
  next
    case False
    then show ?thesis using p1 wf' fl q kind a
      by (cases kind) (auto simp: sender_on_ack_def sender_rest_def sent_kind_def seq_advance_def Let_def)
  qed
qed


text \<open>One poll of the receiver: it finds nothing, reads the next byte, or writes the next byte of the answer.\<close>

lemma receiver_rest_at: "receiver_rest q r \<longleftrightarrow> receiver_at kind q 0 0 r"
  by (auto simp: receiver_rest_def receiver_at_def)

lemma receiver_at_rest: "receiver_at kind q 4 4 r \<Longrightarrow> kind \<noteq> FFinish \<Longrightarrow> receiver_rest (q + 1) r"
  by (simp add: receiver_rest_def receiver_at_def)

lemma receiver_at_busy: "receiver_at kind q i l r \<Longrightarrow> ob_is_idle (r_out r) \<longleftrightarrow> l = 0 \<or> l = 4"
  by (auto simp: receiver_at_def receiver_wf_def split: if_splits)

lemma settle_idle_fields [simp]:
  "r_assembler (receiver_settle_idle r) = r_assembler r" "r_abort_latched (receiver_settle_idle r) = r_abort_latched r"
  "r_pending (receiver_settle_idle r) = r_pending r" "r_expected_seq (receiver_settle_idle r) = r_expected_seq r"
  "r_finish_seq (receiver_settle_idle r) = r_finish_seq r" "r_out (receiver_settle_idle r) = r_out r"
  by (simp_all add: receiver_settle_idle_def)

lemma receiver_poll_waits:
  assumes r: "receiver_at kind q i l r" and "l = 0 \<or> l = 4" and w: "read_byte p w = (w', Inr None)"
  shows "\<exists>r'. receiver_poll p w r = (w', r', Inr OutPending) \<and> receiver_at kind q i l r'"
proof -
  have p1: "receiver_poll p w r = (w', receiver_settle_idle (r\<lparr>r_state := RxReceiving\<rparr>), Inr OutPending)"
    using receiver_at_busy [OF r] assms(2) w by (simp add: receiver_poll_def)
  then have "receiver_wf (receiver_settle_idle (r\<lparr>r_state := RxReceiving\<rparr>))"
    using receiver_wf_poll [of r p w] r by (simp add: receiver_at_def)
  then have "receiver_at kind q i l (receiver_settle_idle (r\<lparr>r_state := RxReceiving\<rparr>))"
    using r assms(2) by (auto simp: receiver_at_def)
  then show ?thesis using p1 by auto
qed

lemma receiver_poll_hears:
  assumes r: "receiver_at kind q i 0 r" and ok: "frame_ok (flight_frame kind q)" and "i < 3"
    and w: "read_byte p w = (w', Inr (Some (to_bytes (flight_frame kind q) ! i)))"
  shows "\<exists>r'. receiver_poll p w r = (w', r', Inr OutPending) \<and> receiver_at kind q (Suc i) 0 r'"
proof -
  have "asm_wf (r_assembler r)" "\<not> as_resync (r_assembler r)" "asm_held (r_assembler r) = take i (to_bytes (flight_frame kind q))"
    using r by (simp_all add: receiver_at_def receiver_wf_def)
  from asm_push_frame [OF this _ ok] obtain a where
    a: "asm_push (to_bytes (flight_frame kind q) ! i) (r_assembler r) = (a, None)"
      "\<not> as_resync a" "asm_held a = take (Suc i) (to_bytes (flight_frame kind q))" using assms(3) by auto
  let ?r = "r\<lparr>r_state := RxReceiving, r_assembler := a\<rparr>"
  have p1: "receiver_poll p w r = (w', ?r, Inr OutPending)"
    using receiver_at_busy [OF r] a w by (simp add: receiver_poll_def)
  then have "receiver_wf ?r" using receiver_wf_poll [of r p w] r by (simp add: receiver_at_def)
  then have "receiver_at kind q (Suc i) 0 ?r" using r assms(3) a by (simp add: receiver_at_def)
  then show ?thesis using p1 by auto
qed

lemma receiver_poll_replies:
  assumes r: "receiver_wf r" "\<not> as_resync (r_assembler r)" "\<not> r_abort_latched r" "asm_held (r_assembler r) = []"
      "r_pending r = Some (action_of kind)" "r_expected_seq r = q" "r_finish_seq r = (if kind = FFinish then Some q else None)"
      "ob_rest (r_out r) = drop l (to_bytes (ack_frame q))"
    and kind: "sent_kind kind" and "l < 4"
    and w: "write_byte p (to_bytes (ack_frame q) ! l) w = (w', Inr ())"
  shows "\<exists>r'. receiver_reply p w r = (w', r', Inr (if l = 3 then outcome_of kind else OutPending)) \<and>
    receiver_at kind q 4 (Suc l) r'"
proof -
  have wf: "ob_wf (r_out r)" using r(1) by (simp add: receiver_wf_def)
  note rest = r(8) [unfolded to_bytes_drop(1) [OF assms(10)]]
  have c: "ob_rest (ob_commit (r_out r)) = drop (Suc l) (to_bytes (ack_frame q))"
    using ob_commit_rest [OF wf] rest by simp
  have fr: "ob_wf (ob_commit (r_out r))" "ob_is_idle (ob_commit (r_out r)) \<longleftrightarrow> l = 3"
    using wf c to_bytes_drop(2) [OF assms(10), of "ack_frame q"] by (simp_all add: ob_idle_rest)
  have b: "receiver_poll p w r = receiver_reply p w r"
    using rest wf by (auto simp: receiver_poll_def ob_idle_rest)
  show ?thesis
  proof (cases "l = 3")
    case False
    let ?r = "r\<lparr>r_out := ob_commit (r_out r), r_state := RxAcknowledging\<rparr>"
    have p1: "receiver_reply p w r = (w', ?r, Inr OutPending)"
      using rest wf w fr False by (simp add: receiver_reply_def receiver_pump_reply_def ob_peek_rest Let_def)
    then have "receiver_wf ?r" using receiver_wf_poll [OF r(1), of p w] b by simp
    then have "receiver_at kind q 4 (Suc l) ?r" using r(2-8) assms(10) False c by (simp add: receiver_at_def)
    then show ?thesis using p1 False by auto
  next
    case True
    obtain r' where t: "receiver_take_pending (r\<lparr>r_out := ob_commit (r_out r)\<rparr>) = (r', Some (outcome_of kind))"
      "r_pending r' = None" "r_abort_latched r' = r_abort_latched r" "r_assembler r' = r_assembler r"
      "kind \<noteq> FFinish \<longrightarrow> r_expected_seq r' = q + 1 \<and> r_finish_seq r' = None"
      using r(5-7) kind by (cases kind)
        (auto simp: receiver_take_pending_def action_of_def outcome_of_def sent_kind_def seq_defs Let_def)
    have p1: "receiver_reply p w r = (w', r', Inr (outcome_of kind))"
      using rest wf w fr True t(1) by (simp add: receiver_reply_def receiver_pump_reply_def ob_peek_rest Let_def)
    then have "receiver_wf r'" using receiver_wf_poll [OF r(1), of p w] b by simp
    then have "receiver_at kind q 4 (Suc l) r'" using r(2-4) t True by (simp add: receiver_at_def)
    then show ?thesis using p1 True by auto
  qed
qed

lemma receiver_poll_answers:
  assumes r: "receiver_at kind q i l r" and kind: "sent_kind kind" and "0 < l" and "l < 4"
    and w: "write_byte p (to_bytes (ack_frame q) ! l) w = (w', Inr ())"
  shows "\<exists>r'. receiver_poll p w r = (w', r', Inr (if l = 3 then outcome_of kind else OutPending)) \<and>
    receiver_at kind q 4 (Suc l) r'"
proof -
  have "receiver_poll p w r = receiver_reply p w r"
    using receiver_at_busy [OF r] assms(3,4) by (simp add: receiver_poll_def)
  then show ?thesis using receiver_poll_replies [of r kind q l p w w'] r kind assms(3-5)
    by (auto simp: receiver_at_def)
qed

lemma receiver_poll_takes:
  assumes r: "receiver_at kind q 3 0 r" and kind: "sent_kind kind"
    and w: "read_byte p w = (w', Inr (Some (to_bytes (flight_frame kind q) ! 3)))"
    and w': "write_byte p (to_bytes (ack_frame q) ! 0) w' = (w'', Inr ())"
  shows "\<exists>r'. receiver_poll p w r = (w'', r', Inr OutPending) \<and> receiver_at kind q 4 1 r'"
proof -
  have ok: "frame_ok (flight_frame kind q)"
    using kind by (cases kind) (simp_all add: sent_kind_def frame_ok_def semantics_ok_def frame_defs is_control_def)
  have wf: "receiver_wf r" using r by (simp add: receiver_at_def)
  then have "asm_wf (r_assembler r)" by (simp add: receiver_wf_def)
  with wf have f: "asm_wf (r_assembler r)" "\<not> as_resync (r_assembler r)" "asm_held (r_assembler r) = take 3 (to_bytes (flight_frame kind q))"
    "receiver_wf r" "r_pending r = None" "\<not> r_abort_latched r" "r_expected_seq r = q" "r_finish_seq r = None"
    using r by (simp_all add: receiver_at_def)
  from asm_push_frame [OF f(1-3) _ ok] obtain a where
    a: "asm_push (to_bytes (flight_frame kind q) ! 3) (r_assembler r) = (a, Some (Inr (flight_frame kind q)))"
      "asm_wf a" "\<not> as_resync a" "asm_held a = []" by auto
  let ?r = "r\<lparr>r_state := RxReceiving, r_assembler := a\<rparr>"
  obtain r1 flag where r1: "receiver_on_frame (Inr (flight_frame kind q)) ?r = (r1, flag)" by fastforce
  have wf: "receiver_wf ?r" using receiver_wf_assembler [of "r\<lparr>r_state := RxReceiving\<rparr>" a] f(4) a(2) by simp
  have idle: "ob_is_idle (r_out r)" using receiver_at_busy [OF r] by simp
  then have wf1: "receiver_wf r1"
    using receiver_wf_on_frame [OF wf, of "Inr (flight_frame kind q)"] r1 f(5) by simp
  have 1: flag "r_assembler r1 = a" "\<not> r_abort_latched r1" "r_pending r1 = Some (action_of kind)"
    "r_expected_seq r1 = q" "r_finish_seq r1 = (if kind = FFinish then Some q else None)"
    "ob_rest (r_out r1) = drop 0 (to_bytes (ack_frame q))"
    using r1 f(5-8) kind by (cases kind; auto simp: sent_kind_def receiver_defs action_of_def seq_defs frame_defs Let_def)+
  have "receiver_poll p w r = receiver_reply p w' r1"
    using idle w a(1) r1 1(1) by (simp add: receiver_poll_def)
  then show ?thesis
    using receiver_poll_replies [OF wf1 _ 1(3) _ 1(4-7) kind _ w'] 1(2) a by simp
qed


text \<open>Between two flights.\<close>

lemma sender_at_mark [simp]: "sender_at kind q j k t (s\<lparr>s_mark := m\<rparr>) = sender_at kind q j k t s"
  by (simp add: sender_at_def)

lemma sender_rest_mark [simp]: "sender_rest q T (s\<lparr>s_mark := m\<rparr>) = sender_rest q T s"
  by (simp add: sender_rest_def)

lemma sender_rest_polls:
  assumes "sender_rest q T s"
  shows "sender_poll p w s = (w, s\<lparr>s_mark := io_mark_default\<rparr>, Inr PollPending)"
proof -
  have "ob_is_idle (s_out s)" "s_inflight s = None" "s_state s = TxIdle"
    using assms sender_wf_None [of s] by (auto simp: sender_rest_def)
  then show ?thesis by (simp add: sender_poll_def Let_def)
qed

lemma sender_rest_begins:
  assumes "sender_rest q T s" and "0 < T" and "sent_kind kind"
  shows "sender_at kind q 0 0 0 (sender_begin kind q s)" and "sender_can_offer_data s" and "seq_current (s_seq s) = q"
    and "s_policy (sender_begin kind q s) = s_policy s"
  using assms
  by (auto simp: sender_at_def sender_rest_def sender_wf_def sender_begin_def flight_wf_def sender_can_offer_data_def
      seq_defs sent_kind_def split: flight_kind.splits)

lemma sender_rest_new: "sender_rest 0 1000 sender_new"
  unfolding sender_rest_def sender_new_def
  by (rule conjI [OF sender_wf_with_policy])
    (simp add: sender_with_policy_def retry_policy_default_def retry_policy_new_def seq_new_def)

lemma receiver_rest_new: "receiver_rest 0 receiver_new"
  by (simp add: receiver_rest_def) (simp add: receiver_new_def seq_new_def)

section \<open>Together\<close>

context tandem
begin

definition joint :: "flight_kind \<Rightarrow> u8 \<Rightarrow> nat \<Rightarrow> nat \<Rightarrow> nat \<Rightarrow> nat \<Rightarrow> nat \<Rightarrow> 'w \<Rightarrow> sender \<Rightarrow> receiver \<Rightarrow> bool" where
  "joint kind q i j k l t w s r =
     (chan w (flight_frame kind q) i j (ack_frame q) k l \<and> sender_at kind q j k t s \<and> receiver_at kind q i l r \<and>
      sent_kind kind)"

lemma sender_turn:
  assumes J: "joint kind q i j k l t w s r" and "Suc t < unat (timeout_ticks (s_policy s))"
  shows "\<exists>w' s' x. sender_poll sp w s = (w', s', Inr x) \<and>
    ((\<exists>j' k' t'. x = PollPending \<and> joint kind q i j' k' l t' w' s' r \<and> s_policy s' = s_policy s \<and>
        j \<le> j' \<and> k \<le> k' \<and> t' \<le> Suc t \<and> (j < 4 \<or> l = 4 \<longrightarrow> j + k < j' + k')) \<or>
     (x = (if kind = FFinish then PollTransferDone else PollAcked) \<and> j = 4 \<and> l = 4 \<and>
        (kind \<noteq> FFinish \<longrightarrow> sender_rest (q + 1) (unat (timeout_ticks (s_policy s))) s' \<and>
           chan w' (flight_frame kind q) i j (ack_frame q) 4 4)))"
proof -
  have C: "chan w (flight_frame kind q) i j (ack_frame q) k l" and S: "sender_at kind q j k t s"
    and R: "receiver_at kind q i l r" and K: "sent_kind kind"
    using J by (simp_all add: joint_def)
  have jk: "j \<le> 4" "k < 4" "j < 4 \<longrightarrow> k = 0" using S by (auto simp: sender_at_def)
  show ?thesis
  proof (cases "j = 4")
    case False
    then have j: "j < 4" using jk by simp
    obtain w' where w: "write_byte sp (to_bytes (flight_frame kind q) ! j) w = (w', Inr ())"
      "chan w' (flight_frame kind q) i (Suc j) (ack_frame q) k l" using speak [OF C j] by auto
    obtain s' where s': "sender_poll sp w s = (w', s', Inr PollPending)" "sender_at kind q (Suc j) 0 t s'"
      "s_policy s' = s_policy s" using sender_poll_speaks [OF S j w(1)] by auto
    have "joint kind q i (Suc j) k l t w' s' r" using w s' R K jk j by (simp add: joint_def)
    then show ?thesis using s' by (intro exI [of _ w'] exI [of _ s'] exI [of _ PollPending]) force
  next
    case True
    note S4 = S [unfolded True] and C4 = C [unfolded True]
    obtain w' x where x: "read_byte sp w = (w', x)" by fastforce
    from heed [OF C4 x] consider
        "x = Inr None" "chan w' (flight_frame kind q) i 4 (ack_frame q) k l" "l \<noteq> 4"
      | "x = Inr (Some (to_bytes (ack_frame q) ! k))" "k < l" "chan w' (flight_frame kind q) i 4 (ack_frame q) (Suc k) l"
      using jk by fastforce
    then show ?thesis
    proof cases
      case 1
      obtain s' where s': "sender_poll sp w s = (w', s', Inr PollPending)" "sender_at kind q 4 k (Suc t) s'"
        "s_policy s' = s_policy s" using sender_poll_ticks [OF S4 assms(2) x [unfolded 1(1)]] by auto
      have "joint kind q i 4 k l (Suc t) w' s' r" using 1 s' R K by (simp add: joint_def)
      then show ?thesis using s' 1(3) True by (intro exI [of _ w'] exI [of _ s'] exI [of _ PollPending]) force
    next
      case 2
      note h = sender_poll_heeds [OF S4 K x [unfolded 2(1)]]
      show ?thesis
      proof (cases "k < 3")
        case True
        then obtain s' where s': "sender_poll sp w s = (w', s', Inr PollPending)" "sender_at kind q 4 (Suc k) t s'"
          "s_policy s' = s_policy s" using h by auto
        have "joint kind q i 4 (Suc k) l t w' s' r" using 2 s' R K by (simp add: joint_def)
        then show ?thesis using s' \<open>j = 4\<close> by (intro exI [of _ w'] exI [of _ s'] exI [of _ PollPending]) force
      next
        case False
        have "l \<le> 4" using R by (simp add: receiver_at_def)
        then have l: "l = 4" "k = 3" using False 2(2) jk by auto
        then show ?thesis using h 2(3) \<open>j = 4\<close> by (auto simp del: One_nat_def)
      qed
    qed
  qed
qed

lemma receiver_turn:
  assumes J: "joint kind q i j k l t w s r"
  shows "\<exists>w' r' i' l'. receiver_poll rp w r = (w', r', Inr (if l < 4 \<and> l' = 4 then outcome_of kind else OutPending)) \<and>
    joint kind q i' j k l' t w' s r' \<and> i \<le> i' \<and> l \<le> l' \<and> (j = 4 \<and> l < 4 \<longrightarrow> i + l < i' + l')"
proof -
  have C: "chan w (flight_frame kind q) i j (ack_frame q) k l" and S: "sender_at kind q j k t s"
    and R: "receiver_at kind q i l r" and K: "sent_kind kind"
    using J by (simp_all add: joint_def)
  have il: "i \<le> 4" "l \<le> 4" "l = 0 \<longleftrightarrow> i < 4" using R by (auto simp: receiver_at_def split: if_splits)
  have ok: "frame_ok (flight_frame kind q)"
    using K by (cases kind) (simp_all add: sent_kind_def frame_ok_def semantics_ok_def frame_defs is_control_def)
  show ?thesis
  proof (cases "0 < l \<and> l < 4")
    case True
    then have i: "i = 4" using il by simp
    obtain w' where w: "write_byte rp (to_bytes (ack_frame q) ! l) w = (w', Inr ())"
      "chan w' (flight_frame kind q) i j (ack_frame q) k (Suc l)" using answer [OF C] True by auto
    obtain r' where r': "receiver_poll rp w r = (w', r', Inr (if l = 3 then outcome_of kind else OutPending))"
      "receiver_at kind q 4 (Suc l) r'" using receiver_poll_answers [OF R K _ _ w(1)] True by auto
    have "joint kind q 4 j k (Suc l) t w' s r'" using w r' S K i by (simp add: joint_def)
    then show ?thesis using r' True i
      by (intro exI [of _ w'] exI [of _ r'] exI [of _ "4 :: nat"] exI [of _ "Suc l"]) auto
  next
    case False
    then have l: "l = 0 \<or> l = 4" using il by auto
    obtain w' x where x: "read_byte rp w = (w', x)" by fastforce
    from hear [OF C x] consider
        "x = Inr None" "chan w' (flight_frame kind q) i j (ack_frame q) k l" "j = 4 \<longrightarrow> i = 4"
      | "x = Inr (Some (to_bytes (flight_frame kind q) ! i))" "i < j" "chan w' (flight_frame kind q) (Suc i) j (ack_frame q) k l"
      by fastforce
    then show ?thesis
    proof cases
      case 1
      obtain r' where r': "receiver_poll rp w r = (w', r', Inr OutPending)" "receiver_at kind q i l r'"
        using receiver_poll_waits [OF R l x [unfolded 1(1)]] by auto
      have "joint kind q i j k l t w' s r'" using 1 r' S K by (simp add: joint_def)
      then show ?thesis using r' 1(3) il l
        by (intro exI [of _ w'] exI [of _ r'] exI [of _ i] exI [of _ l]) auto
    next
      case 2
      have "j \<le> 4" using S by (simp add: sender_at_def)
      then have l0: "l = 0" using 2(2) il l by auto
      note R0 = R [unfolded l0] and x' = x [unfolded 2(1)]
      show ?thesis
      proof (cases "i < 3")
        case True
        obtain r' where r': "receiver_poll rp w r = (w', r', Inr OutPending)" "receiver_at kind q (Suc i) 0 r'"
          using receiver_poll_hears [OF R0 ok True x'] by auto
        have "joint kind q (Suc i) j k 0 t w' s r'" using 2 r' S K l0 by (simp add: joint_def)
        then show ?thesis using r' l0
          by (intro exI [of _ w'] exI [of _ r'] exI [of _ "Suc i"] exI [of _ "0 :: nat"]) auto
      next
        case False
        then have i: "i = 3" using il l0 by auto
        obtain w'' where w: "write_byte rp (to_bytes (ack_frame q) ! 0) w' = (w'', Inr ())"
          "chan w'' (flight_frame kind q) (Suc i) j (ack_frame q) k 1" using answer [OF 2(3)] l0 by auto
        obtain r' where r': "receiver_poll rp w r = (w'', r', Inr OutPending)" "receiver_at kind q 4 1 r'"
          using receiver_poll_takes [OF R0 [unfolded i] K x' [unfolded i] w(1)] by auto
        have "joint kind q 4 j k 1 t w'' s r'" using w r' S K i by (simp add: joint_def)
        then show ?thesis using r' l0 i
          by (intro exI [of _ w''] exI [of _ r'] exI [of _ "4 :: nat"] exI [of _ "1 :: nat"]) auto
      qed
    qed
  qed
qed

text \<open>The next flight.\<close>

lemma joint_begins:
  assumes "chan w F 4 4 G 4 4 \<or> chan w (flight_frame kind q) 0 0 (ack_frame q) 0 0" and "sender_rest q T s" and "0 < T"
    and "receiver_rest q r" and "sent_kind kind"
  shows "joint kind q 0 0 0 0 0 w (sender_begin kind q s) r"
proof -
  have "frame_ok (flight_frame kind q)" "\<not> is_answer (flight_frame kind q)" "frame_ok (ack_frame q)" "is_answer (ack_frame q)"
    using assms(5) by (cases kind; simp add: sent_kind_def frame_ok_def semantics_ok_def frame_defs is_control_def is_answer_def)+
  then have "chan w (flight_frame kind q) 0 0 (ack_frame q) 0 0" using assms(1) fresh by blast
  then show ?thesis using assms sender_rest_begins(1) receiver_rest_at by (simp add: joint_def)
qed

end

end
