(* ===== verification/CopyMotor.thy ===== *)
theory CopyMotor
  imports Pump Tandem
begin

text \<open>
  The copy loop that \<open>src/p2p/duplex.rs\<close> and \<open>examples/common/link.rs\<close> have in common, as an
  interface: a round reads the source when nothing is held, offers what is held when the sender is
  idle, and polls.  Given that every round of polls moves a flight on by at least one of its sixteen
  bytes, the loop ends with the payload in the sink.
\<close>

section \<open>What a pump makes of its two steps\<close>

lemma pump_poll_quiet:
  assumes "\<not> pm_pending_completed a" and "receiver_poll pr w (pm_rx a) = (w1, rx, Inr OutPending)"
    and "sender_poll pt w1 (pm_tx a) = (w2, tx, Inr x)" and "x = PollPending \<or> x = PollAcked"
  shows "\<exists>a' ev. pump_poll pt pr w a = (w2, a', Inr ev) \<and> ev \<in> {EvIdle, EvProgress, EvSent} \<and> pm_rx a' = rx \<and>
    pm_tx a' = tx\<lparr>s_mark := io_mark_default\<rparr> \<and> \<not> pm_pending_completed a'"
  using assms
  by (auto simp: pump_poll_def pump_step_def pump_event_of_def sender_take_mark_def Let_def split: prod.splits if_splits)

definition event_of_outcome :: "poll_outcome \<Rightarrow> pump_event" where
  "event_of_outcome out = (case out of OutDelivered b \<Rightarrow> EvReceived b | _ \<Rightarrow> EvCompleted)"

lemma pump_poll_out:
  assumes "\<not> pm_pending_completed b" and "receiver_poll pr w (pm_rx b) = (w1, rx, Inr (outcome_of kind))"
    and "sender_poll pt w1 (pm_tx b) = (w2, tx, Inr x)" and "sent_kind kind"
    and "x = PollPending \<or> x = (if kind = FFinish then PollTransferDone else PollAcked)"
  shows "\<exists>b'. pump_poll pt pr w b = (w2, b', Inr (event_of_outcome (outcome_of kind))) \<and> pm_rx b' = rx \<and>
    pm_tx b' = tx\<lparr>s_mark := io_mark_default\<rparr> \<and> \<not> pm_pending_completed b'"
  using assms
  by (cases kind) (auto simp: pump_poll_def pump_step_def pump_event_of_def sender_take_mark_def Let_def
      outcome_of_def event_of_outcome_def sent_kind_def)

section \<open>The loop\<close>

text \<open>What a slice sink has taken.\<close>

definition sink_has :: "slice_sink \<Rightarrow> u8 list \<Rightarrow> slice_sink \<Rightarrow> bool" where
  "sink_has k xs k' = (slice_sink_written k' = slice_sink_written k @ xs \<and> length (sk_buf k') = length (sk_buf k) \<and>
     sk_pos k' = sk_pos k + length xs)"

lemma sink_has_Nil [simp]: "sink_has k [] k"
  by (simp add: sink_has_def)

lemma sink_has_trans: "sink_has k xs k1 \<Longrightarrow> sink_has k1 ys k2 \<Longrightarrow> sink_has k (xs @ ys) k2"
  by (simp add: sink_has_def)

lemma sink_has_write:
  assumes "sk_pos k < length (sk_buf k)"
  shows "\<exists>k'. sink_write slice_byte_sink c k = (k', Inr ()) \<and> sink_has k [c] k'"
  using assms by (simp add: slice_byte_sink_def slice_sink_written_def sink_has_def take_Suc_update)

lemma sink_has_all: "sink_has (slice_sink_new buf) ds k' \<Longrightarrow> slice_sink_written k' = ds"
proof -
  have "slice_sink_written (slice_sink_new buf) = []" by (simp add: slice_sink_written_def slice_sink_new_def)
  then show "sink_has (slice_sink_new buf) ds k' \<Longrightarrow> slice_sink_written k' = ds" by (simp add: sink_has_def)
qed

text \<open>
  \<open>resting\<close>: no flight; \<open>flying kind n t g\<close>: \<open>n\<close> of the sixteen byte moves are done, the sender has
  ticked \<open>t\<close> times and \<open>g\<close> says whether the receiver has handed the byte out.  \<open>rounds m\<close> is the loop
  with \<open>m\<close> rounds left, \<open>polls m\<close> the rest of a round after the offer; \<open>left ds\<close> holds while \<open>ds\<close> is
  still to be offered, \<open>closing\<close> once FINISH was.
\<close>

locale copy_motor =
  fixes resting :: "'st \<Rightarrow> bool"
    and flying :: "flight_kind \<Rightarrow> nat \<Rightarrow> nat \<Rightarrow> bool \<Rightarrow> 'st \<Rightarrow> bool"
    and rounds polls :: "nat \<Rightarrow> 'st \<Rightarrow> 'src \<Rightarrow> slice_sink \<Rightarrow> 'l \<Rightarrow> 'res"
    and left :: "u8 list \<Rightarrow> 'src \<Rightarrow> 'l \<Rightarrow> bool"
    and closing :: "'src \<Rightarrow> 'l \<Rightarrow> bool"
    and count :: "'l \<Rightarrow> nat"
    and counted :: "'l \<Rightarrow> 'l"
    and finishes :: "'res \<Rightarrow> slice_sink \<Rightarrow> nat \<Rightarrow> bool"
  assumes counts: "count (counted l) = Suc (count l)" "left ds s (counted l) = left ds s l"
    and bounded: "flying kind n t g st \<Longrightarrow> n \<le> 15"
    and data: "flying (FData c) n t g st \<Longrightarrow> Suc t < 1000 \<Longrightarrow>
      \<exists>st' g'. (g \<longrightarrow> g') \<and> ((\<exists>n' t'. flying (FData c) n' t' g' st' \<and> n < n' \<and> t' \<le> Suc t) \<or> g' \<and> resting st') \<and>
        (\<forall>m s k k1 l. if g = g' then polls m st s k l = rounds m st' s k l
           else sink_write slice_byte_sink c k = (k1, Inr ()) \<longrightarrow> polls m st s k l = rounds m st' s k1 (counted l))"
    and finish: "flying FFinish n t False st \<Longrightarrow> Suc t < 1000 \<Longrightarrow>
      (\<exists>st' n' t'. flying FFinish n' t' False st' \<and> n < n' \<and> t' \<le> Suc t \<and>
        (\<forall>m s k l. polls m st s k l = rounds m st' s k l)) \<or>
      (\<forall>m s k l. finishes (polls m st s k l) k (count l))"
    and goes_on: "flying kind n t g st \<Longrightarrow> left ds s l \<Longrightarrow>
      \<exists>s1 l1. left ds s1 l1 \<and> count l1 = count l \<and> (\<forall>m k. rounds (Suc m) st s k l = polls m st s1 k l1)"
    and closes: "flying FFinish n t g st \<Longrightarrow> closing s l \<Longrightarrow>
      \<exists>s1 l1. closing s1 l1 \<and> count l1 = count l \<and> (\<forall>m k. rounds (Suc m) st s k l = polls m st s1 k l1)"
    and offers: "resting st \<Longrightarrow> left (c # ds) s l \<Longrightarrow>
      \<exists>st1 s1 l1. flying (FData c) 0 0 False st1 \<and> left ds s1 l1 \<and> count l1 = count l \<and>
        (\<forall>m k. rounds (Suc m) st s k l = polls m st1 s1 k l1)"
    and offers_finish: "resting st \<Longrightarrow> left [] s l \<Longrightarrow>
      \<exists>st1 s1 l1. flying FFinish 0 0 False st1 \<and> closing s1 l1 \<and> count l1 = count l \<and>
        (\<forall>m k. rounds (Suc m) st s k l = polls m st1 s1 k l1)"

context copy_motor
begin

text \<open>A byte in flight lands within sixteen rounds, and is in the sink when it has.\<close>

lemma byte_lands:
  assumes "flying (FData c) n t g st" and "t + (15 - n) < 999" and "left ds s l" and "g \<or> sk_pos k < length (sk_buf k)"
  shows "\<exists>j st' s' k' l'. j \<le> 15 - n \<and> resting st' \<and> left ds s' l' \<and> count l' = count l + (if g then 0 else 1) \<and>
    sink_has k (if g then [] else [c]) k' \<and> (\<forall>m. polls (j + m) st s k l = rounds m st' s' k' l')"
  using assms
proof (induction "15 - n" arbitrary: n t g st s k l rule: less_induct)
  case less
  have "Suc t < 1000" using less.prems(2) by simp
  from data [OF less.prems(1) this] obtain st' g' where g: "g \<longrightarrow> g'"
    and cs: "(\<exists>n' t'. flying (FData c) n' t' g' st' \<and> n < n' \<and> t' \<le> Suc t) \<or> g' \<and> resting st'"
    and p: "\<forall>m s k k1 l. if g = g' then polls m st s k l = rounds m st' s k l
           else sink_write slice_byte_sink c k = (k1, Inr ()) \<longrightarrow> polls m st s k l = rounds m st' s k1 (counted l)"
    by (elim exE conjE) (rule that)
  obtain k1 where k1: "sink_has k (if g = g' then [] else [c]) k1"
    "g \<noteq> g' \<longrightarrow> sink_write slice_byte_sink c k = (k1, Inr ())" "g = g' \<longrightarrow> k1 = k"
    using sink_has_write [of k c] less.prems(4) g by (cases "g = g'") auto
  define l1 where "l1 = (if g = g' then l else counted l)"
  have l1: "count l1 = count l + (if g = g' then 0 else 1)" "left ds s l1"
    using counts less.prems(3) by (simp_all add: l1_def)
  have step: "polls m st s k l = rounds m st' s k1 l1" for m
    using p k1(2,3) by (simp add: l1_def split: if_splits)
  from cs show ?case
  proof (elim disjE exE conjE)
    assume "g'" "resting st'"
    then show ?thesis using step k1(1) l1
      by - (rule exI [of _ 0], rule exI [of _ st'], rule exI [of _ s], rule exI [of _ k1], rule exI [of _ l1], simp)
  next
    fix n' t'
    assume f: "flying (FData c) n' t' g' st'" and n: "n < n'" and t: "t' \<le> Suc t"
    have b: "n' \<le> 15" by (rule bounded [OF f])
    obtain s2 l2 where 2: "left ds s2 l2" "count l2 = count l1" "\<And>m k. rounds (Suc m) st' s k l1 = polls m st' s2 k l2"
      using goes_on [OF f l1(2)] by blast
    have lt: "15 - n' < 15 - n" and t': "t' + (15 - n') < 999" using n t b less.prems(2) by linarith+
    have room: "g' \<or> sk_pos k1 < length (sk_buf k1)" using k1 less.prems(4) g by auto
    obtain j st3 s3 k3 l3 where 3: "j \<le> 15 - n'" "resting st3" "left ds s3 l3" "count l3 = count l2 + (if g' then 0 else 1)"
      "sink_has k1 (if g' then [] else [c]) k3" "\<And>m. polls (j + m) st' s2 k1 l2 = rounds m st3 s3 k3 l3"
      using less.hyps [OF lt f t' 2(1) room] by blast
    have c: "count l3 = count l + (if g then 0 else 1)" using 3(4) 2(2) l1(1) g by auto
    have h: "sink_has k (if g then [] else [c]) k3" using sink_has_trans [OF k1(1) 3(5)] g by (auto split: if_splits)
    have "polls (Suc j + m) st s k l = rounds m st3 s3 k3 l3" for m
      unfolding step using 2(3) 3(6) by simp
    then show ?thesis using 3(1-3) c h lt
      by - (rule exI [of _ "Suc j"], rule exI [of _ st3], rule exI [of _ s3], rule exI [of _ k3], rule exI [of _ l3], simp)
  qed
qed

lemma finish_lands:
  assumes "flying FFinish n t False st" and "t + (15 - n) < 999" and "closing s l"
  shows "\<exists>j. j \<le> 15 - n \<and> (\<forall>m. finishes (polls (j + m) st s k l) k (count l))"
  using assms
proof (induction "15 - n" arbitrary: n t st s l rule: less_induct)
  case less
  have "Suc t < 1000" using less.prems(2) by simp
  from finish [OF less.prems(1) this] show ?case
  proof (elim disjE exE conjE)
    assume "\<forall>m s k l. finishes (polls m st s k l) k (count l)"
    then show ?thesis by (intro exI [of _ 0]) simp
  next
    fix st' n' t'
    assume f: "flying FFinish n' t' False st'" and n: "n < n'" and t: "t' \<le> Suc t"
      and p: "\<forall>m s k l. polls m st s k l = rounds m st' s k l"
    have b: "n' \<le> 15" by (rule bounded [OF f])
    obtain s2 l2 where 2: "closing s2 l2" "count l2 = count l" "\<And>m k. rounds (Suc m) st' s k l = polls m st' s2 k l2"
      using closes [OF f less.prems(3)] by blast
    have lt: "15 - n' < 15 - n" and t': "t' + (15 - n') < 999" using n t b less.prems(2) by linarith+
    obtain j where 3: "j \<le> 15 - n'" "\<And>m. finishes (polls (j + m) st' s2 k l2) k (count l2)"
      using less.hyps [OF lt f t' 2(1)] by blast
    have "finishes (polls (Suc j + m) st s k l) k (count l)" for m using p 2 3(2) by simp
    then show ?thesis using 3(1) lt by (intro exI [of _ "Suc j"]) simp
  qed
qed

lemma copies:
  assumes "resting st" and "left ds s l" and "sk_pos k + length ds \<le> length (sk_buf k)"
  shows "\<exists>j k'. j \<le> 16 * (length ds + 1) \<and> sink_has k ds k' \<and>
    (\<forall>m. finishes (rounds (j + m) st s k l) k' (count l + length ds))"
  using assms
proof (induction ds arbitrary: st s l k)
  case Nil
  obtain st1 s1 l1 where 1: "flying FFinish 0 0 False st1" "closing s1 l1" "count l1 = count l"
    "\<And>m k. rounds (Suc m) st s k l = polls m st1 s1 k l1"
    using offers_finish [OF Nil.prems(1,2)] by blast
  obtain j where "j \<le> 15" "\<And>m. finishes (polls (j + m) st1 s1 k l1) k (count l1)"
    using finish_lands [OF 1(1) _ 1(2), of k] by auto
  then show ?case using 1(3,4) by (intro exI [of _ "Suc j"] exI [of _ k]) simp
next
  case (Cons c ds)
  obtain st1 s1 l1 where 1: "flying (FData c) 0 0 False st1" "left ds s1 l1" "count l1 = count l"
    "\<And>m k. rounds (Suc m) st s k l = polls m st1 s1 k l1"
    using offers [OF Cons.prems(1,2)] by blast
  have room: "False \<or> sk_pos k < length (sk_buf k)" using Cons.prems(3) by simp
  obtain j st' s' k' l' where 2: "j \<le> 15" "resting st'" "left ds s' l'" "count l' = Suc (count l1)" "sink_has k [c] k'"
    "\<And>m. polls (j + m) st1 s1 k l1 = rounds m st' s' k' l'"
    using byte_lands [OF 1(1) _ 1(2) room] by auto
  have "sk_pos k' + length ds \<le> length (sk_buf k')" using 2(5) Cons.prems(3) by (simp add: sink_has_def)
  from Cons.IH [OF 2(2,3) this] obtain j2 k2 where 3: "j2 \<le> 16 * (length ds + 1)" "sink_has k' ds k2"
    "\<And>m. finishes (rounds (j2 + m) st' s' k' l') k2 (count l' + length ds)" by blast
  have h: "sink_has k (c # ds) k2" using sink_has_trans [OF 2(5) 3(2)] by simp
  have "finishes (rounds (Suc j + j2 + m) st s k l) k2 (count l + length (c # ds))" for m
    using 1(4) 2(6) [of "j2 + m"] 3(3) [of m] 2(4) 1(3) by (simp add: add.assoc)
  then show ?case using 2(1) 3(1) h by (intro exI [of _ "Suc j + j2"] exI [of _ k2]) simp
qed

end

end
