(* ===== verification/WireCopy.thy ===== *)
theory WireCopy
  imports Duplex CopyMotor
begin

text \<open>
  \<open>DuplexWire::copy\<close> (\<open>src/p2p/duplex.rs\<close>) copies: on an empty wire the loop ends, with the whole
  payload in the sink.  Each lane of the wire is a channel of \<open>Tandem\<close>, which gives the sixteen
  rounds a byte takes at most.
\<close>

section \<open>A lane carries one frame at a time\<close>

text \<open>
  \<open>flight_lane c F i j\<close>: the first \<open>j\<close> bytes of \<open>F\<close> have been written, and the reader \<open>c\<close> it is for
  has read \<open>i\<close> of them; nothing else is in the lane.
\<close>

definition flight_lane :: "bool \<Rightarrow> frame \<Rightarrow> nat \<Rightarrow> nat \<Rightarrow> lane \<Rightarrow> bool" where
  "flight_lane c F i j l =
     (dm_pending l = None \<and> ring_wf (ln_wire l) \<and> ring_wf (dm_control l) \<and> ring_wf (dm_payload l) \<and>
      asm_wf (dm_assembler l) \<and> ring_contents (ring_for (\<not> c) l) = [] \<and> j \<le> 4 \<and> frame_ok F \<and> is_reply (fr_type F) = c \<and>
      (i = 0 \<and> ring_contents (ring_for c l) = [] \<and>
         asm_held (dm_assembler l) @ ring_contents (ln_wire l) = take j (to_bytes F) \<or>
       i \<le> 4 \<and> j = 4 \<and> asm_held (dm_assembler l) = [] \<and> ring_contents (ln_wire l) = [] \<and>
         ring_contents (ring_for c l) = drop i (to_bytes F)))"

lemma ring_for_wire [simp]: "ring_for c (l\<lparr>ln_wire := w\<rparr>) = ring_for c l"
  by (simp add: ring_for_def)

lemma flight_lane_new: "frame_ok F \<Longrightarrow> is_reply (fr_type F) = c \<Longrightarrow> flight_lane c F 0 0 lane_new"
  by (simp add: flight_lane_def lane_new_def ring_for_def)

lemma flight_lane_fresh:
  "flight_lane c F 4 4 l \<Longrightarrow> frame_ok F' \<Longrightarrow> is_reply (fr_type F') = c \<Longrightarrow> flight_lane c F' 0 0 l"
  by (auto simp: flight_lane_def FRAME_LEN_def)

lemma flight_lane_write:
  assumes "flight_lane c F i j l" and "j < 4"
  shows "\<exists>l'. write_lane (to_bytes F ! j) l = (l', Inr ()) \<and> flight_lane c F i (Suc j) l'"
proof -
  have l: "ring_wf (ln_wire l)" "asm_held (dm_assembler l) @ ring_contents (ln_wire l) = take j (to_bytes F)"
    using assms by (auto simp: flight_lane_def)
  obtain w ok where p: "ring_push (to_bytes F ! j) (ln_wire l) = (w, ok)" by fastforce
  have "length (asm_held (dm_assembler l)) + rg_len (ln_wire l) \<le> 4"
    using arg_cong [OF l(2), of length] assms(2) by (simp add: FRAME_LEN_def)
  then have "rg_len (ln_wire l) < RING" by (simp add: RING_def)
  with ring_push [OF l(1) p] have w: "ok" "ring_wf w" "ring_contents w = ring_contents (ln_wire l) @ [to_bytes F ! j]"
    by auto
  have "asm_held (dm_assembler l) @ ring_contents w = take (Suc j) (to_bytes F)"
    using w(3) l(2) to_bytes_drop(3) [OF assms(2), of F] by (simp flip: append_assoc)
  then show ?thesis using p w assms by (auto simp: write_lane_def flight_lane_def ring_for_def)
qed

text \<open>The loop that takes the bytes off the wire.\<close>

lemma push_frame_byte:
  assumes "asm_wf a" and "asm_held a @ b # bs = take j (to_bytes F)" and "frame_ok F" and "j \<le> 4"
  shows "\<exists>a'. asm_push b a = (a', if length (asm_held a) < 3 then None else Some (Inr F)) \<and> asm_wf a' \<and>
    (if length (asm_held a) < 3 then asm_held a' @ bs = take j (to_bytes F)
     else asm_held a' = [] \<and> bs = [] \<and> j = 4)"
proof -
  have len: "length (asm_held a) + Suc (length bs) = j"
    using arg_cong [OF assms(2), of length] assms(4) by (simp add: FRAME_LEN_def)
  show ?thesis
  proof (cases "length (asm_held a) < 3")
    case True
    from asm_push_partial [OF assms(1) this, of b] show ?thesis using True assms(2) by auto
  next
    case False
    then have "length (asm_held a) = 3" "length bs = 0" "j = 4" using len assms(4) by linarith+
    then have l: "length (asm_held a) = 3" "bs = []" "j = 4" by simp_all
    then obtain x y z where h: "asm_held a = [x, y, z]"
      by (auto simp: numeral_3_eq_3 length_Suc_conv)
    have f: "to_bytes F = [x, y, z, b]" using assms(2) l h by (simp add: FRAME_LEN_def)
    then have "from_bytes [x, y, z, b] = Inr F" using from_bytes_to_bytes [OF assms(3)] by simp
    then show ?thesis using asm_push_complete [OF assms(1) h, of b] l False by (auto simp: is_invalid_type_def)
  qed
qed

lemma flight_lane_drain:
  assumes "flight_lane c F i j l"
  shows "flight_lane c F i j (lane_drain l) \<and> (j = 4 \<longrightarrow> ring_contents (ring_for c (lane_drain l)) = drop i (to_bytes F))"
  using assms
proof (induction l rule: lane_drain.induct)
  case (1 l)
  have wf: "ring_wf (ln_wire l)" using 1(2) by (simp add: flight_lane_def)
  obtain w x where p: "ring_pop (ln_wire l) = (w, x)" by fastforce
  note pc = rf.pop_cases [OF wf p]
  show ?case
  proof (cases x)
    case None
    then have e: "lane_drain l = l" "ring_contents (ln_wire l) = []" using p pc by (simp_all add: lane_drain.simps [of l])
    have "length (asm_held (dm_assembler l)) < 4" using 1(2) by (simp add: flight_lane_def asm_wf_def asm_held_def FRAME_LEN_def)
    then have "j = 4 \<longrightarrow> ring_contents (ring_for c l) = drop i (to_bytes F)"
      using 1(2) e(2) by (auto simp: flight_lane_def FRAME_LEN_def)
    then show ?thesis using 1(2) e by simp
  next
    case (Some b)
    have l: "asm_wf (dm_assembler l)" "asm_held (dm_assembler l) @ b # ring_contents w = take j (to_bytes F)"
      "frame_ok F" "j \<le> 4" "i = 0" "ring_contents (ring_for c l) = []" "ring_contents (ring_for (\<not> c) l) = []" and w: "ring_wf w"
      using 1(2) pc Some by (auto simp: flight_lane_def)
    from push_frame_byte [OF l(1-4)] obtain a where
      a: "asm_push b (dm_assembler l) = (a, if length (asm_held (dm_assembler l)) < 3 then None else Some (Inr F))" "asm_wf a"
        "if length (asm_held (dm_assembler l)) < 3 then asm_held a @ ring_contents w = take j (to_bytes F)
         else asm_held a = [] \<and> ring_contents w = [] \<and> j = 4" by auto
    let ?l = "l\<lparr>ln_wire := w, dm_assembler := a\<rparr>"
    show ?thesis
    proof (cases "length (asm_held (dm_assembler l)) < 3")
      case True
      have d: "demux_byte b (l\<lparr>ln_wire := w\<rparr>) = (?l, True)" using a True by (simp add: demux_byte_def)
      then have "lane_drain l = lane_drain ?l" using p Some by (simp add: lane_drain.simps [of l])
      moreover have "flight_lane c F i j ?l" using 1(2) a w l True unfolding flight_lane_def by simp
      ultimately show ?thesis using 1(1) [OF p [symmetric] Some d [symmetric]] by simp
    next
      case False
      have h: "held_of a (Inr F) = \<lparr>hd_bytes = to_bytes F, hd_control = c\<rparr>"
        using 1(2) by (simp add: held_of_def flight_lane_def)
      obtain l1 ok where s: "demux_store (held_of a (Inr F)) ?l = (l1, ok)" by fastforce
      have "ring_wf (dm_control ?l)" "ring_wf (dm_payload ?l)" using 1(2) by (simp_all add: flight_lane_def)
      note st = demux_store [OF s this length_held_of [OF a(2)]]
      have "rg_len (ring_for c l) = 0" using l(6) ring_empty by simp
      then have ok: ok using st h by (cases ok) (simp_all add: RING_def FRAME_LEN_def)
      have d: "demux_byte b (l\<lparr>ln_wire := w\<rparr>) = (l1, True)" using a False s ok by (simp add: demux_byte_def)
      then have "lane_drain l = lane_drain l1" using p Some by (simp add: lane_drain.simps [of l])
      moreover have "flight_lane c F i j l1"
      proof -
        have 3: "ring_contents (ring_for c l1) = to_bytes F" "ring_contents (ring_for (\<not> c) l1) = []"
          "dm_assembler l1 = a" "dm_pending l1 = None" "ring_wf (dm_control l1)" "ring_wf (dm_payload l1)" "ln_wire l1 = w"
          using st h ok l(6,7) 1(2) demux_store_more [OF s] by (simp_all add: flight_lane_def)
        have 2: "asm_held a = []" "ring_contents w = []" "j = 4" using a(3) False by simp_all
        show ?thesis using 3 2 a(2) w l(3,5) 1(2) unfolding flight_lane_def by simp
      qed
      ultimately show ?thesis using 1(1) [OF p [symmetric] Some d [symmetric]] by simp
    qed
  qed
qed

lemma flight_lane_read:
  assumes "flight_lane c F i j l" and "read_lane c l = (l', x)"
  shows "x = None \<and> flight_lane c F i j l' \<and> (j = 4 \<longrightarrow> i = 4) \<or>
    x = Some (to_bytes F ! i) \<and> i < j \<and> flight_lane c F (Suc i) j l'"
proof -
  let ?l = "lane_drain l"
  have ing: "lane_ingest l = ?l" using assms(1) by (simp add: lane_ingest_def demux_retry_def flight_lane_def)
  note d = flight_lane_drain [OF assms(1)]
  have wf: "ring_wf (ring_for c ?l)" using d by (auto simp: flight_lane_def ring_for_def)
  obtain r where r: "ring_pop (ring_for c ?l) = (r, x)"
    and l': "l' = (if c then ?l\<lparr>dm_control := r\<rparr> else ?l\<lparr>dm_payload := r\<rparr>)"
    using assms(2) ing by (auto simp: read_lane_def ring_for_def Let_def split: prod.splits if_splits)
  note pc = rf.pop_cases [OF wf r]
  show ?thesis
  proof (cases x)
    case None
    then have e: "r = ring_for c ?l" "ring_contents (ring_for c ?l) = []" using pc by simp_all
    have "l' = ?l" using l' e(1) by (simp add: ring_for_def)
    moreover have "i = 4" if "j = 4"
    proof -
      have "drop i (to_bytes F) = []" using d e(2) that by simp
      then have "4 \<le> i" by (simp add: FRAME_LEN_def)
      moreover have "i \<le> 4" using d by (auto simp: flight_lane_def)
      ultimately show ?thesis by simp
    qed
    ultimately show ?thesis using d None by simp
  next
    case (Some b)
    then have c: "ring_contents (ring_for c ?l) = b # ring_contents r" "ring_wf r" using pc by auto
    then have f: "j = 4" "i \<le> 4" "b # ring_contents r = drop i (to_bytes F)" "asm_held (dm_assembler ?l) = []"
      "ring_contents (ln_wire ?l) = []" using d by (auto simp: flight_lane_def)
    have i: "i < 4" using f(2,3) by (cases "i = 4") (auto simp: FRAME_LEN_def)
    have n: "b = to_bytes F ! i" "ring_contents r = drop (Suc i) (to_bytes F)"
      using f(3) to_bytes_drop(1) [OF i, of F] by simp_all
    have k: "dm_pending ?l = None" "ring_wf (ln_wire ?l)" "ring_wf (dm_control ?l)" "ring_wf (dm_payload ?l)"
      "asm_wf (dm_assembler ?l)" "ring_contents (ring_for (\<not> c) ?l) = []" "frame_ok F" "is_reply (fr_type F) = c"
      using d by (simp_all add: flight_lane_def)
    have k': "dm_pending l' = None" "ring_wf (ln_wire l')" "ring_wf (dm_control l')" "ring_wf (dm_payload l')"
      "asm_wf (dm_assembler l')" "ring_contents (ring_for (\<not> c) l') = []" "asm_held (dm_assembler l') = []"
      "ring_contents (ln_wire l') = []" "ring_contents (ring_for c l') = ring_contents r"
      using k(1-6) c(2) f(4,5) unfolding l' by (cases c; simp add: ring_for_def)+
    have "flight_lane c F (Suc i) j l'"
      unfolding flight_lane_def using k' k(7,8) f(1) i n(2) by simp
    then show ?thesis using Some i f(1) n(1) by simp
  qed
qed

lemma flight_lane_other:
  assumes "flight_lane c F i j l" and "read_lane (\<not> c) l = (l', x)"
  shows "x = None \<and> flight_lane c F i j l'"
proof -
  let ?l = "lane_drain l"
  have ing: "lane_ingest l = ?l" using assms(1) by (simp add: lane_ingest_def demux_retry_def flight_lane_def)
  note d = flight_lane_drain [OF assms(1)]
  have e: "ring_contents (ring_for (\<not> c) ?l) = []" using d by (auto simp: flight_lane_def)
  have wf: "ring_wf (ring_for (\<not> c) ?l)" using d by (auto simp: flight_lane_def ring_for_def)
  obtain r where r: "ring_pop (ring_for (\<not> c) ?l) = (r, x)"
    and l': "l' = (if \<not> c then ?l\<lparr>dm_control := r\<rparr> else ?l\<lparr>dm_payload := r\<rparr>)"
    using assms(2) ing by (auto simp: read_lane_def ring_for_def Let_def split: prod.splits if_splits)
  have "x = None \<and> r = ring_for (\<not> c) ?l" using rf.pop_none [OF wf e] r by simp
  then show ?thesis using d l' by (auto simp: ring_for_def)
qed

section \<open>The wire is a channel\<close>

definition wire_chan :: "lanes \<Rightarrow> frame \<Rightarrow> nat \<Rightarrow> nat \<Rightarrow> frame \<Rightarrow> nat \<Rightarrow> nat \<Rightarrow> bool" where
  "wire_chan d F i j G k l = (flight_lane False F i j (a_to_b d) \<and> flight_lane True G k l (b_to_a d))"

interpretation wire: tandem "duplex_port True True" "duplex_port False False" wire_chan
proof (unfold_locales, goal_cases)
  case (1 w F i j G k l)
  then show ?case using flight_lane_write [of False F i j "a_to_b w"]
    by (auto simp: wire_chan_def duplex_port_def)
next
  case (2 w F i j G k l w' x)
  obtain ln y where y: "read_lane False (a_to_b w) = (ln, y)" by fastforce
  then show ?case using 2 flight_lane_read [OF _ y, of F i j]
    by (auto simp: wire_chan_def duplex_port_def)
next
  case (3 w F i j G k l)
  then show ?case using flight_lane_write [of True G k l "b_to_a w"]
    by (auto simp: wire_chan_def duplex_port_def)
next
  case (4 w F i j G k l w' x)
  obtain ln y where y: "read_lane True (b_to_a w) = (ln, y)" by fastforce
  then show ?case using 4 flight_lane_read [OF _ y, of G k l]
    by (auto simp: wire_chan_def duplex_port_def)
next
  case (5 w F G F' G')
  then show ?case using flight_lane_fresh [of False F "a_to_b w" F'] flight_lane_fresh [of True G "b_to_a w" G']
    by (simp add: wire_chan_def is_answer_def is_reply_def)
qed

lemma wire_chan_idle_read:
  assumes "wire_chan d F i j G k l"
  shows "\<exists>d'. read_byte (duplex_port True False) d = (d', Inr None) \<and> wire_chan d' F i j G k l"
proof -
  obtain ln y where y: "read_lane False (b_to_a d) = (ln, y)" by fastforce
  then show ?thesis using assms flight_lane_other [of True G k l "b_to_a d" ln y]
    by (auto simp: wire_chan_def duplex_port_def)
qed


section \<open>The two pumps\<close>

text \<open>What is left of a round once the loop has read and offered.\<close>

definition copy_polls ::
  "nat \<Rightarrow> ('s, 'a) source \<Rightarrow> ('k, 'b) sink \<Rightarrow> lanes \<Rightarrow> (sender, receiver) pump \<Rightarrow> (sender, receiver) pump \<Rightarrow>
     's \<Rightarrow> 'k \<Rightarrow> copy_loop \<Rightarrow> lanes \<times> 's \<times> 'k \<times> (wire_copy_error + nat)" where
  "copy_polls rounds src snk d a b s1 k l2 =
     (case pump_poll (duplex_port True True) (duplex_port True False) d a of
        (d1, a1, Inl _) \<Rightarrow> (d1, s1, k, Inl WcProtocol)
      | (d1, a1, Inr EvAborted) \<Rightarrow> (d1, s1, k, Inl WcProtocol)
      | (d1, a1, Inr _) \<Rightarrow>
          (case pump_poll (duplex_port False True) (duplex_port False False) d1 b of
             (d2, b1, Inr (EvReceived byte)) \<Rightarrow>
               (case sink_write snk byte k of
                  (k1, Inl _) \<Rightarrow> (d2, s1, k1, Inl WcSink)
                | (k1, Inr _) \<Rightarrow> copy_rounds rounds src snk d2 a1 b1 s1 k1 (l2\<lparr>cl_n := cl_n l2 + 1\<rparr>))
           | (d2, b1, Inr EvCompleted) \<Rightarrow> (d2, s1, k, Inr (cl_n l2))
           | (d2, b1, Inr EvAborted) \<Rightarrow> (d2, s1, k, Inl WcProtocol)
           | (d2, b1, Inr _) \<Rightarrow> copy_rounds rounds src snk d2 a1 b1 s1 k l2
           | (d2, b1, Inl _) \<Rightarrow> (d2, s1, k, Inl WcProtocol)))"

lemma copy_rounds_Suc:
  "copy_rounds (Suc rounds) src snk d a b s k l =
     (case copy_read src s l of
        (s1, Inl e) \<Rightarrow> (d, s1, k, Inl e)
      | (s1, Inr l1) \<Rightarrow>
          (case copy_offer (pm_tx a) l1 of
             (tx, Inl e) \<Rightarrow> (d, s1, k, Inl e)
           | (tx, Inr l2) \<Rightarrow> copy_polls rounds src snk d (a\<lparr>pm_tx := tx\<rparr>) b s1 k l2))"
  by (simp only: copy_rounds.simps copy_polls_def)

declare copy_rounds.simps(2) [simp del]

lemma copy_polls_quiet:
  assumes "pump_poll (duplex_port True True) (duplex_port True False) d a = (d1, a1, Inr ev)"
    and "ev \<in> {EvIdle, EvProgress, EvSent}"
  shows "pump_poll (duplex_port False True) (duplex_port False False) d1 b = (d2, b2, Inr (EvReceived c)) \<Longrightarrow>
      copy_polls m src snk d a b s k cl = (case sink_write snk c k of
         (k1, Inl _) \<Rightarrow> (d2, s, k1, Inl WcSink)
       | (k1, Inr _) \<Rightarrow> copy_rounds m src snk d2 a1 b2 s k1 (cl\<lparr>cl_n := cl_n cl + 1\<rparr>))"
    and "pump_poll (duplex_port False True) (duplex_port False False) d1 b = (d2, b2, Inr EvCompleted) \<Longrightarrow>
      copy_polls m src snk d a b s k cl = (d2, s, k, Inr (cl_n cl))"
    and "pump_poll (duplex_port False True) (duplex_port False False) d1 b = (d2, b2, Inr ev') \<Longrightarrow>
      ev' \<in> {EvIdle, EvProgress, EvSent} \<Longrightarrow> copy_polls m src snk d a b s k cl = copy_rounds m src snk d2 a1 b2 s k cl"
proof -
  have "copy_polls m src snk d a b s k cl =
      (case pump_poll (duplex_port False True) (duplex_port False False) d1 b of
         (d2, b1, Inr (EvReceived byte)) \<Rightarrow>
           (case sink_write snk byte k of
              (k1, Inl _) \<Rightarrow> (d2, s, k1, Inl WcSink)
            | (k1, Inr _) \<Rightarrow> copy_rounds m src snk d2 a1 b1 s k1 (cl\<lparr>cl_n := cl_n cl + 1\<rparr>))
       | (d2, b1, Inr EvCompleted) \<Rightarrow> (d2, s, k, Inr (cl_n cl))
       | (d2, b1, Inr EvAborted) \<Rightarrow> (d2, s, k, Inl WcProtocol)
       | (d2, b1, Inr _) \<Rightarrow> copy_rounds m src snk d2 a1 b1 s k cl
       | (d2, b1, Inl _) \<Rightarrow> (d2, s, k, Inl WcProtocol))"
    unfolding copy_polls_def assms(1) prod.case sum.case using assms(2)
    by (elim insertE emptyE) (simp_all only: pump_event.case)
  note 1 = this
  show "pump_poll (duplex_port False True) (duplex_port False False) d1 b = (d2, b2, Inr (EvReceived c)) \<Longrightarrow>
      copy_polls m src snk d a b s k cl = (case sink_write snk c k of
         (k1, Inl _) \<Rightarrow> (d2, s, k1, Inl WcSink)
       | (k1, Inr _) \<Rightarrow> copy_rounds m src snk d2 a1 b2 s k1 (cl\<lparr>cl_n := cl_n cl + 1\<rparr>))"
    "pump_poll (duplex_port False True) (duplex_port False False) d1 b = (d2, b2, Inr EvCompleted) \<Longrightarrow>
      copy_polls m src snk d a b s k cl = (d2, s, k, Inr (cl_n cl))"
    by (simp_all only: 1 prod.case sum.case pump_event.case)
  show "pump_poll (duplex_port False True) (duplex_port False False) d1 b = (d2, b2, Inr ev') \<Longrightarrow>
      ev' \<in> {EvIdle, EvProgress, EvSent} \<Longrightarrow> copy_polls m src snk d a b s k cl = copy_rounds m src snk d2 a1 b2 s k cl"
    by (elim insertE emptyE) (simp_all only: 1 prod.case sum.case pump_event.case)
qed

text \<open>A flight from A to B; B's own sender and A's own receiver rest.\<close>

definition bystanders :: "(sender, receiver) pump \<Rightarrow> (sender, receiver) pump \<Rightarrow> bool" where
  "bystanders a b = (receiver_rest 0 (pm_rx a) \<and> sender_rest 0 1000 (pm_tx b) \<and>
     \<not> pm_pending_completed a \<and> \<not> pm_pending_completed b)"

definition flying :: "flight_kind \<Rightarrow> u8 \<Rightarrow> nat \<Rightarrow> nat \<Rightarrow> nat \<Rightarrow> nat \<Rightarrow> nat \<Rightarrow> lanes \<Rightarrow> (sender, receiver) pump \<Rightarrow> (sender, receiver) pump \<Rightarrow> bool" where
  "flying kind q i j k l t d a b = (wire.joint kind q i j k l t d (pm_tx a) (pm_rx b) \<and> bystanders a b \<and>
     unat (timeout_ticks (s_policy (pm_tx a))) = 1000)"

definition resting :: "u8 \<Rightarrow> lanes \<Rightarrow> (sender, receiver) pump \<Rightarrow> (sender, receiver) pump \<Rightarrow> bool" where
  "resting q d a b = ((d = duplex_new \<or> (\<exists>F G. wire_chan d F 4 4 G 4 4)) \<and> sender_rest q 1000 (pm_tx a) \<and> receiver_rest q (pm_rx b) \<and> bystanders a b)"

lemma bystander_receiver:
  assumes "receiver_rest 0 r" and "read_byte p w = (w', Inr None)"
  shows "\<exists>r'. receiver_poll p w r = (w', r', Inr OutPending) \<and> receiver_rest 0 r'"
  using receiver_poll_waits [OF iffD1 [OF receiver_rest_at [of 0 r FFinish] assms(1)] _ assms(2)] receiver_rest_at [of 0 _ FFinish] by auto

lemma joint_mark [simp]: "wire.joint kind q i j k l t d (s\<lparr>s_mark := m\<rparr>) r = wire.joint kind q i j k l t d s r"
  by (simp add: wire.joint_def)

lemma pump_a_turn:
  assumes "flying kind q i j k l t d a b" and "Suc t < 1000" and "kind \<noteq> FFinish \<or> l < 4"
  shows "\<exists>d' a' ev. pump_poll (duplex_port True True) (duplex_port True False) d a = (d', a', Inr ev) \<and>
    ev \<in> {EvIdle, EvProgress, EvSent} \<and> bystanders a' b \<and>
    ((\<exists>j' k' t'. flying kind q i j' k' l t' d' a' b \<and> j \<le> j' \<and> k \<le> k' \<and> t' \<le> Suc t \<and>
        (j < 4 \<or> l = 4 \<longrightarrow> j + k < j' + k')) \<or>
     (j = 4 \<and> l = 4 \<and> kind \<noteq> FFinish \<and> sender_rest (q + 1) 1000 (pm_tx a') \<and>
        wire_chan d' (flight_frame kind q) i 4 (ack_frame q) 4 4))"
proof -
  have f: "wire.joint kind q i j k l t d (pm_tx a) (pm_rx b)" "receiver_rest 0 (pm_rx a)" "sender_rest 0 1000 (pm_tx b)"
    "\<not> pm_pending_completed a" "\<not> pm_pending_completed b" "unat (timeout_ticks (s_policy (pm_tx a))) = 1000"
    using assms(1) by (simp_all add: flying_def bystanders_def)
  have c: "wire_chan d (flight_frame kind q) i j (ack_frame q) k l" using f(1) by (simp add: wire.joint_def)
  obtain d1 where d1: "read_byte (duplex_port True False) d = (d1, Inr None)"
    "wire_chan d1 (flight_frame kind q) i j (ack_frame q) k l" using wire_chan_idle_read [OF c] by auto
  obtain rx where rx: "receiver_poll (duplex_port True False) d (pm_rx a) = (d1, rx, Inr OutPending)" "receiver_rest 0 rx"
    using bystander_receiver [OF f(2) d1(1)] by auto
  have J: "wire.joint kind q i j k l t d1 (pm_tx a) (pm_rx b)" using f(1) d1(2) by (simp add: wire.joint_def)
  have "Suc t < unat (timeout_ticks (s_policy (pm_tx a)))" using f(6) assms(2) by simp
  from wire.sender_turn [OF J this] obtain d2 tx x where x: "sender_poll (duplex_port True True) d1 (pm_tx a) = (d2, tx, Inr x)"
    and cs: "(\<exists>j' k' t'. x = PollPending \<and> wire.joint kind q i j' k' l t' d2 tx (pm_rx b) \<and> s_policy tx = s_policy (pm_tx a) \<and>
        j \<le> j' \<and> k \<le> k' \<and> t' \<le> Suc t \<and> (j < 4 \<or> l = 4 \<longrightarrow> j + k < j' + k')) \<or>
     (x = (if kind = FFinish then PollTransferDone else PollAcked) \<and> j = 4 \<and> l = 4 \<and>
        (kind \<noteq> FFinish \<longrightarrow> sender_rest (q + 1) (unat (timeout_ticks (s_policy (pm_tx a)))) tx \<and>
           wire_chan d2 (flight_frame kind q) i j (ack_frame q) 4 4))" by (elim exE conjE) (rule that)
  have "x = PollPending \<or> x = PollAcked" using cs assms(3) by auto
  from pump_poll_quiet [OF f(4) rx(1) x this] obtain a' ev where
    a': "pump_poll (duplex_port True True) (duplex_port True False) d a = (d2, a', Inr ev)" "ev \<in> {EvIdle, EvProgress, EvSent}"
      "pm_rx a' = rx" "pm_tx a' = tx\<lparr>s_mark := io_mark_default\<rparr>" "\<not> pm_pending_completed a'" by auto
  have st: "bystanders a' b" using a' rx(2) f(3,5) by (simp add: bystanders_def)
  from cs show ?thesis
  proof (elim disjE exE conjE)
    fix j' k' t'
    assume "wire.joint kind q i j' k' l t' d2 tx (pm_rx b)" "s_policy tx = s_policy (pm_tx a)"
      and m: "j \<le> j'" "k \<le> k'" "t' \<le> Suc t" "j < 4 \<or> l = 4 \<longrightarrow> j + k < j' + k'"
    then have "flying kind q i j' k' l t' d2 a' b" using st a'(4) f(6) by (simp add: flying_def)
    then show ?thesis using a'(1,2) st m by blast
  next
    assume "x = (if kind = FFinish then PollTransferDone else PollAcked)" and l: "j = 4" "l = 4"
      "kind \<noteq> FFinish \<longrightarrow> sender_rest (q + 1) (unat (timeout_ticks (s_policy (pm_tx a)))) tx \<and>
           wire_chan d2 (flight_frame kind q) i j (ack_frame q) 4 4"
    then have "kind \<noteq> FFinish" "sender_rest (q + 1) 1000 (pm_tx a')" "wire_chan d2 (flight_frame kind q) i 4 (ack_frame q) 4 4"
      using assms(3) a'(4) f(6) by auto
    then show ?thesis using a'(1,2) st l by blast
  qed
qed


lemma pump_b_turn:
  assumes "flying kind q i j k l t d a b"
  shows "\<exists>d' b' i' l'. flying kind q i' j k l' t d' a b' \<and> i \<le> i' \<and> l \<le> l' \<and>
    (j = 4 \<and> l < 4 \<longrightarrow> i + l < i' + l') \<and>
    (if l < 4 \<and> l' = 4 then pump_poll (duplex_port False True) (duplex_port False False) d b =
        (d', b', Inr (event_of_outcome (outcome_of kind)))
     else \<exists>ev \<in> {EvIdle, EvProgress, EvSent}.
        pump_poll (duplex_port False True) (duplex_port False False) d b = (d', b', Inr ev))"
proof -
  have f: "wire.joint kind q i j k l t d (pm_tx a) (pm_rx b)" "receiver_rest 0 (pm_rx a)" "sender_rest 0 1000 (pm_tx b)"
    "\<not> pm_pending_completed a" "\<not> pm_pending_completed b" "unat (timeout_ticks (s_policy (pm_tx a))) = 1000"
    using assms(1) by (simp_all add: flying_def bystanders_def)
  have K: "sent_kind kind" using f(1) by (simp add: wire.joint_def)
  from wire.receiver_turn [OF f(1)] obtain d' rx i' l' where
    r: "receiver_poll (duplex_port False False) d (pm_rx b) = (d', rx, Inr (if l < 4 \<and> l' = 4 then outcome_of kind else OutPending))"
    and J: "wire.joint kind q i' j k l' t d' (pm_tx a) rx"
    and m: "i \<le> i'" "l \<le> l'" "j = 4 \<and> l < 4 \<longrightarrow> i + l < i' + l'"
    by (elim exE conjE) (rule that)
  note s = sender_rest_polls [OF f(3), of "duplex_port False True" d']
  show ?thesis
  proof (cases "l < 4 \<and> l' = 4")
    case True
    obtain b' where b': "pump_poll (duplex_port False True) (duplex_port False False) d b =
        (d', b', Inr (event_of_outcome (outcome_of kind)))" "pm_rx b' = rx" "\<not> pm_pending_completed b'"
      "pm_tx b' = pm_tx b\<lparr>s_mark := io_mark_default\<rparr>\<lparr>s_mark := io_mark_default\<rparr>"
      using pump_poll_out [OF f(5) _ s K disjI1 [OF refl], of "duplex_port False False" d rx] r True by auto
    have "flying kind q i' j k l' t d' a b'" using J b' f unfolding flying_def bystanders_def by simp
    then show ?thesis using m b'(1) True by (intro exI [of _ d'] exI [of _ b'] exI [of _ i'] exI [of _ l']) simp
  next
    case False
    then have r0: "receiver_poll (duplex_port False False) d (pm_rx b) = (d', rx, Inr OutPending)" using r by auto
    from pump_poll_quiet [OF f(5) r0 s] obtain b' ev where
      b': "pump_poll (duplex_port False True) (duplex_port False False) d b = (d', b', Inr ev)"
        "ev \<in> {EvIdle, EvProgress, EvSent}" "pm_rx b' = rx" "\<not> pm_pending_completed b'"
        "pm_tx b' = pm_tx b\<lparr>s_mark := io_mark_default\<rparr>\<lparr>s_mark := io_mark_default\<rparr>" by auto
    have "flying kind q i' j k l' t d' a b'" using J b' f unfolding flying_def bystanders_def by simp
    then show ?thesis using m b'(1,2) False
      by - (rule exI [of _ d'], rule exI [of _ b'], rule exI [of _ i'], rule exI [of _ l'], auto)
  qed
qed

lemma pump_b_waits:
  assumes "receiver_at kind q 4 4 (pm_rx b)" and "kind \<noteq> FFinish" and "sender_rest 0 1000 (pm_tx b)" and "\<not> pm_pending_completed b"
    and "wire_chan d F 4 4 G 4 4"
  shows "\<exists>d' b' ev. pump_poll (duplex_port False True) (duplex_port False False) d b = (d', b', Inr ev) \<and>
    ev \<in> {EvIdle, EvProgress, EvSent} \<and> wire_chan d' F 4 4 G 4 4 \<and> receiver_rest (q + 1) (pm_rx b') \<and>
    sender_rest 0 1000 (pm_tx b') \<and> \<not> pm_pending_completed b'"
proof -
  obtain d' x where x: "read_byte (duplex_port False False) d = (d', x)" by fastforce
  from wire.hear [OF assms(5) x] have x': "x = Inr None" "wire_chan d' F 4 4 G 4 4" by auto
  obtain rx where rx: "receiver_poll (duplex_port False False) d (pm_rx b) = (d', rx, Inr OutPending)"
    "receiver_at kind q 4 4 rx"
    using receiver_poll_waits [OF assms(1) _ x [unfolded x'(1)]] by auto
  have r: "receiver_rest (q + 1) rx" by (rule receiver_at_rest [OF rx(2) assms(2)])
  note s = sender_rest_polls [OF assms(3), of "duplex_port False True" d']
  from pump_poll_quiet [OF assms(4) rx(1) s] obtain b' ev where
    b': "pump_poll (duplex_port False True) (duplex_port False False) d b = (d', b', Inr ev)"
      "ev \<in> {EvIdle, EvProgress, EvSent}" "pm_rx b' = rx" "\<not> pm_pending_completed b'"
      "pm_tx b' = pm_tx b\<lparr>s_mark := io_mark_default\<rparr>\<lparr>s_mark := io_mark_default\<rparr>" by auto
  have "receiver_rest (q + 1) (pm_rx b')" "sender_rest 0 1000 (pm_tx b')" using r b'(3,5) assms(3) by simp_all
  then show ?thesis using b'(1,2,4) x'(2) by blast
qed

lemma flying_le: "flying kind q i j k l t d a b \<Longrightarrow> j \<le> 4 \<and> l \<le> 4"
  by (simp add: flying_def wire.joint_def sender_at_def receiver_at_def)

text \<open>
  One round of a flight: it moves on, or the byte is delivered, or FINISH arrives, or the ACK is in.
\<close>

lemma copy_polls_flying:
  assumes "flying kind q i j k l t d a b" and "Suc t < 1000" and "kind \<noteq> FFinish \<or> l < 4"
  shows "(\<exists>d' a' b' i' j' k' l' t'. flying kind q i' j' k' l' t' d' a' b' \<and> i + j + k + l < i' + j' + k' + l' \<and>
      t' \<le> Suc t \<and> l \<le> l' \<and> (l < 4 \<and> l' = 4 \<longrightarrow> kind \<noteq> FFinish) \<and>
      (\<forall>m s kk cl. copy_polls m slice_byte_source slice_byte_sink d a b s kk cl =
         (if l < 4 \<and> l' = 4 then
            (case sink_write slice_byte_sink (case kind of FData c \<Rightarrow> c | _ \<Rightarrow> 0) kk of
               (k1, Inl _) \<Rightarrow> (d', s, k1, Inl WcSink)
             | (k1, Inr _) \<Rightarrow> copy_rounds m slice_byte_source slice_byte_sink d' a' b' s k1 (cl\<lparr>cl_n := Suc (cl_n cl)\<rparr>))
          else copy_rounds m slice_byte_source slice_byte_sink d' a' b' s kk cl))) \<or>
    (\<exists>d' a' b'. l = 4 \<and> resting (q + 1) d' a' b' \<and>
      (\<forall>m s kk cl. copy_polls m slice_byte_source slice_byte_sink d a b s kk cl = copy_rounds m slice_byte_source slice_byte_sink d' a' b' s kk cl)) \<or>
    (kind = FFinish \<and> (\<exists>d'. \<forall>m s kk cl. copy_polls m slice_byte_source slice_byte_sink d a b s kk cl = (d', s, kk, Inr (cl_n cl))))"
proof -
  obtain d1 a1 ev where a1: "pump_poll (duplex_port True True) (duplex_port True False) d a = (d1, a1, Inr ev)"
      "ev \<in> {EvIdle, EvProgress, EvSent}" "bystanders a1 b"
    and cs: "(\<exists>j' k' t'. flying kind q i j' k' l t' d1 a1 b \<and> j \<le> j' \<and> k \<le> k' \<and> t' \<le> Suc t \<and>
        (j < 4 \<or> l = 4 \<longrightarrow> j + k < j' + k')) \<or>
     (j = 4 \<and> l = 4 \<and> kind \<noteq> FFinish \<and> sender_rest (q + 1) 1000 (pm_tx a1) \<and>
        wire_chan d1 (flight_frame kind q) i 4 (ack_frame q) 4 4)"
    using pump_a_turn [OF assms] by (elim exE conjE) (rule that)
  have kinds: "\<exists>c. kind = FData c" if "kind \<noteq> FFinish"
    using assms(1) that by (cases kind) (simp_all add: flying_def wire.joint_def sent_kind_def)
  from cs show ?thesis
  proof (elim disjE exE conjE)
    fix j' k' t'
    assume F: "flying kind q i j' k' l t' d1 a1 b" and m: "j \<le> j'" "k \<le> k'" "t' \<le> Suc t" "j < 4 \<or> l = 4 \<longrightarrow> j + k < j' + k'"
    obtain d2 b2 i' l' where F2: "flying kind q i' j' k' l' t' d2 a1 b2" and m2: "i \<le> i'" "l \<le> l'"
        "j' = 4 \<and> l < 4 \<longrightarrow> i + l < i' + l'"
      and p: "if l < 4 \<and> l' = 4 then pump_poll (duplex_port False True) (duplex_port False False) d1 b =
          (d2, b2, Inr (event_of_outcome (outcome_of kind)))
        else \<exists>ev \<in> {EvIdle, EvProgress, EvSent}.
          pump_poll (duplex_port False True) (duplex_port False False) d1 b = (d2, b2, Inr ev)"
      using pump_b_turn [OF F] by (elim exE conjE) (rule that)
    have le: "j \<le> 4" "j' \<le> 4" "l \<le> 4" using flying_le [OF assms(1)] flying_le [OF F] by simp_all
    have more: "i + j + k + l < i' + j' + k' + l'" using m m2 le by (cases "j < 4 \<or> l = 4") auto
    show ?thesis
    proof (cases "l < 4 \<and> l' = 4")
      case False
      then obtain ev2 where e: "ev2 \<in> {EvIdle, EvProgress, EvSent}"
        "pump_poll (duplex_port False True) (duplex_port False False) d1 b = (d2, b2, Inr ev2)" using p unfolding if_not_P [OF False] by (elim bexE) (rule that)
      have "copy_polls mm slice_byte_source slice_byte_sink d a b s kk cl = copy_rounds mm slice_byte_source slice_byte_sink d2 a1 b2 s kk cl" for mm s kk cl
        by (rule copy_polls_quiet(3) [OF a1(1,2) e(2,1)])
      then show ?thesis using F2 more m m2 False
        by - (rule disjI1, rule exI [of _ d2], rule exI [of _ a1], rule exI [of _ b2], rule exI [of _ i'],
            rule exI [of _ j'], rule exI [of _ k'], rule exI [of _ l'], rule exI [of _ t'], auto)
    next
      case True
      note e = p [unfolded if_P [OF True]]
      show ?thesis
      proof (cases "kind = FFinish")
        case False
        then obtain c where c: "kind = FData c" using kinds by auto
        have "copy_polls mm slice_byte_source slice_byte_sink d a b s kk cl = (case sink_write slice_byte_sink (case kind of FData c \<Rightarrow> c | _ \<Rightarrow> 0) kk of
               (k1, Inl _) \<Rightarrow> (d2, s, k1, Inl WcSink)
             | (k1, Inr _) \<Rightarrow> copy_rounds mm slice_byte_source slice_byte_sink d2 a1 b2 s k1 (cl\<lparr>cl_n := Suc (cl_n cl)\<rparr>))" for mm s kk cl
          using copy_polls_quiet(1) [OF a1(1,2), of b d2 b2 c] e c by (simp add: event_of_outcome_def outcome_of_def)
        then show ?thesis using F2 more m m2 True False
          by - (rule disjI1, rule exI [of _ d2], rule exI [of _ a1], rule exI [of _ b2], rule exI [of _ i'],
            rule exI [of _ j'], rule exI [of _ k'], rule exI [of _ l'], rule exI [of _ t'], auto)
      next
        case True
        have "copy_polls mm slice_byte_source slice_byte_sink d a b s kk cl = (d2, s, kk, Inr (cl_n cl))" for mm s kk cl
          using copy_polls_quiet(2) [OF a1(1,2), of b d2 b2] e True by (simp add: event_of_outcome_def outcome_of_def)
        then show ?thesis using True by blast
      qed
    qed
  next
    assume l: "j = 4" "l = 4" "kind \<noteq> FFinish" and s: "sender_rest (q + 1) 1000 (pm_tx a1)"
      and c: "wire_chan d1 (flight_frame kind q) i 4 (ack_frame q) 4 4"
    have R: "receiver_at kind q i 4 (pm_rx b)" using assms(1) l by (simp add: flying_def wire.joint_def)
    then have i: "i = 4" by (simp add: receiver_at_def)
    have b: "sender_rest 0 1000 (pm_tx b)" "\<not> pm_pending_completed b" using a1(3) by (simp_all add: bystanders_def)
    obtain d2 b2 ev2 where e: "pump_poll (duplex_port False True) (duplex_port False False) d1 b = (d2, b2, Inr ev2)"
      "ev2 \<in> {EvIdle, EvProgress, EvSent}" "wire_chan d2 (flight_frame kind q) 4 4 (ack_frame q) 4 4"
      "receiver_rest (q + 1) (pm_rx b2)" "sender_rest 0 1000 (pm_tx b2)" "\<not> pm_pending_completed b2"
      using pump_b_waits [OF R [unfolded i] l(3) b c [unfolded i]] by (elim exE conjE) (rule that)
    have "resting (q + 1) d2 a1 b2" using e s a1(3) by (auto simp: resting_def bystanders_def)
    moreover have "copy_polls mm slice_byte_source slice_byte_sink d a b ss kk cl = copy_rounds mm slice_byte_source slice_byte_sink d2 a1 b2 ss kk cl" for mm ss kk cl
      by (rule copy_polls_quiet(3) [OF a1(1,2) e(1,2)])
    ultimately show ?thesis using l(2)
      by - (rule disjI2, rule disjI1, rule exI [of _ d2], rule exI [of _ a1], rule exI [of _ b2], simp)
  qed
qed


section \<open>The copy\<close>

text \<open>What the loop has still to offer: the byte it holds and what is left of the source.\<close>

definition left_over :: "u8 list \<Rightarrow> slice_source \<Rightarrow> copy_loop \<Rightarrow> bool" where
  "left_over ds s cl = (ds = (case cl_hold cl of Some c \<Rightarrow> c # ss_rest s | None \<Rightarrow> ss_rest s) \<and>
     (cl_exhausted cl \<longrightarrow> ds = []) \<and> \<not> cl_finish_offered cl)"

lemma left_over_n [simp]: "left_over ds s (cl\<lparr>cl_n := n\<rparr>) = left_over ds s cl"
  by (simp add: left_over_def)

lemma copy_read_slice:
  assumes "left_over ds s cl"
  shows "\<exists>s1 cl1. copy_read slice_byte_source s cl = (s1, Inr cl1) \<and> left_over ds s1 cl1 \<and> cl_n cl1 = cl_n cl \<and>
    (if ds = [] then cl_hold cl1 = None \<and> cl_exhausted cl1 else cl_hold cl1 = Some (hd ds) \<and> ss_rest s1 = tl ds)"
proof (cases "cl_hold cl = None \<and> \<not> cl_exhausted cl")
  case False
  then show ?thesis using assms by (auto simp: copy_read_def left_over_def split: option.splits)
next
  case True
  then have ds: "ds = ss_rest s" "\<not> cl_finish_offered cl" using assms by (simp_all add: left_over_def)
  show ?thesis
  proof (cases "ss_rest s")
    case Nil
    then show ?thesis using True ds
      by (intro exI [of _ s] exI [of _ "cl\<lparr>cl_exhausted := True\<rparr>"])
        (simp add: copy_read_def left_over_def slice_byte_source_def)
  next
    case (Cons c cs)
    then show ?thesis using True ds
      by (intro exI [of _ "s\<lparr>ss_rest := cs\<rparr>"] exI [of _ "cl\<lparr>cl_hold := Some c\<rparr>"])
        (simp add: copy_read_def left_over_def slice_byte_source_def)
  qed
qed

lemma flying_busy: "flying kind q i j k l t d a b \<Longrightarrow> s_state (pm_tx a) \<noteq> TxIdle"
  by (auto simp: flying_def wire.joint_def sender_at_def sender_wf_def flight_wf_def)

lemma copy_rounds_flying:
  assumes "flying kind q i j k l t d a b" and "left_over ds s cl"
  shows "\<exists>s1 cl1. left_over ds s1 cl1 \<and> cl_n cl1 = cl_n cl \<and>
    (\<forall>m kk. copy_rounds (Suc m) slice_byte_source slice_byte_sink d a b s kk cl = copy_polls m slice_byte_source slice_byte_sink d a b s1 kk cl1)"
proof -
  obtain s1 cl1 where 1: "copy_read slice_byte_source s cl = (s1, Inr cl1)" "left_over ds s1 cl1" "cl_n cl1 = cl_n cl"
    using copy_read_slice [OF assms(2)] by (elim exE conjE) (rule that)
  have "copy_rounds (Suc m) slice_byte_source slice_byte_sink d a b s kk cl = copy_polls m slice_byte_source slice_byte_sink d a b s1 kk cl1" for m kk
    using 1(1) flying_busy [OF assms(1)] by (simp add: copy_rounds_Suc copy_offer_def)
  then show ?thesis using 1(2,3) by blast
qed

lemma resting_begins:
  assumes "resting q d a b" and "sent_kind kind"
  shows "flying kind q 0 0 0 0 0 d (a\<lparr>pm_tx := sender_begin kind q (pm_tx a)\<rparr>) b"
    and "sender_can_offer_data (pm_tx a)" and "seq_current (s_seq (pm_tx a)) = q" and "s_state (pm_tx a) = TxIdle"
proof -
  have r: "sender_rest q 1000 (pm_tx a)" "receiver_rest q (pm_rx b)" "bystanders a b"
    "d = duplex_new \<or> (\<exists>F G. wire_chan d F 4 4 G 4 4)" using assms(1) by (simp_all add: resting_def)
  note s = sender_rest_begins [OF r(1) _ assms(2)]
  have fr: "frame_ok (flight_frame kind q)" "\<not> is_reply (fr_type (flight_frame kind q))" "frame_ok (ack_frame q)"
    "is_reply (fr_type (ack_frame q))"
    using assms(2) by (cases kind; simp add: sent_kind_def frame_ok_def semantics_ok_def frame_defs is_control_def is_reply_def)+
  have "wire_chan duplex_new (flight_frame kind q) 0 0 (ack_frame q) 0 0"
    using fr flight_lane_new by (simp add: wire_chan_def duplex_new_def)
  then have "wire.joint kind q 0 0 0 0 0 d (sender_begin kind q (pm_tx a)) (pm_rx b)"
    using r wire.joint_begins [OF _ r(1) _ r(2) assms(2)] by auto
  moreover have "unat (timeout_ticks (s_policy (sender_begin kind q (pm_tx a)))) = 1000"
    using s(4) r(1) by (simp add: sender_rest_def)
  ultimately show "flying kind q 0 0 0 0 0 d (a\<lparr>pm_tx := sender_begin kind q (pm_tx a)\<rparr>) b"
    using r(3) by (simp add: flying_def bystanders_def)
  show "sender_can_offer_data (pm_tx a)" "seq_current (s_seq (pm_tx a)) = q" "s_state (pm_tx a) = TxIdle"
    using s r(1) by (simp_all add: sender_rest_def)
qed

text \<open>The loop as the interface sees it: the state is the wire and the two pumps.\<close>

type_synonym wire_state = "lanes \<times> (sender, receiver) pump \<times> (sender, receiver) pump"

definition wire_resting :: "wire_state \<Rightarrow> bool" where
  "wire_resting = (\<lambda>(d, a, b). \<exists>q. resting q d a b)"

definition wire_flying :: "flight_kind \<Rightarrow> nat \<Rightarrow> nat \<Rightarrow> bool \<Rightarrow> wire_state \<Rightarrow> bool" where
  "wire_flying kind n t g = (\<lambda>(d, a, b). \<exists>q i j k l. flying kind q i j k l t d a b \<and> n = i + j + k + l \<and> g = (l = 4))"

definition wire_rounds :: "nat \<Rightarrow> wire_state \<Rightarrow> slice_source \<Rightarrow> slice_sink \<Rightarrow> copy_loop \<Rightarrow>
    lanes \<times> slice_source \<times> slice_sink \<times> (wire_copy_error + nat)" where
  "wire_rounds m = (\<lambda>(d, a, b). copy_rounds m slice_byte_source slice_byte_sink d a b)"

definition wire_polls :: "nat \<Rightarrow> wire_state \<Rightarrow> slice_source \<Rightarrow> slice_sink \<Rightarrow> copy_loop \<Rightarrow>
    lanes \<times> slice_source \<times> slice_sink \<times> (wire_copy_error + nat)" where
  "wire_polls m = (\<lambda>(d, a, b). copy_polls m slice_byte_source slice_byte_sink d a b)"

definition wire_finishes :: "lanes \<times> slice_source \<times> slice_sink \<times> (wire_copy_error + nat) \<Rightarrow> slice_sink \<Rightarrow> nat \<Rightarrow> bool" where
  "wire_finishes res k n = (\<exists>d s. res = (d, s, k, Inr n))"

lemma wire_flyingI:
  "flying kind q i j k l t d a b \<Longrightarrow> n = i + j + k + l \<Longrightarrow> g = (l = 4) \<Longrightarrow> wire_flying kind n t g (d, a, b)"
  unfolding wire_flying_def prod.case by blast

lemma wire_data:
  assumes "wire_flying (FData c) n t g st" and "Suc t < 1000"
  shows "\<exists>st' g'. (g \<longrightarrow> g') \<and> ((\<exists>n' t'. wire_flying (FData c) n' t' g' st' \<and> n < n' \<and> t' \<le> Suc t) \<or> g' \<and> wire_resting st') \<and>
    (\<forall>m s k k1 l. if g = g' then wire_polls m st s k l = wire_rounds m st' s k l
       else sink_write slice_byte_sink c k = (k1, Inr ()) \<longrightarrow>
         wire_polls m st s k l = wire_rounds m st' s k1 (l\<lparr>cl_n := Suc (cl_n l)\<rparr>))"
proof -
  obtain d a b q i j k l where st: "st = (d, a, b)" and f: "flying (FData c) q i j k l t d a b" and n: "n = i + j + k + l" "g = (l = 4)"
    using assms(1) by (auto simp: wire_flying_def)
  have le: "l \<le> 4" using f by (simp add: flying_def wire.joint_def receiver_at_def)
  have "FData c \<noteq> FFinish \<or> l < 4" by simp
  from copy_polls_flying [OF f assms(2) this] show ?thesis
  proof (elim disjE exE conjE)
    fix d' a' b' i' j' k' l' t'
    assume f': "flying (FData c) q i' j' k' l' t' d' a' b'" and m: "i + j + k + l < i' + j' + k' + l'" "t' \<le> Suc t" "l \<le> l'"
      and p: "\<forall>m s kk cl. copy_polls m slice_byte_source slice_byte_sink d a b s kk cl =
         (if l < 4 \<and> l' = 4 then
            (case sink_write slice_byte_sink (case FData c of FData c \<Rightarrow> c | _ \<Rightarrow> 0) kk of
               (k1, Inl _) \<Rightarrow> (d', s, k1, Inl WcSink)
             | (k1, Inr _) \<Rightarrow> copy_rounds m slice_byte_source slice_byte_sink d' a' b' s k1 (cl\<lparr>cl_n := Suc (cl_n cl)\<rparr>))
          else copy_rounds m slice_byte_source slice_byte_sink d' a' b' s kk cl)"
    have le': "l' \<le> 4" using f' by (simp add: flying_def wire.joint_def receiver_at_def)
    have "wire_flying (FData c) (i' + j' + k' + l') t' (l' = 4) (d', a', b')" by (rule wire_flyingI [OF f']) simp_all
    then show ?thesis using m n le le' p
      by - (rule exI [of _ "(d', a', b')"], rule exI [of _ "l' = 4"], auto simp: st wire_polls_def wire_rounds_def)
  next
    fix d' a' b'
    assume "l = 4" "resting (q + 1) d' a' b'"
      "\<forall>m s kk cl. copy_polls m slice_byte_source slice_byte_sink d a b s kk cl =
         copy_rounds m slice_byte_source slice_byte_sink d' a' b' s kk cl"
    then show ?thesis using n
      by - (rule exI [of _ "(d', a', b')"], rule exI [of _ True], auto simp: st wire_polls_def wire_rounds_def wire_resting_def)
  qed simp
qed

lemma wire_finish:
  assumes "wire_flying FFinish n t False st" and "Suc t < 1000"
  shows "(\<exists>st' n' t'. wire_flying FFinish n' t' False st' \<and> n < n' \<and> t' \<le> Suc t \<and>
      (\<forall>m s k l. wire_polls m st s k l = wire_rounds m st' s k l)) \<or>
    (\<forall>m s k l. wire_finishes (wire_polls m st s k l) k (cl_n l))"
proof -
  obtain d a b q i j k l where st: "st = (d, a, b)" and f: "flying FFinish q i j k l t d a b" and n: "n = i + j + k + l" "l \<noteq> 4"
    using assms(1) by (auto simp: wire_flying_def)
  have "l \<le> 4" using f by (simp add: flying_def wire.joint_def receiver_at_def)
  then have l4: "FFinish \<noteq> FFinish \<or> l < 4" using n(2) by simp
  from copy_polls_flying [OF f assms(2) l4] show ?thesis
  proof (elim disjE exE conjE)
    fix d' a' b' i' j' k' l' t'
    assume f': "flying FFinish q i' j' k' l' t' d' a' b'" and m: "i + j + k + l < i' + j' + k' + l'" "t' \<le> Suc t"
      and l': "l < 4 \<and> l' = 4 \<longrightarrow> FFinish \<noteq> FFinish"
      and p: "\<forall>m s kk cl. copy_polls m slice_byte_source slice_byte_sink d a b s kk cl =
         (if l < 4 \<and> l' = 4 then
            (case sink_write slice_byte_sink (case FFinish of FData c \<Rightarrow> c | _ \<Rightarrow> 0) kk of
               (k1, Inl _) \<Rightarrow> (d', s, k1, Inl WcSink)
             | (k1, Inr _) \<Rightarrow> copy_rounds m slice_byte_source slice_byte_sink d' a' b' s k1 (cl\<lparr>cl_n := Suc (cl_n cl)\<rparr>))
          else copy_rounds m slice_byte_source slice_byte_sink d' a' b' s kk cl)"
    have ne: "l' \<noteq> 4" using l' l4 by auto
    then have w: "wire_flying FFinish (i' + j' + k' + l') t' False (d', a', b')" by (intro wire_flyingI [OF f']) simp_all
    have e: "wire_polls m st s k l = wire_rounds m (d', a', b') s k l" for m s k l
      using p ne by (simp add: st wire_polls_def wire_rounds_def)
    show ?thesis using w m e n(1) by blast
  qed (use n(2) in \<open>auto simp: st wire_polls_def wire_finishes_def\<close>)
qed

lemma wire_goes_on:
  assumes "wire_flying kind n t g st" and "left_over ds s cl"
  shows "\<exists>s1 cl1. left_over ds s1 cl1 \<and> cl_n cl1 = cl_n cl \<and> (\<forall>m k. wire_rounds (Suc m) st s k cl = wire_polls m st s1 k cl1)"
proof -
  obtain d a b q i j k l where st: "st = (d, a, b)" and f: "flying kind q i j k l t d a b"
    using assms(1) by (auto simp: wire_flying_def)
  show ?thesis using copy_rounds_flying [OF f assms(2)] by (simp add: st wire_rounds_def wire_polls_def)
qed

lemma wire_closes:
  assumes "wire_flying FFinish n t g st" and "cl_exhausted cl"
  shows "\<exists>s1 cl1. cl_exhausted cl1 \<and> cl_n cl1 = cl_n cl \<and> (\<forall>m k. wire_rounds (Suc m) st s k cl = wire_polls m st s1 k cl1)"
proof -
  obtain d a b q i j k l where st: "st = (d, a, b)" and f: "flying FFinish q i j k l t d a b"
    using assms(1) by (auto simp: wire_flying_def)
  show ?thesis using assms(2) flying_busy [OF f]
    by (intro exI [of _ s] exI [of _ cl]) (simp add: st wire_rounds_def wire_polls_def copy_rounds_Suc copy_read_def copy_offer_def)
qed

lemma wire_begins:
  assumes "resting q d a b" and "sent_kind kind"
  shows "wire_flying kind 0 0 False (d, a\<lparr>pm_tx := sender_begin kind q (pm_tx a)\<rparr>, b)"
  by (rule wire_flyingI [OF resting_begins(1) [OF assms]]) simp_all

lemma wire_offers:
  assumes "wire_resting st" and "left_over (c # ds) s cl"
  shows "\<exists>st1 s1 cl1. wire_flying (FData c) 0 0 False st1 \<and> left_over ds s1 cl1 \<and> cl_n cl1 = cl_n cl \<and>
    (\<forall>m k. wire_rounds (Suc m) st s k cl = wire_polls m st1 s1 k cl1)"
proof -
  obtain d a b q where st: "st = (d, a, b)" and r: "resting q d a b" using assms(1) by (auto simp: wire_resting_def)
  have kind: "sent_kind (FData c)" by (simp add: sent_kind_def)
  note b = resting_begins [OF r kind]
  obtain s1 cl1 where 1: "copy_read slice_byte_source s cl = (s1, Inr cl1)" "left_over (c # ds) s1 cl1" "cl_n cl1 = cl_n cl"
    "cl_hold cl1 = Some c" "ss_rest s1 = ds" using copy_read_slice [OF assms(2)] by auto
  have "wire_rounds (Suc m) st s k cl =
      wire_polls m (d, a\<lparr>pm_tx := sender_begin (FData c) q (pm_tx a)\<rparr>, b) s1 k (cl1\<lparr>cl_hold := None\<rparr>)" for m k
    using 1 b by (simp add: st wire_rounds_def wire_polls_def copy_rounds_Suc copy_offer_def sender_offer_def)
  moreover have "left_over ds s1 (cl1\<lparr>cl_hold := None\<rparr>)" using 1 by (auto simp: left_over_def)
  moreover have "cl_n (cl1\<lparr>cl_hold := None\<rparr>) = cl_n cl" using 1(3) by simp
  ultimately show ?thesis using wire_begins [OF r kind] by blast
qed

lemma wire_offers_finish:
  assumes "wire_resting st" and "left_over [] s cl"
  shows "\<exists>st1 s1 cl1. wire_flying FFinish 0 0 False st1 \<and> cl_exhausted cl1 \<and> cl_n cl1 = cl_n cl \<and>
    (\<forall>m k. wire_rounds (Suc m) st s k cl = wire_polls m st1 s1 k cl1)"
proof -
  obtain d a b q where st: "st = (d, a, b)" and r: "resting q d a b" using assms(1) by (auto simp: wire_resting_def)
  have kind: "sent_kind FFinish" by (simp add: sent_kind_def)
  note b = resting_begins [OF r kind]
  obtain s1 cl1 where 1: "copy_read slice_byte_source s cl = (s1, Inr cl1)" "left_over [] s1 cl1" "cl_n cl1 = cl_n cl"
    "cl_hold cl1 = None" "cl_exhausted cl1" using copy_read_slice [OF assms(2)] by auto
  have "\<not> cl_finish_offered cl1" using 1(2) by (simp add: left_over_def)
  then have "wire_rounds (Suc m) st s k cl =
      wire_polls m (d, a\<lparr>pm_tx := sender_begin FFinish q (pm_tx a)\<rparr>, b) s1 k (cl1\<lparr>cl_finish_offered := True\<rparr>)" for m k
    using 1 b by (simp add: st wire_rounds_def wire_polls_def copy_rounds_Suc copy_offer_def sender_offer_finish_def)
  moreover have "cl_exhausted (cl1\<lparr>cl_finish_offered := True\<rparr>)" "cl_n (cl1\<lparr>cl_finish_offered := True\<rparr>) = cl_n cl"
    using 1(3,5) by simp_all
  ultimately show ?thesis using wire_begins [OF r kind] by blast
qed

interpretation wire_motor: copy_motor wire_resting wire_flying wire_rounds wire_polls left_over "\<lambda>s cl. cl_exhausted cl" cl_n
  "\<lambda>cl. cl\<lparr>cl_n := Suc (cl_n cl)\<rparr>" wire_finishes
proof (unfold_locales, goal_cases)
  case (3 kind n t g st)
  then show ?case by (auto simp: wire_flying_def flying_def wire.joint_def sender_at_def receiver_at_def)
next
  case (4 c n t g st)
  then show ?case by (rule wire_data)
next
  case (5 n t st)
  then show ?case by (rule wire_finish)
next
  case (6 kind n t g st ds s l)
  then show ?case by (rule wire_goes_on)
next
  case (7 n t g st s l)
  then show ?case by (rule wire_closes)
next
  case (8 st c ds s l)
  then show ?case by (rule wire_offers)
next
  case (9 st s l)
  then show ?case by (rule wire_offers_finish)
qed simp_all

text \<open>
  A byte, and the FINISH, take at most sixteen rounds, so a payload that fits the million rounds of
  the loop arrives.
\<close>

lemma wire_copies:
  assumes "length ds \<le> length buf" and "16 * (length ds + 1) \<le> 1000000"
  shows "\<exists>d' s' k'. wire_copy slice_byte_source slice_byte_sink duplex_new (slice_source_new ds) (slice_sink_new buf) =
      (d', s', k', Inr (length ds)) \<and> slice_sink_written k' = ds"
proof -
  let ?cl = "\<lparr>cl_hold = None, cl_exhausted = False, cl_finish_offered = False, cl_n = 0\<rparr>"
  have r: "resting 0 duplex_new pump_on pump_on"
    using sender_rest_new receiver_rest_new by (simp add: resting_def bystanders_def pump_on_def pump_new_def)
  have lo: "left_over ds (slice_source_new ds) ?cl" by (simp add: left_over_def slice_source_new_def)
  have room: "sk_pos (slice_sink_new buf) + length ds \<le> length (sk_buf (slice_sink_new buf))"
    using assms(1) by (simp add: slice_sink_new_def)
  have "wire_resting (duplex_new, pump_on, pump_on)" using r by (auto simp: wire_resting_def)
  from wire_motor.copies [OF this lo room] obtain n k' where 1: "n \<le> 16 * (length ds + 1)" "sink_has (slice_sink_new buf) ds k'"
    "\<And>m. wire_finishes (wire_rounds (n + m) (duplex_new, pump_on, pump_on) (slice_source_new ds) (slice_sink_new buf) ?cl) k' (length ds)"
    by auto
  have "n + (1000000 - n) = 1000000" using 1(1) assms(2) by simp
  then obtain d' s' where "wire_copy slice_byte_source slice_byte_sink duplex_new (slice_source_new ds) (slice_sink_new buf) =
      (d', s', k', Inr (length ds))"
    using 1(3) [of "1000000 - n"] by (auto simp: wire_finishes_def wire_rounds_def wire_copy_def duplex_pumps_def)
  then show ?thesis using sink_has_all [OF 1(2)] by blast
qed

text \<open>
  C4: \<open>DuplexWire::copy\<close> on an empty wire returns the number of bytes and the sink holds exactly the
  payload of the source, whenever the sink has room and the payload fits the million rounds of the
  loop; a byte, and the FINISH, take at most sixteen rounds.
\<close>

theorem wire_copy_exact:
  assumes "length ds \<le> length buf" and "16 * (length ds + 1) \<le> 1000000"
  shows "\<exists>d' s' k'. wire_copy slice_byte_source slice_byte_sink duplex_new (slice_source_new ds) (slice_sink_new buf) =
      (d', s', k', Inr (length ds)) \<and> slice_sink_written k' = ds"
  by (rule wire_copies [OF assms])

theorem wire_copy_exact_witness:
  "\<exists>d' s' k'. wire_copy slice_byte_source slice_byte_sink duplex_new (slice_source_new [7, 0, 255])
      (slice_sink_new [0, 0, 0, 0]) = (d', s', k', Inr 3) \<and> slice_sink_written k' = [7, 0, 255]"
  using wire_copy_exact [of "[7, 0, 255]" "[0, 0, 0, 0]"] by (simp add: numeral_3_eq_3)

end
