(* ===== verification/Harness.thy ===== *)
theory Harness
  imports CopyMotor Ring
begin

text \<open>
  The shared harness of the examples (\<open>examples/common/link.rs\<close>): two rings of 256 bytes between two
  ends, and the copies over them, stop-and-wait with one pump and selective repeat with a sender and
  a receiver.  The rings are a channel that loses nothing, so the stop-and-wait copy copies.
\<close>

section \<open>The code\<close>

definition LINK_RING :: nat where "LINK_RING = 256"

record wires =
  wi_ab :: ring
  wi_ba :: ring

definition wires_new :: wires where
  "wires_new = \<lparr>wi_ab = ring_new_in LINK_RING, wi_ba = ring_new_in LINK_RING\<rparr>"

datatype link_full = LinkFull

definition end_port :: "bool \<Rightarrow> (wires, link_full) port" where
  "end_port is_a =
     \<lparr>write_byte = (\<lambda>byte w.
        if is_a then (case ring_push_in LINK_RING byte (wi_ab w) of
            (r, ok) \<Rightarrow> (w\<lparr>wi_ab := r\<rparr>, if ok then Inr () else Inl LinkFull))
        else (case ring_push_in LINK_RING byte (wi_ba w) of
            (r, ok) \<Rightarrow> (w\<lparr>wi_ba := r\<rparr>, if ok then Inr () else Inl LinkFull))),
      read_byte = (\<lambda>w.
        if is_a then (case ring_pop_in LINK_RING (wi_ba w) of (r, b) \<Rightarrow> (w\<lparr>wi_ba := r\<rparr>, Inr b))
        else (case ring_pop_in LINK_RING (wi_ab w) of (r, b) \<Rightarrow> (w\<lparr>wi_ab := r\<rparr>, Inr b)))\<rparr>"

datatype copy_error = CeSource | CeSink | CeProtocol | CeStalled

text \<open>\<open>copy_stop_and_wait\<close>: its locals, the read, the offer, and the loop over the rounds left.\<close>

record hold_loop =
  hl_hold :: "u8 option"
  hl_exhausted :: bool
  hl_n :: nat

definition hold_read :: "('s, 'a) source \<Rightarrow> 's \<Rightarrow> 'z hold_loop_scheme \<Rightarrow> 's \<times> (copy_error + 'z hold_loop_scheme)" where
  "hold_read src s l =
     (if hl_hold l = None \<and> \<not> hl_exhausted l
      then (case src_read src s of
              (s', Inr (Some byte)) \<Rightarrow> (s', Inr (l\<lparr>hl_hold := Some byte\<rparr>))
            | (s', Inr None) \<Rightarrow> (s', Inr (l\<lparr>hl_exhausted := True\<rparr>))
            | (s', Inl _) \<Rightarrow> (s', Inl CeSource))
      else (s, Inr l))"

definition hold_offer :: "sender \<Rightarrow> hold_loop \<Rightarrow> sender \<times> (copy_error + hold_loop)" where
  "hold_offer tx l =
     (if s_state tx \<noteq> TxIdle then (tx, Inr l)
      else case hl_hold l of
          Some byte \<Rightarrow>
            (case sender_offer byte tx of
               (tx', Inr _) \<Rightarrow> (tx', Inr (l\<lparr>hl_hold := None\<rparr>))
             | (tx', Inl (_ :: link_full error)) \<Rightarrow> (tx', Inr l))
        | None \<Rightarrow>
            if hl_exhausted l
            then (case sender_offer_finish tx of
                    (tx', Inr _) \<Rightarrow> (tx', Inr l)
                  | (tx', Inl (e :: link_full error)) \<Rightarrow>
                      (tx', if e = ErrNotIdle then Inr l else Inl CeProtocol))
            else (tx, Inr l))"

fun stop_and_wait_rounds ::
  "nat \<Rightarrow> ('s, 'a) source \<Rightarrow> ('k, 'b) sink \<Rightarrow> wires \<Rightarrow> (sender, receiver) pump \<Rightarrow> 's \<Rightarrow> 'k \<Rightarrow> hold_loop \<Rightarrow>
     wires \<times> 's \<times> 'k \<times> (copy_error + nat)" where
  "stop_and_wait_rounds 0 src snk w pm s k l = (w, s, k, Inl CeStalled)"
| "stop_and_wait_rounds (Suc rounds) src snk w pm s k l =
     (case hold_read src s l of
        (s1, Inl e) \<Rightarrow> (w, s1, k, Inl e)
      | (s1, Inr l1) \<Rightarrow>
          (case hold_offer (pm_tx pm) l1 of
             (tx, Inl e) \<Rightarrow> (w, s1, k, Inl e)
           | (tx, Inr l2) \<Rightarrow>
               (case pump_poll (end_port True) (end_port False) w (pm\<lparr>pm_tx := tx\<rparr>) of
                  (w1, pm1, Inr (EvReceived byte)) \<Rightarrow>
                    (case sink_write snk byte k of
                       (k1, Inl _) \<Rightarrow> (w1, s1, k1, Inl CeSink)
                     | (k1, Inr _) \<Rightarrow> stop_and_wait_rounds rounds src snk w1 pm1 s1 k1 (l2\<lparr>hl_n := hl_n l2 + 1\<rparr>))
                | (w1, pm1, Inr EvCompleted) \<Rightarrow> (w1, s1, k, Inr (hl_n l2))
                | (w1, pm1, Inr EvAborted) \<Rightarrow> (w1, s1, k, Inl CeProtocol)
                | (w1, pm1, Inr _) \<Rightarrow> stop_and_wait_rounds rounds src snk w1 pm1 s1 k l2
                | (w1, pm1, Inl _) \<Rightarrow> (w1, s1, k, Inl CeProtocol))))"

definition copy_stop_and_wait ::
  "('s, 'a) source \<Rightarrow> ('k, 'b) sink \<Rightarrow> 's \<Rightarrow> 'k \<Rightarrow> 's \<times> 'k \<times> (copy_error + nat)" where
  "copy_stop_and_wait src snk s k =
     (case stop_and_wait_rounds 1000000 src snk wires_new pump_on s k
         \<lparr>hl_hold = None, hl_exhausted = False, hl_n = 0\<rparr> of (_, s', k', r) \<Rightarrow> (s', k', r))"

text \<open>\<open>copy_windowed\<close>: one more local, and a sender and a receiver of window \<open>N\<close> without a pump.\<close>

record window_loop = hold_loop +
  hl_finish_offered :: bool

definition window_offer_held :: "wsender \<Rightarrow> window_loop \<Rightarrow> wsender \<times> (copy_error + window_loop)" where
  "window_offer_held tx l =
     (case hl_hold l of
        Some byte \<Rightarrow>
          (case wsender_offer byte tx of
             (tx', Inr _) \<Rightarrow> (tx', Inr (l\<lparr>hl_hold := None\<rparr>))
           | (tx', Inl (e :: link_full error)) \<Rightarrow>
               (tx', if e = ErrWindowFull \<or> e = ErrNotIdle then Inr l else Inl CeProtocol))
      | None \<Rightarrow>
          if hl_exhausted l \<and> \<not> hl_finish_offered l
          then (case wsender_offer_finish tx of
                  (tx', Inr _) \<Rightarrow> (tx', Inr (l\<lparr>hl_finish_offered := True\<rparr>))
                | (tx', Inl (e :: link_full error)) \<Rightarrow> (tx', if e = ErrNotIdle then Inr l else Inl CeProtocol))
          else (tx, Inr l))"

fun window_rounds ::
  "nat \<Rightarrow> ('s, 'a) source \<Rightarrow> ('k, 'b) sink \<Rightarrow> wires \<Rightarrow> wsender \<Rightarrow> wreceiver \<Rightarrow> 's \<Rightarrow> 'k \<Rightarrow> window_loop \<Rightarrow>
     wires \<times> 's \<times> 'k \<times> (copy_error + nat)" where
  "window_rounds 0 src snk w tx rx s k l = (w, s, k, Inl CeStalled)"
| "window_rounds (Suc rounds) src snk w tx rx s k l =
     (case hold_read src s l of
        (s1, Inl e) \<Rightarrow> (w, s1, k, Inl e)
      | (s1, Inr l1) \<Rightarrow>
          (case window_offer_held tx l1 of
             (tx1, Inl e) \<Rightarrow> (w, s1, k, Inl e)
           | (tx1, Inr l2) \<Rightarrow>
               (case wsender_poll (end_port True) w tx1 of
                  (w1, tx2, Inl _) \<Rightarrow> (w1, s1, k, Inl CeProtocol)
                | (w1, tx2, Inr _) \<Rightarrow>
                    (case wreceiver_poll (end_port False) w1 rx of
                       (w2, rx1, Inr (OutDelivered byte)) \<Rightarrow>
                         (case sink_write snk byte k of
                            (k1, Inl _) \<Rightarrow> (w2, s1, k1, Inl CeSink)
                          | (k1, Inr _) \<Rightarrow> window_rounds rounds src snk w2 tx2 rx1 s1 k1 (l2\<lparr>hl_n := hl_n l2 + 1\<rparr>))
                     | (w2, rx1, Inr OutTransferFinished) \<Rightarrow> (w2, s1, k, Inr (hl_n l2))
                     | (w2, rx1, Inr _) \<Rightarrow> window_rounds rounds src snk w2 tx2 rx1 s1 k l2
                     | (w2, rx1, Inl _) \<Rightarrow> (w2, s1, k, Inl CeProtocol)))))"

definition copy_windowed ::
  "nat \<Rightarrow> ('s, 'a) source \<Rightarrow> ('k, 'b) sink \<Rightarrow> 's \<Rightarrow> 'k \<Rightarrow> 's \<times> 'k \<times> (copy_error + nat)" where
  "copy_windowed n src snk s k =
     (case window_rounds 2000000 src snk wires_new (wsender_new n) (wreceiver_new n) s k
         \<lparr>hl_hold = None, hl_exhausted = False, hl_n = 0, hl_finish_offered = False\<rparr> of (_, s', k', r) \<Rightarrow> (s', k', r))"


section \<open>The rings are a channel\<close>

lemma ring_push_room:
  assumes "ring_wf_in cap r" and "rg_len r < cap"
  shows "\<exists>r'. ring_push_in cap b r = (r', True) \<and> ring_wf_in cap r' \<and> ring_contents_in cap r' = ring_contents_in cap r @ [b]"
proof -
  obtain r' ok where p: "ring_push_in cap b r = (r', ok)" by fastforce
  show ?thesis using ring_push_in [OF assms(1) p] assms(2) p by auto
qed

text \<open>\<open>flight_ring F i j\<close>: the ring holds the bytes from \<open>i\<close> to \<open>j\<close> of the frame \<open>F\<close>.\<close>

definition flight_ring :: "frame \<Rightarrow> nat \<Rightarrow> nat \<Rightarrow> ring \<Rightarrow> bool" where
  "flight_ring F i j r = (ring_wf_in LINK_RING r \<and> i \<le> j \<and> j \<le> 4 \<and>
     ring_contents_in LINK_RING r = drop i (take j (to_bytes F)))"

lemma flight_ring_push:
  assumes "flight_ring F i j r" and "j < 4"
  shows "\<exists>r'. ring_push_in LINK_RING (to_bytes F ! j) r = (r', True) \<and> flight_ring F i (Suc j) r'"
proof -
  have r: "ring_wf_in LINK_RING r" "i \<le> j" "ring_contents_in LINK_RING r = drop i (take j (to_bytes F))"
    using assms(1) by (simp_all add: flight_ring_def)
  have "rg_len r \<le> 4" using arg_cong [OF r(3), of length] assms(2) by (simp add: FRAME_LEN_def)
  then have "rg_len r < LINK_RING" by (simp add: LINK_RING_def)
  from ring_push_room [OF r(1) this] obtain r' where
    r': "ring_push_in LINK_RING (to_bytes F ! j) r = (r', True)" "ring_wf_in LINK_RING r'"
      "ring_contents_in LINK_RING r' = ring_contents_in LINK_RING r @ [to_bytes F ! j]" by blast
  have "ring_contents_in LINK_RING r' = drop i (take (Suc j) (to_bytes F))"
    using r'(3) r(2,3) to_bytes_drop(3) [OF assms(2), of F] assms(2) by (simp add: FRAME_LEN_def)
  then show ?thesis using r' r(2) assms(2) by (simp add: flight_ring_def)
qed

lemma flight_ring_pop:
  assumes "flight_ring F i j r" and "ring_pop_in LINK_RING r = (r', x)"
  shows "x = None \<and> flight_ring F i j r' \<and> (j = 4 \<longrightarrow> i = 4) \<or>
    x = Some (to_bytes F ! i) \<and> i < j \<and> flight_ring F (Suc i) j r'"
proof -
  have r: "ring_wf_in LINK_RING r" "i \<le> j" "j \<le> 4" "ring_contents_in LINK_RING r = drop i (take j (to_bytes F))"
    using assms(1) by (simp_all add: flight_ring_def)
  have len: "length (to_bytes F) = 4" by (simp add: FRAME_LEN_def)
  note pc = ring_pop_in [OF r(1) assms(2)]
  show ?thesis
  proof (cases x)
    case None
    then have "r' = r" "drop i (take j (to_bytes F)) = []" using pc r(4) by simp_all
    then show ?thesis using None assms(1) r(2,3) len by simp
  next
    case (Some b)
    then have c: "b # ring_contents_in LINK_RING r' = drop i (take j (to_bytes F))" "ring_wf_in LINK_RING r'" using pc r(4) by simp_all
    have i: "i < j"
    proof (rule ccontr)
      assume "\<not> i < j"
      then have "drop i (take j (to_bytes F)) = []" using r(2) by simp
      then show False using c(1) by simp
    qed
    then have "drop i (take j (to_bytes F)) = to_bytes F ! i # drop (Suc i) (take j (to_bytes F))"
      using Cons_nth_drop_Suc [of i "take j (to_bytes F)"] r(3) len by simp
    then show ?thesis using c Some i r(3) by (simp add: flight_ring_def)
  qed
qed

definition wires_chan :: "wires \<Rightarrow> frame \<Rightarrow> nat \<Rightarrow> nat \<Rightarrow> frame \<Rightarrow> nat \<Rightarrow> nat \<Rightarrow> bool" where
  "wires_chan w F i j G k l = (flight_ring F i j (wi_ab w) \<and> flight_ring G k l (wi_ba w))"

interpretation harness: tandem "end_port True" "end_port False" wires_chan
proof (unfold_locales, goal_cases)
  case (1 w F i j G k l)
  then show ?case using flight_ring_push [of F i j "wi_ab w"] by (auto simp: wires_chan_def end_port_def)
next
  case (2 w F i j G k l w' x)
  obtain r y where y: "ring_pop_in LINK_RING (wi_ab w) = (r, y)" by fastforce
  then show ?case using 2 flight_ring_pop [OF _ y, of F i j] by (auto simp: wires_chan_def end_port_def)
next
  case (3 w F i j G k l)
  then show ?case using flight_ring_push [of G k l "wi_ba w"] by (auto simp: wires_chan_def end_port_def)
next
  case (4 w F i j G k l w' x)
  obtain r y where y: "ring_pop_in LINK_RING (wi_ba w) = (r, y)" by fastforce
  then show ?case using 4 flight_ring_pop [OF _ y, of G k l] by (auto simp: wires_chan_def end_port_def)
next
  case (5 w F G F' G')
  then show ?case by (simp add: wires_chan_def flight_ring_def FRAME_LEN_def)
qed

lemma wires_chan_new: "wires_chan wires_new F 0 0 G 0 0"
  using ring_new_in [of LINK_RING] by (simp add: wires_chan_def wires_new_def flight_ring_def LINK_RING_def)

section \<open>The stop-and-wait copy\<close>

text \<open>What is left of a round once the loop has read and offered.\<close>

definition harness_polls ::
  "nat \<Rightarrow> ('s, 'a) source \<Rightarrow> ('k, 'b) sink \<Rightarrow> wires \<Rightarrow> (sender, receiver) pump \<Rightarrow> 's \<Rightarrow> 'k \<Rightarrow> hold_loop \<Rightarrow>
     wires \<times> 's \<times> 'k \<times> (copy_error + nat)" where
  "harness_polls rounds src snk w pm s1 k l2 =
     (case pump_poll (end_port True) (end_port False) w pm of
        (w1, pm1, Inr (EvReceived byte)) \<Rightarrow>
          (case sink_write snk byte k of
             (k1, Inl _) \<Rightarrow> (w1, s1, k1, Inl CeSink)
           | (k1, Inr _) \<Rightarrow> stop_and_wait_rounds rounds src snk w1 pm1 s1 k1 (l2\<lparr>hl_n := hl_n l2 + 1\<rparr>))
      | (w1, pm1, Inr EvCompleted) \<Rightarrow> (w1, s1, k, Inr (hl_n l2))
      | (w1, pm1, Inr EvAborted) \<Rightarrow> (w1, s1, k, Inl CeProtocol)
      | (w1, pm1, Inr _) \<Rightarrow> stop_and_wait_rounds rounds src snk w1 pm1 s1 k l2
      | (w1, pm1, Inl _) \<Rightarrow> (w1, s1, k, Inl CeProtocol))"

lemma stop_and_wait_rounds_Suc:
  "stop_and_wait_rounds (Suc rounds) src snk w pm s k l =
     (case hold_read src s l of
        (s1, Inl e) \<Rightarrow> (w, s1, k, Inl e)
      | (s1, Inr l1) \<Rightarrow>
          (case hold_offer (pm_tx pm) l1 of
             (tx, Inl e) \<Rightarrow> (w, s1, k, Inl e)
           | (tx, Inr l2) \<Rightarrow> harness_polls rounds src snk w (pm\<lparr>pm_tx := tx\<rparr>) s1 k l2))"
  by (simp only: stop_and_wait_rounds.simps harness_polls_def)

declare stop_and_wait_rounds.simps(2) [simp del]

lemma harness_polls_event:
  assumes "pump_poll (end_port True) (end_port False) w pm = (w1, pm1, Inr ev)"
  shows "ev = EvReceived c \<Longrightarrow> harness_polls m src snk w pm s k l = (case sink_write snk c k of
         (k1, Inl _) \<Rightarrow> (w1, s, k1, Inl CeSink)
       | (k1, Inr _) \<Rightarrow> stop_and_wait_rounds m src snk w1 pm1 s k1 (l\<lparr>hl_n := hl_n l + 1\<rparr>))"
    and "ev = EvCompleted \<Longrightarrow> harness_polls m src snk w pm s k l = (w1, s, k, Inr (hl_n l))"
    and "ev \<in> {EvIdle, EvProgress, EvSent} \<Longrightarrow> harness_polls m src snk w pm s k l = stop_and_wait_rounds m src snk w1 pm1 s k l"
  unfolding harness_polls_def assms prod.case sum.case by (elim insertE emptyE | simp only: pump_event.case)+

definition harness_flying :: "flight_kind \<Rightarrow> nat \<Rightarrow> nat \<Rightarrow> bool \<Rightarrow> wires \<times> (sender, receiver) pump \<Rightarrow> bool" where
  "harness_flying kind n t g = (\<lambda>(w, pm). \<exists>q i j k l. harness.joint kind q i j k l t w (pm_tx pm) (pm_rx pm) \<and>
     n = i + j + k + l \<and> g = (l = 4) \<and> \<not> pm_pending_completed pm \<and> unat (timeout_ticks (s_policy (pm_tx pm))) = 1000)"

definition harness_resting :: "wires \<times> (sender, receiver) pump \<Rightarrow> bool" where
  "harness_resting = (\<lambda>(w, pm). (w = wires_new \<or> (\<exists>F G. wires_chan w F 4 4 G 4 4)) \<and>
     (\<exists>q. sender_rest q 1000 (pm_tx pm) \<and> receiver_rest q (pm_rx pm)) \<and> \<not> pm_pending_completed pm)"

lemma harness_flyingI:
  "harness.joint kind q i j k l t w (pm_tx pm) (pm_rx pm) \<Longrightarrow> n = i + j + k + l \<Longrightarrow> g = (l = 4) \<Longrightarrow>
     \<not> pm_pending_completed pm \<Longrightarrow> unat (timeout_ticks (s_policy (pm_tx pm))) = 1000 \<Longrightarrow> harness_flying kind n t g (w, pm)"
  unfolding harness_flying_def prod.case by blast

text \<open>One poll of the pump: the receiver's turn and then the sender's.\<close>

lemma harness_poll:
  assumes "harness_flying kind n t g (w, pm)" and "Suc t < 1000" and "kind \<noteq> FFinish \<or> \<not> g"
  shows "\<exists>w' pm' ev g'. pump_poll (end_port True) (end_port False) w pm = (w', pm', Inr ev) \<and> (g \<longrightarrow> g') \<and>
    (if g = g' then ev \<in> {EvIdle, EvProgress, EvSent} else ev = event_of_outcome (outcome_of kind)) \<and>
    ((\<exists>n' t'. harness_flying kind n' t' g' (w', pm') \<and> n < n' \<and> t' \<le> Suc t) \<or> g' \<and> (kind \<noteq> FFinish \<longrightarrow> harness_resting (w', pm')))"
proof -
  obtain q i j k l where J: "harness.joint kind q i j k l t w (pm_tx pm) (pm_rx pm)" and n: "n = i + j + k + l" "g = (l = 4)"
    and pm: "\<not> pm_pending_completed pm" "unat (timeout_ticks (s_policy (pm_tx pm))) = 1000"
    using assms(1) by (auto simp: harness_flying_def)
  have le: "j \<le> 4" "l \<le> 4" and K: "sent_kind kind"
    using J by (simp_all add: harness.joint_def sender_at_def receiver_at_def)
  from harness.receiver_turn [OF J] obtain w1 rx i' l' where
    r: "receiver_poll (end_port False) w (pm_rx pm) = (w1, rx, Inr (if l < 4 \<and> l' = 4 then outcome_of kind else OutPending))"
    and J1: "harness.joint kind q i' j k l' t w1 (pm_tx pm) rx"
    and m: "i \<le> i'" "l \<le> l'" "j = 4 \<and> l < 4 \<longrightarrow> i + l < i' + l'"
    by (elim exE conjE) (rule that)
  have T: "Suc t < unat (timeout_ticks (s_policy (pm_tx pm)))" using pm(2) assms(2) by simp
  from harness.sender_turn [OF J1 T] obtain w2 tx x where x: "sender_poll (end_port True) w1 (pm_tx pm) = (w2, tx, Inr x)"
    and cs: "(\<exists>j' k' t'. x = PollPending \<and> harness.joint kind q i' j' k' l' t' w2 tx rx \<and> s_policy tx = s_policy (pm_tx pm) \<and>
        j \<le> j' \<and> k \<le> k' \<and> t' \<le> Suc t \<and> (j < 4 \<or> l' = 4 \<longrightarrow> j + k < j' + k')) \<or>
     (x = (if kind = FFinish then PollTransferDone else PollAcked) \<and> j = 4 \<and> l' = 4 \<and>
        (kind \<noteq> FFinish \<longrightarrow> sender_rest (q + 1) (unat (timeout_ticks (s_policy (pm_tx pm)))) tx \<and>
           wires_chan w2 (flight_frame kind q) i' j (ack_frame q) 4 4))"
    by (elim exE conjE) (rule that)
  have xs: "x = PollPending \<or> x = (if kind = FFinish then PollTransferDone else PollAcked)" using cs by blast
  let ?got = "l < 4 \<and> l' = 4"
  have l': "l' \<le> 4" using J1 by (simp add: harness.joint_def receiver_at_def)
  have gg: "(g = (l' = 4)) = (\<not> ?got)" "g \<longrightarrow> l' = 4" using n(2) le(2) m(2) l' by auto
  have "\<exists>pm' ev. pump_poll (end_port True) (end_port False) w pm = (w2, pm', Inr ev) \<and> pm_rx pm' = rx \<and>
      pm_tx pm' = tx\<lparr>s_mark := io_mark_default\<rparr> \<and> \<not> pm_pending_completed pm' \<and>
      (if \<not> ?got then ev \<in> {EvIdle, EvProgress, EvSent} else ev = event_of_outcome (outcome_of kind))"
  proof (cases ?got)
    case True
    then show ?thesis using pump_poll_out [OF pm(1) _ x K xs, of "end_port False" w rx] r by auto
  next
    case False
    then have r0: "receiver_poll (end_port False) w (pm_rx pm) = (w1, rx, Inr OutPending)" using r by auto
    have "x = PollPending \<or> x = PollAcked" using xs cs assms(3) False n(2) le(2) by auto
    from pump_poll_quiet [OF pm(1) r0 x this] show ?thesis using False by auto
  qed
  then obtain pm' ev where p: "pump_poll (end_port True) (end_port False) w pm = (w2, pm', Inr ev)" "pm_rx pm' = rx"
    "pm_tx pm' = tx\<lparr>s_mark := io_mark_default\<rparr>" "\<not> pm_pending_completed pm'"
    "if \<not> ?got then ev \<in> {EvIdle, EvProgress, EvSent} else ev = event_of_outcome (outcome_of kind)"
    by (elim exE conjE) (rule that)
  have e: "if g = (l' = 4) then ev \<in> {EvIdle, EvProgress, EvSent} else ev = event_of_outcome (outcome_of kind)"
    unfolding gg(1) by (rule p(5))
  have "(\<exists>n' t'. harness_flying kind n' t' (l' = 4) (w2, pm') \<and> n < n' \<and> t' \<le> Suc t) \<or>
      l' = 4 \<and> (kind \<noteq> FFinish \<longrightarrow> harness_resting (w2, pm'))"
    using cs
  proof (elim disjE exE conjE)
    fix j' k' t'
    assume J2: "harness.joint kind q i' j' k' l' t' w2 tx rx" and pol: "s_policy tx = s_policy (pm_tx pm)"
      and m2: "j \<le> j'" "k \<le> k'" "t' \<le> Suc t" "j < 4 \<or> l' = 4 \<longrightarrow> j + k < j' + k'"
    have J3: "harness.joint kind q i' j' k' l' t' w2 (pm_tx pm') (pm_rx pm')" using J2 p(2,3) by (simp add: harness.joint_def)
    have "harness_flying kind (i' + j' + k' + l') t' (l' = 4) (w2, pm')"
      using p(3,4) pm(2) pol by (intro harness_flyingI [OF J3]) simp_all
    moreover have "n < i' + j' + k' + l'" using m m2 n(1) le l' by (cases "j < 4 \<or> l' = 4") auto
    ultimately show ?thesis using m2(3) by blast
  next
    assume "j = 4" and l4: "l' = 4" and rest: "kind \<noteq> FFinish \<longrightarrow> sender_rest (q + 1) (unat (timeout_ticks (s_policy (pm_tx pm)))) tx \<and>
           wires_chan w2 (flight_frame kind q) i' j (ack_frame q) 4 4"
    have R: "receiver_at kind q i' 4 rx" using J1 l4 by (simp add: harness.joint_def)
    then have i: "i' = 4" by (simp add: receiver_at_def)
    have "harness_resting (w2, pm')" if k: "kind \<noteq> FFinish"
    proof -
      have "receiver_rest (q + 1) (pm_rx pm')" using receiver_at_rest [OF R [unfolded i] k] p(2) by simp
      moreover have "sender_rest (q + 1) 1000 (pm_tx pm')" "wires_chan w2 (flight_frame kind q) 4 4 (ack_frame q) 4 4"
        using rest k pm(2) p(3) i \<open>j = 4\<close> by simp_all
      ultimately show ?thesis using p(4) unfolding harness_resting_def prod.case by blast
    qed
    then show ?thesis using l4 by blast
  qed
  then show ?thesis using p(1) e gg(2) by blast
qed


text \<open>What the loop has still to offer, and the loop once FINISH was offered.\<close>

definition hold_left :: "u8 list \<Rightarrow> slice_source \<Rightarrow> hold_loop \<Rightarrow> bool" where
  "hold_left ds s l = (ds = (case hl_hold l of Some c \<Rightarrow> c # ss_rest s | None \<Rightarrow> ss_rest s) \<and> (hl_exhausted l \<longrightarrow> ds = []))"

definition hold_closing :: "slice_source \<Rightarrow> hold_loop \<Rightarrow> bool" where
  "hold_closing s l = (hl_hold l = None \<and> hl_exhausted l)"

lemma hold_read_slice:
  assumes "hold_left ds s l"
  shows "\<exists>s1 l1. hold_read slice_byte_source s l = (s1, Inr l1) \<and> hold_left ds s1 l1 \<and> hl_n l1 = hl_n l \<and>
    (if ds = [] then hold_closing s1 l1 else hl_hold l1 = Some (hd ds) \<and> ss_rest s1 = tl ds)"
proof (cases "hl_hold l = None \<and> \<not> hl_exhausted l")
  case False
  then show ?thesis using assms by (auto simp: hold_read_def hold_left_def hold_closing_def split: option.splits)
next
  case True
  then have ds: "ds = ss_rest s" using assms by (simp add: hold_left_def)
  show ?thesis
  proof (cases "ss_rest s")
    case Nil
    then show ?thesis using True ds
      by (intro exI [of _ s] exI [of _ "l\<lparr>hl_exhausted := True\<rparr>"])
        (simp add: hold_read_def hold_left_def hold_closing_def slice_byte_source_def)
  next
    case (Cons c cs)
    then show ?thesis using True ds
      by (intro exI [of _ "s\<lparr>ss_rest := cs\<rparr>"] exI [of _ "l\<lparr>hl_hold := Some c\<rparr>"])
        (simp add: hold_read_def hold_left_def slice_byte_source_def)
  qed
qed

definition harness_rounds :: "nat \<Rightarrow> wires \<times> (sender, receiver) pump \<Rightarrow> slice_source \<Rightarrow> slice_sink \<Rightarrow> hold_loop \<Rightarrow>
    wires \<times> slice_source \<times> slice_sink \<times> (copy_error + nat)" where
  "harness_rounds m = (\<lambda>(w, pm). stop_and_wait_rounds m slice_byte_source slice_byte_sink w pm)"

definition harness_rest_of_round :: "nat \<Rightarrow> wires \<times> (sender, receiver) pump \<Rightarrow> slice_source \<Rightarrow> slice_sink \<Rightarrow> hold_loop \<Rightarrow>
    wires \<times> slice_source \<times> slice_sink \<times> (copy_error + nat)" where
  "harness_rest_of_round m = (\<lambda>(w, pm). harness_polls m slice_byte_source slice_byte_sink w pm)"

definition harness_finishes :: "wires \<times> slice_source \<times> slice_sink \<times> (copy_error + nat) \<Rightarrow> slice_sink \<Rightarrow> nat \<Rightarrow> bool" where
  "harness_finishes res k n = (\<exists>w s. res = (w, s, k, Inr n))"

lemma harness_data:
  assumes "harness_flying (FData c) n t g st" and "Suc t < 1000"
  shows "\<exists>st' g'. (g \<longrightarrow> g') \<and> ((\<exists>n' t'. harness_flying (FData c) n' t' g' st' \<and> n < n' \<and> t' \<le> Suc t) \<or> g' \<and> harness_resting st') \<and>
    (\<forall>m s k k1 l. if g = g' then harness_rest_of_round m st s k l = harness_rounds m st' s k l
       else sink_write slice_byte_sink c k = (k1, Inr ()) \<longrightarrow>
         harness_rest_of_round m st s k l = harness_rounds m st' s k1 (l\<lparr>hl_n := Suc (hl_n l)\<rparr>))"
proof -
  obtain w pm where st: "st = (w, pm)" by (cases st)
  have nf: "FData c \<noteq> FFinish \<or> \<not> g" by simp
  obtain w' pm' ev g' where p: "pump_poll (end_port True) (end_port False) w pm = (w', pm', Inr ev)" "g \<longrightarrow> g'"
      "if g = g' then ev \<in> {EvIdle, EvProgress, EvSent} else ev = event_of_outcome (outcome_of (FData c))"
      "(\<exists>n' t'. harness_flying (FData c) n' t' g' (w', pm') \<and> n < n' \<and> t' \<le> Suc t) \<or>
       g' \<and> (FData c \<noteq> FFinish \<longrightarrow> harness_resting (w', pm'))"
    using harness_poll [OF assms(1) [unfolded st] assms(2) nf] by (elim exE conjE) (rule that)
  have "if g = g' then harness_rest_of_round m st s k l = harness_rounds m (w', pm') s k l
       else sink_write slice_byte_sink c k = (k1, Inr ()) \<longrightarrow>
         harness_rest_of_round m st s k l = harness_rounds m (w', pm') s k1 (l\<lparr>hl_n := Suc (hl_n l)\<rparr>)" for m s k k1 l
  proof (cases "g = g'")
    case True
    then show ?thesis using harness_polls_event(3) [OF p(1), of m slice_byte_source slice_byte_sink s k l] p(3)
      by (simp add: st harness_rest_of_round_def harness_rounds_def)
  next
    case False
    then have "ev = EvReceived c" using p(3) by (simp add: event_of_outcome_def outcome_of_def)
    then show ?thesis using harness_polls_event(1) [OF p(1), of c m slice_byte_source slice_byte_sink s k l] False
      by (simp add: st harness_rest_of_round_def harness_rounds_def)
  qed
  then show ?thesis using p(2,4) by (intro exI [of _ "(w', pm')"] exI [of _ g']) auto
qed

lemma harness_finish:
  assumes "harness_flying FFinish n t False st" and "Suc t < 1000"
  shows "(\<exists>st' n' t'. harness_flying FFinish n' t' False st' \<and> n < n' \<and> t' \<le> Suc t \<and>
      (\<forall>m s k l. harness_rest_of_round m st s k l = harness_rounds m st' s k l)) \<or>
    (\<forall>m s k l. harness_finishes (harness_rest_of_round m st s k l) k (hl_n l))"
proof -
  obtain w pm where st: "st = (w, pm)" by (cases st)
  obtain w' pm' ev g' where p: "pump_poll (end_port True) (end_port False) w pm = (w', pm', Inr ev)"
      "if False = g' then ev \<in> {EvIdle, EvProgress, EvSent} else ev = event_of_outcome (outcome_of FFinish)"
      "(\<exists>n' t'. harness_flying FFinish n' t' g' (w', pm') \<and> n < n' \<and> t' \<le> Suc t) \<or>
       g' \<and> (FFinish \<noteq> FFinish \<longrightarrow> harness_resting (w', pm'))"
    using harness_poll [OF assms(1) [unfolded st] assms(2) disjI2 [OF not_False_eq_True [THEN iffD2, OF TrueI]]]
    by (elim exE conjE) (rule that)
  show ?thesis
  proof (cases g')
    case True
    then have "ev = EvCompleted" using p(2) by (simp add: event_of_outcome_def outcome_of_def)
    then have "harness_finishes (harness_rest_of_round m st s k l) k (hl_n l)" for m s k l
      using harness_polls_event(2) [OF p(1), of m slice_byte_source slice_byte_sink s k l] by (auto simp: st harness_rest_of_round_def harness_finishes_def)
    then show ?thesis by blast
  next
    case False
    have "harness_rest_of_round m st s k l = harness_rounds m (w', pm') s k l" for m s k l
      using harness_polls_event(3) [OF p(1)] p(2) False by (simp add: st harness_rest_of_round_def harness_rounds_def)
    moreover obtain n' t' where "harness_flying FFinish n' t' False (w', pm')" "n < n'" "t' \<le> Suc t"
      using p(3) False by (cases g') auto
    ultimately show ?thesis by blast
  qed
qed

lemma harness_busy: "harness_flying kind n t g (w, pm) \<Longrightarrow> s_state (pm_tx pm) \<noteq> TxIdle"
  by (auto simp: harness_flying_def harness.joint_def sender_at_def sender_wf_def flight_wf_def)

lemma harness_goes_on:
  assumes "harness_flying kind n t g st" and "hold_left ds s l"
  shows "\<exists>s1 l1. hold_left ds s1 l1 \<and> hl_n l1 = hl_n l \<and> (\<forall>m k. harness_rounds (Suc m) st s k l = harness_rest_of_round m st s1 k l1)"
proof -
  obtain w pm where st: "st = (w, pm)" by (cases st)
  obtain s1 l1 where 1: "hold_read slice_byte_source s l = (s1, Inr l1)" "hold_left ds s1 l1" "hl_n l1 = hl_n l"
    using hold_read_slice [OF assms(2)] by (elim exE conjE) (rule that)
  have "harness_rounds (Suc m) st s k l = harness_rest_of_round m st s1 k l1" for m k
    using 1(1) harness_busy [OF assms(1) [unfolded st]]
    by (simp add: st harness_rounds_def harness_rest_of_round_def stop_and_wait_rounds_Suc hold_offer_def)
  then show ?thesis using 1(2,3) by blast
qed

lemma harness_closes:
  assumes "harness_flying FFinish n t g st" and "hold_closing s l"
  shows "\<exists>s1 l1. hold_closing s1 l1 \<and> hl_n l1 = hl_n l \<and> (\<forall>m k. harness_rounds (Suc m) st s k l = harness_rest_of_round m st s1 k l1)"
proof -
  obtain w pm where st: "st = (w, pm)" by (cases st)
  show ?thesis using assms(2) harness_busy [OF assms(1) [unfolded st]]
    by (intro exI [of _ s] exI [of _ l])
      (simp add: st harness_rounds_def harness_rest_of_round_def stop_and_wait_rounds_Suc hold_offer_def hold_read_def hold_closing_def)
qed

lemma harness_begins:
  assumes "harness_resting (w, pm)" and "sent_kind kind"
  shows "\<exists>q. harness_flying kind 0 0 False (w, pm\<lparr>pm_tx := sender_begin kind q (pm_tx pm)\<rparr>) \<and>
    sender_can_offer_data (pm_tx pm) \<and> seq_current (s_seq (pm_tx pm)) = q \<and> s_state (pm_tx pm) = TxIdle"
proof -
  obtain q where r: "w = wires_new \<or> (\<exists>F G. wires_chan w F 4 4 G 4 4)" "sender_rest q 1000 (pm_tx pm)"
    "receiver_rest q (pm_rx pm)" "\<not> pm_pending_completed pm"
    using assms(1) by (auto simp: harness_resting_def)
  have c: "wires_chan w (flight_frame kind q) 0 0 (ack_frame q) 0 0 \<or> (\<exists>F G. wires_chan w F 4 4 G 4 4)"
    using r(1) wires_chan_new by auto
  have J: "harness.joint kind q 0 0 0 0 0 w (sender_begin kind q (pm_tx pm)) (pm_rx pm)"
    using c harness.joint_begins [OF _ r(2) _ r(3) assms(2)] by auto
  note s = sender_rest_begins [OF r(2) _ assms(2)]
  have "unat (timeout_ticks (s_policy (sender_begin kind q (pm_tx pm)))) = 1000" using s(4) r(2) by (simp add: sender_rest_def)
  then have "harness_flying kind 0 0 False (w, pm\<lparr>pm_tx := sender_begin kind q (pm_tx pm)\<rparr>)"
    using J r(4) by (intro harness_flyingI [of _ q 0 0 0 0]) simp_all
  then show ?thesis using s r(2) by (auto simp: sender_rest_def)
qed

lemma harness_offers:
  assumes "harness_resting st" and "hold_left (c # ds) s l"
  shows "\<exists>st1 s1 l1. harness_flying (FData c) 0 0 False st1 \<and> hold_left ds s1 l1 \<and> hl_n l1 = hl_n l \<and>
    (\<forall>m k. harness_rounds (Suc m) st s k l = harness_rest_of_round m st1 s1 k l1)"
proof -
  obtain w pm where st: "st = (w, pm)" by (cases st)
  have "sent_kind (FData c)" by (simp add: sent_kind_def)
  from harness_begins [OF assms(1) [unfolded st] this] obtain q where
    b: "harness_flying (FData c) 0 0 False (w, pm\<lparr>pm_tx := sender_begin (FData c) q (pm_tx pm)\<rparr>)"
      "sender_can_offer_data (pm_tx pm)" "seq_current (s_seq (pm_tx pm)) = q" "s_state (pm_tx pm) = TxIdle" by blast
  obtain s1 l1 where 1: "hold_read slice_byte_source s l = (s1, Inr l1)" "hold_left (c # ds) s1 l1" "hl_n l1 = hl_n l"
    "hl_hold l1 = Some c" "ss_rest s1 = ds" using hold_read_slice [OF assms(2)] by auto
  have "harness_rounds (Suc m) st s k l =
      harness_rest_of_round m (w, pm\<lparr>pm_tx := sender_begin (FData c) q (pm_tx pm)\<rparr>) s1 k (l1\<lparr>hl_hold := None\<rparr>)" for m k
    using 1 b by (simp add: st harness_rounds_def harness_rest_of_round_def stop_and_wait_rounds_Suc hold_offer_def sender_offer_def)
  moreover have "hold_left ds s1 (l1\<lparr>hl_hold := None\<rparr>)" "hl_n (l1\<lparr>hl_hold := None\<rparr>) = hl_n l"
    using 1 by (auto simp: hold_left_def)
  ultimately show ?thesis using b(1) by blast
qed

lemma harness_offers_finish:
  assumes "harness_resting st" and "hold_left [] s l"
  shows "\<exists>st1 s1 l1. harness_flying FFinish 0 0 False st1 \<and> hold_closing s1 l1 \<and> hl_n l1 = hl_n l \<and>
    (\<forall>m k. harness_rounds (Suc m) st s k l = harness_rest_of_round m st1 s1 k l1)"
proof -
  obtain w pm where st: "st = (w, pm)" by (cases st)
  have "sent_kind FFinish" by (simp add: sent_kind_def)
  from harness_begins [OF assms(1) [unfolded st] this] obtain q where
    b: "harness_flying FFinish 0 0 False (w, pm\<lparr>pm_tx := sender_begin FFinish q (pm_tx pm)\<rparr>)"
      "sender_can_offer_data (pm_tx pm)" "seq_current (s_seq (pm_tx pm)) = q" "s_state (pm_tx pm) = TxIdle" by blast
  obtain s1 l1 where 1: "hold_read slice_byte_source s l = (s1, Inr l1)" "hl_n l1 = hl_n l" "hold_closing s1 l1"
    using hold_read_slice [OF assms(2)] by auto
  have "harness_rounds (Suc m) st s k l =
      harness_rest_of_round m (w, pm\<lparr>pm_tx := sender_begin FFinish q (pm_tx pm)\<rparr>) s1 k l1" for m k
    using 1 b by (simp add: st harness_rounds_def harness_rest_of_round_def stop_and_wait_rounds_Suc hold_offer_def
        sender_offer_finish_def hold_closing_def)
  then show ?thesis using b(1) 1(2,3) by blast
qed

interpretation harness_motor: copy_motor harness_resting harness_flying harness_rounds harness_rest_of_round hold_left
  hold_closing hl_n "\<lambda>l. l\<lparr>hl_n := Suc (hl_n l)\<rparr>" harness_finishes
proof (unfold_locales, goal_cases)
  case (2 ds s l)
  then show ?case by (simp add: hold_left_def)
next
  case (3 kind n t g st)
  then show ?case by (auto simp: harness_flying_def harness.joint_def sender_at_def receiver_at_def)
next
  case (4 c n t g st)
  then show ?case by (rule harness_data)
next
  case (5 n t st)
  then show ?case by (rule harness_finish)
next
  case (6 kind n t g st ds s l)
  then show ?case by (rule harness_goes_on)
next
  case (7 n t g st s l)
  then show ?case by (rule harness_closes)
next
  case (8 st c ds s l)
  then show ?case by (rule harness_offers)
next
  case (9 st s l)
  then show ?case by (rule harness_offers_finish)
qed simp_all

text \<open>
  C5: the harness's stop-and-wait copy returns the number of bytes and the sink holds exactly the
  payload, whenever the sink has room and the payload fits the million rounds of the loop.
\<close>

theorem copy_stop_and_wait_exact:
  assumes "length ds \<le> length buf" and "16 * (length ds + 1) \<le> 1000000"
  shows "\<exists>s' k'. copy_stop_and_wait slice_byte_source slice_byte_sink (slice_source_new ds) (slice_sink_new buf) =
      (s', k', Inr (length ds)) \<and> slice_sink_written k' = ds"
proof -
  let ?l = "\<lparr>hl_hold = None, hl_exhausted = False, hl_n = 0\<rparr>"
  have r: "harness_resting (wires_new, pump_on)"
    using sender_rest_new receiver_rest_new by (auto simp: harness_resting_def pump_on_def pump_new_def)
  have lo: "hold_left ds (slice_source_new ds) ?l" by (simp add: hold_left_def slice_source_new_def)
  have room: "sk_pos (slice_sink_new buf) + length ds \<le> length (sk_buf (slice_sink_new buf))"
    using assms(1) by (simp add: slice_sink_new_def)
  from harness_motor.copies [OF r lo room] obtain n k' where 1: "n \<le> 16 * (length ds + 1)" "sink_has (slice_sink_new buf) ds k'"
    "\<And>m. harness_finishes (harness_rounds (n + m) (wires_new, pump_on) (slice_source_new ds) (slice_sink_new buf) ?l) k' (length ds)"
    by auto
  have "n + (1000000 - n) = 1000000" using 1(1) assms(2) by simp
  then obtain s' where "copy_stop_and_wait slice_byte_source slice_byte_sink (slice_source_new ds) (slice_sink_new buf) =
      (s', k', Inr (length ds))"
    using 1(3) [of "1000000 - n"] by (auto simp: harness_finishes_def harness_rounds_def copy_stop_and_wait_def)
  then show ?thesis using sink_has_all [OF 1(2)] by blast
qed

theorem copy_stop_and_wait_exact_witness:
  "\<exists>s' k'. copy_stop_and_wait slice_byte_source slice_byte_sink (slice_source_new [9, 0, 1]) (slice_sink_new [0, 0, 0]) =
      (s', k', Inr 3) \<and> slice_sink_written k' = [9, 0, 1]"
  using copy_stop_and_wait_exact [of "[9, 0, 1]" "[0, 0, 0]"] by (simp add: numeral_3_eq_3)

end
