(* ===== verification/Session.thy ===== *)
theory Session
  imports Pump "HOL-Library.List_Lexorder"
begin

text \<open>
  Peer identity and the explicit session (\<open>src/p2p/peer.rs\<close>, \<open>src/p2p/session.rs\<close>): capabilities,
  the session configuration and its wire form, the hello, the negotiation, and the session's life
  cycle.  The lemmas say that parsing inverts serialization on exactly the valid configurations,
  that negotiation is a meet, and that two peers that exchange hellos end up with the same
  configuration and with each other's identity.
\<close>

section \<open>Peer identity\<close>

definition PEER_LEN :: nat where "PEER_LEN = 8"

datatype peer_id = PeerId (peer_bytes: "u8 list")

text \<open>
  \<open>from_label\<close> copies into an array of zeros while \<open>i < label.len() && i < LEN\<close>.
\<close>

fun copy_label :: "u8 list \<Rightarrow> nat \<Rightarrow> u8 list \<Rightarrow> u8 list" where
  "copy_label [] i bytes = bytes"
| "copy_label (c # label) i bytes =
     (if i < PEER_LEN then copy_label label (Suc i) (bytes[i := c]) else bytes)"

definition peer_from_label :: "u8 list \<Rightarrow> peer_id" where
  "peer_from_label label = PeerId (copy_label label 0 (replicate PEER_LEN 0))"

text \<open>The array type of the code: an identity has exactly eight bytes.\<close>

definition peer_wf :: "peer_id \<Rightarrow> bool" where
  "peer_wf pid = (length (peer_bytes pid) = PEER_LEN)"

text \<open>\<open>derive(PartialOrd, Ord)\<close>: the order of the byte arrays.\<close>

instantiation peer_id :: linorder
begin

definition less_eq_peer_id :: "peer_id \<Rightarrow> peer_id \<Rightarrow> bool" where
  "less_eq_peer_id a b = (peer_bytes a \<le> peer_bytes b)"

definition less_peer_id :: "peer_id \<Rightarrow> peer_id \<Rightarrow> bool" where
  "less_peer_id a b = (peer_bytes a < peer_bytes b)"

instance
proof
  fix x y z :: peer_id
  show "x < y \<longleftrightarrow> x \<le> y \<and> \<not> y \<le> x"
    by (auto simp: less_eq_peer_id_def less_peer_id_def)
  show "x \<le> x" by (simp add: less_eq_peer_id_def)
  show "x \<le> y \<Longrightarrow> y \<le> z \<Longrightarrow> x \<le> z" by (simp add: less_eq_peer_id_def)
  show "x \<le> y \<Longrightarrow> y \<le> x \<Longrightarrow> x = y"
    by (cases x; cases y) (simp add: less_eq_peer_id_def)
  show "x \<le> y \<or> y \<le> x" by (auto simp: less_eq_peer_id_def)
qed

end

lemma copy_label_take:
  "i + length bytes = i + PEER_LEN \<Longrightarrow> i \<le> PEER_LEN \<Longrightarrow> copy_label label i bytes =
     take i bytes @ take (PEER_LEN - i) label @ drop (i + length label) bytes"
proof (induction label arbitrary: i bytes)
  case Nil
  then show ?case by simp
next
  case (Cons c label)
  show ?case
  proof (cases "i < PEER_LEN")
    case True
    then have "copy_label (c # label) i bytes = take (Suc i) (bytes[i := c]) @
        take (PEER_LEN - Suc i) label @ drop (Suc i + length label) (bytes[i := c])"
      using Cons by simp
    then show ?thesis using True Cons.prems by (simp add: take_Suc_update Suc_diff_Suc [symmetric])
  next
    case False
    then show ?thesis using Cons.prems by simp
  qed
qed

lemma peer_from_label_eq:
  "peer_bytes (peer_from_label label) =
     take PEER_LEN label @ replicate (PEER_LEN - length label) 0"
  by (simp add: peer_from_label_def copy_label_take)

lemma peer_from_label_wf [simp]: "peer_wf (peer_from_label label)"
  by (simp add: peer_wf_def peer_from_label_eq min_def)

section \<open>Capabilities and configuration\<close>

type_synonym capabilities = u16

definition cap_stream :: capabilities where "cap_stream = push_bit 1 1"
definition cap_window :: capabilities where "cap_window = push_bit 0 1"
definition cap_forum :: capabilities where "cap_forum = push_bit 2 1"
definition cap_compression :: capabilities where "cap_compression = push_bit 3 1"
definition cap_encryption :: capabilities where "cap_encryption = push_bit 4 1"
definition cap_fragmentation :: capabilities where "cap_fragmentation = push_bit 5 1"

definition cap_with :: "capabilities \<Rightarrow> capabilities \<Rightarrow> capabilities" where
  "cap_with a b = a OR b"

definition cap_common :: "capabilities \<Rightarrow> capabilities \<Rightarrow> capabilities" where
  "cap_common a b = a AND b"

definition cap_contains :: "capabilities \<Rightarrow> capabilities \<Rightarrow> bool" where
  "cap_contains a b = (a AND b = b)"

definition PROTOCOL_VERSION :: u8 where "PROTOCOL_VERSION = 1"

record session_config =
  sc_version :: u8
  sc_window :: u8
  sc_features :: capabilities

datatype handshake_error = HsLength | HsVersion | HsWindow

definition config_new :: "u8 \<Rightarrow> u8 \<Rightarrow> capabilities \<Rightarrow> session_config" where
  "config_new version window features =
     \<lparr>sc_version = version,
      sc_window = (if window = 0 then 1 else if window > of_nat MAX_WINDOW then of_nat MAX_WINDOW else window),
      sc_features = features\<rparr>"

definition config_offer :: "u8 \<Rightarrow> capabilities \<Rightarrow> session_config" where
  "config_offer window features = config_new PROTOCOL_VERSION window features"

definition config_default :: session_config where
  "config_default = config_new PROTOCOL_VERSION (of_nat MAX_WINDOW) cap_stream"

definition config_forum :: session_config where
  "config_forum = config_offer (of_nat MAX_WINDOW)
     (cap_with (cap_with (cap_with cap_stream cap_window) cap_forum) cap_fragmentation)"

definition config_secure :: session_config where
  "config_secure = config_offer (of_nat MAX_WINDOW)
     (cap_with (cap_with (cap_with (cap_with cap_stream cap_window) cap_forum) cap_fragmentation)
        cap_encryption)"

definition config_window :: "u8 \<Rightarrow> session_config \<Rightarrow> session_config" where
  "config_window window c = config_new (sc_version c) window (sc_features c)"

definition config_with_features :: "capabilities \<Rightarrow> session_config \<Rightarrow> session_config" where
  "config_with_features features c = config_new (sc_version c) (sc_window c) features"

definition config_to_bytes :: "session_config \<Rightarrow> u8 list" where
  "config_to_bytes c = [sc_version c, sc_window c] @ be16 (sc_features c)"

definition config_from_bytes :: "u8 list \<Rightarrow> handshake_error + session_config" where
  "config_from_bytes bytes =
     (if bytes ! 0 = 0 then Inl HsVersion
      else if bytes ! 1 = 0 \<or> unat (bytes ! 1) > MAX_WINDOW then Inl HsWindow
      else Inr \<lparr>sc_version = bytes ! 0, sc_window = bytes ! 1,
                sc_features = of_be16 (bytes ! 2) (bytes ! 3)\<rparr>)"

definition config_negotiate :: "session_config \<Rightarrow> session_config \<Rightarrow> session_config" where
  "config_negotiate c remote =
     \<lparr>sc_version = min (sc_version c) (sc_version remote),
      sc_window = min (sc_window c) (sc_window remote),
      sc_features = cap_common (sc_features c) (sc_features remote)\<rparr>"

section \<open>The session\<close>

datatype session_state = SsDisconnected | SsConnecting | SsEstablished | SsClosing | SsAborted

record peer_session =
  ps_local :: peer_id
  ps_config :: session_config
  ps_remote :: "peer_id option"
  ps_negotiated :: "session_config option"
  ps_state :: session_state
  ps_stats :: session_stats

definition session_new :: "peer_id \<Rightarrow> session_config \<Rightarrow> peer_session" where
  "session_new local config =
     \<lparr>ps_local = local, ps_config = config, ps_remote = None, ps_negotiated = None,
      ps_state = SsDisconnected, ps_stats = session_stats_new\<rparr>"

definition session_record_stats :: "session_stats \<Rightarrow> peer_session \<Rightarrow> peer_session" where
  "session_record_stats st s = s\<lparr>ps_stats := st\<rparr>"

definition HELLO_LEN :: nat where "HELLO_LEN = PEER_LEN + 4"

definition session_hello_bytes :: "peer_session \<Rightarrow> u8 list" where
  "session_hello_bytes s = peer_bytes (ps_local s) @ config_to_bytes (ps_config s)"

definition session_connect :: "peer_session \<Rightarrow> peer_session \<times> u8 list" where
  "session_connect s =
     (let s' = s\<lparr>ps_remote := None, ps_negotiated := None, ps_state := SsConnecting\<rparr>
      in (s', session_hello_bytes s'))"

definition session_on_hello ::
  "u8 list \<Rightarrow> peer_session \<Rightarrow> peer_session \<times> (handshake_error + u8 list option)" where
  "session_on_hello bytes s =
     (if length bytes \<noteq> HELLO_LEN then (s, Inl HsLength)
      else case config_from_bytes (drop PEER_LEN bytes) of
          Inl e \<Rightarrow> (s, Inl e)
        | Inr remote_cfg \<Rightarrow>
            (s\<lparr>ps_remote := Some (PeerId (take PEER_LEN bytes)),
               ps_negotiated := Some (config_negotiate (ps_config s) remote_cfg),
               ps_state := SsEstablished\<rparr>,
             Inr (if ps_state s = SsConnecting then None else Some (session_hello_bytes s))))"

definition session_close :: "peer_session \<Rightarrow> peer_session" where
  "session_close s = s\<lparr>ps_state := SsClosing\<rparr>"

definition session_closed :: "peer_session \<Rightarrow> peer_session" where
  "session_closed s = s\<lparr>ps_state := SsDisconnected\<rparr>"

definition session_abort :: "peer_session \<Rightarrow> peer_session" where
  "session_abort s = s\<lparr>ps_state := SsAborted\<rparr>"

section \<open>Valid configurations\<close>

definition config_valid :: "session_config \<Rightarrow> bool" where
  "config_valid c = (sc_version c \<noteq> 0 \<and> sc_window c \<noteq> 0 \<and> unat (sc_window c) \<le> MAX_WINDOW)"

lemma config_new_valid:
  "config_valid (config_new version window features) \<longleftrightarrow> version \<noteq> 0"
  by (auto simp: config_valid_def config_new_def MAX_WINDOW_def word_less_nat_alt)

lemma config_valid_presets [simp]:
  "config_valid config_default" "config_valid config_forum" "config_valid config_secure"
  by (simp_all add: config_default_def config_forum_def config_secure_def config_offer_def
      config_new_valid PROTOCOL_VERSION_def)

lemma length_config_to_bytes [simp]: "length (config_to_bytes c) = 4"
  by (simp add: config_to_bytes_def)

text \<open>
  The parser of the four configuration bytes accepts exactly the bytes of a valid
  configuration (version not 0, window 1 to 8), and returns that configuration; every feature bit
  survives, known or not.
\<close>

theorem config_from_bytes_iff:
  assumes "length bytes = 4"
  shows "config_from_bytes bytes = Inr c \<longleftrightarrow> config_to_bytes c = bytes \<and> config_valid c"
proof -
  obtain v x hi lo where b: "bytes = [v, x, hi, lo]" using assms by (rule length4E)
  show ?thesis
  proof
    assume "config_from_bytes bytes = Inr c"
    then show "config_to_bytes c = bytes \<and> config_valid c"
      by (auto simp: b config_from_bytes_def config_to_bytes_def config_valid_def be16_of_be16
          split: if_splits)
  next
    assume "config_to_bytes c = bytes \<and> config_valid c"
    then show "config_from_bytes bytes = Inr c"
      by (cases c) (auto simp: b config_from_bytes_def config_to_bytes_def config_valid_def be16_def
          of_be16_be16)
  qed
qed

theorem config_from_bytes_iff_witness:
  "config_from_bytes [1, 8, 0, 0x2F] = Inr (config_new 1 8 0x2F)"
  by (subst config_from_bytes_iff)
    (simp_all add: config_to_bytes_def config_new_def config_valid_def MAX_WINDOW_def be16_def
      drop_bit_eq_div)

section \<open>Negotiation\<close>

text \<open>The interface of HOL's meet-semilattices, on the negotiation of the code.\<close>

interpretation nego: semilattice config_negotiate
  by unfold_locales (simp_all add: config_negotiate_def cap_common_def ac_simps)

lemma config_negotiate_valid:
  "config_valid c \<Longrightarrow> config_valid d \<Longrightarrow> config_valid (config_negotiate c d)"
  by (simp add: config_valid_def config_negotiate_def min_def)

lemma negotiate_features:
  "cap_contains (sc_features c) f \<and> cap_contains (sc_features d) f \<longleftrightarrow>
     cap_contains (sc_features (config_negotiate c d)) f"
proof
  assume l: "cap_contains (sc_features c) f \<and> cap_contains (sc_features d) f"
  then show "cap_contains (sc_features (config_negotiate c d)) f"
    by (simp add: cap_contains_def config_negotiate_def cap_common_def and.assoc)
next
  assume "cap_contains (sc_features (config_negotiate c d)) f"
  then have f: "(sc_features c AND sc_features d) AND f = f"
    by (simp add: cap_contains_def config_negotiate_def cap_common_def)
  have "sc_features c AND f = f"
    by (metis f and.assoc and.left_idem)
  moreover have "sc_features d AND f = f"
    by (metis f and.assoc and.commute and.left_idem)
  ultimately show "cap_contains (sc_features c) f \<and> cap_contains (sc_features d) f"
    by (simp add: cap_contains_def)
qed

text \<open>
  Negotiation needs no further round.  Both ends compute the same configuration, whichever
  one is local; a renegotiation changes nothing; the result is within what both offered, a feature
  is in it exactly when both offered it, and it is a valid configuration when the offers are.
\<close>

theorem negotiate_is_meet:
  "config_negotiate c d = config_negotiate d c \<and>
   config_negotiate c (config_negotiate c d) = config_negotiate c d \<and>
   config_negotiate (config_negotiate c d) e = config_negotiate c (config_negotiate d e) \<and>
   sc_version (config_negotiate c d) \<le> sc_version c \<and> sc_window (config_negotiate c d) \<le> sc_window c \<and>
   (cap_contains (sc_features (config_negotiate c d)) f =
      (cap_contains (sc_features c) f \<and> cap_contains (sc_features d) f))"
proof (intro conjI)
  show "config_negotiate c d = config_negotiate d c" by (rule nego.commute)
  show "config_negotiate c (config_negotiate c d) = config_negotiate c d" by (rule nego.left_idem)
  show "config_negotiate (config_negotiate c d) e = config_negotiate c (config_negotiate d e)"
    by (rule nego.assoc)
  show "sc_version (config_negotiate c d) \<le> sc_version c" "sc_window (config_negotiate c d) \<le> sc_window c"
    by (simp_all add: config_negotiate_def)
qed (simp add: negotiate_features)

section \<open>The hello\<close>

definition session_wf :: "peer_session \<Rightarrow> bool" where
  "session_wf s = (peer_wf (ps_local s) \<and> config_valid (ps_config s))"

lemma length_hello [simp]: "session_wf s \<Longrightarrow> length (session_hello_bytes s) = HELLO_LEN"
  by (simp add: session_wf_def session_hello_bytes_def peer_wf_def HELLO_LEN_def)

lemma config_round_trip [simp]:
  "config_valid c \<Longrightarrow> config_from_bytes (config_to_bytes c) = Inr c"
  by (cases c) (simp add: config_from_bytes_def config_to_bytes_def config_valid_def be16_def of_be16_be16)

text \<open>A hello of a well-formed session is accepted in every state, and what it leaves behind.\<close>

lemma on_hello_of:
  assumes "session_wf a"
  shows "session_on_hello (session_hello_bytes a) b =
    (b\<lparr>ps_remote := Some (ps_local a),
       ps_negotiated := Some (config_negotiate (ps_config b) (ps_config a)),
       ps_state := SsEstablished\<rparr>,
     Inr (if ps_state b = SsConnecting then None else Some (session_hello_bytes b)))"
proof -
  have l: "length (peer_bytes (ps_local a)) = PEER_LEN" using assms by (simp add: session_wf_def peer_wf_def)
  have "take PEER_LEN (session_hello_bytes a) = peer_bytes (ps_local a)"
    "drop PEER_LEN (session_hello_bytes a) = config_to_bytes (ps_config a)"
    using l by (simp_all add: session_hello_bytes_def)
  moreover have "config_from_bytes (config_to_bytes (ps_config a)) = Inr (ps_config a)"
    using assms by (simp add: session_wf_def)
  ultimately show ?thesis using assms by (simp add: session_on_hello_def)
qed

lemma connect_simps:
  assumes "session_connect s = (s', h)"
  shows "h = session_hello_bytes s'" "ps_state s' = SsConnecting" "ps_config s' = ps_config s"
    "ps_local s' = ps_local s" "session_wf s' = session_wf s" "session_hello_bytes s' = session_hello_bytes s"
  using assms by (auto simp: session_connect_def Let_def session_wf_def session_hello_bytes_def)

definition agreed :: "peer_session \<Rightarrow> peer_session \<Rightarrow> bool" where
  "agreed a b = (ps_state a = SsEstablished \<and> ps_state b = SsEstablished \<and>
     ps_remote a = Some (ps_local b) \<and> ps_remote b = Some (ps_local a) \<and>
     ps_negotiated a = ps_negotiated b \<and>
     ps_negotiated a = Some (config_negotiate (ps_config a) (ps_config b)))"

text \<open>
  C23: after the hellos both peers hold the same negotiated configuration and each other's
  identity.  Either one peer connects and the other one, whatever state an earlier session left it
  in, answers with its own hello; or both connect at the same time and neither answers.
\<close>

theorem handshake_agrees:
  assumes "session_wf a" and "session_wf b" and "session_connect a = (a1, ha)"
  shows "(ps_state b \<noteq> SsConnecting \<longrightarrow>
      (\<exists>b1 hb a2. session_on_hello ha b = (b1, Inr (Some hb)) \<and> session_on_hello hb a1 = (a2, Inr None) \<and>
        agreed a2 b1)) \<and>
    (case session_connect b of (b1, hb) \<Rightarrow>
      \<exists>a2 b2. session_on_hello ha b1 = (b2, Inr None) \<and> session_on_hello hb a1 = (a2, Inr None) \<and>
        agreed a2 b2)"
proof -
  note a = connect_simps [OF assms(3)]
  have "session_wf a1" using a assms(1) by simp
  note h = on_hello_of [OF this]
  have "\<exists>b1 hb a2. session_on_hello ha b = (b1, Inr (Some hb)) \<and>
      session_on_hello hb a1 = (a2, Inr None) \<and> agreed a2 b1" if "ps_state b \<noteq> SsConnecting"
    using that a h [of b] on_hello_of [OF assms(2), of a1]
    by (simp add: agreed_def nego.commute [of "ps_config b"])
  moreover obtain b1 hb where c: "session_connect b = (b1, hb)" by (metis surj_pair)
  note b = connect_simps [OF c]
  have "session_wf b1" using b assms(2) by simp
  from on_hello_of [OF this, of a1]
  have "\<exists>a2 b2. session_on_hello ha b1 = (b2, Inr None) \<and> session_on_hello hb a1 = (a2, Inr None) \<and>
      agreed a2 b2"
    using a b h [of b1] by (simp add: agreed_def nego.commute [of "ps_config b"])
  ultimately show ?thesis by (simp add: c)
qed

theorem handshake_agrees_witness:
  "let a = session_new (peer_from_label [1]) config_default; b = session_new (peer_from_label [2]) config_forum
   in case session_connect a of (a1, ha) \<Rightarrow> \<exists>b1 hb a2. session_on_hello ha b = (b1, Inr (Some hb)) \<and>
        session_on_hello hb a1 = (a2, Inr None) \<and> agreed a2 b1"
proof -
  let ?a = "session_new (peer_from_label [1]) config_default"
  let ?b = "session_new (peer_from_label [2]) config_forum"
  obtain a1 ha where c: "session_connect ?a = (a1, ha)" by (metis surj_pair)
  have "session_wf ?a" "session_wf ?b" "ps_state ?b \<noteq> SsConnecting"
    by (simp_all add: session_wf_def session_new_def)
  then show ?thesis using handshake_agrees [OF _ _ c] by (simp add: c)
qed

section \<open>Life cycle\<close>

inductive session_reachable :: "peer_id \<Rightarrow> session_config \<Rightarrow> peer_session \<Rightarrow> bool" for local config where
  sr_new: "session_reachable local config (session_new local config)"
| sr_connect: "session_reachable local config s \<Longrightarrow> session_reachable local config (fst (session_connect s))"
| sr_hello: "session_reachable local config s \<Longrightarrow>
    session_reachable local config (fst (session_on_hello bytes s))"
| sr_close: "session_reachable local config s \<Longrightarrow> session_reachable local config (session_close s)"
| sr_closed: "session_reachable local config s \<Longrightarrow> session_reachable local config (session_closed s)"
| sr_abort: "session_reachable local config s \<Longrightarrow> session_reachable local config (session_abort s)"
| sr_stats: "session_reachable local config s \<Longrightarrow>
    session_reachable local config (session_record_stats st s)"

lemma config_from_bytes_valid: "config_from_bytes bytes = Inr c \<Longrightarrow> config_valid c"
  by (auto simp: config_from_bytes_def config_valid_def split: if_splits)

lemma on_hello_err: "session_on_hello bytes s = (s', Inl e) \<Longrightarrow> s' = s"
  by (auto simp: session_on_hello_def split: if_splits sum.splits)

lemma on_hello_ok:
  "session_on_hello bytes s = (s', Inr r) \<Longrightarrow> \<exists>c. length bytes = HELLO_LEN \<and> config_valid c \<and>
     config_from_bytes (drop PEER_LEN bytes) = Inr c \<and>
     s' = s\<lparr>ps_remote := Some (PeerId (take PEER_LEN bytes)),
       ps_negotiated := Some (config_negotiate (ps_config s) c), ps_state := SsEstablished\<rparr> \<and>
     r = (if ps_state s = SsConnecting then None else Some (session_hello_bytes s))"
  by (auto simp: session_on_hello_def config_from_bytes_valid split: if_splits sum.splits)

text \<open>
  C24: whatever is called on a session in whatever order, and whatever bytes arrive as a hello, an
  established session knows its peer and holds a valid configuration that is within its own offer,
  and a connecting one has forgotten the peer before.
\<close>

theorem session_lifecycle:
  assumes "session_reachable local config s" and "peer_wf local" and "config_valid config"
  shows "ps_local s = local \<and> ps_config s = config \<and> (ps_remote s = None \<longleftrightarrow> ps_negotiated s = None) \<and>
    (ps_state s = SsEstablished \<longrightarrow> ps_remote s \<noteq> None) \<and>
    (ps_state s = SsConnecting \<longrightarrow> ps_remote s = None) \<and>
    (\<forall>id. ps_remote s = Some id \<longrightarrow> peer_wf id) \<and>
    (\<forall>c. ps_negotiated s = Some c \<longrightarrow> config_valid c \<and> config_negotiate config c = c)"
  using assms
proof induction
  case sr_new
  then show ?case by (simp add: session_new_def)
next
  case (sr_connect s)
  then show ?case by (simp add: session_connect_def Let_def)
next
  case (sr_hello s bytes)
  obtain s' res where h: "session_on_hello bytes s = (s', res)" by (metis surj_pair)
  show ?case
  proof (cases res)
    case (Inl e)
    then show ?thesis using sr_hello on_hello_err [of bytes s s' e] h by auto
  next
    case (Inr r)
    obtain c where c: "length bytes = HELLO_LEN" "config_valid c"
      "s' = s\<lparr>ps_remote := Some (PeerId (take PEER_LEN bytes)),
         ps_negotiated := Some (config_negotiate (ps_config s) c), ps_state := SsEstablished\<rparr>"
      using on_hello_ok [of bytes s s' r] h Inr by blast
    then show ?thesis using sr_hello h
      by (simp add: config_negotiate_valid peer_wf_def HELLO_LEN_def nego.left_idem)
  qed
qed (auto simp: session_close_def session_closed_def session_abort_def session_record_stats_def)

theorem session_lifecycle_witness:
  "let s = fst (session_on_hello (replicate 8 7 @ [2, 4, 0, 2]) (session_new (peer_from_label [1]) config_default))
   in ps_state s = SsEstablished \<and> ps_remote s \<noteq> None"
proof -
  let ?s0 = "session_new (peer_from_label [1]) config_default"
  let ?s = "fst (session_on_hello (replicate 8 7 @ [2, 4, 0, 2]) ?s0)"
  have "session_reachable (peer_from_label [1]) config_default ?s"
    by (intro session_reachable.intros)
  moreover have "ps_state ?s = SsEstablished"
    by (simp add: session_on_hello_def HELLO_LEN_def PEER_LEN_def config_from_bytes_def MAX_WINDOW_def)
  ultimately show ?thesis using session_lifecycle [of "peer_from_label [1]" config_default ?s] by simp
qed

end
