(* ===== verification/Table.thy ===== *)
theory Table
  imports Session
begin

text \<open>
  The directory of neighbours (\<open>src/p2p/table.rs\<close>): one optional entry per slot, \<open>N\<close> is the length
  of the slot list.  The lemmas give the outcome of every operation and the invariant that no
  remote identity is in two slots, and run the handshake of two tables to its end.
\<close>

section \<open>The code\<close>

definition MAX_PEERS :: nat where "MAX_PEERS = 8"

definition check_peers :: "nat \<Rightarrow> bool" where
  "check_peers n = (1 \<le> n \<and> n \<le> MAX_PEERS)"

datatype peer_entry = PeerEntry (entry_session: peer_session)

datatype table_error = TableFull | TableHandshake handshake_error | TableEmpty | TableDuplicate

record peer_table =
  pt_local :: peer_id
  pt_config :: session_config
  pt_slots :: "peer_entry option list"

definition table_with :: "nat \<Rightarrow> peer_id \<Rightarrow> session_config \<Rightarrow> peer_table" where
  "table_with n local config = \<lparr>pt_local = local, pt_config = config, pt_slots = replicate n None\<rparr>"

definition table_new :: "nat \<Rightarrow> peer_id \<Rightarrow> peer_table" where
  "table_new n local = table_with n local config_default"

definition table_len :: "peer_table \<Rightarrow> nat" where
  "table_len t = occupied (pt_slots t)"

definition table_is_empty :: "peer_table \<Rightarrow> bool" where
  "table_is_empty t = (table_len t = 0)"

definition table_is_full :: "peer_table \<Rightarrow> bool" where
  "table_is_full t = (table_len t = length (pt_slots t))"

definition table_get :: "nat \<Rightarrow> peer_table \<Rightarrow> peer_entry option" where
  "table_get i t = (if i < length (pt_slots t) then pt_slots t ! i else None)"

definition has_remote :: "peer_id \<Rightarrow> peer_entry option \<Rightarrow> bool" where
  "has_remote pid s = (case s of Some entry \<Rightarrow> ps_remote (entry_session entry) = Some pid | None \<Rightarrow> False)"

definition table_find :: "peer_id \<Rightarrow> peer_table \<Rightarrow> nat option" where
  "table_find pid t = position (has_remote pid) (pt_slots t)"

definition table_find_except :: "peer_id \<Rightarrow> nat \<Rightarrow> peer_table \<Rightarrow> nat option" where
  "table_find_except pid skip t =
     position (\<lambda>(i, s). i \<noteq> skip \<and> has_remote pid s) (enumerate 0 (pt_slots t))"

definition table_free_slot :: "peer_table \<Rightarrow> nat option" where
  "table_free_slot t = position (\<lambda>s. s = None) (pt_slots t)"

definition table_store :: "nat \<Rightarrow> peer_session \<Rightarrow> peer_table \<Rightarrow> peer_table \<times> (table_error + unit)" where
  "table_store slot session t =
     (if slot < length (pt_slots t)
      then (t\<lparr>pt_slots := (pt_slots t)[slot := Some (PeerEntry session)]\<rparr>, Inr ())
      else (t, Inl TableEmpty))"

definition table_connect :: "peer_table \<Rightarrow> peer_table \<times> (table_error + nat \<times> u8 list)" where
  "table_connect t =
     (case table_free_slot t of
        None \<Rightarrow> (t, Inl TableFull)
      | Some i \<Rightarrow>
          (case session_connect (session_new (pt_local t) (pt_config t)) of
             (session, hello) \<Rightarrow>
               (t\<lparr>pt_slots := (pt_slots t)[i := Some (PeerEntry session)]\<rparr>, Inr (i, hello))))"

definition remote_from_hello :: "u8 list \<Rightarrow> peer_id option" where
  "remote_from_hello hello =
     (if length hello < PEER_LEN then None else Some (PeerId (take PEER_LEN hello)))"

definition table_accept :: "u8 list \<Rightarrow> peer_table \<Rightarrow> peer_table \<times> (table_error + nat \<times> u8 list)" where
  "table_accept hello t =
     (if length hello \<ge> PEER_LEN \<and> table_find (PeerId (take PEER_LEN hello)) t \<noteq> None
      then (t, Inl TableDuplicate)
      else case table_free_slot t of
          None \<Rightarrow> (t, Inl TableFull)
        | Some i \<Rightarrow>
            (case session_on_hello hello (session_new (pt_local t) (pt_config t)) of
               (session, Inl e) \<Rightarrow> (t, Inl (TableHandshake e))
             | (session, Inr reply) \<Rightarrow>
                 (t\<lparr>pt_slots := (pt_slots t)[i := Some (PeerEntry session)]\<rparr>,
                  Inr (i, case reply of Some bytes \<Rightarrow> bytes | None \<Rightarrow> session_hello_bytes session))))"

definition table_finish_connect :: "nat \<Rightarrow> u8 list \<Rightarrow> peer_table \<Rightarrow> peer_table \<times> (table_error + unit)" where
  "table_finish_connect slot hello t =
     (case table_get slot t of
        None \<Rightarrow> (t, Inl TableEmpty)
      | Some entry \<Rightarrow>
          if (case remote_from_hello hello of
                Some pid \<Rightarrow> table_find_except pid slot t \<noteq> None
              | None \<Rightarrow> False)
          then (t, Inl TableDuplicate)
          else (case session_on_hello hello (entry_session entry) of
                  (session, Inl e) \<Rightarrow> (t, Inl (TableHandshake e))
                | (session, Inr _) \<Rightarrow>
                    (t\<lparr>pt_slots := (pt_slots t)[slot := Some (PeerEntry session)]\<rparr>, Inr ())))"

definition table_remove :: "nat \<Rightarrow> peer_table \<Rightarrow> peer_table \<times> (table_error + peer_entry)" where
  "table_remove slot t =
     (if slot < length (pt_slots t)
      then (case pt_slots t ! slot of
              Some entry \<Rightarrow> (t\<lparr>pt_slots := (pt_slots t)[slot := None]\<rparr>, Inr entry)
            | None \<Rightarrow> (t, Inl TableEmpty))
      else (t, Inl TableEmpty))"

definition table_established :: "peer_table \<Rightarrow> nat" where
  "table_established t =
     length (filter (\<lambda>s. case s of
         Some entry \<Rightarrow> ps_state (entry_session entry) = SsEstablished | None \<Rightarrow> False) (pt_slots t))"

section \<open>Lookups\<close>

lemma has_remote_Some [simp]:
  "has_remote pid None = False"
  "has_remote pid (Some (PeerEntry s)) = (ps_remote s = Some pid)"
  by (simp_all add: has_remote_def)

lemma table_find_Some:
  "table_find pid t = Some i \<Longrightarrow> i < length (pt_slots t) \<and> has_remote pid (pt_slots t ! i)"
  by (auto simp: table_find_def dest: position_SomeD)

lemma table_find_None:
  "table_find pid t = None \<longleftrightarrow> (\<forall>i < length (pt_slots t). \<not> has_remote pid (pt_slots t ! i))"
  by (simp add: table_find_def position_None all_set_conv_all_nth)

lemma table_find_except_None:
  "table_find_except pid skip t = None \<longleftrightarrow>
     (\<forall>i < length (pt_slots t). i \<noteq> skip \<longrightarrow> \<not> has_remote pid (pt_slots t ! i))"
  by (auto simp: table_find_except_def position_None all_set_conv_all_nth nth_enumerate_eq)

lemma table_free_slot_Some:
  "table_free_slot t = Some i \<Longrightarrow> i < length (pt_slots t) \<and> pt_slots t ! i = None"
  by (auto simp: table_free_slot_def dest: position_SomeD)

lemma table_free_slot_None: "table_free_slot t = None \<longleftrightarrow> table_is_full t"
  by (auto simp: table_free_slot_def position_None table_is_full_def table_len_def occupied_full)

lemma table_find_unique:
  assumes "i < length (pt_slots t)" and "has_remote pid (pt_slots t ! i)"
    and "\<forall>j < length (pt_slots t). has_remote pid (pt_slots t ! j) \<longrightarrow> j = i"
  shows "table_find pid t = Some i"
proof -
  have "\<not> has_remote pid (pt_slots t ! j)" if "j < i" for j
    using assms(1,3) that by (metis less_irrefl less_trans)
  then show ?thesis using assms(1,2) by (simp add: table_find_def position_Some)
qed

section \<open>No remote twice\<close>

definition table_distinct :: "peer_table \<Rightarrow> bool" where
  "table_distinct t = (\<forall>i < length (pt_slots t). \<forall>j < length (pt_slots t). \<forall>pid.
     has_remote pid (pt_slots t ! i) \<longrightarrow> has_remote pid (pt_slots t ! j) \<longrightarrow> i = j)"

lemma table_distinctD:
  "table_distinct t \<Longrightarrow> has_remote pid (pt_slots t ! i) \<Longrightarrow> has_remote pid (pt_slots t ! j) \<Longrightarrow>
     i < length (pt_slots t) \<Longrightarrow> j < length (pt_slots t) \<Longrightarrow> i = j"
  unfolding table_distinct_def by blast

lemma table_distinct_fill:
  assumes "table_distinct t" and "i < length (pt_slots t)"
    and "\<And>pid j. ps_remote s = Some pid \<Longrightarrow> j < length (pt_slots t) \<Longrightarrow> j \<noteq> i \<Longrightarrow>
      \<not> has_remote pid (pt_slots t ! j)"
  shows "table_distinct (t\<lparr>pt_slots := (pt_slots t)[i := Some (PeerEntry s)]\<rparr>)"
proof (unfold table_distinct_def, intro allI impI, goal_cases)
  case (1 a b pid)
  have "has_remote pid (pt_slots t ! a) \<and> has_remote pid (pt_slots t ! b)" if "a \<noteq> i" "b \<noteq> i"
    using 1 that by simp
  moreover have "b = i" if "a = i"
    using 1 that assms(2) assms(3) [of pid b] by (cases "b = i") auto
  moreover have "a = i" if "b = i"
    using 1 that assms(2) assms(3) [of pid a] by (cases "a = i") auto
  moreover have "a = b" if "has_remote pid (pt_slots t ! a) \<and> has_remote pid (pt_slots t ! b)"
    using table_distinctD [OF assms(1), of pid a b] that 1(1,2) by simp
  ultimately show ?case by blast
qed

lemma table_distinct_clear:
  assumes "table_distinct t"
  shows "table_distinct (t\<lparr>pt_slots := (pt_slots t)[i := None]\<rparr>)"
proof (unfold table_distinct_def, intro allI impI, goal_cases)
  case (1 a b pid)
  then have "a \<noteq> i" "b \<noteq> i" by (auto simp: nth_list_update split: if_splits)
  then show ?case using 1 table_distinctD [OF assms, of pid a b] by simp
qed

lemma on_hello_remote:
  "session_on_hello hello s = (s', Inr r) \<Longrightarrow>
     PEER_LEN \<le> length hello \<and> ps_remote s' = Some (PeerId (take PEER_LEN hello))"
  using on_hello_ok [of hello s s' r] by (auto simp: HELLO_LEN_def)

lemma table_accept_ok:
  assumes "table_accept hello t = (t', Inr (i, reply))"
  shows "\<exists>s c. table_free_slot t = Some i \<and> table_find (PeerId (take PEER_LEN hello)) t = None \<and>
    length hello = HELLO_LEN \<and> config_from_bytes (drop PEER_LEN hello) = Inr c \<and>
    t' = t\<lparr>pt_slots := (pt_slots t)[i := Some (PeerEntry s)]\<rparr> \<and>
    s = (session_new (pt_local t) (pt_config t))\<lparr>ps_remote := Some (PeerId (take PEER_LEN hello)),
      ps_negotiated := Some (config_negotiate (pt_config t) c), ps_state := SsEstablished\<rparr> \<and>
    reply = peer_bytes (pt_local t) @ config_to_bytes (pt_config t)"
proof -
  let ?s0 = "session_new (pt_local t) (pt_config t)"
  obtain s r where h: "session_on_hello hello ?s0 = (s, r)" by (metis surj_pair)
  have find: "\<not> (length hello \<ge> PEER_LEN \<and> table_find (PeerId (take PEER_LEN hello)) t \<noteq> None)"
    and free: "table_free_slot t = Some i" and "isr": "\<exists>x. r = Inr x"
    using assms h by (auto simp: table_accept_def split: if_splits option.splits sum.splits)
  then obtain x where r: "r = Inr x" by auto
  obtain c where c: "length hello = HELLO_LEN" "config_from_bytes (drop PEER_LEN hello) = Inr c"
    "s = ?s0\<lparr>ps_remote := Some (PeerId (take PEER_LEN hello)),
       ps_negotiated := Some (config_negotiate (ps_config ?s0) c), ps_state := SsEstablished\<rparr>"
    "x = (if ps_state ?s0 = SsConnecting then None else Some (session_hello_bytes ?s0))"
    using on_hello_ok [OF h [unfolded r]] by blast
  show ?thesis
    using assms h find free r c
    by (simp add: table_accept_def HELLO_LEN_def session_new_def session_hello_bytes_def)
qed

lemma table_connect_ok:
  assumes "table_connect t = (t', Inr (i, hello))"
  shows "\<exists>s. table_free_slot t = Some i \<and> t' = t\<lparr>pt_slots := (pt_slots t)[i := Some (PeerEntry s)]\<rparr> \<and>
    session_connect (session_new (pt_local t) (pt_config t)) = (s, hello) \<and> ps_remote s = None"
  using assms by (auto simp: table_connect_def session_connect_def Let_def split: option.splits)

lemma table_finish_ok:
  assumes "table_finish_connect slot hello t = (t', Inr ())"
  shows "\<exists>s s' r. table_get slot t = Some (PeerEntry s) \<and> session_on_hello hello s = (s', Inr r) \<and>
    table_find_except (PeerId (take PEER_LEN hello)) slot t = None \<and>
    t' = t\<lparr>pt_slots := (pt_slots t)[slot := Some (PeerEntry s')]\<rparr>"
proof -
  obtain s where g: "table_get slot t = Some (PeerEntry s)"
    using assms by (cases "table_get slot t"; cases "the (table_get slot t)")
      (simp_all add: table_finish_connect_def)
  obtain s' r where h: "session_on_hello hello s = (s', r)" by (metis surj_pair)
  have "\<exists>x. r = Inr x"
    using assms g h by (auto simp: table_finish_connect_def split: option.splits if_splits sum.splits)
  then obtain x where r: "r = Inr x" by auto
  note rem = on_hello_remote [OF h [unfolded r]]
  show ?thesis using assms g h r rem
    by (auto simp: table_finish_connect_def remote_from_hello_def split: if_splits)
qed

text \<open>
  Every table the operations can build.  A slot is written back (\<open>store\<close>) the way \<open>PeerLink\<close> does
  it, with the session of that slot advanced, its remote unchanged.
\<close>

inductive table_reachable :: "nat \<Rightarrow> peer_id \<Rightarrow> session_config \<Rightarrow> peer_table \<Rightarrow> bool" for n local config where
  tr_new: "table_reachable n local config (table_with n local config)"
| tr_connect: "table_reachable n local config t \<Longrightarrow> table_reachable n local config (fst (table_connect t))"
| tr_accept: "table_reachable n local config t \<Longrightarrow> table_reachable n local config (fst (table_accept hello t))"
| tr_finish: "table_reachable n local config t \<Longrightarrow>
    table_reachable n local config (fst (table_finish_connect slot hello t))"
| tr_remove: "table_reachable n local config t \<Longrightarrow> table_reachable n local config (fst (table_remove slot t))"
| tr_store: "table_reachable n local config t \<Longrightarrow> table_get slot t = Some (PeerEntry s0) \<Longrightarrow>
    ps_remote s = ps_remote s0 \<Longrightarrow> table_reachable n local config (fst (table_store slot s t))"

definition table_wf :: "nat \<Rightarrow> peer_id \<Rightarrow> session_config \<Rightarrow> peer_table \<Rightarrow> bool" where
  "table_wf n local config t = (pt_local t = local \<and> pt_config t = config \<and> length (pt_slots t) = n \<and>
     table_distinct t)"

lemma table_wf_connect: "table_wf n local config t \<Longrightarrow> table_wf n local config (fst (table_connect t))"
proof -
  assume wf: "table_wf n local config t"
  obtain t' r where c: "table_connect t = (t', r)" by (metis surj_pair)
  show ?thesis
  proof (cases r)
    case (Inl e)
    then have "t' = t" using c by (auto simp: table_connect_def split: option.splits prod.splits)
    then show ?thesis using wf c by simp
  next
    case (Inr x)
    obtain i hello where x: "x = (i, hello)" by (metis surj_pair)
    show ?thesis using table_connect_ok [OF c [unfolded Inr x]] wf c table_free_slot_Some [of t i]
      by (auto simp: table_wf_def intro!: table_distinct_fill)
  qed
qed

lemma table_wf_accept: "table_wf n local config t \<Longrightarrow> table_wf n local config (fst (table_accept hello t))"
proof -
  assume wf: "table_wf n local config t"
  obtain t' r where c: "table_accept hello t = (t', r)" by (metis surj_pair)
  show ?thesis
  proof (cases r)
    case (Inl e)
    then have "t' = t"
      using c by (auto simp: table_accept_def split: option.splits prod.splits sum.splits if_splits)
    then show ?thesis using wf c by simp
  next
    case (Inr x)
    obtain i reply where x: "x = (i, reply)" by (metis surj_pair)
    show ?thesis using table_accept_ok [OF c [unfolded Inr x]] wf c table_free_slot_Some [of t i]
      by (auto simp: table_wf_def table_find_None intro!: table_distinct_fill)
  qed
qed

lemma table_get_Some: "table_get i t = Some e \<Longrightarrow> i < length (pt_slots t) \<and> pt_slots t ! i = Some e"
  by (auto simp: table_get_def split: if_splits)

lemma table_wf_finish:
  "table_wf n local config t \<Longrightarrow> table_wf n local config (fst (table_finish_connect slot hello t))"
proof -
  assume wf: "table_wf n local config t"
  obtain t' r where c: "table_finish_connect slot hello t = (t', r)" by (metis surj_pair)
  show ?thesis
  proof (cases r)
    case (Inl e)
    then have "t' = t"
      using c by (auto simp: table_finish_connect_def split: option.splits prod.splits sum.splits if_splits)
    then show ?thesis using wf c by simp
  next
    case (Inr x)
    then obtain s s' y where f: "table_get slot t = Some (PeerEntry s)" "session_on_hello hello s = (s', Inr y)"
      "table_find_except (PeerId (take PEER_LEN hello)) slot t = None"
      "t' = t\<lparr>pt_slots := (pt_slots t)[slot := Some (PeerEntry s')]\<rparr>"
      using table_finish_ok [of slot hello t t'] c by auto
    have "table_distinct t'" unfolding f(4)
      by (rule table_distinct_fill)
        (use wf f(3) table_get_Some [OF f(1)] on_hello_remote [OF f(2)] in
          \<open>auto simp: table_wf_def table_find_except_None\<close>)
    then show ?thesis using wf c f(4) by (simp add: table_wf_def)
  qed
qed

lemma table_wf_remove: "table_wf n local config t \<Longrightarrow> table_wf n local config (fst (table_remove slot t))"
  by (auto simp: table_remove_def table_wf_def table_distinct_clear split: option.splits)

lemma table_wf_store:
  assumes "table_wf n local config t" and "table_get slot t = Some (PeerEntry s0)"
    and "ps_remote s = ps_remote s0"
  shows "table_wf n local config (fst (table_store slot s t))"
proof -
  note g = table_get_Some [OF assms(2)]
  have "table_distinct (t\<lparr>pt_slots := (pt_slots t)[slot := Some (PeerEntry s)]\<rparr>)"
  proof (rule table_distinct_fill)
    show "\<not> has_remote pid (pt_slots t ! j)"
      if "ps_remote s = Some pid" "j < length (pt_slots t)" "j \<noteq> slot" for pid j
      using that assms g table_distinctD [of t pid j slot] by (auto simp: table_wf_def)
  qed (use assms g in \<open>auto simp: table_wf_def\<close>)
  then show ?thesis using assms(1) g by (simp add: table_store_def table_wf_def)
qed



text \<open>
  The outcome of \<open>accept\<close>, by the first check that fails: a remote that is listed already, a
  full table, a hello that does not parse; on each the table is unchanged.  Otherwise the first
  free slot holds an established session with that remote, the reply is our hello, and the remote
  is found in that slot.
\<close>

theorem table_accept_outcome:
  "table_accept hello t =
     (if PEER_LEN \<le> length hello \<and> table_find (PeerId (take PEER_LEN hello)) t \<noteq> None
      then (t, Inl TableDuplicate)
      else if table_is_full t then (t, Inl TableFull)
      else if length hello \<noteq> HELLO_LEN then (t, Inl (TableHandshake HsLength))
      else case config_from_bytes (drop PEER_LEN hello) of
          Inl e \<Rightarrow> (t, Inl (TableHandshake e))
        | Inr c \<Rightarrow> let i = the (table_free_slot t)
            in (t\<lparr>pt_slots := (pt_slots t)[i := Some (PeerEntry ((session_new (pt_local t) (pt_config t))
                  \<lparr>ps_remote := Some (PeerId (take PEER_LEN hello)),
                    ps_negotiated := Some (config_negotiate (pt_config t) c), ps_state := SsEstablished\<rparr>))]\<rparr>,
                Inr (i, peer_bytes (pt_local t) @ config_to_bytes (pt_config t))))"
proof -
  have h: "session_on_hello hello (session_new (pt_local t) (pt_config t)) =
      (if length hello \<noteq> HELLO_LEN then (session_new (pt_local t) (pt_config t), Inl HsLength)
       else case config_from_bytes (drop PEER_LEN hello) of
           Inl e \<Rightarrow> (session_new (pt_local t) (pt_config t), Inl e)
         | Inr c \<Rightarrow> ((session_new (pt_local t) (pt_config t))
             \<lparr>ps_remote := Some (PeerId (take PEER_LEN hello)),
               ps_negotiated := Some (config_negotiate (pt_config t) c), ps_state := SsEstablished\<rparr>,
             Inr (Some (peer_bytes (pt_local t) @ config_to_bytes (pt_config t)))))"
    by (simp add: session_on_hello_def session_new_def session_hello_bytes_def split: sum.splits)
  show ?thesis
  proof (cases "table_free_slot t")
    case None
    then have "table_is_full t" using table_free_slot_None [of t] by simp
    then show ?thesis using None by (simp add: table_accept_def)
  next
    case (Some i)
    then have "\<not> table_is_full t" using table_free_slot_None [of t] by simp
    then show ?thesis unfolding table_accept_def h using Some by (simp add: Let_def split: sum.splits)
  qed
qed

section \<open>Two tables meet\<close>

lemma table_find_None_nth:
  "table_find pid t = None \<Longrightarrow> i < length (pt_slots t) \<Longrightarrow> \<not> has_remote pid (pt_slots t ! i)"
  by (simp add: table_find_None)

lemma table_find_filled:
  assumes "table_find pid t = None" and "i < length (pt_slots t)" and "ps_remote s = Some pid"
  shows "table_find pid (t\<lparr>pt_slots := (pt_slots t)[i := Some (PeerEntry s)]\<rparr>) = Some i"
  by (rule table_find_unique)
    (use assms table_find_None_nth [OF assms(1)] in \<open>auto simp: nth_list_update\<close>)

lemma tables_handshake:
  assumes "peer_wf (pt_local a)" and "config_valid (pt_config a)"
    and "peer_wf (pt_local b)" and "config_valid (pt_config b)"
    and "table_find (pt_local b) a = None" and "table_find (pt_local a) b = None"
    and "\<not> table_is_full a" and "\<not> table_is_full b"
  shows "\<exists>a1 i ha b1 j hb a2 sa sb. table_connect a = (a1, Inr (i, ha)) \<and>
    table_accept ha b = (b1, Inr (j, hb)) \<and> table_finish_connect i hb a1 = (a2, Inr ()) \<and>
    table_find (pt_local b) a2 = Some i \<and> table_find (pt_local a) b1 = Some j \<and>
    table_get i a2 = Some (PeerEntry sa) \<and> table_get j b1 = Some (PeerEntry sb) \<and> agreed sa sb"
proof -
  let ?sa = "session_new (pt_local a) (pt_config a)" and ?sb = "session_new (pt_local b) (pt_config b)"
  obtain i j where i: "table_free_slot a = Some i" and j: "table_free_slot b = Some j"
    using assms(7,8) table_free_slot_None [of a] table_free_slot_None [of b] by (metis option.exhaust)
  obtain sa1 ha where ca: "session_connect ?sa = (sa1, ha)" by (metis surj_pair)
  note c = connect_simps [OF ca]
  have wa: "session_wf sa1" and wb: "session_wf ?sb"
    using c assms(1-4) by (simp_all add: session_wf_def session_new_def)
  define a1 where "a1 = a\<lparr>pt_slots := (pt_slots a)[i := Some (PeerEntry sa1)]\<rparr>"
  have 1: "table_connect a = (a1, Inr (i, ha))" by (simp add: table_connect_def i ca a1_def)
  define sb where "sb = ?sb\<lparr>ps_remote := Some (pt_local a),
    ps_negotiated := Some (config_negotiate (pt_config b) (pt_config a)), ps_state := SsEstablished\<rparr>"
  define b1 where "b1 = b\<lparr>pt_slots := (pt_slots b)[j := Some (PeerEntry sb)]\<rparr>"
  have ida: "ps_local sa1 = pt_local a" "ps_config sa1 = pt_config a" using c by (simp_all add: session_new_def)
  have "session_on_hello ha ?sb = (sb, Inr (Some (session_hello_bytes ?sb)))"
    using on_hello_of [OF wa, of ?sb] c(1) ida by (simp add: sb_def session_new_def)
  moreover have "PeerId (take PEER_LEN ha) = pt_local a"
    using c(1) ida assms(1) by (simp add: session_hello_bytes_def peer_wf_def)
  ultimately have 2: "table_accept ha b = (b1, Inr (j, session_hello_bytes ?sb))"
    using assms(6) j by (simp add: table_accept_def b1_def)
  define sa2 where "sa2 = sa1\<lparr>ps_remote := Some (pt_local b),
    ps_negotiated := Some (config_negotiate (pt_config a) (pt_config b)), ps_state := SsEstablished\<rparr>"
  have h: "session_on_hello (session_hello_bytes ?sb) sa1 = (sa2, Inr None)"
    using on_hello_of [OF wb, of sa1] c(2) ida by (simp add: sa2_def session_new_def)
  have pb: "remote_from_hello (session_hello_bytes ?sb) = Some (pt_local b)"
    using assms(3) by (simp add: remote_from_hello_def session_hello_bytes_def session_new_def peer_wf_def)
  have il: "i < length (pt_slots a)" and jl: "j < length (pt_slots b)"
    using table_free_slot_Some [OF i] table_free_slot_Some [OF j] by simp_all
  have "table_find_except (pt_local b) i a1 = None"
    using assms(5) by (auto simp: table_find_except_None table_find_None a1_def)
  then have 3: "table_finish_connect i (session_hello_bytes ?sb) a1 =
      (a\<lparr>pt_slots := (pt_slots a)[i := Some (PeerEntry sa2)]\<rparr>, Inr ())"
    using h pb il by (simp add: table_finish_connect_def table_get_def a1_def)
  have "agreed sa2 sb"
    using ida by (simp add: agreed_def sa2_def sb_def session_new_def nego.commute [of "pt_config b"])
  moreover have "table_find (pt_local b) (a\<lparr>pt_slots := (pt_slots a)[i := Some (PeerEntry sa2)]\<rparr>) = Some i"
    by (rule table_find_filled [OF assms(5) il]) (simp add: sa2_def)
  moreover have "table_find (pt_local a) b1 = Some j"
    unfolding b1_def by (rule table_find_filled [OF assms(6) jl]) (simp add: sb_def)
  ultimately show ?thesis using 1 2 3 il jl by (auto simp: table_get_def b1_def)
qed

text \<open>
  The handshake of two nodes through their tables.  When neither lists the other yet and
  both have a free slot, the connecting node's hello is accepted, the reply completes the connect,
  each table finds the other node in the slot it used, and the two sessions agree.
\<close>

theorem tables_meet:
  assumes "peer_wf (pt_local a)" and "config_valid (pt_config a)"
    and "peer_wf (pt_local b)" and "config_valid (pt_config b)"
    and "table_find (pt_local b) a = None" and "table_find (pt_local a) b = None"
    and "\<not> table_is_full a" and "\<not> table_is_full b"
  shows "\<exists>a1 i ha b1 j hb a2 sa sb. table_connect a = (a1, Inr (i, ha)) \<and>
    table_accept ha b = (b1, Inr (j, hb)) \<and> table_finish_connect i hb a1 = (a2, Inr ()) \<and>
    table_find (pt_local b) a2 = Some i \<and> table_find (pt_local a) b1 = Some j \<and>
    table_get i a2 = Some (PeerEntry sa) \<and> table_get j b1 = Some (PeerEntry sb) \<and> agreed sa sb"
  using assms by (rule tables_handshake)

theorem tables_meet_witness:
  "let a = table_new 1 (peer_from_label [1]); b = table_with 2 (peer_from_label [2]) config_forum
   in \<exists>a1 i ha b1 j hb a2. table_connect a = (a1, Inr (i, ha)) \<and> table_accept ha b = (b1, Inr (j, hb)) \<and>
     table_finish_connect i hb a1 = (a2, Inr ()) \<and> table_find (peer_from_label [2]) a2 = Some i"
proof -
  let ?a = "table_new 1 (peer_from_label [1])" and ?b = "table_with 2 (peer_from_label [2]) config_forum"
  have "\<not> table_is_full ?a" "\<not> table_is_full ?b" "table_find pid ?a = None" "table_find pid ?b = None" for pid
    by (simp_all add: table_is_full_def table_len_def table_new_def table_with_def table_find_None)
  then show ?thesis using tables_meet [of ?a ?b] by (auto simp: table_new_def table_with_def)
qed

end
