(* ===== verification/Link.thy ===== *)
theory Link
  imports Table Duplex
begin

text \<open>
  A live link to one neighbour (\<open>src/p2p/link.rs\<close>) and the node that opens links
  (\<open>src/p2p/node.rs\<close>): a windowed pump and the exchange of the two hellos over it.  The table of
  neighbours is shared by all links of a node, so every operation takes it and gives it back; in
  the runs below it may be any table at every step.  The lemmas say which received bytes are
  the hello and which are payload, that establishment is announced once, and how far the window
  is opened.
\<close>

section \<open>The code\<close>

datatype link_event = LinkIdle | LinkProgress | LinkEstablished | LinkReceived u8 | LinkClosed | LinkAborted

datatype 'e link_error = LeTransport "'e error" | LeHandshake handshake_error | LeTable table_error

record link =
  lk_pump :: "(wsender, wreceiver) pump"
  lk_session :: peer_session
  lk_slot :: "nat option"
  lk_outgoing :: "u8 list"
  lk_out_at :: nat
  lk_out_len :: nat
  lk_incoming :: "u8 list"
  lk_in_len :: nat
  lk_need_start :: bool
  lk_initiator :: bool
  lk_established :: bool
  lk_announced :: bool

definition link_connect ::
  "(wsender, wreceiver) pump \<Rightarrow> peer_table \<Rightarrow> peer_table \<times> (table_error + link)" where
  "link_connect pump t =
     (case table_connect t of
        (t', Inl e) \<Rightarrow> (t', Inl e)
      | (t', Inr (slot, hello)) \<Rightarrow>
          (case table_get slot t' of
             None \<Rightarrow> (t', Inl TableEmpty)
           | Some entry \<Rightarrow> (t', Inr
               \<lparr>lk_pump = wpump_set_window_limit 1 pump, lk_session = entry_session entry,
                lk_slot = Some slot, lk_outgoing = hello, lk_out_at = 0, lk_out_len = HELLO_LEN,
                lk_incoming = replicate HELLO_LEN 0, lk_in_len = 0, lk_need_start = True,
                lk_initiator = True, lk_established = False, lk_announced = False\<rparr>)))"

definition link_accept :: "(wsender, wreceiver) pump \<Rightarrow> peer_table \<Rightarrow> link" where
  "link_accept pump t =
     \<lparr>lk_pump = wpump_set_window_limit 1 pump, lk_session = session_new (pt_local t) (pt_config t),
      lk_slot = None, lk_outgoing = replicate HELLO_LEN 0, lk_out_at = 0, lk_out_len = 0,
      lk_incoming = replicate HELLO_LEN 0, lk_in_len = 0, lk_need_start = False,
      lk_initiator = False, lk_established = False, lk_announced = False\<rparr>"

definition link_set_tx :: "wsender \<Rightarrow> link \<Rightarrow> link" where
  "link_set_tx tx lk = lk\<lparr>lk_pump := (lk_pump lk)\<lparr>pm_tx := tx\<rparr>\<rparr>"

definition link_offer :: "u8 \<Rightarrow> link \<Rightarrow> link \<times> ('e error + unit)" where
  "link_offer byte lk =
     (case wsender_offer byte (pm_tx (lk_pump lk)) of (tx, r) \<Rightarrow> (link_set_tx tx lk, r))"

definition link_finish :: "link \<Rightarrow> link \<times> ('e error + unit)" where
  "link_finish lk =
     (case wsender_offer_finish (pm_tx (lk_pump lk)) of (tx, r) \<Rightarrow> (link_set_tx tx lk, r))"

definition link_sync :: "peer_table \<Rightarrow> link \<Rightarrow> peer_table \<times> link" where
  "link_sync t lk =
     (let session = session_record_stats (pm_stats (lk_pump lk)) (lk_session lk)
      in (case lk_slot lk of Some slot \<Rightarrow> fst (table_store slot session t) | None \<Rightarrow> t,
          lk\<lparr>lk_session := session\<rparr>))"

definition link_abort :: "peer_table \<Rightarrow> link \<Rightarrow> peer_table \<times> link \<times> ('e link_error + unit)" where
  "link_abort t lk =
     (case wpump_abort (lk_pump lk) of
        (pm, Inl e) \<Rightarrow> (t, lk\<lparr>lk_pump := pm\<rparr>, Inl (LeTransport e))
      | (pm, Inr _) \<Rightarrow>
          (case link_sync t (lk\<lparr>lk_pump := pm, lk_session := session_abort (lk_session lk)\<rparr>) of
             (t', lk') \<Rightarrow> (t', lk', Inr ())))"

text \<open>The window limit a negotiated configuration asks for.\<close>

definition window_target :: "session_config \<Rightarrow> nat" where
  "window_target cfg = (if cap_contains (sc_features cfg) cap_window then unat (sc_window cfg) else 1)"

definition link_apply_window :: "link \<Rightarrow> link" where
  "link_apply_window lk =
     (case ps_negotiated (lk_session lk) of
        None \<Rightarrow> lk
      | Some cfg \<Rightarrow> lk\<lparr>lk_pump := wpump_set_window_limit (window_target cfg) (lk_pump lk)\<rparr>)"

definition link_offer_next :: "link \<Rightarrow> link \<times> ('e error + unit)" where
  "link_offer_next lk =
     (let tx = pm_tx (lk_pump lk)
      in if wsender_outstanding tx \<noteq> 0 \<or> wt_state tx \<noteq> TxIdle then (lk, Inr ())
         else if lk_need_start lk
         then (case wsender_offer_start tx of
                 (tx', Inl e) \<Rightarrow> (link_set_tx tx' lk, Inl e)
               | (tx', Inr _) \<Rightarrow> ((link_set_tx tx' lk)\<lparr>lk_need_start := False\<rparr>, Inr ()))
         else if lk_out_at lk < lk_out_len lk
         then (case wsender_offer (lk_outgoing lk ! lk_out_at lk) tx of
                 (tx', Inl e) \<Rightarrow> (link_set_tx tx' lk, Inl e)
               | (tx', Inr _) \<Rightarrow> ((link_set_tx tx' lk)\<lparr>lk_out_at := lk_out_at lk + 1\<rparr>, Inr ()))
         else (lk, Inr ()))"

text \<open>\<open>on_hello_byte\<close>: the byte, the table operation for a whole hello, and what follows it.\<close>

definition link_adopt :: "nat \<Rightarrow> peer_table \<Rightarrow> link \<Rightarrow> link" where
  "link_adopt slot t lk =
     (case table_get slot t of
        Some entry \<Rightarrow> lk\<lparr>lk_session := entry_session entry\<rparr>
      | None \<Rightarrow> lk)"

definition link_whole_hello :: "peer_table \<Rightarrow> link \<Rightarrow> peer_table \<times> link \<times> ('e link_error + unit)" where
  "link_whole_hello t lk =
     (if lk_initiator lk
      then (case lk_slot lk of
              None \<Rightarrow> (t, lk, Inl (LeTable TableEmpty))
            | Some slot \<Rightarrow>
                (case table_finish_connect slot (lk_incoming lk) t of
                   (t', Inl e) \<Rightarrow> (t', lk, Inl (LeTable e))
                 | (t', Inr _) \<Rightarrow> (t', link_adopt slot t' lk, Inr ())))
      else (case table_accept (lk_incoming lk) t of
              (t', Inl e) \<Rightarrow> (t', lk, Inl (LeTable e))
            | (t', Inr (slot, reply)) \<Rightarrow>
                (t', (link_adopt slot t' (lk\<lparr>lk_slot := Some slot\<rparr>))
                       \<lparr>lk_outgoing := reply, lk_out_len := HELLO_LEN, lk_out_at := 0,
                        lk_need_start := True\<rparr>, Inr ())))"

definition link_settle :: "peer_table \<Rightarrow> link \<Rightarrow> peer_table \<times> link \<times> link_event" where
  "link_settle t lk =
     (let lk1 = lk\<lparr>lk_established := (ps_state (lk_session lk) = SsEstablished)\<rparr>;
          lk2 = (if lk_established lk1 then link_apply_window lk1 else lk1)
      in case link_sync t lk2 of
           (t', lk3) \<Rightarrow>
             if lk_established lk3 \<and> lk_initiator lk3 \<and> \<not> lk_announced lk3
             then (t', lk3\<lparr>lk_announced := True\<rparr>, LinkEstablished)
             else (t', lk3, LinkProgress))"

definition link_on_hello_byte ::
  "u8 \<Rightarrow> peer_table \<Rightarrow> link \<Rightarrow> peer_table \<times> link \<times> ('e link_error + link_event)" where
  "link_on_hello_byte byte t lk =
     (if lk_in_len lk \<ge> HELLO_LEN then (t, lk, Inr LinkProgress)
      else
        let lk1 = lk\<lparr>lk_incoming := (lk_incoming lk)[lk_in_len lk := byte], lk_in_len := lk_in_len lk + 1\<rparr>
        in if lk_in_len lk1 < HELLO_LEN then (t, lk1, Inr LinkProgress)
           else (case link_whole_hello t lk1 of
                   (t', lk2, Inl e) \<Rightarrow> (t', lk2, Inl e)
                 | (t', lk2, Inr _) \<Rightarrow>
                     (case link_settle t' lk2 of (t'', lk3, ev) \<Rightarrow> (t'', lk3, Inr ev))))"

text \<open>The match over the pump's event.\<close>

definition link_on_event ::
  "pump_event \<Rightarrow> peer_table \<Rightarrow> link \<Rightarrow> peer_table \<times> link \<times> ('e link_error + link_event)" where
  "link_on_event ev t lk =
     (case ev of
        EvAborted \<Rightarrow>
          (case link_sync t (lk\<lparr>lk_session := session_abort (lk_session lk)\<rparr>) of
             (t', lk') \<Rightarrow> (t', lk', Inr LinkAborted))
      | EvCompleted \<Rightarrow>
          (case link_sync t (lk\<lparr>lk_session := session_closed (lk_session lk)\<rparr>) of
             (t', lk') \<Rightarrow> (t', lk', Inr LinkClosed))
      | EvReceived byte \<Rightarrow>
          if lk_established lk then (t, lk, Inr (LinkReceived byte)) else link_on_hello_byte byte t lk
      | EvIdle \<Rightarrow> (t, lk, Inr LinkIdle)
      | _ \<Rightarrow>
          if \<not> lk_initiator lk \<and> lk_established lk \<and> \<not> lk_announced lk \<and> lk_out_at lk \<ge> lk_out_len lk \<and>
             \<not> lk_need_start lk \<and> wt_state (pm_tx (lk_pump lk)) = TxIdle \<and>
             wsender_outstanding (pm_tx (lk_pump lk)) = 0
          then (t, lk\<lparr>lk_announced := True\<rparr>, Inr LinkEstablished)
          else (t, lk, Inr LinkProgress))"

definition link_poll ::
  "('w, 'e) port \<Rightarrow> ('w, 'e) port \<Rightarrow> 'w \<Rightarrow> peer_table \<Rightarrow> link \<Rightarrow>
     'w \<times> peer_table \<times> link \<times> ('e link_error + link_event)" where
  "link_poll ptx prx w t lk =
     (case link_offer_next lk of
        (lk1, Inl e) \<Rightarrow> (w, t, lk1, Inl (LeTransport e))
      | (lk1, Inr _) \<Rightarrow>
          (case wpump_poll ptx prx w (lk_pump lk1) of
             (w', pm, Inl e) \<Rightarrow> (w', t, lk1\<lparr>lk_pump := pm\<rparr>, Inl (LeTransport e))
           | (w', pm, Inr ev) \<Rightarrow>
               (case link_on_event ev t (lk1\<lparr>lk_pump := pm,
                       lk_session := session_record_stats (pm_stats pm) (lk_session lk1)\<rparr>) of
                  (t', lk', r) \<Rightarrow> (w', t', lk', r))))"

section \<open>The node\<close>

record node =
  nd_table :: peer_table

definition node_with :: "nat \<Rightarrow> peer_id \<Rightarrow> session_config \<Rightarrow> node" where
  "node_with n local config = \<lparr>nd_table = table_with n local config\<rparr>"

definition node_new :: "nat \<Rightarrow> peer_id \<Rightarrow> node" where
  "node_new n local = \<lparr>nd_table = table_new n local\<rparr>"

definition node_established :: "node \<Rightarrow> nat" where
  "node_established nd = table_established (nd_table nd)"

definition node_connect ::
  "(wsender, wreceiver) pump \<Rightarrow> node \<Rightarrow> node \<times> (table_error + link)" where
  "node_connect pump nd = (case link_connect pump (nd_table nd) of (t, r) \<Rightarrow> (nd\<lparr>nd_table := t\<rparr>, r))"

definition node_accept :: "(wsender, wreceiver) pump \<Rightarrow> node \<Rightarrow> link" where
  "node_accept pump nd = link_accept pump (nd_table nd)"

section \<open>Polling keeps the window limits\<close>

lemma wsender_offer_limits [simp]:
  "wt_limit (fst (wsender_offer b s :: wsender \<times> ('e error + unit))) = wt_limit s"
  "wt_limit (fst (wsender_offer_start s :: wsender \<times> ('e error + unit))) = wt_limit s"
  "wt_limit (fst (wsender_offer_finish s :: wsender \<times> ('e error + unit))) = wt_limit s"
  "wt_limit (fst (wsender_offer_abort s :: wsender \<times> ('e error + unit))) = wt_limit s"
  by (auto simp: wsender_offer_def wsender_offer_start_def wsender_offer_finish_def wsender_offer_abort_def
      wsender_insert_def clear_slots_def Let_def split: option.splits sum.splits)

lemma wsender_offers_limit:
  "wsender_offer b s = (s', r) \<Longrightarrow> wt_limit s' = wt_limit s"
  "wsender_offer_start s = (s', r) \<Longrightarrow> wt_limit s' = wt_limit s"
  "wsender_offer_finish s = (s', r) \<Longrightarrow> wt_limit s' = wt_limit s"
  "wsender_offer_abort s = (s', r) \<Longrightarrow> wt_limit s' = wt_limit s"
  by (metis wsender_offer_limits fst_conv)+

lemma wsender_steps_limits [simp]:
  "wt_limit (clear_slots s) = wt_limit s"
  "wt_limit (wsender_force_abort s) = wt_limit s"
  "wt_limit (wsender_finish_write s) = wt_limit s"
  "wt_limit (fst (wsender_take_mark s)) = wt_limit s"
  "wt_limit (fst (wsender_load_slot i s)) = wt_limit s"
  by (auto simp: clear_slots_def wsender_force_abort_def wsender_finish_write_def wsender_take_mark_def
      wsender_load_slot_def Let_def split: option.splits)

lemma wsender_write_limit: "wsender_write p w s = (w', s', r) \<Longrightarrow> wt_limit s' = wt_limit s"
  by (auto simp: wsender_write_def wsender_pump_out_def split: prod.splits sum.splits if_splits)

lemma wsender_read_limit: "wsender_read p w s = (w', s', r) \<Longrightarrow> wt_limit s' = wt_limit s"
  by (auto simp: wsender_read_def wsender_on_control_def wsender_on_ack_def wsender_on_nack_def
      wsender_tick_timeouts_def Let_def
      split: prod.splits sum.splits option.splits if_splits frame_type.splits wflight_kind.splits)

lemma wsender_load_limit: "wsender_load_slot i s = (s', ok) \<Longrightarrow> wt_limit s' = wt_limit s"
  using wsender_steps_limits(5) [of i s] by simp

lemma wsender_poll_limit: "wsender_poll p w s = (w', s', r) \<Longrightarrow> wt_limit s' = wt_limit s"
proof (cases "ob_is_idle (wt_out s)")
  case True
  assume poll: "wsender_poll p w s = (w', s', r)"
  show ?thesis
  proof (cases "wsender_next_to_write s")
    case None
    then show ?thesis using poll True
      by (auto simp: wsender_poll_def split: if_splits dest: wsender_read_limit)
  next
    case (Some i)
    obtain s1 ok where l: "wsender_load_slot i s = (s1, ok)" by (metis surj_pair)
    then show ?thesis using poll True Some wsender_load_limit [OF l]
      by (cases ok) (auto simp: wsender_poll_def split: if_splits dest: wsender_write_limit)
  qed
next
  case False
  assume "wsender_poll p w s = (w', s', r)"
  then show ?thesis using False by (auto simp: wsender_poll_def split: if_splits dest: wsender_write_limit)
qed

lemma wreceiver_drain_limit [simp]: "wr_limit (wreceiver_drain_in_order r) = wr_limit r"
proof (induction r rule: wreceiver_drain_in_order.induct)
  case (1 r)
  show ?case
  proof (cases "\<exists>byte rest. wr_buf r = Some byte # rest")
    case True
    then obtain byte rest where b: "wr_buf r = Some byte # rest" by blast
    show ?thesis using 1 [OF b refl] b by (subst wreceiver_drain_in_order.simps) (simp add: wreceiver_push_emit_def)
  next
    case False
    then show ?thesis
      by (subst wreceiver_drain_in_order.simps) (auto split: list.splits option.splits)
  qed
qed

lemma wreceiver_pop_limit: "wreceiver_pop_emit r = (r', b) \<Longrightarrow> wr_limit r' = wr_limit r"
  by (auto simp: wreceiver_pop_emit_def Let_def split: if_splits)

lemma wreceiver_take_limit: "wreceiver_take_pending r = (r', b) \<Longrightarrow> wr_limit r' = wr_limit r"
  by (auto simp: wreceiver_take_pending_def wreceiver_settle_idle_def Let_def
      split: option.splits wpending_action.splits prod.splits dest!: wreceiver_pop_limit)

lemma wreceiver_reply_limit: "wreceiver_reply p w r = (w', r', x) \<Longrightarrow> wr_limit r' = wr_limit r"
  by (auto simp: wreceiver_reply_def wreceiver_pump_reply_def Let_def
      split: option.splits prod.splits sum.splits if_splits dest!: wreceiver_take_limit)

lemma wreceiver_on_frame_limit: "wreceiver_on_frame d r = (r', x) \<Longrightarrow> wr_limit r' = wr_limit r"
  by (auto simp: wreceiver_defs Let_def
      split: option.splits prod.splits sum.splits if_splits frame_type.splits frame_error.splits)

lemma wreceiver_poll_limit:
  assumes "wreceiver_poll p w r = (w', r', x)"
  shows "wr_limit r' = wr_limit r"
proof -
  obtain r1 b where pop: "wreceiver_pop_emit r = (r1, b)" by (metis surj_pair)
  show ?thesis using assms wreceiver_pop_limit [OF pop] pop
    by (auto simp: wreceiver_poll_def wreceiver_settle_idle_def Let_def
        split: option.splits prod.splits sum.splits if_splits bool.splits
        dest!: wreceiver_reply_limit wreceiver_on_frame_limit)
qed

text \<open>The limits of the two halves of a pump.\<close>

definition pump_limits :: "(wsender, wreceiver) pump \<Rightarrow> nat \<times> nat" where
  "pump_limits pm = (wt_limit (pm_tx pm), wr_limit (pm_rx pm))"

text \<open>What the two polls, the abort and the mark keep, the step keeps.\<close>

lemma pump_step_keeps:
  assumes "pump_step holds force take_mark tx_poll rx_poll w pm = (w', pm', r)"
    and "\<And>w r w' r' x. rx_poll w r = (w', r', x) \<Longrightarrow> g r' = g r"
    and "\<And>w s w' s' x. tx_poll w s = (w', s', x) \<Longrightarrow> f s' = f s"
    and "\<And>s. f (force s) = f s" and "\<And>s. f (fst (take_mark s)) = f s"
  shows "f (pm_tx pm') = f (pm_tx pm) \<and> g (pm_rx pm') = g (pm_rx pm)"
proof (cases "pm_pending_completed pm")
  case True
  then show ?thesis using assms(1) by (auto simp: pump_step_def)
next
  case False
  obtain w1 rx' rr where 1: "rx_poll w (pm_rx pm) = (w1, rx', rr)" by (metis prod_cases3)
  note g = assms(2) [OF 1]
  show ?thesis
  proof (cases rr)
    case (Inl e)
    then show ?thesis using assms(1) 1 g False by (simp add: pump_step_def) auto
  next
    case (Inr rx)
    define tx0 where "tx0 = (if rx = OutAborted \<and> \<not> holds (pm_tx pm) then force (pm_tx pm) else pm_tx pm)"
    have f0: "f tx0 = f (pm_tx pm)" by (simp add: tx0_def assms(4))
    obtain w2 tx' tr where 2: "tx_poll w1 tx0 = (w2, tx', tr)" by (metis prod_cases3)
    note f = assms(3) [OF 2]
    show ?thesis
    proof (cases tr)
      case (Inl e)
      then show ?thesis using assms(1) 1 2 Inr g f f0 False
        by (simp add: pump_step_def tx0_def [symmetric] Let_def cong: if_cong) auto
    next
      case tx: (Inr tx)
      obtain tx'' mark where 3: "take_mark tx' = (tx'', mark)" by (metis surj_pair)
      then have f3: "f tx'' = f tx'" using assms(5) [of tx'] by simp
      obtain ev later where 4: "pump_event_of rx tx mark (tx = PollTransferDone \<and> \<not> pm_tx_done_seen pm) =
          (ev, later)" by (metis surj_pair)
      show ?thesis using assms(1) 1 2 3 4 Inr tx g f f0 f3 False
        by (simp add: pump_step_def tx0_def [symmetric] Let_def cong: if_cong) (auto split: if_splits)
    qed
  qed
qed

lemma wpump_poll_limits:
  assumes "wpump_poll ptx prx w pm = (w', pm', r)"
  shows "pump_limits pm' = pump_limits pm"
  using pump_step_keeps [where f = wt_limit and g = wr_limit,
      OF assms [unfolded wpump_poll_def] wreceiver_poll_limit wsender_poll_limit]
  by (simp add: pump_limits_def)

lemma wpump_abort_limits: "wpump_abort pm = (pm', r) \<Longrightarrow> pump_limits pm' = pump_limits pm"
  by (auto simp: wpump_abort_def pump_limits_def split: prod.splits dest: wsender_offers_limit(4))

section \<open>Runs of a link\<close>

text \<open>The bytes the pump hands to the link in one poll.\<close>

definition link_heard :: "('w, 'e) port \<Rightarrow> ('w, 'e) port \<Rightarrow> 'w \<Rightarrow> link \<Rightarrow> u8 list" where
  "link_heard ptx prx w lk =
     (case link_offer_next lk of
        (lk1, Inl (e :: 'e error)) \<Rightarrow> []
      | (lk1, Inr _) \<Rightarrow> (case wpump_poll ptx prx w (lk_pump lk1) of
            (w', pm, Inr (EvReceived b)) \<Rightarrow> [b]
          | _ \<Rightarrow> []))"

definition fresh_pump :: "(wsender, wreceiver) pump \<Rightarrow> bool" where
  "fresh_pump pm = (\<exists>policy. pm = wpump_on_with MAX_WINDOW policy \<or>
     pm = wpump_set_window_limit 1 (wpump_on_with MAX_WINDOW policy))"

text \<open>
  A run of one link from its creation, with the bytes its pump delivered and the events it
  reported.  Between two steps the world and the table may have become anything: the other peer,
  the other links of the node and the application all act.
\<close>

inductive link_run :: "('w, 'e) port \<Rightarrow> ('w, 'e) port \<Rightarrow> link \<Rightarrow> u8 list \<Rightarrow> link_event list \<Rightarrow> bool"
  for ptx prx where
  lr_connect: "fresh_pump pm \<Longrightarrow> link_connect pm t = (t', Inr lk) \<Longrightarrow> link_run ptx prx lk [] []"
| lr_accept: "fresh_pump pm \<Longrightarrow> link_run ptx prx (link_accept pm t) [] []"
| lr_poll: "link_run ptx prx lk heard es \<Longrightarrow> link_poll ptx prx w t lk = (w', t', lk', r) \<Longrightarrow>
    link_run ptx prx lk' (heard @ link_heard ptx prx w lk) (es @ (case r of Inr e \<Rightarrow> [e] | Inl _ \<Rightarrow> []))"
| lr_offer: "link_run ptx prx lk heard es \<Longrightarrow> link_offer b lk = (lk', (r :: 'e error + unit)) \<Longrightarrow>
    link_run ptx prx lk' heard es"
| lr_finish: "link_run ptx prx lk heard es \<Longrightarrow> link_finish lk = (lk', (r :: 'e error + unit)) \<Longrightarrow>
    link_run ptx prx lk' heard es"
| lr_abort: "link_run ptx prx lk heard es \<Longrightarrow> link_abort t lk = (t', lk', (r :: 'e link_error + unit)) \<Longrightarrow>
    link_run ptx prx lk' heard es"

definition payload_of :: "link_event list \<Rightarrow> u8 list" where
  "payload_of es = concat (map (\<lambda>e. case e of LinkReceived b \<Rightarrow> [b] | _ \<Rightarrow> []) es)"

lemma payload_of_simps [simp]:
  "payload_of [] = []" "payload_of (es @ [LinkReceived b]) = payload_of es @ [b]"
  "(\<And>b. e \<noteq> LinkReceived b) \<Longrightarrow> payload_of (es @ [e]) = payload_of es"
  by (auto simp: payload_of_def split: link_event.splits)

definition link_inv :: "u8 list \<Rightarrow> link_event list \<Rightarrow> link \<Rightarrow> bool" where
  "link_inv heard es lk =
     (length (lk_incoming lk) = HELLO_LEN \<and> lk_in_len lk = min HELLO_LEN (length heard) \<and>
      take (length heard) (lk_incoming lk) = take HELLO_LEN heard \<and>
      payload_of es = (if lk_established lk then drop HELLO_LEN heard else []) \<and>
      (lk_established lk \<longrightarrow> HELLO_LEN \<le> length heard) \<and>
      length (filter (\<lambda>e. e = LinkEstablished) es) = (if lk_announced lk then 1 else 0) \<and>
      (lk_announced lk \<longrightarrow> lk_established lk) \<and>
      (if lk_established lk
       then \<exists>cfg. ps_negotiated (lk_session lk) = Some cfg \<and>
         fst (pump_limits (lk_pump lk)) \<le> max 1 (window_target cfg) \<and>
         snd (pump_limits (lk_pump lk)) \<le> max 1 (window_target cfg)
       else pump_limits (lk_pump lk) = (1, 1)))"

lemma pump_limits_set:
  "pump_limits (wpump_set_window_limit n pm) = (x, y) \<Longrightarrow>
     x \<le> max (max 1 n) (fst (pump_limits pm)) \<and> y \<le> max (max 1 n) (snd (pump_limits pm))"
  by (auto simp: pump_limits_def wpump_set_window_limit_def wsender_set_window_limit_def
      wreceiver_set_window_limit_def split: if_splits)

lemma fresh_pump_limits: "fresh_pump pm \<Longrightarrow> pump_limits (wpump_set_window_limit 1 pm) = (1, 1)"
  by (auto simp: fresh_pump_def pump_limits_def wpump_set_window_limit_def wsender_set_window_limit_def
      wreceiver_set_window_limit_def wpump_on_with_def pump_new_def wsender_with_policy_def wreceiver_new_def
      MAX_WINDOW_def list_ex_iff wsender_outstanding_def)

lemma link_offer_next_keeps:
  assumes "link_offer_next lk = (lk', r)"
  shows "lk_incoming lk' = lk_incoming lk \<and> lk_in_len lk' = lk_in_len lk \<and> lk_session lk' = lk_session lk \<and>
    lk_established lk' = lk_established lk \<and> lk_announced lk' = lk_announced lk \<and>
    pump_limits (lk_pump lk') = pump_limits (lk_pump lk)"
  using assms
  by (auto simp: link_offer_next_def link_set_tx_def pump_limits_def Let_def
      split: if_splits prod.splits sum.splits dest: wsender_offers_limit)

lemma link_sync_keeps:
  "link_sync t lk = (t', lk') \<Longrightarrow>
     lk' = lk\<lparr>lk_session := (lk_session lk)\<lparr>ps_stats := pm_stats (lk_pump lk)\<rparr>\<rparr>"
  by (auto simp: link_sync_def session_record_stats_def Let_def)

text \<open>A hello that the table takes leaves a session with a negotiated configuration.\<close>

lemma link_whole_hello_ok:
  assumes "link_whole_hello t lk = (t', lk', Inr (u :: unit))"
  shows "lk_incoming lk' = lk_incoming lk \<and> lk_in_len lk' = lk_in_len lk \<and> lk_pump lk' = lk_pump lk \<and>
    lk_announced lk' = lk_announced lk \<and> lk_initiator lk' = lk_initiator lk \<and>
    ps_state (lk_session lk') = SsEstablished \<and> ps_negotiated (lk_session lk') \<noteq> None"
proof (cases "lk_initiator lk")
  case True
  then obtain slot where slot: "lk_slot lk = Some slot" "table_finish_connect slot (lk_incoming lk) t = (t', Inr ())"
    "lk' = link_adopt slot t' lk"
    using assms by (auto simp: link_whole_hello_def split: option.splits prod.splits sum.splits)
  show ?thesis using table_finish_ok [OF slot(2)] slot(3)
    by (auto simp: link_adopt_def table_get_def split: if_splits dest!: on_hello_ok)
next
  case False
  then obtain slot reply where a: "table_accept (lk_incoming lk) t = (t', Inr (slot, reply))"
    "lk' = (link_adopt slot t' (lk\<lparr>lk_slot := Some slot\<rparr>))
       \<lparr>lk_outgoing := reply, lk_out_len := HELLO_LEN, lk_out_at := 0, lk_need_start := True\<rparr>"
    using assms by (auto simp: link_whole_hello_def split: prod.splits sum.splits)
  show ?thesis using table_accept_ok [OF a(1)] a(2)
    by (auto simp: link_adopt_def table_get_def dest!: table_free_slot_Some)
qed

lemma link_whole_hello_err: "link_whole_hello t lk = (t', lk', Inl e) \<Longrightarrow> lk' = lk"
  by (auto simp: link_whole_hello_def split: if_splits option.splits prod.splits sum.splits)

lemma link_settle_keeps:
  assumes "link_settle t lk = (t', lk', ev)" and "ps_state (lk_session lk) = SsEstablished"
    and "ps_negotiated (lk_session lk) = Some cfg"
  shows "lk_incoming lk' = lk_incoming lk \<and> lk_in_len lk' = lk_in_len lk \<and> lk_established lk' \<and>
    ps_negotiated (lk_session lk') = Some cfg \<and>
    lk_pump lk' = wpump_set_window_limit (window_target cfg) (lk_pump lk) \<and>
    (if lk_initiator lk \<and> \<not> lk_announced lk then ev = LinkEstablished \<and> lk_announced lk'
     else ev = LinkProgress \<and> lk_announced lk' = lk_announced lk)"
  using assms
  by (auto simp: link_settle_def link_apply_window_def Let_def split: prod.splits if_splits
      dest!: link_sync_keeps)

lemma link_hello_byte_inv:
  fixes r :: "'e link_error + link_event"
  assumes "link_inv heard es lk" and "\<not> lk_established lk"
    and "link_on_hello_byte b t lk = (t', lk', r)"
  shows "link_inv (heard @ [b]) (es @ (case r of Inr e \<Rightarrow> [e] | Inl _ \<Rightarrow> [])) lk'"
proof (cases "lk_in_len lk \<ge> HELLO_LEN")
  case True
  then show ?thesis using assms by (auto simp: link_on_hello_byte_def link_inv_def)
next
  case False
  let ?lk1 = "lk\<lparr>lk_incoming := (lk_incoming lk)[lk_in_len lk := b], lk_in_len := lk_in_len lk + 1\<rparr>"
  have n: "lk_in_len lk = length heard" "length heard < HELLO_LEN"
    using assms(1) False by (auto simp: link_inv_def)
  have inv1: "link_inv (heard @ [b]) es ?lk1"
    using assms(1,2) n by (auto simp: link_inv_def take_Suc_update)
  show ?thesis
  proof (cases "lk_in_len ?lk1 < HELLO_LEN")
    case True
    then show ?thesis using assms(3) False inv1 assms(2)
      by (auto simp: link_on_hello_byte_def link_inv_def)
  next
    case full: False
    obtain t1 lk2 and x :: "'e link_error + unit" where w: "link_whole_hello t ?lk1 = (t1, lk2, x)" by (metis prod_cases3)
    show ?thesis
    proof (cases x)
      case (Inl e)
      then have "lk2 = ?lk1" using link_whole_hello_err w by blast
      then show ?thesis using assms(3) False full w Inl inv1
        by (auto simp: link_on_hello_byte_def Let_def)
    next
      case (Inr u)
      note ok = link_whole_hello_ok [OF w [unfolded Inr]]
      then obtain cfg where cfg: "ps_negotiated (lk_session lk2) = Some cfg" by auto
      obtain t2 lk3 ev where s: "link_settle t1 lk2 = (t2, lk3, ev)" by (metis prod_cases3)
      have r: "r = Inr ev" "lk' = lk3" using assms(3) False full w Inr s
        by (auto simp: link_on_hello_byte_def Let_def)
      note set = link_settle_keeps [OF s _ cfg]
      have lim: "pump_limits (lk_pump lk2) = (1, 1)" using ok inv1 assms(2) by (simp add: link_inv_def)
      show ?thesis using set ok inv1 assms(2) lim full n r
          pump_limits_set [of "window_target cfg" "lk_pump lk2"]
        by (cases "pump_limits (lk_pump lk3)") (auto simp: link_inv_def split: if_splits)
    qed
  qed
qed

lemma link_inv_cong:
  assumes "link_inv heard es lk" and "lk_incoming lk' = lk_incoming lk" and "lk_in_len lk' = lk_in_len lk"
    and "lk_established lk' = lk_established lk" and "lk_announced lk' = lk_announced lk"
    and "ps_negotiated (lk_session lk') = ps_negotiated (lk_session lk)"
    and "pump_limits (lk_pump lk') = pump_limits (lk_pump lk)"
  shows "link_inv heard es lk'"
proof -
  have "link_inv heard es lk' = link_inv heard es lk" by (simp only: link_inv_def assms(2-))
  then show ?thesis using assms(1) by simp
qed

lemma link_inv_session:
  "link_inv heard es lk \<Longrightarrow> ps_negotiated s = ps_negotiated (lk_session lk) \<Longrightarrow>
     pump_limits pm = pump_limits (lk_pump lk) \<Longrightarrow> link_inv heard es (lk\<lparr>lk_pump := pm, lk_session := s\<rparr>)"
  by (erule link_inv_cong) simp_all

lemma link_inv_quiet:
  "link_inv heard es lk \<Longrightarrow> e \<in> {LinkIdle, LinkProgress, LinkClosed, LinkAborted} \<Longrightarrow> link_inv heard (es @ [e]) lk"
  by (auto simp: link_inv_def)

lemma link_inv_announce:
  "link_inv heard es lk \<Longrightarrow> lk_established lk \<Longrightarrow> \<not> lk_announced lk \<Longrightarrow>
     link_inv heard (es @ [LinkEstablished]) (lk\<lparr>lk_announced := True\<rparr>)"
  by (simp add: link_inv_def)

lemma link_inv_sync:
  assumes "link_inv heard es lk" and "ps_negotiated s = ps_negotiated (lk_session lk)"
    and "link_sync t (lk\<lparr>lk_session := s\<rparr>) = (t', lk')"
  shows "link_inv heard es lk'"
  using link_inv_session [OF assms(1), of "s\<lparr>ps_stats := pm_stats (lk_pump lk)\<rparr>" "lk_pump lk"] assms(2)
    link_sync_keeps [OF assms(3)] by simp

lemma link_on_event_inv:
  assumes "link_inv heard es lk" and "link_on_event ev t lk = (t', lk', r)"
  shows "link_inv (heard @ (case ev of EvReceived b \<Rightarrow> [b] | _ \<Rightarrow> []))
    (es @ (case r of Inr e \<Rightarrow> [e] | Inl _ \<Rightarrow> [])) lk'"
proof (cases ev)
  case (EvReceived b)
  show ?thesis
  proof (cases "lk_established lk")
    case True
    then show ?thesis using assms EvReceived by (auto simp: link_on_event_def link_inv_def)
  next
    case False
    then show ?thesis using assms EvReceived link_hello_byte_inv [OF assms(1) False]
      by (auto simp: link_on_event_def)
  qed
next
  case EvAborted
  then show ?thesis using assms link_inv_sync [OF assms(1), of "session_abort (lk_session lk)"] link_inv_quiet
    by (auto simp: link_on_event_def session_abort_def split: prod.splits)
next
  case EvCompleted
  then show ?thesis using assms link_inv_sync [OF assms(1), of "session_closed (lk_session lk)"] link_inv_quiet
    by (auto simp: link_on_event_def session_closed_def split: prod.splits)
next
  case EvIdle
  then show ?thesis using assms(2) link_inv_quiet [OF assms(1), of LinkIdle] by (auto simp: link_on_event_def)
next
  case EvProgress
  then show ?thesis using assms(2) link_inv_quiet [OF assms(1), of LinkProgress] link_inv_announce [OF assms(1)]
    by (auto simp: link_on_event_def split: if_split_asm)
next
  case EvSent
  then show ?thesis using assms(2) link_inv_quiet [OF assms(1), of LinkProgress] link_inv_announce [OF assms(1)]
    by (auto simp: link_on_event_def split: if_split_asm)
qed

lemma link_poll_inv:
  assumes "link_inv heard es lk" and "link_poll ptx prx w t lk = (w', t', lk', r)"
  shows "link_inv (heard @ link_heard ptx prx w lk) (es @ (case r of Inr e \<Rightarrow> [e] | Inl _ \<Rightarrow> [])) lk'"
proof -
  obtain lk1 and x :: "'b error + unit" where 1: "link_offer_next lk = (lk1, x)" by (metis surj_pair)
  have inv1: "link_inv heard es lk1"
    by (rule link_inv_cong [OF assms(1)]) (use link_offer_next_keeps [OF 1] in simp_all)
  obtain w1 pm y where 2: "wpump_poll ptx prx w (lk_pump lk1) = (w1, pm, y)" by (metis prod_cases3)
  note lim = wpump_poll_limits [OF 2]
  show ?thesis
  proof (cases x)
    case (Inl e)
    then show ?thesis using assms(2) 1 inv1 by (simp add: link_poll_def link_heard_def) auto
  next
    case x: (Inr u)
    show ?thesis
    proof (cases y)
      case (Inl e)
      then show ?thesis using assms(2) 1 2 x link_inv_session [OF inv1 refl lim]
        by (auto simp: link_poll_def link_heard_def)
    next
      case (Inr ev)
      let ?lk = "lk1\<lparr>lk_pump := pm, lk_session := session_record_stats (pm_stats pm) (lk_session lk1)\<rparr>"
      have inv2: "link_inv heard es ?lk"
        by (rule link_inv_session [OF inv1 _ lim]) (simp add: session_record_stats_def)
      have "link_on_event ev t ?lk = (t', lk', r)" and "link_heard ptx prx w lk = (case ev of EvReceived b \<Rightarrow> [b] | _ \<Rightarrow> [])"
        using assms(2) 1 2 x Inr by (auto simp: link_poll_def link_heard_def split: prod.splits pump_event.splits)
      then show ?thesis using link_on_event_inv [OF inv2, of ev t t' lk' r] by simp
    qed
  qed
qed

lemma link_run_inv: "link_run ptx prx lk heard es \<Longrightarrow> link_inv heard es lk"
proof (induction rule: link_run.induct)
  case (lr_connect pm t t' lk)
  then show ?case using fresh_pump_limits [OF lr_connect(1)]
    by (auto simp: link_connect_def link_inv_def split: prod.splits sum.splits option.splits)
next
  case (lr_accept pm t)
  then show ?case using fresh_pump_limits [OF lr_accept] by (simp add: link_accept_def link_inv_def)
next
  case (lr_poll lk heard es w t w' t' lk' r)
  show ?case by (rule link_poll_inv [OF lr_poll.IH lr_poll.hyps(2)])
next
  case (lr_offer lk heard es b lk' r)
  then show ?case by (intro link_inv_cong [OF lr_offer.IH])
    (auto simp: link_offer_def link_set_tx_def pump_limits_def split: prod.splits dest: wsender_offers_limit)
next
  case (lr_finish lk heard es lk' r)
  then show ?case by (intro link_inv_cong [OF lr_finish.IH])
    (auto simp: link_finish_def link_set_tx_def pump_limits_def split: prod.splits dest: wsender_offers_limit)
next
  case (lr_abort lk heard es t t' lk' r)
  obtain pm and x :: "'b error + unit" where a: "wpump_abort (lk_pump lk) = (pm, x)" by (metis surj_pair)
  have inv: "link_inv heard es (lk\<lparr>lk_pump := pm\<rparr>)"
    using link_inv_session [OF lr_abort.IH refl wpump_abort_limits [OF a]] by simp
  show ?case using lr_abort.hyps(2) a inv link_inv_sync [OF inv, of "session_abort (lk_session lk)"]
    by (cases x) (auto simp: link_abort_def session_abort_def split: prod.splits)
qed



text \<open>A link announces that it is established at most once, and only when it is.\<close>

theorem link_announces_once:
  assumes "link_run ptx prx lk heard es"
  shows "length (filter (\<lambda>e. e = LinkEstablished) es) = (if lk_announced lk then 1 else 0) \<and>
    (lk_announced lk \<longrightarrow> lk_established lk)"
  using link_run_inv [OF assms] unfolding link_inv_def by blast

section \<open>A rejected hello\<close>

lemma link_deaf_event:
  assumes "link_on_event ev t lk = (t', lk', r)" and "lk_in_len lk \<ge> HELLO_LEN" and "\<not> lk_established lk"
  shows "\<not> lk_established lk' \<and> lk_in_len lk' = lk_in_len lk \<and>
    r \<in> {Inr LinkIdle, Inr LinkProgress, Inr LinkClosed, Inr LinkAborted}"
  using assms
  by (cases ev) (auto simp: link_on_event_def link_on_hello_byte_def split: prod.splits dest!: link_sync_keeps)

lemma link_deaf_poll:
  assumes "link_poll ptx prx w t lk = (w', t', lk', r)" and "lk_in_len lk \<ge> HELLO_LEN" and "\<not> lk_established lk"
  shows "lk_in_len lk' \<ge> HELLO_LEN \<and> \<not> lk_established lk' \<and> r \<noteq> Inr LinkEstablished \<and>
    (\<forall>b. r \<noteq> Inr (LinkReceived b)) \<and> (\<forall>e. r \<noteq> Inl (LeTable e))"
proof -
  obtain lk1 and x :: "'b error + unit" where 1: "link_offer_next lk = (lk1, x)" by (metis surj_pair)
  obtain w1 pm y where 2: "wpump_poll ptx prx w (lk_pump lk1) = (w1, pm, y)" by (metis prod_cases3)
  have n: "lk_in_len lk1 \<ge> HELLO_LEN" "\<not> lk_established lk1"
    using link_offer_next_keeps [OF 1] assms(2,3) by simp_all
  show ?thesis
  proof (cases "\<exists>u ev. x = Inr u \<and> y = Inr ev")
    case True
    then obtain ev where ev: "x = Inr ()" "y = Inr ev" by auto
    let ?lk = "lk1\<lparr>lk_pump := pm, lk_session := session_record_stats (pm_stats pm) (lk_session lk1)\<rparr>"
    have "link_on_event ev t ?lk = (t', lk', r)"
      using assms(1) 1 2 ev by (auto simp: link_poll_def split: prod.splits)
    from link_deaf_event [OF this] n show ?thesis by auto
  next
    case False
    then show ?thesis using assms(1) 1 2 n by (cases x; cases y) (auto simp: link_poll_def)
  qed
qed

text \<open>Polls of a link, over any worlds and tables, with their results.\<close>

inductive link_polled ::
  "('w, 'e) port \<Rightarrow> ('w, 'e) port \<Rightarrow> link \<Rightarrow> ('e link_error + link_event) list \<Rightarrow> link \<Rightarrow> bool" for ptx prx where
  lp_none: "link_polled ptx prx lk [] lk"
| lp_poll: "link_polled ptx prx lk rs lk1 \<Longrightarrow> link_poll ptx prx w t lk1 = (w', t', lk2, r) \<Longrightarrow>
    link_polled ptx prx lk (rs @ [r]) lk2"

lemma link_deaf_polled:
  "link_polled ptx prx lk rs lk' \<Longrightarrow> lk_in_len lk \<ge> HELLO_LEN \<Longrightarrow> \<not> lk_established lk \<Longrightarrow>
     lk_in_len lk' \<ge> HELLO_LEN \<and> \<not> lk_established lk' \<and>
     (\<forall>r \<in> set rs. r \<noteq> Inr LinkEstablished \<and> (\<forall>b. r \<noteq> Inr (LinkReceived b)) \<and> (\<forall>e. r \<noteq> Inl (LeTable e)))"
proof (induction rule: link_polled.induct)
  case (lp_none lk)
  then show ?case by simp
next
  case (lp_poll lk rs lk1 w t w' t' lk2 r)
  then show ?case using link_deaf_poll [OF lp_poll.hyps(2)] by auto
qed

lemma link_refusal:
  assumes "link_on_event (EvReceived b) t lk = (t', lk', Inl e)"
  shows "lk_in_len lk' \<ge> HELLO_LEN \<and> \<not> lk_established lk' \<and> (\<exists>err. e = LeTable err)"
  using assms
  by (auto simp: link_on_event_def link_on_hello_byte_def link_whole_hello_def Let_def
      split: if_splits prod.splits sum.splits option.splits)

text \<open>
  C29: a link that refused its peer's hello never recovers.  The refusal (a table error, whether the
  hello is malformed, a duplicate, or the table full) is reported by the one poll that
  completes the hello.  No later poll, whatever arrives, also after the peer opens a new session
  and sends a good hello, reports an established link, a byte, or a refusal again.
\<close>

theorem link_refused_stays_silent:
  assumes "link_on_event (EvReceived b) t lk = (t', lk', Inl e)" and "link_polled ptx prx lk' rs lk''"
  shows "(\<exists>err. e = LeTable err) \<and> \<not> lk_established lk'' \<and>
    (\<forall>r \<in> set rs. r \<noteq> Inr LinkEstablished \<and> (\<forall>b. r \<noteq> Inr (LinkReceived b)) \<and> (\<forall>e. r \<noteq> Inl (LeTable e)))"
  using link_refusal [OF assms(1)] link_deaf_polled [OF assms(2)] by simp

section \<open>Two links meet\<close>

fun link_hears ::
  "u8 list \<Rightarrow> peer_table \<Rightarrow> link \<Rightarrow> peer_table \<times> link \<times> ('e link_error + link_event) list" where
  "link_hears [] t lk = (t, lk, [])"
| "link_hears (b # bs) t lk =
     (case link_on_event (EvReceived b) t lk of
        (t1, lk1, r) \<Rightarrow> case link_hears bs t1 lk1 of (t2, lk2, rs) \<Rightarrow> (t2, lk2, r # rs))"

lemma link_hears_append:
  "link_hears (bs @ cs) t lk =
     (case link_hears bs t lk of (t1, lk1, rs) \<Rightarrow> case link_hears cs t1 lk1 of (t2, lk2, rs') \<Rightarrow> (t2, lk2, rs @ rs'))"
  by (induction bs arbitrary: t lk) (auto split: prod.splits)

lemma link_hears_some:
  assumes "lk_in_len lk + length bs < HELLO_LEN" and "length (lk_incoming lk) = HELLO_LEN" and "\<not> lk_established lk"
  shows "link_hears bs t lk =
    (t, lk\<lparr>lk_incoming := take (lk_in_len lk) (lk_incoming lk) @ bs @ drop (lk_in_len lk + length bs) (lk_incoming lk),
       lk_in_len := lk_in_len lk + length bs\<rparr>,
     replicate (length bs) (Inr LinkProgress :: 'e link_error + link_event))"
  using assms
proof (induction bs arbitrary: lk)
  case Nil
  then show ?case by simp
next
  case (Cons b bs)
  let ?lk = "lk\<lparr>lk_incoming := (lk_incoming lk)[lk_in_len lk := b], lk_in_len := lk_in_len lk + 1\<rparr>"
  have 1: "link_on_event (EvReceived b) t lk = (t, ?lk, Inr LinkProgress :: 'e link_error + link_event)"
    using Cons.prems by (simp add: link_on_event_def link_on_hello_byte_def)
  show ?case using Cons.IH [of ?lk] 1 Cons.prems by (simp add: take_Suc_update)
qed

text \<open>The twelve bytes of a hello, from a link that has heard nothing.\<close>

lemma link_hears_hello:
  assumes "lk_in_len lk = 0" and "length (lk_incoming lk) = HELLO_LEN" and "\<not> lk_established lk"
    and "length hello = HELLO_LEN"
    and "link_whole_hello t (lk\<lparr>lk_incoming := hello, lk_in_len := HELLO_LEN\<rparr>) =
      (t1, lk1, Inr () :: 'e link_error + unit)"
    and "link_settle t1 lk1 = (t2, lk2, ev)"
  shows "link_hears hello t lk =
    (t2, lk2, replicate 11 (Inr LinkProgress) @ [Inr ev :: 'e link_error + link_event])"
proof -
  have L: "HELLO_LEN = 12" by (simp add: HELLO_LEN_def PEER_LEN_def)
  obtain bs b where h: "hello = bs @ [b]" and len: "length bs = 11"
    using assms(4) L by (cases hello rule: rev_cases) auto
  have lk: "(lk\<lparr>lk_incoming := bs @ drop 11 (lk_incoming lk), lk_in_len := 11\<rparr>)
      \<lparr>lk_incoming := (bs @ drop 11 (lk_incoming lk))[11 := b], lk_in_len := 12\<rparr> =
      lk\<lparr>lk_incoming := hello, lk_in_len := 12\<rparr>"
  proof -
    obtain z where "drop 11 (lk_incoming lk) = [z]"
      using assms(2) L by (cases "drop 11 (lk_incoming lk)"; cases "tl (drop 11 (lk_incoming lk))")
        (auto dest: arg_cong [where f = length])
    then show ?thesis using len L by (simp add: h list_update_append)
  qed
  have "link_hears bs t lk = (t, lk\<lparr>lk_incoming := bs @ drop 11 (lk_incoming lk), lk_in_len := 11\<rparr>,
      replicate 11 (Inr LinkProgress :: 'e link_error + link_event))"
    using link_hears_some [of lk bs t, unfolded L] assms(1-3) len L by simp
  then show ?thesis using assms(3,5,6) lk L
    by (simp add: h link_hears_append link_on_event_def link_on_hello_byte_def Let_def)
qed

lemma table_find_stored:
  "table_find pid t = Some i \<Longrightarrow> ps_remote s = Some pid \<Longrightarrow>
     table_find pid (fst (table_store i s t)) = Some i \<and>
     table_get i (fst (table_store i s t)) = Some (PeerEntry s)"
  by (auto simp: table_find_def position_Some table_store_def table_get_def nth_list_update)

lemma has_remote_of_find:
  "table_find pid t = Some i \<Longrightarrow> table_get i t = Some (PeerEntry s) \<Longrightarrow> ps_remote s = Some pid"
  by (auto simp: table_get_def dest!: table_find_Some)

lemma link_settle_stores:
  assumes "link_settle t lk = (t', lk', ev)" and "lk_slot lk = Some i"
  shows "t' = fst (table_store i (lk_session lk') t) \<and> lk_outgoing lk' = lk_outgoing lk \<and>
    (\<exists>st. lk_session lk' = (lk_session lk)\<lparr>ps_stats := st\<rparr>)"
  using assms
  by (auto simp: link_settle_def link_apply_window_def link_sync_def session_record_stats_def Let_def
      split: prod.splits if_splits option.splits)

lemma agreed_stats: "agreed a b \<Longrightarrow> agreed (a\<lparr>ps_stats := st\<rparr>) (b\<lparr>ps_stats := su\<rparr>)"
  unfolding agreed_def by simp metis

text \<open>
  C27: two nodes meet over their links.  When neither node lists the other and both have room, and the
  pumps deliver to each link the other's twelve hello bytes, then both links are established with
  the same negotiated configuration, each knows the other's identity, each table finds the other
  node in the slot of the link with the very session of the link, and the connecting side announces it with
  the twelfth byte.
\<close>

theorem links_meet:
  assumes "peer_wf (pt_local a)" and "config_valid (pt_config a)"
    and "peer_wf (pt_local b)" and "config_valid (pt_config b)"
    and "table_find (pt_local b) a = None" and "table_find (pt_local a) b = None"
    and "\<not> table_is_full a" and "\<not> table_is_full b"
  shows "\<exists>a1 la b' lb' a' la' rb ra i j. link_connect pa a = (a1, Inr la) \<and>
    link_hears (lk_outgoing la) b (link_accept pb b) = (b', lb', rb :: ('e link_error + link_event) list) \<and>
    link_hears (lk_outgoing lb') a1 la = (a', la', ra @ [Inr LinkEstablished :: 'e link_error + link_event]) \<and>
    lk_established la' \<and> lk_established lb' \<and> agreed (lk_session la') (lk_session lb') \<and>
    table_find (pt_local b) a' = Some i \<and> table_get i a' = Some (PeerEntry (lk_session la')) \<and>
    table_find (pt_local a) b' = Some j \<and> table_get j b' = Some (PeerEntry (lk_session lb'))"
proof -
  obtain a1 i ha b1 j hb a2 sa sb where m: "table_connect a = (a1, Inr (i, ha))"
    "table_accept ha b = (b1, Inr (j, hb))" "table_finish_connect i hb a1 = (a2, Inr ())"
    "table_find (pt_local b) a2 = Some i" "table_find (pt_local a) b1 = Some j"
    "table_get i a2 = Some (PeerEntry sa)" "table_get j b1 = Some (PeerEntry sb)" "agreed sa sb"
    using tables_handshake [OF assms] by blast
  obtain e where e: "table_get i a1 = Some e"
    using table_finish_ok [OF m(3)] by auto
  obtain la where la: "link_connect pa a = (a1, Inr la)" "lk_outgoing la = ha" "lk_in_len la = 0"
    "lk_incoming la = replicate HELLO_LEN 0" "\<not> lk_established la" "lk_initiator la" "\<not> lk_announced la"
    "lk_slot la = Some i"
    using m(1) e by (simp add: link_connect_def)
  have len: "length ha = HELLO_LEN" "length hb = HELLO_LEN"
    using table_accept_ok [OF m(2)] table_finish_ok [OF m(3)] by (auto dest: on_hello_ok)
  obtain lb1 where lb1: "link_whole_hello b ((link_accept pb b)\<lparr>lk_incoming := ha, lk_in_len := HELLO_LEN\<rparr>) =
      (b1, lb1, Inr () :: 'e link_error + unit)" "lk_session lb1 = sb" "lk_slot lb1 = Some j" "lk_outgoing lb1 = hb"
      "\<not> lk_initiator lb1"
    using m(2,7) by (simp add: link_whole_hello_def link_accept_def link_adopt_def)
  obtain la1 where la1: "link_whole_hello a1 (la\<lparr>lk_incoming := hb, lk_in_len := HELLO_LEN\<rparr>) =
      (a2, la1, Inr () :: 'e link_error + unit)" "lk_session la1 = sa" "lk_slot la1 = Some i" "lk_initiator la1"
      "\<not> lk_announced la1"
    using m(3,6) la by (simp add: link_whole_hello_def link_adopt_def)
  obtain cfg where cfg: "ps_negotiated sa = Some cfg" "ps_negotiated sb = Some cfg"
    "ps_state sa = SsEstablished" "ps_state sb = SsEstablished"
    "ps_remote sa = Some (pt_local b)" "ps_remote sb = Some (pt_local a)"
    using m(8) has_remote_of_find [OF m(4,6)] has_remote_of_find [OF m(5,7)] unfolding agreed_def by metis
  obtain b' lb' evb where sb: "link_settle b1 lb1 = (b', lb', evb)" by (metis prod_cases3)
  obtain a' la' eva where sa: "link_settle a2 la1 = (a', la', eva)" by (metis prod_cases3)
  note kb = link_settle_keeps [OF sb, unfolded lb1, OF cfg(4,2)] link_settle_stores [OF sb lb1(3), unfolded lb1]
  note ka = link_settle_keeps [OF sa, unfolded la1, OF cfg(3,1)] link_settle_stores [OF sa la1(3), unfolded la1]
  have hb: "link_hears ha b (link_accept pb b) =
      (b', lb', replicate 11 (Inr LinkProgress) @ [Inr evb :: 'e link_error + link_event])"
    by (rule link_hears_hello [OF _ _ _ len(1) lb1(1) sb]) (simp_all add: link_accept_def)
  have ha: "link_hears hb a1 la =
      (a', la', replicate 11 (Inr LinkProgress) @ [Inr eva :: 'e link_error + link_event])"
    by (rule link_hears_hello [OF la(3) _ la(5) len(2) la1(1) sa]) (simp add: la(4))
  have ev: "eva = LinkEstablished" using ka(1) la1(4,5) by simp
  have "agreed (lk_session la') (lk_session lb')" using ka(2) kb(2) agreed_stats [OF m(8)] by auto
  moreover have "table_find (pt_local b) a' = Some i \<and> table_get i a' = Some (PeerEntry (lk_session la'))"
    using table_find_stored [OF m(4), of "lk_session la'"] ka(2) cfg(5) by auto
  moreover have "table_find (pt_local a) b' = Some j \<and> table_get j b' = Some (PeerEntry (lk_session lb'))"
    using table_find_stored [OF m(5), of "lk_session lb'"] kb(2) cfg(6) by auto
  moreover have "lk_established la'" "lk_established lb'" using ka(1) kb(1) by simp_all
  moreover have "lk_outgoing lb' = hb" using kb(2) by simp
  ultimately show ?thesis using la(1,2) hb ha [unfolded ev] by blast
qed

section \<open>Witnesses\<close>

lemma fresh_wpump: "fresh_pump (wpump_on MAX_WINDOW)"
  by (auto simp: fresh_pump_def wpump_on_def wpump_on_with_def wsender_new_def)

definition demo_listener :: link where
  "demo_listener = link_accept (wpump_on MAX_WINDOW) (table_new 1 (peer_from_label [1]))"

lemma demo_listener_run: "link_run mock_port mock_port demo_listener [] []"
  unfolding demo_listener_def by (rule lr_accept [OF fresh_wpump])



theorem link_announces_once_witness:
  "length (filter (\<lambda>e. e = LinkEstablished) []) = 0 \<and> \<not> lk_announced demo_listener"
  using link_announces_once [OF demo_listener_run] by (simp add: demo_listener_def link_accept_def)

text \<open>A listener whose peer's hello ends in the configuration 0, 0, 0, 0.\<close>

theorem link_refused_stays_silent_witness:
  "\<exists>t lk' e. link_on_event (EvReceived 0) (table_new 1 (peer_from_label [1])) (demo_listener\<lparr>lk_in_len := 11\<rparr>) =
      (t, lk', Inl (LeTable e) :: unit link_error + link_event) \<and> \<not> lk_established lk'"
proof -
  define t where "t = table_new 1 (peer_from_label [1])"
  let ?lk = "demo_listener\<lparr>lk_in_len := 11\<rparr>"
  have L: "HELLO_LEN = 12" "PEER_LEN = 8" by (simp_all add: HELLO_LEN_def PEER_LEN_def)
  have c: "config_from_bytes (replicate 4 0) = Inl HsVersion" by (simp add: config_from_bytes_def)
  have free: "table_free_slot t = Some 0"
    by (simp add: t_def table_free_slot_def table_new_def table_with_def position_def)
  have d: "table_find pid t = None" for pid
    by (simp add: t_def table_find_None table_new_def table_with_def)
  have acc: "table_accept (replicate 12 0) t = (t, Inl (TableHandshake HsVersion))"
    by (simp add: table_accept_def d free session_on_hello_def c L)
  have r: "(replicate 12 0)[11 := 0] = replicate 12 (0 :: u8)" by (simp add: numeral_eq_Suc)
  obtain lk' where "link_on_event (EvReceived 0) t ?lk =
      (t, lk', Inl (LeTable (TableHandshake HsVersion)) :: unit link_error + link_event)"
    using acc r by (simp add: link_on_event_def link_on_hello_byte_def link_whole_hello_def demo_listener_def
        link_accept_def L)
  then show ?thesis using link_refused_stays_silent [OF _ lp_none] unfolding t_def by blast
qed

theorem links_meet_witness:
  "\<exists>a1 la b' lb' a' la' rb ra. link_connect (wpump_on 8) (table_new 1 (peer_from_label [1])) = (a1, Inr la) \<and>
     link_hears (lk_outgoing la) (table_new 2 (peer_from_label [2]))
       (link_accept (wpump_on 8) (table_new 2 (peer_from_label [2]))) = (b', lb', rb :: (unit link_error + link_event) list) \<and>
     link_hears (lk_outgoing lb') a1 la = (a', la', ra @ [Inr LinkEstablished :: unit link_error + link_event]) \<and>
     agreed (lk_session la') (lk_session lb')"
proof -
  let ?a = "table_new 1 (peer_from_label [1])" and ?b = "table_new 2 (peer_from_label [2])"
  have w: "peer_wf (pt_local ?a)" "config_valid (pt_config ?a)" "peer_wf (pt_local ?b)" "config_valid (pt_config ?b)"
    by (simp_all add: table_new_def table_with_def)
  have f: "\<not> table_is_full ?a" "\<not> table_is_full ?b" "table_find pid ?a = None" "table_find pid ?b = None" for pid
    by (simp_all add: table_is_full_def table_len_def table_new_def table_with_def table_find_None)
  show ?thesis using links_meet [OF w f(3,4,1,2), of "wpump_on 8" "wpump_on 8"] by blast
qed

end
