(* ===== verification/Fragment.thy ===== *)
theory Fragment
  imports Prelude
begin

text \<open>
  Application messages (\<open>src/p2p/stream.rs\<close>): stream and message identifiers, the seven-byte
  fragment header, the \<open>Fragmenter\<close> that cuts a message into header and chunk packets, and the
  \<open>Defragmenter\<close> that rebuilds it byte by byte in a caller-owned buffer.  The lemmas say that the
  header parses exactly where it is the serialization of a header, that the fragments cover the
  message, and that the rebuilt message is the one that was cut, whatever its length.
\<close>

section \<open>Identifiers\<close>

datatype stream_id = StreamId (stream_raw: u8)

datatype message_id = MessageId (message_raw: u16)

definition stream_control :: stream_id where "stream_control = StreamId 0"
definition stream_forum :: stream_id where "stream_forum = StreamId 1"

definition message_next :: "message_id \<Rightarrow> message_id" where
  "message_next m = MessageId (message_raw m + 1)"

text \<open>\<open>derive(PartialOrd, Ord)\<close>: the order of the raw numbers.\<close>

instantiation stream_id :: linorder
begin

definition less_eq_stream_id :: "stream_id \<Rightarrow> stream_id \<Rightarrow> bool" where
  "less_eq_stream_id a b = (stream_raw a \<le> stream_raw b)"

definition less_stream_id :: "stream_id \<Rightarrow> stream_id \<Rightarrow> bool" where
  "less_stream_id a b = (stream_raw a < stream_raw b)"

instance
  by standard (auto simp: less_eq_stream_id_def less_stream_id_def stream_id.expand)

end

instantiation message_id :: linorder
begin

definition less_eq_message_id :: "message_id \<Rightarrow> message_id \<Rightarrow> bool" where
  "less_eq_message_id a b = (message_raw a \<le> message_raw b)"

definition less_message_id :: "message_id \<Rightarrow> message_id \<Rightarrow> bool" where
  "less_message_id a b = (message_raw a < message_raw b)"

instance
  by standard (auto simp: less_eq_message_id_def less_message_id_def message_id.expand)

end

section \<open>The header\<close>

definition HEADER_LEN :: nat where "HEADER_LEN = 7"

definition FLAG_LAST :: u8 where "FLAG_LAST = 1"

record message_header =
  mh_stream :: stream_id
  mh_message :: message_id
  mh_fragment :: u16
  mh_last :: bool
  mh_len :: u8

datatype header_error = HdrFlags

definition header_to_bytes :: "message_header \<Rightarrow> u8 list" where
  "header_to_bytes h =
     [stream_raw (mh_stream h)] @ be16 (message_raw (mh_message h)) @ be16 (mh_fragment h) @
     [if mh_last h then FLAG_LAST else 0, mh_len h]"

definition header_from_bytes :: "u8 list \<Rightarrow> header_error + message_header" where
  "header_from_bytes bytes =
     (if bytes ! 5 AND NOT FLAG_LAST \<noteq> 0 then Inl HdrFlags
      else Inr \<lparr>mh_stream = StreamId (bytes ! 0), mh_message = MessageId (of_be16 (bytes ! 1) (bytes ! 2)),
                mh_fragment = of_be16 (bytes ! 3) (bytes ! 4), mh_last = (bytes ! 5 AND FLAG_LAST \<noteq> 0),
                mh_len = bytes ! 6\<rparr>)"

section \<open>The fragmenter\<close>

record fragmenter =
  fg_stream :: stream_id
  fg_message :: message_id
  fg_rest :: "u8 list"
  fg_fragment :: u16
  fg_chunk :: nat
  fg_done :: bool

definition fragmenter_new :: "stream_id \<Rightarrow> message_id \<Rightarrow> u8 list \<Rightarrow> u8 \<Rightarrow> fragmenter" where
  "fragmenter_new stream message payload max_fragment =
     \<lparr>fg_stream = stream, fg_message = message, fg_rest = payload, fg_fragment = 0,
      fg_chunk = (if max_fragment = 0 then 1 else unat max_fragment), fg_done = False\<rparr>"

definition fragmenter_remaining :: "fragmenter \<Rightarrow> nat" where
  "fragmenter_remaining g = length (fg_rest g)"

definition next_fragment :: "fragmenter \<Rightarrow> fragmenter \<times> (message_header \<times> u8 list) option" where
  "next_fragment g =
     (if fg_done g then (g, None)
      else
        let n = min (fg_chunk g) (length (fg_rest g));
            chunk = take n (fg_rest g);
            rest = drop n (fg_rest g);
            header = \<lparr>mh_stream = fg_stream g, mh_message = fg_message g, mh_fragment = fg_fragment g,
              mh_last = (rest = []), mh_len = of_nat n\<rparr>
        in (g\<lparr>fg_rest := rest, fg_done := (rest = []), fg_fragment := fg_fragment g + 1\<rparr>,
            Some (header, chunk)))"

text \<open>The callers' loop \<open>while let Some(..) = frag.next_fragment()\<close>.\<close>

partial_function (option) fragments :: "fragmenter \<Rightarrow> (message_header \<times> u8 list) list option" where
  "fragments g =
     (case next_fragment g of
        (g', None) \<Rightarrow> Some []
      | (g', Some p) \<Rightarrow> Option.bind (fragments g') (\<lambda>ps. Some (p # ps)))"

definition packet :: "message_header \<times> u8 list \<Rightarrow> u8 list" where
  "packet p = header_to_bytes (fst p) @ snd p"

section \<open>The defragmenter\<close>

datatype defrag_error = DfHeader header_error | DfOverflow | DfOutOfOrder | DfClosed

record defragmenter =
  df_buf :: "u8 list"
  df_filled :: nat
  df_hdr :: "u8 list"
  df_hdr_at :: nat
  df_current :: "message_header option"
  df_chunk_got :: u8
  df_expect_frag :: u16
  df_stream :: "stream_id option"
  df_message :: "message_id option"
  df_complete :: bool

definition defragmenter_new :: "u8 list \<Rightarrow> defragmenter" where
  "defragmenter_new buf =
     \<lparr>df_buf = buf, df_filled = 0, df_hdr = replicate HEADER_LEN 0, df_hdr_at = 0, df_current = None,
      df_chunk_got = 0, df_expect_frag = 0, df_stream = None, df_message = None, df_complete = False\<rparr>"

definition defragmenter_reset :: "defragmenter \<Rightarrow> defragmenter" where
  "defragmenter_reset d =
     d\<lparr>df_filled := 0, df_hdr_at := 0, df_current := None, df_chunk_got := 0, df_expect_frag := 0,
       df_stream := None, df_message := None, df_complete := False\<rparr>"

definition defrag_slice :: "defragmenter \<Rightarrow> u8 list" where
  "defrag_slice d = take (df_filled d) (df_buf d)"

definition finish_chunk :: "defragmenter \<Rightarrow> defragmenter \<times> (defrag_error + bool)" where
  "finish_chunk d =
     (case df_current d of
        None \<Rightarrow> (d, Inl DfOutOfOrder)
      | Some header \<Rightarrow>
          if mh_last header then (d\<lparr>df_current := None, df_complete := True\<rparr>, Inr True)
          else (d\<lparr>df_current := None, df_expect_frag := df_expect_frag d + 1\<rparr>, Inr False))"

definition header_complete :: "message_header \<Rightarrow> defragmenter \<Rightarrow> defragmenter \<times> (defrag_error + bool)" where
  "header_complete header d =
     (if mh_fragment header \<noteq> df_expect_frag d then (d, Inl DfOutOfOrder)
      else if df_stream d \<noteq> None \<and> df_stream d \<noteq> Some (mh_stream header) then (d, Inl DfOutOfOrder)
      else
        let d1 = d\<lparr>df_stream := Some (mh_stream header)\<rparr>
        in if df_message d \<noteq> None \<and> df_message d \<noteq> Some (mh_message header) then (d1, Inl DfOutOfOrder)
           else
             let d2 = d1\<lparr>df_message := Some (mh_message header), df_current := Some header, df_chunk_got := 0\<rparr>
             in if mh_len header = 0 then finish_chunk d2 else (d2, Inr False))"

definition push_header :: "u8 \<Rightarrow> defragmenter \<Rightarrow> defragmenter \<times> (defrag_error + bool)" where
  "push_header byte d0 =
     (let d1 = (if df_hdr_at d0 \<ge> HEADER_LEN then d0\<lparr>df_hdr_at := 0\<rparr> else d0);
          d = d1\<lparr>df_hdr := (df_hdr d1)[df_hdr_at d1 := byte], df_hdr_at := df_hdr_at d1 + 1\<rparr>
      in if df_hdr_at d < HEADER_LEN then (d, Inr False)
         else (case header_from_bytes (df_hdr d) of
             Inl e \<Rightarrow> (d\<lparr>df_hdr_at := 0\<rparr>, Inl (DfHeader e))
           | Inr header \<Rightarrow> header_complete header (d\<lparr>df_hdr_at := 0\<rparr>)))"

definition defrag_push :: "u8 \<Rightarrow> defragmenter \<Rightarrow> defragmenter \<times> (defrag_error + bool)" where
  "defrag_push byte d0 =
     (if df_complete d0 then (d0, Inl DfClosed)
      else case df_current d0 of
          None \<Rightarrow> push_header byte d0
        | Some h \<Rightarrow>
            if df_filled d0 \<ge> length (df_buf d0) then (d0, Inl DfOverflow)
            else
              let d = d0\<lparr>df_buf := (df_buf d0)[df_filled d0 := byte], df_filled := df_filled d0 + 1,
                    df_chunk_got := sat_inc (df_chunk_got d0)\<rparr>
              in if df_chunk_got d \<ge> mh_len h then finish_chunk d else (d, Inr False))"

fun defrag_run :: "defragmenter \<Rightarrow> u8 list \<Rightarrow> defragmenter \<times> (defrag_error + bool) list" where
  "defrag_run d [] = (d, [])"
| "defrag_run d (b # bs) =
     (case defrag_push b d of (d', r) \<Rightarrow> case defrag_run d' bs of (d'', rs) \<Rightarrow> (d'', r # rs))"

section \<open>The header on the wire\<close>

lemma length_header_to_bytes [simp]: "length (header_to_bytes h) = HEADER_LEN"
  by (simp add: header_to_bytes_def HEADER_LEN_def be16_def)

lemma and_not_1: "(x AND NOT 1 = 0) \<longleftrightarrow> x = 0 \<or> x = (1::u8)"
proof
  assume a: "x AND NOT 1 = 0"
  have "x = (x AND NOT 1) OR (x AND 1)"
    by (rule bit_word_eqI) (auto simp: bit_simps)
  then have "x = x AND 1" using a by simp
  moreover have "x AND 1 = of_bool (bit x 0)" by (simp add: and_one_eq mod2_eq_if bit_0)
  ultimately show "x = 0 \<or> x = 1" by (cases "bit x 0") auto
next
  assume "x = 0 \<or> x = 1"
  then show "x AND NOT 1 = 0" by auto
qed

lemma header_round_trip: "header_from_bytes (header_to_bytes h) = Inr h"
  by (cases h) (auto simp: header_from_bytes_def header_to_bytes_def FLAG_LAST_def be16_def of_be16_be16)

text \<open>
  The parser accepts exactly the serializations of headers, and returns the header that was
  serialized; whatever has a reserved flag bit is refused.
\<close>

theorem header_from_bytes_iff:
  assumes "length bytes = HEADER_LEN"
  shows "header_from_bytes bytes = Inr h \<longleftrightarrow> header_to_bytes h = bytes"
proof -
  obtain a b c d e f g where x: "bytes = [a, b, c, d, e, f, g]"
    using assms by (auto simp: HEADER_LEN_def eval_nat_numeral length_Suc_conv)
  show ?thesis
  proof
    assume "header_from_bytes bytes = Inr h"
    then show "header_to_bytes h = bytes"
      using and_not_1 [of f]
      by (auto simp: x header_from_bytes_def header_to_bytes_def FLAG_LAST_def be16_of_be16 split: if_splits)
  next
    assume "header_to_bytes h = bytes"
    then show "header_from_bytes bytes = Inr h"
      using header_round_trip [of h] by simp
  qed
qed

theorem header_from_bytes_iff_witness:
  "header_from_bytes [1, 0x12, 0x34, 0, 2, 1, 4] =
     Inr \<lparr>mh_stream = StreamId 1, mh_message = MessageId 0x1234, mh_fragment = 2, mh_last = True, mh_len = 4\<rparr>"
  by (subst header_from_bytes_iff)
    (simp_all add: HEADER_LEN_def header_to_bytes_def be16_def FLAG_LAST_def drop_bit_eq_div)

section \<open>Cutting a message\<close>

lemma fragments_step:
  assumes "\<not> fg_done g" and "n = min (fg_chunk g) (length (fg_rest g))"
  shows "fragments g =
    Option.bind (if n = length (fg_rest g) then Some []
        else fragments (g\<lparr>fg_rest := drop n (fg_rest g), fg_done := False, fg_fragment := fg_fragment g + 1\<rparr>))
      (\<lambda>ps. Some ((\<lparr>mh_stream = fg_stream g, mh_message = fg_message g, mh_fragment = fg_fragment g,
        mh_last = (n = length (fg_rest g)), mh_len = of_nat n\<rparr>, take n (fg_rest g)) # ps))"
proof (cases "n = length (fg_rest g)")
  case True
  then show ?thesis
    using assms by (subst fragments.simps, subst fragments.simps) (simp add: next_fragment_def Let_def)
next
  case False
  then have d: "drop n (fg_rest g) \<noteq> []" "n < length (fg_rest g)" using assms(2) by auto
  then show ?thesis
    using assms d by (subst fragments.simps) (simp add: next_fragment_def Let_def)
qed

text \<open>The fragments of a message, as a list function.\<close>

fun cut_message :: "stream_id \<Rightarrow> message_id \<Rightarrow> nat \<Rightarrow> u16 \<Rightarrow> u8 list list \<Rightarrow> (message_header \<times> u8 list) list" where
  "cut_message s m k i [] = []"
| "cut_message s m k i (c # cs) =
     (\<lparr>mh_stream = s, mh_message = m, mh_fragment = i, mh_last = (cs = []), mh_len = of_nat (length c)\<rparr>, c) #
     cut_message s m k (i + 1) cs"

text \<open>A cut of the message: chunks of \<open>k\<close> bytes, the last one possibly shorter.\<close>

fun chunks_ok :: "nat \<Rightarrow> u8 list list \<Rightarrow> bool" where
  "chunks_ok k [] = False"
| "chunks_ok k [c] = (length c \<le> k)"
| "chunks_ok k (c # cs) = (length c = k \<and> concat cs \<noteq> [] \<and> chunks_ok k cs)"

lemma fragments_cut:
  assumes "\<not> fg_done g" and "0 < fg_chunk g"
  shows "\<exists>cs. fragments g = Some (cut_message (fg_stream g) (fg_message g) (fg_chunk g) (fg_fragment g) cs) \<and>
    concat cs = fg_rest g \<and> chunks_ok (fg_chunk g) cs"
  using assms
proof (induction "length (fg_rest g)" arbitrary: g rule: less_induct)
  case less
  define n where "n = min (fg_chunk g) (length (fg_rest g))"
  note step = fragments_step [OF less.prems(1) n_def]
  show ?case
  proof (cases "n = length (fg_rest g)")
    case True
    then show ?thesis using step n_def by (intro exI [of _ "[fg_rest g]"]) simp
  next
    case False
    let ?g = "g\<lparr>fg_rest := drop n (fg_rest g), fg_done := False, fg_fragment := fg_fragment g + 1\<rparr>"
    have n: "n = fg_chunk g" "n < length (fg_rest g)" using False by (simp_all add: n_def)
    have "length (fg_rest ?g) < length (fg_rest g)" using n less.prems(2) by simp
    from less.hyps [OF this] obtain cs where cs: "concat cs = drop n (fg_rest g)" "chunks_ok (fg_chunk g) cs"
      "fragments ?g = Some (cut_message (fg_stream g) (fg_message g) (fg_chunk g) (fg_fragment g + 1) cs)"
      using less.prems by auto
    have "cs \<noteq> []" using cs(2) by auto
    then show ?thesis using step n cs False
      by (intro exI [of _ "take n (fg_rest g) # cs"]) (cases cs; simp)
  qed
qed

lemma fragmenter_new_simps [simp]:
  "\<not> fg_done (fragmenter_new s m payload k)" "fg_stream (fragmenter_new s m payload k) = s"
  "fg_message (fragmenter_new s m payload k) = m" "fg_rest (fragmenter_new s m payload k) = payload"
  "fg_fragment (fragmenter_new s m payload k) = 0"
  "fg_chunk (fragmenter_new s m payload k) = max 1 (unat k)"
  by (auto simp: fragmenter_new_def max_def unat_eq_0 Suc_le_eq unat_gt_0)

lemma cut_nth:
  "i < length cs \<Longrightarrow> cut_message s m k j cs ! i =
    (\<lparr>mh_stream = s, mh_message = m, mh_fragment = j + of_nat i, mh_last = (Suc i = length cs),
      mh_len = of_nat (length (cs ! i))\<rparr>, cs ! i)"
proof (induction cs arbitrary: i j)
  case Nil
  then show ?case by simp
next
  case (Cons c cs)
  then show ?case by (cases i) (auto simp: algebra_simps)
qed

lemma length_cut [simp]: "length (cut_message s m k j cs) = length cs"
  by (induction cs arbitrary: j) auto

lemma map_snd_cut [simp]: "map snd (cut_message s m k j cs) = cs"
  by (induction cs arbitrary: j) auto

lemma chunks_ok_nth:
  "chunks_ok k cs \<Longrightarrow> i < length cs \<Longrightarrow> length (cs ! i) \<le> k \<and> (Suc i < length cs \<longrightarrow> length (cs ! i) = k)"
proof (induction k cs arbitrary: i rule: chunks_ok.induct)
  case (3 k c d cs)
  then show ?case by (cases i) auto
qed auto

text \<open>
  The fragmenter always ends, for every message and every chunk size, 0 included.  Its chunks
  are the message; every chunk but the last is full, exactly the last one is flagged, the index
  counts the fragments modulo 65536, and the length byte is the length of the chunk.  An empty
  message is one empty, last fragment.
\<close>

theorem fragments_cover:
  "\<exists>ps. fragments (fragmenter_new s m payload k) = Some ps \<and> concat (map snd ps) = payload \<and> ps \<noteq> [] \<and>
     list_all (\<lambda>i. case ps ! i of (h, c) \<Rightarrow> mh_stream h = s \<and> mh_message h = m \<and> mh_fragment h = of_nat i \<and>
        (mh_last h = (Suc i = length ps)) \<and> unat (mh_len h) = length c \<and>
        (if Suc i = length ps then length c \<le> max 1 (unat k) else length c = max 1 (unat k)))
      [0..<length ps]"
proof -
  obtain cs where cs: "fragments (fragmenter_new s m payload k) = Some (cut_message s m (max 1 (unat k)) 0 cs)"
    "concat cs = payload" "chunks_ok (max 1 (unat k)) cs"
    using fragments_cut [of "fragmenter_new s m payload k"] by (auto simp: less_max_iff_disj)
  have ne: "cs \<noteq> []" using cs(3) by auto
  have len: "unat (of_nat (length (cs ! i)) :: u8) = length (cs ! i)" if "i < length cs" for i
  proof -
    have "length (cs ! i) < 256" using chunks_ok_nth [OF cs(3) that] unat_u8 [of k] by (auto simp: max_def split: if_splits)
    then show ?thesis by (simp add: unat_of_nat take_bit_nat_eq_self)
  qed
  have last: "if Suc i = length cs then length (cs ! i) \<le> max 1 (unat k) else length (cs ! i) = max 1 (unat k)"
    if "i < length cs" for i
    using chunks_ok_nth [OF cs(3) that] that by (cases "Suc i = length cs") simp_all
  have each: "case cut_message s m (max 1 (unat k)) 0 cs ! i of (h, c) \<Rightarrow>
      mh_stream h = s \<and> mh_message h = m \<and> mh_fragment h = of_nat i \<and>
        (mh_last h = (Suc i = length cs)) \<and> unat (mh_len h) = length c \<and>
        (if Suc i = length cs then length c \<le> max 1 (unat k) else length c = max 1 (unat k))"
    if "i < length cs" for i
    using last [OF that] len [OF that]
    by (simp only: cut_nth [OF that] prod.case message_header.select_convs add_0)
  show ?thesis
  proof (intro exI conjI)
    show "fragments (fragmenter_new s m payload k) = Some (cut_message s m (max 1 (unat k)) 0 cs)" by (rule cs)
    show "cut_message s m (max 1 (unat k)) 0 cs \<noteq> []" using ne by (cases cs) simp_all
  qed (use each in \<open>simp_all add: cs(2) list_all_iff\<close>)
qed

section \<open>Rebuilding a message\<close>

lemma defrag_run_append:
  "defrag_run d (xs @ ys) = (case defrag_run d xs of (d', rs) \<Rightarrow>
     case defrag_run d' ys of (d'', rs') \<Rightarrow> (d'', rs @ rs'))"
  by (induction xs arbitrary: d) (auto split: prod.splits)

text \<open>Between two fragments.\<close>

definition defrag_at_rest :: "defragmenter \<Rightarrow> bool" where
  "defrag_at_rest d = (\<not> df_complete d \<and> df_current d = None \<and> df_hdr_at d = 0 \<and>
     length (df_hdr d) = HEADER_LEN \<and> df_filled d \<le> length (df_buf d))"

lemma defrag_header_partial:
  assumes "defrag_at_rest d" and "length bs < HEADER_LEN"
  shows "\<exists>hdr. defrag_run d bs = (d\<lparr>df_hdr := hdr, df_hdr_at := length bs\<rparr>, replicate (length bs) (Inr False)) \<and>
    length hdr = HEADER_LEN \<and> take (length bs) hdr = bs"
  using assms(2)
proof (induction bs rule: rev_induct)
  case Nil
  then show ?case using assms(1) by (intro exI [of _ "df_hdr d"]) (simp add: defrag_at_rest_def)
next
  case (snoc b bs)
  then obtain hdr where h: "defrag_run d bs = (d\<lparr>df_hdr := hdr, df_hdr_at := length bs\<rparr>, replicate (length bs) (Inr False))"
    "length hdr = HEADER_LEN" "take (length bs) hdr = bs" by auto
  then show ?case using assms(1) snoc.prems
    by (intro exI [of _ "hdr[length bs := b]"])
      (simp add: defrag_run_append defrag_push_def push_header_def defrag_at_rest_def Let_def take_Suc_update
        replicate_append_same)
qed

lemma defrag_header:
  assumes "defrag_at_rest d" and "length bs = HEADER_LEN"
  shows "defrag_run d bs =
    (case (case header_from_bytes bs of
             Inl e \<Rightarrow> (d\<lparr>df_hdr := bs, df_hdr_at := 0\<rparr>, Inl (DfHeader e))
           | Inr h \<Rightarrow> header_complete h (d\<lparr>df_hdr := bs, df_hdr_at := 0\<rparr>)) of
       (d', r) \<Rightarrow> (d', replicate 6 (Inr False) @ [r]))"
proof -
  obtain cs b where bs: "bs = cs @ [b]" "length cs = 6"
    using assms(2) by (cases bs rule: rev_cases) (auto simp: HEADER_LEN_def)
  obtain hdr where h: "defrag_run d cs = (d\<lparr>df_hdr := hdr, df_hdr_at := 6\<rparr>, replicate 6 (Inr False))"
    "length hdr = 7" "take 6 hdr = cs"
    using defrag_header_partial [OF assms(1), of cs] bs(2) by (auto simp: HEADER_LEN_def)
  have "take (Suc 6) (hdr[6 := b]) = cs @ [b]"
    by (subst take_Suc_update) (use h(2,3) in simp_all)
  moreover have "length (hdr[6 := b]) \<le> Suc 6" using h(2) by simp
  ultimately have u: "hdr[6 := b] = bs" by (simp only: bs(1) take_all)
  show ?thesis using assms(1) h u
    by (simp add: bs(1) defrag_run_append defrag_push_def push_header_def defrag_at_rest_def Let_def HEADER_LEN_def
        split: sum.splits prod.splits)
qed

lemma sat_inc_room: "unat x < unat y \<Longrightarrow> unat (sat_inc x) = Suc (unat x)" for x y :: u8
proof -
  assume "unat x < unat y"
  then have "unat x < 255" using unat_u8 [of y] by simp
  then show ?thesis using unat_sat_inc [of x] by simp
qed

lemma defrag_body:
  assumes "\<not> df_complete d" and "df_current d = Some h" and "c \<noteq> []"
    and "unat (df_chunk_got d) + length c = unat (mh_len h)"
    and "df_filled d + length c \<le> length (df_buf d)"
  shows "\<exists>buf. defrag_run d c =
      (case finish_chunk (d\<lparr>df_buf := buf, df_filled := df_filled d + length c, df_chunk_got := mh_len h\<rparr>) of
         (d', r) \<Rightarrow> (d', replicate (length c - 1) (Inr False) @ [r])) \<and>
    length buf = length (df_buf d) \<and> take (df_filled d + length c) buf = take (df_filled d) (df_buf d) @ c"
  using assms
proof (induction c arbitrary: d)
  case Nil
  then show ?case by simp
next
  case (Cons b c)
  let ?d = "d\<lparr>df_buf := (df_buf d)[df_filled d := b], df_filled := df_filled d + 1,
    df_chunk_got := sat_inc (df_chunk_got d)\<rparr>"
  have got: "unat (sat_inc (df_chunk_got d)) = Suc (unat (df_chunk_got d))"
    using Cons.prems(4) sat_inc_room [of "df_chunk_got d" "mh_len h"] by simp
  have fill: "df_filled d < length (df_buf d)" using Cons.prems(5) by simp
  note tk = take_Suc_update [OF fill, of b]
  show ?case
  proof (cases "c = []")
    case True
    then have "sat_inc (df_chunk_got d) = mh_len h"
      using got Cons.prems(4) by (simp add: word_unat_eq_iff)
    then have "defrag_push b d = finish_chunk ?d"
      using Cons.prems(1,2) fill by (simp add: defrag_push_def Let_def)
    then show ?thesis using True tk \<open>sat_inc _ = _\<close>
      by (intro exI [of _ "(df_buf d)[df_filled d := b]"]) (simp split: prod.splits)
  next
    case False
    then have "\<not> sat_inc (df_chunk_got d) \<ge> mh_len h"
      using got Cons.prems(4) by (cases c) (simp_all add: word_le_nat_alt)
    then have p: "defrag_push b d = (?d, Inr False)"
      using Cons.prems(1,2) fill by (simp add: defrag_push_def Let_def)
    obtain buf where "defrag_run ?d c =
        (case finish_chunk (?d\<lparr>df_buf := buf, df_filled := df_filled ?d + length c, df_chunk_got := mh_len h\<rparr>) of
           (d', r) \<Rightarrow> (d', replicate (length c - 1) (Inr False) @ [r]))"
      "length buf = length (df_buf ?d)"
      "take (df_filled ?d + length c) buf = take (df_filled ?d) (df_buf ?d) @ c"
      using Cons.IH [of ?d] Cons.prems False got by auto
    then show ?thesis using p tk False
      by (intro exI [of _ buf]) (cases c; simp split: prod.splits)
  qed
qed

text \<open>One whole fragment.\<close>

lemma defrag_packet:
  assumes "defrag_at_rest d" and "unat (mh_len h) = length c" and "mh_fragment h = df_expect_frag d"
    and "df_stream d = None \<or> df_stream d = Some (mh_stream h)"
    and "df_message d = None \<or> df_message d = Some (mh_message h)"
    and "df_filled d + length c \<le> length (df_buf d)"
  shows "\<exists>d'. defrag_run d (packet (h, c)) = (d', replicate (6 + length c) (Inr False) @ [Inr (mh_last h)]) \<and>
    df_complete d' = mh_last h \<and> (\<not> mh_last h \<longrightarrow> defrag_at_rest d' \<and> df_expect_frag d' = df_expect_frag d + 1) \<and>
    df_stream d' = Some (mh_stream h) \<and> df_message d' = Some (mh_message h) \<and>
    length (df_buf d') = length (df_buf d) \<and> df_filled d' = df_filled d + length c \<and>
    defrag_slice d' = defrag_slice d @ c"
proof -
  let ?d = "d\<lparr>df_hdr := header_to_bytes h, df_hdr_at := 0, df_stream := Some (mh_stream h), df_message := Some (mh_message h),
    df_current := Some h, df_chunk_got := 0\<rparr>"
  have hc: "header_complete h (d\<lparr>df_hdr := header_to_bytes h, df_hdr_at := 0\<rparr>) =
      (if mh_len h = 0 then finish_chunk ?d else (?d, Inr False))"
    using assms(3-5) by (auto simp: header_complete_def Let_def)
  have run: "defrag_run d (header_to_bytes h) =
      (case (if mh_len h = 0 then finish_chunk ?d else (?d, Inr False)) of
         (d', r) \<Rightarrow> (d', replicate 6 (Inr False) @ [r]))"
    using defrag_header [OF assms(1), of "header_to_bytes h"] hc by (simp add: header_round_trip)
  have "length (df_hdr d) = HEADER_LEN" "\<not> df_complete d" "df_hdr_at d = 0"
    using assms(1) by (simp_all add: defrag_at_rest_def)
  note simps = finish_chunk_def defrag_at_rest_def defrag_slice_def
  show ?thesis
  proof (cases "c = []")
    case True
    then have "mh_len h = 0" using assms(2) by (simp add: unat_eq_0)
    then show ?thesis using run True assms(1) by (simp add: packet_def simps)
  next
    case False
    then have nz: "mh_len h \<noteq> 0" using assms(2) by auto
    obtain buf where b: "defrag_run ?d c =
        (case finish_chunk (?d\<lparr>df_buf := buf, df_filled := df_filled ?d + length c, df_chunk_got := mh_len h\<rparr>) of
           (d', r) \<Rightarrow> (d', replicate (length c - 1) (Inr False) @ [r]))"
      "length buf = length (df_buf ?d)"
      "take (df_filled ?d + length c) buf = take (df_filled ?d) (df_buf ?d) @ c"
      using defrag_body [of ?d h c] assms(1,2,6) False by (auto simp: defrag_at_rest_def)
    have "replicate 6 x @ x # replicate (length c - 1) x = replicate (6 + length c) x" for x :: "defrag_error + bool"
      using False by (cases c) (simp_all add: replicate_add replicate_app_Cons_same eval_nat_numeral)
    then show ?thesis using run nz b assms(1,6)
      by (simp add: packet_def defrag_run_append simps)
  qed
qed

lemma defrag_fragments:
  assumes "defrag_at_rest d" and "cs \<noteq> []" and "\<forall>c \<in> set cs. length c < 256"
    and "df_stream d = None \<or> df_stream d = Some s" and "df_message d = None \<or> df_message d = Some m"
    and "df_filled d + length (concat cs) \<le> length (df_buf d)"
  shows "\<exists>d' n. defrag_run d (concat (map packet (cut_message s m k (df_expect_frag d) cs))) =
      (d', replicate n (Inr False) @ [Inr True]) \<and> df_complete d' \<and> df_stream d' = Some s \<and>
    df_message d' = Some m \<and> defrag_slice d' = defrag_slice d @ concat cs"
  using assms
proof (induction cs arbitrary: d)
  case Nil
  then show ?case by simp
next
  case (Cons c cs)
  let ?h = "\<lparr>mh_stream = s, mh_message = m, mh_fragment = df_expect_frag d, mh_last = (cs = []),
    mh_len = of_nat (length c)\<rparr>"
  have "unat (of_nat (length c) :: u8) = length c"
    using Cons.prems(3) by (simp add: unat_of_nat take_bit_nat_eq_self)
  then obtain d' where d': "defrag_run d (packet (?h, c)) = (d', replicate (6 + length c) (Inr False) @ [Inr (cs = [])])"
    "df_complete d' = (cs = [])" "cs \<noteq> [] \<longrightarrow> defrag_at_rest d' \<and> df_expect_frag d' = df_expect_frag d + 1"
    "df_stream d' = Some s" "df_message d' = Some m" "length (df_buf d') = length (df_buf d)"
    "df_filled d' = df_filled d + length c" "defrag_slice d' = defrag_slice d @ c"
    using defrag_packet [OF Cons.prems(1), of ?h c] Cons.prems(4-6) by auto
  show ?case
  proof (cases "cs = []")
    case True
    then show ?thesis using d' by auto
  next
    case False
    obtain d'' n where d'': "defrag_run d' (concat (map packet (cut_message s m k (df_expect_frag d') cs))) =
        (d'', replicate n (Inr False) @ [Inr True])" "df_complete d''" "df_stream d'' = Some s"
      "df_message d'' = Some m" "defrag_slice d'' = defrag_slice d' @ concat cs"
      using Cons.IH [of d'] d' False Cons.prems(3,6) by auto
    have "replicate (6 + length c) x @ [x] @ replicate n x = replicate (7 + length c + n) x"
      for x :: "defrag_error + bool"
      by (simp add: replicate_add [symmetric] replicate_app_Cons_same flip: replicate_Suc)
    then show ?thesis using d' d'' False
      by (intro exI [of _ d''] exI [of _ "7 + length c + n"]) (simp add: defrag_run_append)
  qed
qed

text \<open>
  C21: cutting a message and pushing the packets byte by byte rebuilds it.  For every message,
  every chunk size and every buffer that holds the message, also past 65536 fragments, where the
  index wraps on both sides: no byte is an error, the last one and only the last one reports the
  message whole, and the slice, the stream and the message id are those that were cut.
\<close>

theorem defragment_fragments:
  assumes "length payload \<le> length buf"
  shows "\<exists>ps d n. fragments (fragmenter_new s m payload k) = Some ps \<and>
    defrag_run (defragmenter_new buf) (concat (map packet ps)) = (d, replicate n (Inr False) @ [Inr True]) \<and>
    df_complete d \<and> defrag_slice d = payload \<and> df_stream d = Some s \<and> df_message d = Some m"
proof -
  obtain cs where cs: "fragments (fragmenter_new s m payload k) = Some (cut_message s m (max 1 (unat k)) 0 cs)"
    "concat cs = payload" "chunks_ok (max 1 (unat k)) cs"
    using fragments_cut [of "fragmenter_new s m payload k"] by (auto simp: less_max_iff_disj)
  have "length c < 256" if "c \<in> set cs" for c
    using that chunks_ok_nth [OF cs(3)] unat_u8 [of k] by (fastforce simp: in_set_conv_nth)
  moreover have "cs \<noteq> []" using cs(3) by auto
  ultimately show ?thesis
    using defrag_fragments [of "defragmenter_new buf" cs s m "max 1 (unat k)"] cs assms
    by (auto simp: defrag_at_rest_def defragmenter_new_def defrag_slice_def)
qed

theorem defragment_fragments_witness:
  "\<exists>ps d n. fragments (fragmenter_new (StreamId 1) (MessageId 7) [104, 105, 33] 2) = Some ps \<and>
    defrag_run (defragmenter_new [0, 0, 0, 0]) (concat (map packet ps)) =
      (d, replicate n (Inr False) @ [Inr True]) \<and>
    df_complete d \<and> defrag_slice d = [104, 105, 33] \<and> df_stream d = Some (StreamId 1) \<and>
    df_message d = Some (MessageId 7)"
  by (rule defragment_fragments) simp

section \<open>What the defragmenter refuses\<close>

text \<open>
  A header that does not continue the message, whether by its index, its stream or its message
  id, is \<open>OutOfOrder\<close>, one with a reserved flag is \<open>Header\<close>; the error is reported on its seventh
  byte and neither touches the bytes collected nor the fragment expected.
\<close>

theorem defrag_refuses:
  assumes "defrag_at_rest d" and "length bs = HEADER_LEN"
    and "case header_from_bytes bs of Inl _ \<Rightarrow> e = DfHeader HdrFlags
      | Inr h \<Rightarrow> e = DfOutOfOrder \<and> (mh_fragment h \<noteq> df_expect_frag d \<or>
          df_stream d \<noteq> None \<and> df_stream d \<noteq> Some (mh_stream h) \<or>
          df_message d \<noteq> None \<and> df_message d \<noteq> Some (mh_message h))"
  shows "case defrag_run d bs of (d', rs) \<Rightarrow>
    rs = replicate 6 (Inr False) @ [Inl e] \<and> defrag_at_rest d' \<and> defrag_slice d' = defrag_slice d \<and>
    df_expect_frag d' = df_expect_frag d"
proof (cases "header_from_bytes bs")
  case (Inl x)
  then show ?thesis using assms by (cases x) (simp add: defrag_header defrag_at_rest_def defrag_slice_def)
next
  case (Inr h)
  then show ?thesis using assms
    by (auto simp: defrag_header header_complete_def Let_def defrag_at_rest_def defrag_slice_def)
qed

theorem defrag_refuses_witness:
  "case defrag_run (defragmenter_new [0]) [1, 0, 7, 0, 1, 0, 1] of (d', rs) \<Rightarrow>
    rs = replicate 6 (Inr False) @ [Inl DfOutOfOrder] \<and> defrag_slice d' = []"
proof -
  have "defrag_at_rest (defragmenter_new [0])"
    by (simp add: defrag_at_rest_def defragmenter_new_def)
  moreover have "\<exists>h. header_from_bytes [1, 0, 7, 0, 1, 0, 1] = Inr h \<and> mh_fragment h = 1"
    by (simp add: header_from_bytes_def of_be16_def)
  ultimately show ?thesis
    using defrag_refuses [of "defragmenter_new [0]" "[1, 0, 7, 0, 1, 0, 1]" DfOutOfOrder]
    by (auto simp: HEADER_LEN_def case_prod_unfold defragmenter_new_def defrag_slice_def simp del: defrag_run.simps)
qed

end
