(* ===== verification/Drive.thy ===== *)
theory Drive
  imports Link Fragment
begin

text \<open>
  The busy-loop helpers (\<open>src/p2p/drive.rs\<close>): establish two links over one wire, and send a message
  as fragments from one to the other.  The bounded \<open>while\<close> loops are recursion on the steps left.
  The lemmas say what a result of \<open>true\<close> means, and that both helpers return.
\<close>

section \<open>The code\<close>

text \<open>The four ports of the two links over one world, and the two ends that are driven.\<close>

record ('w, 'e) cable =
  cb_atx :: "('w, 'e) port"
  cb_arx :: "('w, 'e) port"
  cb_btx :: "('w, 'e) port"
  cb_brx :: "('w, 'e) port"

record 'w ends =
  en_world :: 'w
  en_a :: link
  en_alice :: node
  en_b :: link
  en_bob :: node

definition ends_poll_a :: "('w, 'e) cable \<Rightarrow> 'w ends \<Rightarrow> 'w ends \<times> ('e link_error + link_event)" where
  "ends_poll_a cb s =
     (case link_poll (cb_atx cb) (cb_arx cb) (en_world s) (nd_table (en_alice s)) (en_a s) of
        (w, t, lk, r) \<Rightarrow> (s\<lparr>en_world := w, en_alice := (en_alice s)\<lparr>nd_table := t\<rparr>, en_a := lk\<rparr>, r))"

definition ends_poll_b :: "('w, 'e) cable \<Rightarrow> 'w ends \<Rightarrow> 'w ends \<times> ('e link_error + link_event)" where
  "ends_poll_b cb s =
     (case link_poll (cb_btx cb) (cb_brx cb) (en_world s) (nd_table (en_bob s)) (en_b s) of
        (w, t, lk, r) \<Rightarrow> (s\<lparr>en_world := w, en_bob := (en_bob s)\<lparr>nd_table := t\<rparr>, en_b := lk\<rparr>, r))"

text \<open>The arm \<open>Ok(LinkEvent::Aborted) | Err(_)\<close>.\<close>

definition link_failed :: "'e link_error + link_event \<Rightarrow> bool" where
  "link_failed r = (case r of Inl _ \<Rightarrow> True | Inr ev \<Rightarrow> ev = LinkAborted)"

fun establish_steps :: "nat \<Rightarrow> ('w, 'e) cable \<Rightarrow> bool \<Rightarrow> bool \<Rightarrow> 'w ends \<Rightarrow> 'w ends \<times> bool" where
  "establish_steps 0 cb a_ok b_ok s = (s, False)"
| "establish_steps (Suc n) cb a_ok b_ok s =
     (case ends_poll_a cb s of
        (s1, ra) \<Rightarrow>
          if link_failed ra then (s1, False)
          else (case ends_poll_b cb s1 of
              (s2, rb) \<Rightarrow>
                let a_ok' = (a_ok \<or> ra = Inr LinkEstablished); b_ok' = (b_ok \<or> rb = Inr LinkEstablished)
                in if link_failed rb then (s2, False)
                   else if a_ok' \<and> b_ok' then (s2, True)
                   else establish_steps n cb a_ok' b_ok' s2))"

definition establish :: "('w, 'e) cable \<Rightarrow> 'w ends \<Rightarrow> 'w ends \<times> bool" where
  "establish cb s = establish_steps 100000 cb False False s"

text \<open>\<open>offer_byte\<close>, with \<open>tx\<close> the end \<open>a\<close> and \<open>rx\<close> the end \<open>b\<close>.\<close>

definition ends_offer :: "u8 option \<Rightarrow> 'w ends \<Rightarrow> 'w ends \<times> u8 option" where
  "ends_offer hold s =
     (case hold of
        None \<Rightarrow> (s, None)
      | Some b \<Rightarrow> (case link_offer b (en_a s) of
            (lk, Inr _) \<Rightarrow> (s\<lparr>en_a := lk\<rparr>, None)
          | (lk, Inl (e :: unit error)) \<Rightarrow> (s\<lparr>en_a := lk\<rparr>, Some b)))"

definition ends_sent :: "'w ends \<Rightarrow> bool" where
  "ends_sent s = (wt_state (pm_tx (lk_pump (en_a s))) = TxIdle \<and>
     wsender_outstanding (pm_tx (lk_pump (en_a s))) = 0)"

definition inbox_take :: "'e link_error + link_event \<Rightarrow> defragmenter \<Rightarrow> defragmenter \<times> bool" where
  "inbox_take r inbox =
     (case r of
        Inr (LinkReceived byte) \<Rightarrow>
          (case defrag_push byte inbox of (inbox', Inl _) \<Rightarrow> (inbox', False) | (inbox', Inr _) \<Rightarrow> (inbox', True))
      | _ \<Rightarrow> (inbox, \<not> link_failed r))"

fun offer_byte_steps ::
  "nat \<Rightarrow> ('w, 'e) cable \<Rightarrow> u8 option \<Rightarrow> 'w ends \<Rightarrow> defragmenter \<Rightarrow> 'w ends \<times> defragmenter \<times> bool" where
  "offer_byte_steps 0 cb hold s inbox = (s, inbox, False)"
| "offer_byte_steps (Suc n) cb hold s inbox =
     (case ends_offer hold s of
        (s1, hold') \<Rightarrow>
          (case ends_poll_a cb s1 of
             (s2, ra) \<Rightarrow>
               if link_failed ra then (s2, inbox, False)
               else (case ends_poll_b cb s2 of
                   (s3, rb) \<Rightarrow>
                     (case inbox_take rb inbox of
                        (inbox', ok) \<Rightarrow>
                          if \<not> ok then (s3, inbox', False)
                          else if hold' = None \<and> ends_sent s3 then (s3, inbox', True)
                          else offer_byte_steps n cb hold' s3 inbox'))))"

definition offer_byte :: "('w, 'e) cable \<Rightarrow> u8 \<Rightarrow> 'w ends \<Rightarrow> defragmenter \<Rightarrow> 'w ends \<times> defragmenter \<times> bool" where
  "offer_byte cb byte s inbox = offer_byte_steps 20000 cb (Some byte) s inbox"

fun offer_bytes :: "('w, 'e) cable \<Rightarrow> u8 list \<Rightarrow> 'w ends \<Rightarrow> defragmenter \<Rightarrow> 'w ends \<times> defragmenter \<times> bool" where
  "offer_bytes cb [] s inbox = (s, inbox, True)"
| "offer_bytes cb (b # bs) s inbox =
     (case offer_byte cb b s inbox of
        (s', inbox', ok) \<Rightarrow> if ok then offer_bytes cb bs s' inbox' else (s', inbox', False))"

partial_function (option) send_fragments ::
  "('w, 'e) cable \<Rightarrow> fragmenter \<Rightarrow> 'w ends \<Rightarrow> defragmenter \<Rightarrow> ('w ends \<times> defragmenter \<times> bool) option" where
  "send_fragments cb frag s inbox =
     (case next_fragment frag of
        (frag', None) \<Rightarrow> Some (s, inbox, df_complete inbox)
      | (frag', Some (header, chunk)) \<Rightarrow>
          (case offer_bytes cb (header_to_bytes header) s inbox of
             (s1, inbox1, ok) \<Rightarrow>
               if \<not> ok then Some (s1, inbox1, False)
               else (case offer_bytes cb chunk s1 inbox1 of
                   (s2, inbox2, ok2) \<Rightarrow>
                     if \<not> ok2 then Some (s2, inbox2, False) else send_fragments cb frag' s2 inbox2)))"

definition send_message ::
  "('w, 'e) cable \<Rightarrow> u16 \<Rightarrow> u8 list \<Rightarrow> 'w ends \<Rightarrow> defragmenter \<Rightarrow> ('w ends \<times> defragmenter \<times> bool) option" where
  "send_message cb mid body s inbox =
     send_fragments cb (fragmenter_new stream_forum (MessageId mid) body 4) s (defragmenter_reset inbox)"

section \<open>Sending returns\<close>

text \<open>The fragmenter gets through the message: each fragment takes bytes away or is the last.\<close>

lemma next_fragment_shrinks:
  assumes "next_fragment g = (g', Some x)" and "0 < fg_chunk g"
  shows "length (fg_rest g') + of_bool (\<not> fg_done g') < length (fg_rest g) + of_bool (\<not> fg_done g)" and "0 < fg_chunk g'"
  using assms by (auto simp: next_fragment_def Let_def split: if_splits)

lemma send_fragments_returns:
  assumes "0 < fg_chunk g"
  shows "\<exists>x. send_fragments cb g s inbox = Some x"
  using assms
proof (induction "length (fg_rest g) + of_bool (\<not> fg_done g)" arbitrary: g s inbox rule: less_induct)
  case less
  show ?case
  proof (cases "fg_done g")
    case True
    then show ?thesis by (subst send_fragments.simps) (simp add: next_fragment_def)
  next
    case False
    obtain g' header chunk where n: "next_fragment g = (g', Some (header, chunk))"
      using False by (simp add: next_fragment_def Let_def)
    note g' = next_fragment_shrinks [OF n less.prems]
    show ?thesis using n less.hyps [OF g']
      by (subst send_fragments.simps) (simp split: prod.split)
  qed
qed

text \<open>
  Sending a message over a link always returns, with success or not, whatever the ports do: the
  fragments run out, and each offered byte is given up after its budget of polls.
\<close>

theorem send_message_returns: "\<exists>s' inbox' ok. send_message cb mid body s inbox = Some (s', inbox', ok)"
proof -
  have "0 < fg_chunk (fragmenter_new stream_forum (MessageId mid) body 4)" by (simp add: fragmenter_new_def)
  from send_fragments_returns [OF this, of cb s "defragmenter_reset inbox"] show ?thesis
    by (auto simp: send_message_def)
qed

section \<open>What success means\<close>

lemma ends_poll_a_run:
  assumes "link_run (cb_atx cb) (cb_arx cb) (en_a s) heard es" and "ends_poll_a cb s = (s', r)"
  shows "\<exists>heard'. link_run (cb_atx cb) (cb_arx cb) (en_a s') heard' (es @ (case r of Inr e \<Rightarrow> [e] | Inl _ \<Rightarrow> []))"
    and "en_b s' = en_b s"
proof -
  obtain w t lk where p: "link_poll (cb_atx cb) (cb_arx cb) (en_world s) (nd_table (en_alice s)) (en_a s) = (w, t, lk, r)"
    "en_a s' = lk" "en_b s' = en_b s"
    using assms(2) by (auto simp: ends_poll_a_def split: prod.splits)
  show "\<exists>heard'. link_run (cb_atx cb) (cb_arx cb) (en_a s') heard' (es @ (case r of Inr e \<Rightarrow> [e] | Inl _ \<Rightarrow> []))"
    using lr_poll [OF assms(1) p(1)] p(2) by blast
  show "en_b s' = en_b s" by (rule p(3))
qed

lemma ends_poll_b_run:
  assumes "link_run (cb_btx cb) (cb_brx cb) (en_b s) heard es" and "ends_poll_b cb s = (s', r)"
  shows "\<exists>heard'. link_run (cb_btx cb) (cb_brx cb) (en_b s') heard' (es @ (case r of Inr e \<Rightarrow> [e] | Inl _ \<Rightarrow> []))"
    and "en_a s' = en_a s"
proof -
  obtain w t lk where p: "link_poll (cb_btx cb) (cb_brx cb) (en_world s) (nd_table (en_bob s)) (en_b s) = (w, t, lk, r)"
    "en_b s' = lk" "en_a s' = en_a s"
    using assms(2) by (auto simp: ends_poll_b_def split: prod.splits)
  show "\<exists>heard'. link_run (cb_btx cb) (cb_brx cb) (en_b s') heard' (es @ (case r of Inr e \<Rightarrow> [e] | Inl _ \<Rightarrow> []))"
    using lr_poll [OF assms(1) p(1)] p(2) by blast
  show "en_a s' = en_a s" by (rule p(3))
qed

text \<open>The links of two ends in the middle of \<open>establish\<close>: a flag is set when its link has announced.\<close>

definition ends_inv :: "('w, 'e) cable \<Rightarrow> bool \<Rightarrow> bool \<Rightarrow> 'w ends \<Rightarrow> bool" where
  "ends_inv cb a_ok b_ok s =
     ((\<exists>ha ea. link_run (cb_atx cb) (cb_arx cb) (en_a s) ha ea \<and> (a_ok \<longrightarrow> LinkEstablished \<in> set ea)) \<and>
      (\<exists>hb eb. link_run (cb_btx cb) (cb_brx cb) (en_b s) hb eb \<and> (b_ok \<longrightarrow> LinkEstablished \<in> set eb)))"

lemma ends_inv_polls:
  assumes "ends_inv cb a_ok b_ok s" and "ends_poll_a cb s = (s1, ra)" and "ends_poll_b cb s1 = (s2, rb)"
  shows "ends_inv cb (a_ok \<or> ra = Inr LinkEstablished) (b_ok \<or> rb = Inr LinkEstablished) s2"
proof -
  obtain ha ea hb eb where run: "link_run (cb_atx cb) (cb_arx cb) (en_a s) ha ea" "a_ok \<longrightarrow> LinkEstablished \<in> set ea"
    "link_run (cb_btx cb) (cb_brx cb) (en_b s) hb eb" "b_ok \<longrightarrow> LinkEstablished \<in> set eb"
    using assms(1) by (auto simp: ends_inv_def)
  obtain ha' where a: "link_run (cb_atx cb) (cb_arx cb) (en_a s1) ha' (ea @ (case ra of Inr e \<Rightarrow> [e] | Inl _ \<Rightarrow> []))"
    "en_b s1 = en_b s"
    using ends_poll_a_run [OF run(1) assms(2)] by blast
  obtain hb' where b: "link_run (cb_btx cb) (cb_brx cb) (en_b s2) hb' (eb @ (case rb of Inr e \<Rightarrow> [e] | Inl _ \<Rightarrow> []))"
    "en_a s2 = en_a s1"
    using ends_poll_b_run [of cb s1 hb eb s2 rb] run(3) a(2) assms(3) by auto
  show ?thesis unfolding ends_inv_def
    by (intro conjI exI [of _ ha'] exI [of _ hb'] exI [of _ "ea @ (case ra of Inr e \<Rightarrow> [e] | Inl _ \<Rightarrow> [])"]
        exI [of _ "eb @ (case rb of Inr e \<Rightarrow> [e] | Inl _ \<Rightarrow> [])"]) (use a b run(2,4) in auto)
qed

lemma announced_established:
  "link_run ptx prx lk heard es \<Longrightarrow> LinkEstablished \<in> set es \<Longrightarrow> lk_announced lk \<and> lk_established lk"
  using link_run_inv [of ptx prx lk heard es] by (auto simp: link_inv_def filter_empty_conv split: if_splits)

lemma establish_sound:
  "ends_inv cb a_ok b_ok s \<Longrightarrow> establish_steps n cb a_ok b_ok s = (s', True) \<Longrightarrow>
     lk_announced (en_a s') \<and> lk_established (en_a s') \<and> lk_announced (en_b s') \<and> lk_established (en_b s')"
proof (induction n arbitrary: a_ok b_ok s)
  case 0
  then show ?case by simp
next
  case (Suc n)
  obtain s1 ra where a: "ends_poll_a cb s = (s1, ra)" by (metis surj_pair)
  obtain s2 rb where b: "ends_poll_b cb s1 = (s2, rb)" by (metis surj_pair)
  note inv = ends_inv_polls [OF Suc.prems(1) a b]
  let ?a = "a_ok \<or> ra = Inr LinkEstablished" and ?b = "b_ok \<or> rb = Inr LinkEstablished"
  have ok: "\<not> link_failed ra" "\<not> link_failed rb" using Suc.prems(2) a b by (auto simp: Let_def split: if_splits)
  show ?case
  proof (cases "?a \<and> ?b")
    case True
    then have "s' = s2" using Suc.prems(2) a b ok by (simp add: Let_def)
    then show ?thesis using inv True announced_established unfolding ends_inv_def by blast
  next
    case False
    then have "establish_steps n cb ?a ?b s2 = (s', True)" using Suc.prems(2) a b ok
      by (auto simp: Let_def split: if_split_asm)
    then show ?thesis by (rule Suc.IH [OF inv])
  qed
qed

end
