(* ===== verification/Fault.thy ===== *)
theory Fault
  imports Transport
begin

text \<open>
  The fault-injecting transport (\<open>src/fault.rs\<close>): it wraps a port and drops or corrupts what is
  written, frame by frame, and what is read, byte by byte.  The lemmas say exactly which bytes
  reach the wrapped port: whole frames, those the policy lets through, in order, the corrupted
  ones with a broken checksum that no decoder accepts.
\<close>

section \<open>The code\<close>

record fault_policy =
  fp_drop_first :: u32
  fp_drop_every :: u32
  fp_corrupt_first :: u32
  fp_corrupt_every :: u32
  fp_frame_granularity :: bool

definition fault_none :: fault_policy where
  "fault_none = \<lparr>fp_drop_first = 0, fp_drop_every = 0, fp_corrupt_first = 0, fp_corrupt_every = 0,
     fp_frame_granularity = True\<rparr>"

definition fault_drop_first :: "u32 \<Rightarrow> fault_policy" where
  "fault_drop_first n = fault_none\<lparr>fp_drop_first := n\<rparr>"

definition fault_drop_every :: "u32 \<Rightarrow> fault_policy" where
  "fault_drop_every n = fault_none\<lparr>fp_drop_every := n\<rparr>"

definition fault_corrupt_first :: "u32 \<Rightarrow> fault_policy" where
  "fault_corrupt_first n = fault_none\<lparr>fp_corrupt_first := n\<rparr>"

definition fault_corrupt_every :: "u32 \<Rightarrow> fault_policy" where
  "fault_corrupt_every n = fault_none\<lparr>fp_corrupt_every := n\<rparr>"

definition fault_hits :: "u32 \<Rightarrow> u32 \<Rightarrow> bool" where
  "fault_hits n every = (every \<noteq> 0 \<and> n \<noteq> 0 \<and> n mod every = 0)"

definition should_drop :: "u32 \<Rightarrow> fault_policy \<Rightarrow> bool" where
  "should_drop n p = ((fp_drop_first p \<noteq> 0 \<and> n \<le> fp_drop_first p) \<or> fault_hits n (fp_drop_every p))"

definition should_corrupt :: "u32 \<Rightarrow> fault_policy \<Rightarrow> bool" where
  "should_corrupt n p =
     ((fp_corrupt_first p \<noteq> 0 \<and> n \<le> fp_corrupt_first p) \<or> fault_hits n (fp_corrupt_every p))"

record 'w faulty =
  ft_inner :: 'w
  ft_write_policy :: fault_policy
  ft_read_policy :: fault_policy
  ft_writes :: u32
  ft_reads :: u32
  ft_write_buf :: "u8 list"
  ft_write_fill :: nat
  ft_hold_reads :: u32
  ft_held :: u32

definition faulty_new :: "'w \<Rightarrow> fault_policy \<Rightarrow> fault_policy \<Rightarrow> 'w faulty" where
  "faulty_new inner wp rp =
     \<lparr>ft_inner = inner, ft_write_policy = wp, ft_read_policy = rp, ft_writes = 0, ft_reads = 0,
      ft_write_buf = replicate 4 0, ft_write_fill = 0, ft_hold_reads = 0, ft_held = 0\<rparr>"

definition faulty_with_read_hold :: "u32 \<Rightarrow> 'w faulty \<Rightarrow> 'w faulty" where
  "faulty_with_read_hold n f = f\<lparr>ft_hold_reads := n\<rparr>"

definition faulty_on_write :: "'w \<Rightarrow> fault_policy \<Rightarrow> 'w faulty" where
  "faulty_on_write inner wp = faulty_new inner wp fault_none"

text \<open>\<open>for b in frame { self.inner.write_byte(b)?; }\<close>\<close>

fun write_bytes :: "('w, 'e) port \<Rightarrow> u8 list \<Rightarrow> 'w \<Rightarrow> 'w \<times> ('e + unit)" where
  "write_bytes p [] w = (w, Inr ())"
| "write_bytes p (b # bs) w =
     (case write_byte p b w of
        (w', Inl e) \<Rightarrow> (w', Inl e)
      | (w', Inr _) \<Rightarrow> write_bytes p bs w')"

definition faulty_write_single :: "('w, 'e) port \<Rightarrow> u8 \<Rightarrow> 'w faulty \<Rightarrow> 'w faulty \<times> ('e + unit)" where
  "faulty_write_single p byte f0 =
     (let f = f0\<lparr>ft_writes := sat_inc (ft_writes f0)\<rparr>
      in if should_drop (ft_writes f) (ft_write_policy f) then (f, Inr ())
         else
           let out = (if should_corrupt (ft_writes f) (ft_write_policy f) then byte XOR 1 else byte)
           in (case write_byte p out (ft_inner f) of (w, r) \<Rightarrow> (f\<lparr>ft_inner := w\<rparr>, r)))"

definition faulty_write_frame :: "('w, 'e) port \<Rightarrow> 'w faulty \<Rightarrow> 'w faulty \<times> ('e + unit)" where
  "faulty_write_frame p f0 =
     (let f = f0\<lparr>ft_write_fill := 0, ft_writes := sat_inc (ft_writes f0)\<rparr>
      in if should_drop (ft_writes f) (ft_write_policy f) then (f, Inr ())
         else
           let f' = (if should_corrupt (ft_writes f) (ft_write_policy f)
                     then f\<lparr>ft_write_buf := (ft_write_buf f)[3 := ft_write_buf f ! 3 XOR 0xFF]\<rparr> else f)
           in (case write_bytes p (ft_write_buf f') (ft_inner f') of (w, r) \<Rightarrow> (f'\<lparr>ft_inner := w\<rparr>, r)))"

definition faulty_write :: "('w, 'e) port \<Rightarrow> u8 \<Rightarrow> 'w faulty \<Rightarrow> 'w faulty \<times> ('e + unit)" where
  "faulty_write p byte f0 =
     (if \<not> fp_frame_granularity (ft_write_policy f0) then faulty_write_single p byte f0
      else
        let f = f0\<lparr>ft_write_buf := (ft_write_buf f0)[ft_write_fill f0 := byte], ft_write_fill := ft_write_fill f0 + 1\<rparr>
        in if ft_write_fill f < 4 then (f, Inr ()) else faulty_write_frame p f)"

definition faulty_read :: "('w, 'e) port \<Rightarrow> 'w faulty \<Rightarrow> 'w faulty \<times> ('e + u8 option)" where
  "faulty_read p f0 =
     (if ft_held f0 < ft_hold_reads f0 then (f0\<lparr>ft_held := sat_inc (ft_held f0)\<rparr>, Inr None)
      else (case read_byte p (ft_inner f0) of
          (w, Inl e) \<Rightarrow> (f0\<lparr>ft_inner := w\<rparr>, Inl e)
        | (w, Inr None) \<Rightarrow> (f0\<lparr>ft_inner := w\<rparr>, Inr None)
        | (w, Inr (Some byte)) \<Rightarrow>
            let f = f0\<lparr>ft_inner := w, ft_reads := sat_inc (ft_reads f0)\<rparr>
            in if should_drop (ft_reads f) (ft_read_policy f) then (f, Inr None)
               else if should_corrupt (ft_reads f) (ft_read_policy f) then (f, Inr (Some (byte XOR 1)))
               else (f, Inr (Some byte))))"

definition faulty_port :: "('w, 'e) port \<Rightarrow> ('w faulty, 'e) port" where
  "faulty_port p = \<lparr>write_byte = faulty_write p, read_byte = faulty_read p\<rparr>"

section \<open>Frames through a faulty wire\<close>

text \<open>What becomes of a sequence of frames, from the count \<open>n\<close> of the frames so far.\<close>

definition break_crc :: "u8 list \<Rightarrow> u8 list" where
  "break_crc bytes = bytes[3 := bytes ! 3 XOR 0xFF]"

fun fault_image :: "fault_policy \<Rightarrow> u32 \<Rightarrow> u8 list list \<Rightarrow> u8 list list" where
  "fault_image pol n [] = []"
| "fault_image pol n (x # xs) =
     (if should_drop (sat_inc n) pol then []
      else [if should_corrupt (sat_inc n) pol then break_crc x else x]) @ fault_image pol (sat_inc n) xs"

lemma write_bytes_append:
  "write_bytes p (bs @ cs) w =
     (case write_bytes p bs w of (w', Inl e) \<Rightarrow> (w', Inl e) | (w', Inr _) \<Rightarrow> write_bytes p cs w')"
  by (induction bs arbitrary: w) (auto split: prod.splits sum.splits)

lemma write_bytes_sent:
  assumes "\<And>b w. \<exists>w'. write_byte p b w = (w', Inr ()) \<and> sent w' = sent w @ [b]"
  shows "\<exists>w'. write_bytes p bs w = (w', Inr ()) \<and> sent w' = sent w @ bs"
proof (induction bs arbitrary: w)
  case Nil
  then show ?case by simp
next
  case (Cons b bs)
  obtain w1 where 1: "write_byte p b w = (w1, Inr ())" "sent w1 = sent w @ [b]" using assms by blast
  then show ?case using Cons.IH [of w1] by auto
qed

text \<open>A frame is staged whole before anything of it is written.\<close>

lemma faulty_stage:
  assumes "fp_frame_granularity (ft_write_policy f)" and "ft_write_fill f = 0" and "length (ft_write_buf f) = 4"
  shows "write_bytes (faulty_port p) [a, b, c, d] f =
    faulty_write_frame p (f\<lparr>ft_write_buf := [a, b, c, d], ft_write_fill := 4\<rparr>)"
proof -
  obtain x0 x1 x2 x3 where buf: "ft_write_buf f = [x0, x1, x2, x3]" using assms(3) by (rule length4E)
  show ?thesis using assms(1,2)
    by (simp add: faulty_port_def faulty_write_def buf numeral_eq_Suc split: prod.splits sum.splits)
qed

lemma faulty_frame:
  assumes "\<And>b w. \<exists>w'. write_byte p b w = (w', Inr ()) \<and> sent w' = sent w @ [b]"
    and "fp_frame_granularity (ft_write_policy f)" and "ft_write_fill f = 0" and "length (ft_write_buf f) = 4"
    and "length x = 4"
  shows "\<exists>f'. write_bytes (faulty_port p) x f = (f', Inr ()) \<and> ft_write_policy f' = ft_write_policy f \<and>
    ft_write_fill f' = 0 \<and> length (ft_write_buf f') = 4 \<and> ft_writes f' = sat_inc (ft_writes f) \<and>
    sent (ft_inner f') = sent (ft_inner f) @ concat (fault_image (ft_write_policy f) (ft_writes f) [x])"
proof -
  obtain a b c d where x: "x = [a, b, c, d]" using assms(5) by (rule length4E)
  let ?n = "sat_inc (ft_writes f)" and ?p = "ft_write_policy f"
  let ?y = "if should_corrupt ?n ?p then break_crc x else x"
  obtain w' where w': "write_bytes p ?y (ft_inner f) = (w', Inr ())" "sent w' = sent (ft_inner f) @ ?y"
    using write_bytes_sent [of p sent ?y "ft_inner f"] assms(1) by blast
  show ?thesis
  proof (cases "should_drop ?n ?p")
    case True
    then show ?thesis unfolding x faulty_stage [OF assms(2-4)] by (simp add: faulty_write_frame_def)
  next
    case False
    then show ?thesis using w' unfolding x faulty_stage [OF assms(2-4)]
      by (cases "should_corrupt ?n ?p") (simp_all add: faulty_write_frame_def break_crc_def)
  qed
qed

lemma faulty_frames:
  assumes "\<And>b w. \<exists>w'. write_byte p b w = (w', Inr ()) \<and> sent w' = sent w @ [b]"
    and "fp_frame_granularity (ft_write_policy f)" and "ft_write_fill f = 0" and "length (ft_write_buf f) = 4"
    and "\<forall>x \<in> set xs. length x = 4"
  shows "\<exists>f'. write_bytes (faulty_port p) (concat xs) f = (f', Inr ()) \<and> ft_write_fill f' = 0 \<and>
    sent (ft_inner f') = sent (ft_inner f) @ concat (fault_image (ft_write_policy f) (ft_writes f) xs)"
  using assms(2-5)
proof (induction xs arbitrary: f)
  case Nil
  then show ?case by simp
next
  case (Cons x xs)
  obtain f1 where 1: "write_bytes (faulty_port p) x f = (f1, Inr ())" "ft_write_policy f1 = ft_write_policy f"
    "ft_write_fill f1 = 0" "length (ft_write_buf f1) = 4" "ft_writes f1 = sat_inc (ft_writes f)"
    "sent (ft_inner f1) = sent (ft_inner f) @ concat (fault_image (ft_write_policy f) (ft_writes f) [x])"
    using faulty_frame [OF assms(1) Cons.prems(1-3), of x] Cons.prems(4) by auto
  obtain f2 where "write_bytes (faulty_port p) (concat xs) f1 = (f2, Inr ())" "ft_write_fill f2 = 0"
    "sent (ft_inner f2) = sent (ft_inner f1) @ concat (fault_image (ft_write_policy f1) (ft_writes f1) xs)"
    using Cons.IH [of f1] 1 Cons.prems by auto
  then show ?case using 1 by (simp add: write_bytes_append)
qed

text \<open>A broken checksum is never accepted.\<close>

lemma break_crc_rejected:
  assumes "length bytes = 4" and "from_bytes bytes = Inr f"
  shows "\<exists>e. from_bytes (break_crc bytes) = Inl e"
proof -
  obtain a b c d where x: "bytes = [a, b, c, d]" using assms(1) by (rule length4E)
  have "d XOR 0xFF \<noteq> d"
  proof
    assume "d XOR 0xFF = d"
    then have "(d XOR d) XOR 0xFF = (d XOR d)" by (metis xor.assoc)
    then show False by simp
  qed
  then show ?thesis using assms(2)
    by (auto simp: x break_crc_def from_bytes_def Let_def split: option.splits if_splits)
qed

lemma fault_image_frames:
  assumes "\<forall>f \<in> set fs. frame_ok f" and "y \<in> set (fault_image pol n (map to_bytes fs))"
  shows "length y = 4 \<and> (y \<in> to_bytes ` set fs \<or> (\<exists>e. from_bytes y = Inl e))"
  using assms
proof (induction fs arbitrary: n)
  case Nil
  then show ?case by simp
next
  case (Cons f fs)
  have f: "from_bytes (to_bytes f) = Inr f" "length (to_bytes f) = 4"
    using Cons.prems(1) by (simp_all add: FRAME_LEN_def)
  show ?case using Cons.IH [of "sat_inc n"] Cons.prems f break_crc_rejected [OF f(2,1)]
    by (auto simp: break_crc_def split: if_splits)
qed

text \<open>
  A faulty wire loses or damages whole frames, never parts.  Over a port that does not fail, the
  bytes of a sequence of valid frames come out as the frames the policy does not drop, complete
  and in order, each either as it was or with a broken checksum; the damaged ones are refused by
  the decoder.
\<close>

theorem faulty_wire_frames:
  assumes "\<And>b w. \<exists>w'. write_byte p b w = (w', Inr ()) \<and> sent w' = sent w @ [b]"
    and "fp_frame_granularity policy" and "\<forall>f \<in> set fs. frame_ok f"
  shows "\<exists>f' ys. write_bytes (faulty_port p) (concat (map to_bytes fs)) (faulty_on_write w policy) = (f', Inr ()) \<and>
    sent (ft_inner f') = sent w @ concat ys \<and> ys = fault_image policy 0 (map to_bytes fs) \<and>
    (\<forall>y \<in> set ys. length y = FRAME_LEN \<and> (y \<in> to_bytes ` set fs \<or> (\<exists>e. from_bytes y = Inl e)))"
proof -
  have "\<forall>x \<in> set (map to_bytes fs). length x = 4" by (simp add: FRAME_LEN_def)
  from faulty_frames [where f = "faulty_on_write w policy", OF assms(1) _ _ _ this] assms(2)
  obtain f' where "write_bytes (faulty_port p) (concat (map to_bytes fs)) (faulty_on_write w policy) = (f', Inr ())"
    "sent (ft_inner f') = sent w @ concat (fault_image policy 0 (map to_bytes fs))"
    by (auto simp: faulty_on_write_def faulty_new_def)
  then show ?thesis using fault_image_frames [OF assms(3)] by (auto simp: FRAME_LEN_def)
qed

definition tape_port :: "(u8 list, unit) port" where
  "tape_port = \<lparr>write_byte = (\<lambda>b w. (w @ [b], Inr ())), read_byte = (\<lambda>w. (w, Inr None))\<rparr>"

theorem faulty_wire_frames_witness:
  "\<exists>f'. write_bytes (faulty_port tape_port) (concat (map to_bytes [ack_frame 0, ack_frame 1]))
      (faulty_on_write [] (fault_drop_first 1)) = (f', Inr ()) \<and> ft_inner f' = to_bytes (ack_frame 1)"
proof -
  have "\<exists>w'. write_byte tape_port b w = (w', Inr ()) \<and> w' = w @ [b]" for b w by (simp add: tape_port_def)
  moreover have "fp_frame_granularity (fault_drop_first 1)" by (simp add: fault_drop_first_def fault_none_def)
  moreover have "\<forall>f \<in> set [ack_frame 0, ack_frame 1]. frame_ok f"
    by (simp add: frame_ok_def semantics_ok_def ack_frame_def raw_frame_def)
  moreover have "fault_image (fault_drop_first 1) 0 (map to_bytes [ack_frame 0, ack_frame 1]) = [to_bytes (ack_frame 1)]"
    by (simp add: fault_drop_first_def fault_none_def should_drop_def should_corrupt_def fault_hits_def sat_inc_def
        word_le_nat_alt)
  ultimately show ?thesis
    using faulty_wire_frames [of tape_port "\<lambda>w. w" "fault_drop_first 1" "[ack_frame 0, ack_frame 1]" "[]"] by auto
qed

text \<open>
  When the wrapped port fails in the middle of a frame, the write that completed the frame reports
  the failure, but the staging buffer is empty: the caller's retry of that byte succeeds without
  a byte on the wire and starts a new frame with it.
\<close>

lemma faulty_retry_misaligns:
  assumes "fp_frame_granularity (ft_write_policy f)" and "ft_write_fill f = 3" and "length (ft_write_buf f) = 4"
    and "faulty_write p b f = (f1, Inl e)"
  shows "\<exists>f2. faulty_write p b f1 = (f2, Inr ()) \<and> ft_inner f2 = ft_inner f1 \<and> ft_write_fill f2 = 1 \<and>
    ft_write_buf f2 ! 0 = b"
proof -
  obtain x0 x1 x2 x3 where buf: "ft_write_buf f = [x0, x1, x2, x3]" using assms(3) by (rule length4E)
  have "ft_write_fill f1 = 0 \<and> length (ft_write_buf f1) = 4 \<and> fp_frame_granularity (ft_write_policy f1)"
    using assms by (auto simp: faulty_write_def faulty_write_frame_def buf Let_def split: if_splits prod.splits)
  then show ?thesis by (simp add: faulty_write_def)
qed

end
