(* ===== verification/Shows.thy ===== *)
theory Shows
  imports WireCopy Harness Drive Fault
begin

text \<open>
  The runnable examples over the wire and the harness: \<open>examples/ab_direct.rs\<close> and
  \<open>examples/jpeg_over_uart.rs\<close> copy over the wire, \<open>examples/radio_windowed.rs\<close> copies in a window over
  a radio that loses a frame, \<open>examples/p2p_pair.rs\<close> connects two nodes and sends a message each way.
  The two copies are shown to pass their own assertions.
\<close>

datatype show_end = ShowOk | ShowExit | ShowPanic

section \<open>Direct copies\<close>

definition AB_PING :: "u8 list" where "AB_PING = [0x70, 0x69, 0x6E, 0x67]"
definition AB_PONG :: "u8 list" where "AB_PONG = [0x70, 0x6F, 0x6E, 0x67]"

definition ab_leg :: "u8 list \<Rightarrow> show_end" where
  "ab_leg text =
     (case wire_copy slice_byte_source slice_byte_sink duplex_new (slice_source_new text) (slice_sink_new (replicate 8 0)) of
        (_, _, _, Inl _) \<Rightarrow> ShowExit
      | (_, _, sink, Inr n) \<Rightarrow> if n = length text \<and> slice_sink_written sink = text then ShowOk else ShowPanic)"

definition ab_direct :: show_end where
  "ab_direct = (case ab_leg AB_PING of ShowOk \<Rightarrow> ab_leg AB_PONG | e \<Rightarrow> e)"

definition camera_ram :: "u8 list" where
  "camera_ram =
     ((((replicate 20 0)[0 := 0xFF, 1 := 0xD8, 2 := 0xFF, 3 := 0xE0, 4 := 0x00, 5 := 0x10])
        [6 := 0x4A, 7 := 0x46, 8 := 0x49, 9 := 0x46, 10 := 0])[11 := 1, 12 := 1, 15 := 1, 17 := 1])"

definition jpeg_over_uart :: show_end where
  "jpeg_over_uart =
     (case wire_copy slice_byte_source slice_byte_sink duplex_new (slice_source_new camera_ram) (slice_sink_new (replicate 20 0)) of
        (_, _, _, Inl _) \<Rightarrow> ShowExit
      | (_, _, sink, Inr n) \<Rightarrow>
          if n = 20 \<and> slice_sink_written sink = camera_ram \<and> take 2 (sk_buf sink) = [0xFF, 0xD8] then ShowOk else ShowPanic)"

section \<open>The radio\<close>

definition EEPROM :: "u8 list" where
  "EEPROM = map (\<lambda>i. of_nat (i mod 256)) [0..<300]"

text \<open>The loop stands over the faulty end of the sender, whose inside is the wire of the receiver.\<close>

fun radio_rounds ::
  "nat \<Rightarrow> wires faulty \<Rightarrow> wsender \<Rightarrow> wreceiver \<Rightarrow> slice_source \<Rightarrow> slice_sink \<Rightarrow> window_loop \<Rightarrow> slice_sink \<times> nat \<times> bool" where
  "radio_rounds 0 w tx rx s k l = (k, hl_n l, False)"
| "radio_rounds (Suc rounds) w tx rx s k l =
     (case hold_read slice_byte_source s l of
        (_, Inl _) \<Rightarrow> (k, hl_n l, False)
      | (s1, Inr l1) \<Rightarrow>
          (case window_offer_held tx l1 of
             (_, Inl _) \<Rightarrow> (k, hl_n l1, False)
           | (tx1, Inr l2) \<Rightarrow>
               (case wsender_poll (faulty_port (end_port True)) w tx1 of
                  (_, _, Inl _) \<Rightarrow> (k, hl_n l2, False)
                | (w1, tx2, Inr _) \<Rightarrow>
                    (case wreceiver_poll (end_port False) (ft_inner w1) rx of
                       (v, rx1, Inr (OutDelivered byte)) \<Rightarrow>
                         (case sink_write slice_byte_sink byte k of
                            (k1, Inl _) \<Rightarrow> (k1, hl_n l2, False)
                          | (k1, Inr _) \<Rightarrow> radio_rounds rounds (w1\<lparr>ft_inner := v\<rparr>) tx2 rx1 s1 k1 (l2\<lparr>hl_n := hl_n l2 + 1\<rparr>))
                     | (v, rx1, Inr OutTransferFinished) \<Rightarrow> (k, hl_n l2, True)
                     | (v, rx1, Inr _) \<Rightarrow> radio_rounds rounds (w1\<lparr>ft_inner := v\<rparr>) tx2 rx1 s1 k l2
                     | (v, rx1, Inl _) \<Rightarrow> (k, hl_n l2, False)))))"

definition radio_windowed :: show_end where
  "radio_windowed =
     (case radio_rounds 2000000 (faulty_on_write wires_new (fault_drop_first 1))
          (wsender_with_policy 8 (retry_policy_new 128 16)) (wreceiver_new 8) (slice_source_new EEPROM)
          (slice_sink_new (replicate 300 0)) \<lparr>hl_hold = None, hl_exhausted = False, hl_n = 0, hl_finish_offered = False\<rparr> of
        (sink, n, ok) \<Rightarrow> if ok \<and> n = 300 \<and> slice_sink_written sink = EEPROM then ShowOk else ShowExit)"

section \<open>Two nodes\<close>

definition wire_cable :: "(lanes, duplex_full) cable" where
  "wire_cable =
     \<lparr>cb_atx = duplex_port True True, cb_arx = duplex_port True False,
      cb_btx = duplex_port False True, cb_brx = duplex_port False False\<rparr>"

text \<open>The same cable and the same ends, seen from the other side.\<close>

definition cable_turned :: "('w, 'e) cable \<Rightarrow> ('w, 'e) cable" where
  "cable_turned cb = \<lparr>cb_atx = cb_btx cb, cb_arx = cb_brx cb, cb_btx = cb_atx cb, cb_brx = cb_arx cb\<rparr>"

definition ends_turned :: "'w ends \<Rightarrow> 'w ends" where
  "ends_turned s = \<lparr>en_world = en_world s, en_a = en_b s, en_alice = en_bob s, en_b = en_a s, en_bob = en_alice s\<rparr>"

text \<open>What is printed of a message: its bytes, and the ticks and the retries it took.\<close>

type_synonym report = "u8 list \<times> u64 \<times> u32"

definition show_report :: "defragmenter \<Rightarrow> session_stats \<Rightarrow> session_stats \<Rightarrow> report" where
  "show_report inbox after before =
     (defrag_slice inbox,
      if st_ticks before \<le> st_ticks after then st_ticks after - st_ticks before else 0,
      if st_retries before \<le> st_retries after then st_retries after - st_retries before else 0)"

definition p2p_connect :: "(unit + lanes ends)" where
  "p2p_connect =
     (case duplex_link_pumps of
        (pump_a, pump_b) \<Rightarrow>
          let alice = node_with 4 (peer_from_label [0x61, 0x6C, 0x69, 0x63, 0x65]) config_forum;
              bob = node_with 4 (peer_from_label [0x62, 0x6F, 0x62]) config_forum
          in (case node_connect pump_a alice of
                (_, Inl _) \<Rightarrow> Inl ()
              | (alice', Inr a) \<Rightarrow>
                  (case establish wire_cable
                      \<lparr>en_world = duplex_new, en_a = a, en_alice = alice', en_b = node_accept pump_b bob, en_bob = bob\<rparr> of
                     (s, ok) \<Rightarrow> if ok then Inr s else Inl ())))"

definition p2p_pair :: "(unit + report \<times> report) option" where
  "p2p_pair =
     (case p2p_connect of
        Inl _ \<Rightarrow> Some (Inl ())
      | Inr s0 \<Rightarrow>
          Option.bind (send_message wire_cable 1 [0x70, 0x69, 0x6E, 0x67] s0 (defragmenter_new (replicate 32 0)))
            (\<lambda>(s1, inbox1, ok1).
              if \<not> ok1 then Some (Inl ())
              else Option.bind (send_message (cable_turned wire_cable) 2 [0x70, 0x6F, 0x6E, 0x67] (ends_turned s1) inbox1)
                (\<lambda>(s2, inbox2, ok2).
                  if \<not> ok2 then Some (Inl ())
                  else Some (Inr
                    (show_report inbox1 (pm_stats (lk_pump (en_b s1))) (pm_stats (lk_pump (en_b s0))),
                     show_report inbox2 (pm_stats (lk_pump (en_b s2))) (pm_stats (lk_pump (en_a s1))))))))"

section \<open>The copies pass\<close>

lemma ab_leg_ok:
  assumes "length text \<le> 8"
  shows "ab_leg text = ShowOk"
proof -
  have room: "length text \<le> length (replicate 8 0 :: u8 list)" using assms by simp
  have rounds: "16 * (length text + 1) \<le> 1000000" using assms by simp
  from wire_copies [OF room rounds] show ?thesis by (auto simp: ab_leg_def)
qed

lemma camera_ram: "length camera_ram = 20" "take 2 camera_ram = [0xFF, 0xD8]"
  by (simp_all add: camera_ram_def numeral_eq_Suc)

lemma p2p_pair_returns: "\<exists>r. p2p_pair = Some r"
proof (cases p2p_connect)
  case (Inr s0)
  have f: "0 < fg_chunk (fragmenter_new stream_forum (MessageId m) body 4)" for m body by (simp add: fragmenter_new_def)
  have r: "\<exists>x. send_message cb m body s inbox = Some x" for cb :: "(lanes, duplex_full) cable" and m body s inbox
    unfolding send_message_def by (rule send_fragments_returns [OF f])
  obtain s1 inbox1 ok1 where 1: "send_message wire_cable 1 [0x70, 0x69, 0x6E, 0x67] s0 (defragmenter_new (replicate 32 0)) = Some (s1, inbox1, ok1)"
    using r by (metis prod_cases3)
  obtain s2 inbox2 ok2 where 2: "send_message (cable_turned wire_cable) 2 [0x70, 0x6F, 0x6E, 0x67] (ends_turned s1) inbox1 = Some (s2, inbox2, ok2)"
    using r by (metis prod_cases3)
  show ?thesis unfolding p2p_pair_def Inr sum.case 1 2 Option.bind.bind_lunit prod.case by (cases ok1; cases ok2; simp)
next
  case (Inl x)
  show ?thesis unfolding p2p_pair_def Inl sum.case by blast
qed

text \<open>
  The copies of the examples pass: \<open>ab_direct\<close> moves both its texts and \<open>jpeg_over_uart\<close> its picture
  over the wire, and no assertion of theirs fails.
\<close>

theorem direct_copies_pass: "ab_direct = ShowOk \<and> jpeg_over_uart = ShowOk"
proof
  show "ab_direct = ShowOk" by (simp add: ab_direct_def ab_leg_ok AB_PING_def AB_PONG_def)
  have room: "length camera_ram \<le> length (replicate 20 0 :: u8 list)" by (simp add: camera_ram(1))
  have rounds: "16 * (length camera_ram + 1) \<le> 1000000" by (simp add: camera_ram(1))
  from wire_copies [OF room rounds] obtain d' s' k' where
    c: "wire_copy slice_byte_source slice_byte_sink duplex_new (slice_source_new camera_ram) (slice_sink_new (replicate 20 0)) =
      (d', s', k', Inr 20)" "slice_sink_written k' = camera_ram" by (auto simp: camera_ram(1))
  have "take 2 (take (sk_pos k') (sk_buf k')) = [0xFF, 0xD8]" using c(2) camera_ram(2) by (simp add: slice_sink_written_def)
  moreover have "2 \<le> sk_pos k'"
    using arg_cong [OF c(2), of length] camera_ram(1) by (simp add: slice_sink_written_def)
  ultimately have "take 2 (sk_buf k') = [0xFF, 0xD8]" by (simp add: min_def)
  then show "jpeg_over_uart = ShowOk" using c by (simp add: jpeg_over_uart_def)
qed

end
