(* ===== verification/HarnessLink.thy ===== *)
theory HarnessLink
  imports Drive
begin

text \<open>
  The peer links of the examples' harness (\<open>examples/common/link.rs\<close>): the same two drivers as
  \<open>src/p2p/drive.rs\<close>, on tables instead of nodes, and with a test of the sender's state only, where the
  crate also asks that nothing is outstanding.  The lemmas show that they are the crate's drivers: a
  well-formed windowed sender that is idle has nothing outstanding.
\<close>

section \<open>The code\<close>

record 'w link_pair =
  lp_world :: 'w
  lp_a :: link
  lp_alice :: peer_table
  lp_b :: link
  lp_bob :: peer_table

definition pair_poll_a :: "('w, 'e) cable \<Rightarrow> 'w link_pair \<Rightarrow> 'w link_pair \<times> ('e link_error + link_event)" where
  "pair_poll_a cb s =
     (case link_poll (cb_atx cb) (cb_arx cb) (lp_world s) (lp_alice s) (lp_a s) of
        (w, t, lk, r) \<Rightarrow> (s\<lparr>lp_world := w, lp_alice := t, lp_a := lk\<rparr>, r))"

definition pair_poll_b :: "('w, 'e) cable \<Rightarrow> 'w link_pair \<Rightarrow> 'w link_pair \<times> ('e link_error + link_event)" where
  "pair_poll_b cb s =
     (case link_poll (cb_btx cb) (cb_brx cb) (lp_world s) (lp_bob s) (lp_b s) of
        (w, t, lk, r) \<Rightarrow> (s\<lparr>lp_world := w, lp_bob := t, lp_b := lk\<rparr>, r))"

fun established_steps :: "nat \<Rightarrow> ('w, 'e) cable \<Rightarrow> bool \<Rightarrow> bool \<Rightarrow> 'w link_pair \<Rightarrow> 'w link_pair \<times> bool" where
  "established_steps 0 cb a_ok b_ok s = (s, False)"
| "established_steps (Suc n) cb a_ok b_ok s =
     (case pair_poll_a cb s of
        (s1, ra) \<Rightarrow>
          if link_failed ra then (s1, False)
          else (case pair_poll_b cb s1 of
              (s2, rb) \<Rightarrow>
                let a_ok' = (a_ok \<or> ra = Inr LinkEstablished); b_ok' = (b_ok \<or> rb = Inr LinkEstablished)
                in if link_failed rb then (s2, False)
                   else if a_ok' \<and> b_ok' then (s2, True)
                   else established_steps n cb a_ok' b_ok' s2))"

definition established :: "('w, 'e) cable \<Rightarrow> 'w link_pair \<Rightarrow> 'w link_pair \<times> bool" where
  "established cb s = established_steps 100000 cb False False s"

text \<open>\<open>offer\<close>, with \<open>tx\<close> the link \<open>a\<close> and \<open>rx\<close> the link \<open>b\<close>.\<close>

definition pair_offer :: "u8 option \<Rightarrow> 'w link_pair \<Rightarrow> 'w link_pair \<times> u8 option" where
  "pair_offer hold s =
     (case hold of
        None \<Rightarrow> (s, None)
      | Some b \<Rightarrow> (case link_offer b (lp_a s) of
            (lk, Inr _) \<Rightarrow> (s\<lparr>lp_a := lk\<rparr>, None)
          | (lk, Inl (e :: unit error)) \<Rightarrow> (s\<lparr>lp_a := lk\<rparr>, Some b)))"

fun pair_offer_steps ::
  "nat \<Rightarrow> ('w, 'e) cable \<Rightarrow> u8 option \<Rightarrow> 'w link_pair \<Rightarrow> defragmenter \<Rightarrow> 'w link_pair \<times> defragmenter \<times> bool" where
  "pair_offer_steps 0 cb hold s inbox = (s, inbox, False)"
| "pair_offer_steps (Suc n) cb hold s inbox =
     (case pair_offer hold s of
        (s1, hold') \<Rightarrow>
          (case pair_poll_a cb s1 of
             (s2, ra) \<Rightarrow>
               if link_failed ra then (s2, inbox, False)
               else (case pair_poll_b cb s2 of
                   (s3, rb) \<Rightarrow>
                     (case inbox_take rb inbox of
                        (inbox', ok) \<Rightarrow>
                          if \<not> ok then (s3, inbox', False)
                          else if hold' = None \<and> wt_state (pm_tx (lk_pump (lp_a s3))) = TxIdle then (s3, inbox', True)
                          else pair_offer_steps n cb hold' s3 inbox'))))"

fun pair_offer_bytes ::
  "('w, 'e) cable \<Rightarrow> u8 list \<Rightarrow> 'w link_pair \<Rightarrow> defragmenter \<Rightarrow> 'w link_pair \<times> defragmenter \<times> bool" where
  "pair_offer_bytes cb [] s inbox = (s, inbox, True)"
| "pair_offer_bytes cb (b # bs) s inbox =
     (case pair_offer_steps 20000 cb (Some b) s inbox of
        (s', inbox', ok) \<Rightarrow> if ok then pair_offer_bytes cb bs s' inbox' else (s', inbox', False))"

partial_function (option) pair_send_fragments ::
  "('w, 'e) cable \<Rightarrow> fragmenter \<Rightarrow> 'w link_pair \<Rightarrow> defragmenter \<Rightarrow> ('w link_pair \<times> defragmenter \<times> bool) option" where
  "pair_send_fragments cb frag s inbox =
     (case next_fragment frag of
        (frag', None) \<Rightarrow> Some (s, inbox, df_complete inbox)
      | (frag', Some (header, chunk)) \<Rightarrow>
          (case pair_offer_bytes cb (header_to_bytes header) s inbox of
             (s1, inbox1, ok) \<Rightarrow>
               if \<not> ok then Some (s1, inbox1, False)
               else (case pair_offer_bytes cb chunk s1 inbox1 of
                   (s2, inbox2, ok2) \<Rightarrow>
                     if \<not> ok2 then Some (s2, inbox2, False) else pair_send_fragments cb frag' s2 inbox2)))"

definition pair_send_message ::
  "('w, 'e) cable \<Rightarrow> u16 \<Rightarrow> u8 list \<Rightarrow> 'w link_pair \<Rightarrow> defragmenter \<Rightarrow> ('w link_pair \<times> defragmenter \<times> bool) option" where
  "pair_send_message cb mid body s inbox =
     pair_send_fragments cb (fragmenter_new stream_forum (MessageId mid) body 4) s (defragmenter_reset inbox)"

section \<open>The crate's drivers\<close>

definition pair_of :: "'w ends \<Rightarrow> 'w link_pair" where
  "pair_of s = \<lparr>lp_world = en_world s, lp_a = en_a s, lp_alice = nd_table (en_alice s), lp_b = en_b s, lp_bob = nd_table (en_bob s)\<rparr>"

lemma pair_polls:
  "pair_poll_a cb (pair_of s) = (case ends_poll_a cb s of (s', r) \<Rightarrow> (pair_of s', r))"
  "pair_poll_b cb (pair_of s) = (case ends_poll_b cb s of (s', r) \<Rightarrow> (pair_of s', r))"
  by (simp_all add: pair_poll_a_def pair_poll_b_def ends_poll_a_def ends_poll_b_def pair_of_def split: prod.split)

lemma established_steps_of:
  "established_steps n cb a_ok b_ok (pair_of s) = (case establish_steps n cb a_ok b_ok s of (s', ok) \<Rightarrow> (pair_of s', ok))"
proof (induction n arbitrary: a_ok b_ok s)
  case (Suc n)
  obtain s1 ra where a: "ends_poll_a cb s = (s1, ra)" by fastforce
  obtain s2 rb where b: "ends_poll_b cb s1 = (s2, rb)" by fastforce
  show ?case using a b Suc by (simp add: pair_polls Let_def)
qed simp

section \<open>An idle sender has nothing outstanding\<close>

definition link_tx_wf :: "link \<Rightarrow> bool" where
  "link_tx_wf lk = wsender_wf (pm_tx (lk_pump lk))"

lemma link_offer_tx_wf: "link_offer b lk = (lk', r) \<Longrightarrow> link_tx_wf lk \<Longrightarrow> link_tx_wf lk'"
  by (auto simp: link_offer_def link_tx_wf_def link_set_tx_def split: prod.splits dest: wsender_wf_offer)

lemma link_offer_next_tx_wf:
  fixes r :: "'e error + unit"
  assumes "link_offer_next lk = (lk', r)" and "link_tx_wf lk"
  shows "link_tx_wf lk'"
proof -
  let ?tx = "pm_tx (lk_pump lk)"
  obtain s1 and r1 :: "'e error + unit" where s: "wsender_offer_start ?tx = (s1, r1)" by fastforce
  obtain s2 and r2 :: "'e error + unit" where o: "wsender_offer (lk_outgoing lk ! lk_out_at lk) ?tx = (s2, r2)" by fastforce
  have "wsender_wf s1" "wsender_wf s2"
    using wsender_wf_offer_start [of ?tx, where ?'a = 'e] wsender_wf_offer [OF _ o] s assms(2) by (simp_all add: link_tx_wf_def)
  then show ?thesis using assms s o
    by (cases r1; cases r2) (auto simp: link_offer_next_def link_tx_wf_def link_set_tx_def Let_def split: if_splits)
qed

lemma pump_step_tx:
  assumes "pump_step holds force take_mark tx_poll rx_poll w pm = (w', pm', r)" and "P (pm_tx pm)"
    and "\<And>w s w' s' x. tx_poll w s = (w', s', x) \<Longrightarrow> P s \<Longrightarrow> P s'"
    and "\<And>s. P s \<Longrightarrow> P (force s)" and "\<And>s. P s \<Longrightarrow> P (fst (take_mark s))"
  shows "P (pm_tx pm')"
proof (cases "pm_pending_completed pm")
  case True
  then show ?thesis using assms(1,2) by (auto simp: pump_step_def)
next
  case False
  obtain w1 rx' rr where 1: "rx_poll w (pm_rx pm) = (w1, rx', rr)" by (metis prod_cases3)
  show ?thesis
  proof (cases rr)
    case (Inl e)
    then show ?thesis using assms(1,2) 1 False by (auto simp: pump_step_def)
  next
    case (Inr rx)
    define tx0 where "tx0 = (if rx = OutAborted \<and> \<not> holds (pm_tx pm) then force (pm_tx pm) else pm_tx pm)"
    have f0: "P tx0" using assms(2,4) by (simp add: tx0_def)
    obtain w2 tx' tr where 2: "tx_poll w1 tx0 = (w2, tx', tr)" by (metis prod_cases3)
    have f: "P tx'" by (rule assms(3) [OF 2 f0])
    show ?thesis
    proof (cases tr)
      case (Inl e)
      then show ?thesis using assms(1) 1 2 Inr f False
        by (simp add: pump_step_def tx0_def [symmetric] Let_def cong: if_cong) auto
    next
      case tx: (Inr tx)
      obtain tx'' mark where 3: "take_mark tx' = (tx'', mark)" by (metis surj_pair)
      then have f3: "P tx''" using assms(5) [OF f] by simp
      obtain ev later where 4: "pump_event_of rx tx mark (tx = PollTransferDone \<and> \<not> pm_tx_done_seen pm) =
          (ev, later)" by (metis surj_pair)
      show ?thesis using assms(1) 1 2 3 4 Inr tx f3 False
        by (simp add: pump_step_def tx0_def [symmetric] Let_def cong: if_cong) (auto split: if_splits)
    qed
  qed
qed

lemma wpump_poll_tx_wf:
  assumes "wpump_poll ptx prx w pm = (w', pm', r)" and "wsender_wf (pm_tx pm)"
  shows "wsender_wf (pm_tx pm')"
  by (rule pump_step_tx [OF assms(1) [unfolded wpump_poll_def], where P = wsender_wf])
    (use assms(2) in \<open>auto simp: wsender_take_mark_def dest: wsender_wf_poll\<close>)

lemma link_settle_tx_wf: "link_settle t lk = (t', lk', ev) \<Longrightarrow> link_tx_wf lk \<Longrightarrow> link_tx_wf lk'"
  by (auto simp: link_settle_def link_apply_window_def link_sync_def link_tx_wf_def wpump_set_window_limit_def Let_def
      wsender_wf_set_window_limit split: if_splits option.splits)

lemma link_whole_hello_pump: "link_whole_hello t lk = (t', lk', r) \<Longrightarrow> lk_pump lk' = lk_pump lk"
  by (auto simp: link_whole_hello_def link_adopt_def split: if_splits option.splits prod.splits sum.splits)

lemma link_on_hello_byte_tx_wf:
  assumes "link_on_hello_byte b t lk = (t', lk', r)" and "link_tx_wf lk"
  shows "link_tx_wf lk'"
proof -
  let ?lk = "lk\<lparr>lk_incoming := (lk_incoming lk)[lk_in_len lk := b], lk_in_len := lk_in_len lk + 1\<rparr>"
  obtain t1 lk1 and r1 :: "'a link_error + unit" where h: "link_whole_hello t ?lk = (t1, lk1, r1)" by (metis prod_cases3)
  obtain t2 lk2 ev where s: "link_settle t1 lk1 = (t2, lk2, ev)" by (metis prod_cases3)
  have wf: "link_tx_wf lk1" using link_whole_hello_pump [OF h] assms(2) by (simp add: link_tx_wf_def)
  have "lk' = lk \<or> lk' = ?lk \<or> lk' = lk1 \<or> lk' = lk2"
    using assms(1) h s by (cases r1) (auto simp: link_on_hello_byte_def Let_def split: if_splits)
  then show ?thesis using wf link_settle_tx_wf [OF s wf] assms(2) by (auto simp: link_tx_wf_def)
qed

lemma link_on_event_tx_wf:
  assumes "link_on_event ev t lk = (t', lk', r)" and "link_tx_wf lk"
  shows "link_tx_wf lk'"
proof (cases "\<exists>b. ev = EvReceived b")
  case True
  then show ?thesis using assms link_on_hello_byte_tx_wf [of _ t lk t' lk' r]
    by (auto simp: link_on_event_def split: if_splits)
next
  case False
  then show ?thesis using assms
    by (cases ev) (auto simp: link_on_event_def link_sync_def link_tx_wf_def Let_def split: if_splits prod.splits)
qed

lemma link_poll_tx_wf:
  assumes "link_poll ptx prx w t lk = (w', t', lk', r)" and "link_tx_wf lk"
  shows "link_tx_wf lk'"
proof -
  obtain lk1 r1 where 1: "link_offer_next lk = (lk1, r1 :: 'b error + unit)" by fastforce
  have wf1: "link_tx_wf lk1" by (rule link_offer_next_tx_wf [OF 1 assms(2)])
  obtain w2 pm r2 where 2: "wpump_poll ptx prx w (lk_pump lk1) = (w2, pm, r2)" by (metis prod_cases3)
  have wf2: "wsender_wf (pm_tx pm)" using wpump_poll_tx_wf [OF 2] wf1 by (simp add: link_tx_wf_def)
  show ?thesis
  proof (cases "\<exists>ev. r1 = Inr () \<and> r2 = Inr ev")
    case True
    then obtain ev where ev: "r1 = Inr ()" "r2 = Inr ev" by blast
    then have "link_on_event ev t (lk1\<lparr>lk_pump := pm, lk_session := session_record_stats (pm_stats pm) (lk_session lk1)\<rparr>) = (t', lk', r)"
      using assms(1) 1 2 by (auto simp: link_poll_def split: prod.splits)
    then show ?thesis by (rule link_on_event_tx_wf) (simp add: link_tx_wf_def wf2)
  next
    case False
    then show ?thesis using assms(1) 1 2 wf1 wf2
      by (cases r1; cases r2) (auto simp: link_poll_def link_tx_wf_def)
  qed
qed

lemma link_tx_wf_idle: "link_tx_wf lk \<Longrightarrow> wt_state (pm_tx (lk_pump lk)) = TxIdle \<Longrightarrow> wsender_outstanding (pm_tx (lk_pump lk)) = 0"
  by (auto simp: link_tx_wf_def wsender_wf_def wsender_outstanding_def)

lemma pair_offer_of: "pair_offer hold (pair_of s) = (case ends_offer hold s of (s', hold') \<Rightarrow> (pair_of s', hold'))"
  by (auto simp: pair_offer_def ends_offer_def pair_of_def split: option.splits prod.splits sum.splits)

lemma ends_offer_tx_wf: "ends_offer hold s = (s', hold') \<Longrightarrow> link_tx_wf (en_a s) \<Longrightarrow> link_tx_wf (en_a s')"
  by (auto simp: ends_offer_def split: option.splits prod.splits sum.splits dest: link_offer_tx_wf)

lemma ends_polls_tx_wf:
  "ends_poll_a cb s = (s', r) \<Longrightarrow> link_tx_wf (en_a s) \<Longrightarrow> link_tx_wf (en_a s')"
  "ends_poll_b cb s = (s', r) \<Longrightarrow> link_tx_wf (en_a s) \<Longrightarrow> link_tx_wf (en_a s')"
  by (auto simp: ends_poll_a_def ends_poll_b_def split: prod.splits dest: link_poll_tx_wf)

lemma pair_offer_steps_of:
  assumes "link_tx_wf (en_a s)"
  shows "pair_offer_steps n cb hold (pair_of s) inbox =
      (case offer_byte_steps n cb hold s inbox of (s', inbox', ok) \<Rightarrow> (pair_of s', inbox', ok)) \<and>
    link_tx_wf (en_a (fst (offer_byte_steps n cb hold s inbox)))"
  using assms
proof (induction n arbitrary: hold s inbox)
  case (Suc n)
  obtain s1 h1 where 1: "ends_offer hold s = (s1, h1)" by fastforce
  obtain s2 ra where 2: "ends_poll_a cb s1 = (s2, ra)" by fastforce
  obtain s3 rb where 3: "ends_poll_b cb s2 = (s3, rb)" by fastforce
  obtain i4 ok where 4: "inbox_take rb inbox = (i4, ok)" by fastforce
  have wf: "link_tx_wf (en_a s1)" "link_tx_wf (en_a s2)" "link_tx_wf (en_a s3)"
    using ends_offer_tx_wf [OF 1 Suc.prems] ends_polls_tx_wf(1) [OF 2] ends_polls_tx_wf(2) [OF 3] by simp_all
  have sent: "ends_sent s3 = (wt_state (pm_tx (lk_pump (en_a s3))) = TxIdle)"
    using link_tx_wf_idle [OF wf(3)] by (auto simp: ends_sent_def)
  have a: "lp_a (pair_of s3) = en_a s3" by (simp add: pair_of_def)
  show ?case using 1 2 3 4 wf sent Suc.IH [OF wf(3)]
    by (simp add: pair_offer_of pair_polls a)
qed simp

lemma pair_offer_bytes_of:
  assumes "link_tx_wf (en_a s)"
  shows "pair_offer_bytes cb bs (pair_of s) inbox =
      (case offer_bytes cb bs s inbox of (s', inbox', ok) \<Rightarrow> (pair_of s', inbox', ok)) \<and>
    link_tx_wf (en_a (fst (offer_bytes cb bs s inbox)))"
  using assms
proof (induction bs arbitrary: s inbox)
  case (Cons b bs)
  obtain s1 i1 ok where 1: "offer_byte_steps 20000 cb (Some b) s inbox = (s1, i1, ok)" by (metis prod_cases3)
  have p: "pair_offer_steps 20000 cb (Some b) (pair_of s) inbox = (pair_of s1, i1, ok)" "link_tx_wf (en_a s1)"
    using pair_offer_steps_of [OF Cons.prems, of 20000 cb "Some b" inbox] 1 by simp_all
  show ?case using p 1 Cons.IH [OF p(2)] by (simp add: offer_byte_def del: offer_byte_steps.simps pair_offer_steps.simps)
qed simp

lemma pair_send_fragments_of:
  assumes "0 < fg_chunk g" and "link_tx_wf (en_a s)"
  shows "pair_send_fragments cb g (pair_of s) inbox =
    map_option (\<lambda>(s', inbox', ok). (pair_of s', inbox', ok)) (send_fragments cb g s inbox)"
  using assms
proof (induction "length (fg_rest g) + of_bool (\<not> fg_done g)" arbitrary: g s inbox rule: less_induct)
  case less
  show ?case
  proof (cases "fg_done g")
    case True
    then show ?thesis by (subst pair_send_fragments.simps, subst send_fragments.simps) (simp add: next_fragment_def)
  next
    case False
    obtain g' header chunk where n: "next_fragment g = (g', Some (header, chunk))"
      using False by (simp add: next_fragment_def Let_def)
    note g' = next_fragment_shrinks [OF n less.prems(1)]
    obtain s1 i1 ok1 where 1: "offer_bytes cb (header_to_bytes header) s inbox = (s1, i1, ok1)" by (metis prod_cases3)
    obtain s2 i2 ok2 where 2: "offer_bytes cb chunk s1 i1 = (s2, i2, ok2)" by (metis prod_cases3)
    have p1: "pair_offer_bytes cb (header_to_bytes header) (pair_of s) inbox = (pair_of s1, i1, ok1)" "link_tx_wf (en_a s1)"
      using pair_offer_bytes_of [OF less.prems(2), of cb "header_to_bytes header" inbox] 1 by simp_all
    have p2: "pair_offer_bytes cb chunk (pair_of s1) i1 = (pair_of s2, i2, ok2)" "link_tx_wf (en_a s2)"
      using pair_offer_bytes_of [OF p1(2), of cb chunk i1] 2 by simp_all
    show ?thesis using n 1 2 p1(1) p2(1) less.hyps [OF g' p2(2), of i2]
      by (subst pair_send_fragments.simps, subst send_fragments.simps) simp
  qed
qed

text \<open>
  C30: The harness of the examples drives peer links exactly as the crate does.  Over tables,
  \<open>established\<close> takes the steps and gives the result of \<open>establish\<close> over the nodes that own the
  tables; and sending a message over a link whose sender is well formed is the crate's
  \<open>send_message\<close>, although the harness stops waiting at an idle sender without counting what is
  outstanding.
\<close>

theorem harness_drives_as_crate:
  "established cb (pair_of s) = (case establish cb s of (s', ok) \<Rightarrow> (pair_of s', ok)) \<and>
   (wsender_wf (pm_tx (lk_pump (en_a s))) \<longrightarrow>
      pair_send_message cb mid body (pair_of s) inbox =
        map_option (\<lambda>(s', inbox', ok). (pair_of s', inbox', ok)) (send_message cb mid body s inbox))"
proof (intro conjI impI)
  show "established cb (pair_of s) = (case establish cb s of (s', ok) \<Rightarrow> (pair_of s', ok))"
    by (simp add: established_def establish_def established_steps_of)
  assume "wsender_wf (pm_tx (lk_pump (en_a s)))"
  then have wf: "link_tx_wf (en_a s)" by (simp add: link_tx_wf_def)
  have g: "0 < fg_chunk (fragmenter_new stream_forum (MessageId mid) body 4)" by (simp add: fragmenter_new_def)
  show "pair_send_message cb mid body (pair_of s) inbox =
      map_option (\<lambda>(s', inbox', ok). (pair_of s', inbox', ok)) (send_message cb mid body s inbox)"
    unfolding pair_send_message_def send_message_def by (rule pair_send_fragments_of [OF g wf])
qed

text \<open>Two links that have not spoken yet, over the in-memory wire.\<close>

definition demo_ends :: "lanes ends" where
  "demo_ends =
     (let nd = node_new 1 (peer_from_label [1]); pm = wpump_set_window_limit 1 (wpump_on MAX_WINDOW)
      in \<lparr>en_world = duplex_new, en_a = node_accept pm nd, en_alice = nd, en_b = node_accept pm nd, en_bob = nd\<rparr>)"

lemma demo_ends_wf: "wsender_wf (pm_tx (lk_pump (en_a demo_ends)))"
proof -
  have "check_window MAX_WINDOW" by (simp add: check_window_def MAX_WINDOW_def)
  from wsender_wf_set_window_limit [OF wsender_wf_set_window_limit [OF wsender_wf_with_policy [OF this, of retry_policy_default]], of 1 1]
  show ?thesis by (simp add: demo_ends_def node_accept_def link_accept_def wpump_set_window_limit_def wpump_on_def
      pump_new_def wsender_new_def Let_def)
qed

theorem harness_drives_as_crate_witness:
  "pair_send_message \<lparr>cb_atx = duplex_port True True, cb_arx = duplex_port True False,
       cb_btx = duplex_port False True, cb_brx = duplex_port False False\<rparr> 1 [7] (pair_of demo_ends) (defragmenter_new [0, 0]) =
     map_option (\<lambda>(s', inbox', ok). (pair_of s', inbox', ok))
       (send_message \<lparr>cb_atx = duplex_port True True, cb_arx = duplex_port True False,
          cb_btx = duplex_port False True, cb_brx = duplex_port False False\<rparr> 1 [7] demo_ends (defragmenter_new [0, 0]))"
  using harness_drives_as_crate demo_ends_wf by blast

end
