(* ===== verification/Bus.thy ===== *)
theory Bus
  imports Transport Ring
begin

text \<open>
  The byte pipe of the examples that speak over a link face (\<open>examples/firmware_flash.rs\<close>,
  \<open>examples/sensor_telemetry.rs\<close>): two rings that keep a head and a length but no tail, and the two
  ends over them.  The ring without a tail is the ring with one; each end is a link that moves every
  byte.
\<close>

section \<open>The code\<close>

record slim_ring =
  sl_buf :: "u8 list"
  sl_head :: nat
  sl_len :: nat

definition slim_new :: "nat \<Rightarrow> slim_ring" where
  "slim_new cap = \<lparr>sl_buf = replicate cap 0, sl_head = 0, sl_len = 0\<rparr>"

definition slim_push :: "nat \<Rightarrow> u8 \<Rightarrow> slim_ring \<Rightarrow> slim_ring \<times> bool" where
  "slim_push cap byte r =
     (if sl_len r = cap then (r, False)
      else (r\<lparr>sl_buf := (sl_buf r)[(sl_head r + sl_len r) mod cap := byte], sl_len := sl_len r + 1\<rparr>, True))"

definition slim_pop :: "nat \<Rightarrow> slim_ring \<Rightarrow> slim_ring \<times> u8 option" where
  "slim_pop cap r =
     (if sl_len r = 0 then (r, None)
      else (r\<lparr>sl_head := (sl_head r + 1) mod cap, sl_len := sl_len r - 1\<rparr>, Some (sl_buf r ! sl_head r)))"

record bus =
  bs_out :: slim_ring
  bs_back :: slim_ring

definition bus_new :: "nat \<Rightarrow> bus" where
  "bus_new cap = \<lparr>bs_out = slim_new cap, bs_back = slim_new cap\<rparr>"

text \<open>The first end (\<open>is_host\<close>, \<open>is_a\<close>) writes the ring that goes out and reads the other.\<close>

definition bus_port :: "nat \<Rightarrow> bool \<Rightarrow> (bus, unit) port" where
  "bus_port cap is_a =
     \<lparr>write_byte = (\<lambda>byte w.
        if is_a then (case slim_push cap byte (bs_out w) of (r, ok) \<Rightarrow> (w\<lparr>bs_out := r\<rparr>, if ok then Inr () else Inl ()))
        else (case slim_push cap byte (bs_back w) of (r, ok) \<Rightarrow> (w\<lparr>bs_back := r\<rparr>, if ok then Inr () else Inl ()))),
      read_byte = (\<lambda>w.
        if is_a then (case slim_pop cap (bs_back w) of (r, b) \<Rightarrow> (w\<lparr>bs_back := r\<rparr>, Inr b))
        else (case slim_pop cap (bs_out w) of (r, b) \<Rightarrow> (w\<lparr>bs_out := r\<rparr>, Inr b)))\<rparr>"

section \<open>The ring without a tail\<close>

definition slim_of :: "ring \<Rightarrow> slim_ring" where
  "slim_of r = \<lparr>sl_buf = rg_buf r, sl_head = rg_head r, sl_len = rg_len r\<rparr>"

definition tailed :: "nat \<Rightarrow> slim_ring \<Rightarrow> ring" where
  "tailed cap s = \<lparr>rg_buf = sl_buf s, rg_head = sl_head s, rg_tail = (sl_head s + sl_len s) mod cap, rg_len = sl_len s\<rparr>"

lemma slim_of_tailed [simp]: "slim_of (tailed cap s) = s"
  by (simp add: slim_of_def tailed_def)

lemma slim_simulates:
  assumes "ring_wf_in cap r"
  shows "slim_push cap b (slim_of r) = (case ring_push_in cap b r of (r', ok) \<Rightarrow> (slim_of r', ok))"
    and "slim_pop cap (slim_of r) = (case ring_pop_in cap r of (r', x) \<Rightarrow> (slim_of r', x))"
  using assms by (auto simp: slim_push_def slim_pop_def ring_push_in_def ring_pop_in_def ring_put_in_def slim_of_def ring_wf_in_def)

definition slim_wf :: "nat \<Rightarrow> slim_ring \<Rightarrow> bool" where
  "slim_wf cap s = (length (sl_buf s) = cap \<and> sl_head s < cap \<and> sl_len s \<le> cap)"

definition slim_contents :: "nat \<Rightarrow> slim_ring \<Rightarrow> u8 list" where
  "slim_contents cap s = map (\<lambda>i. sl_buf s ! ((sl_head s + i) mod cap)) [0..<sl_len s]"

lemma slim_wf_tailed: "slim_wf cap s \<Longrightarrow> ring_wf_in cap (tailed cap s)"
  by (auto simp: slim_wf_def ring_wf_in_def tailed_def)

lemma wf_slim_of: "ring_wf_in cap r \<Longrightarrow> slim_wf cap (slim_of r)"
  by (simp add: slim_wf_def ring_wf_in_def slim_of_def)

lemma slim_contents_of: "slim_contents cap (slim_of r) = ring_contents_in cap r"
  by (simp add: slim_contents_def slim_of_def ring_contents_in_def)

lemma slim_contents_tailed: "ring_contents_in cap (tailed cap s) = slim_contents cap s"
  using slim_contents_of [of cap "tailed cap s"] by simp

lemma slim_new: "0 < cap \<Longrightarrow> slim_wf cap (slim_new cap)" "slim_contents cap (slim_new cap) = []"
  by (simp_all add: slim_wf_def slim_new_def slim_contents_def)

lemma slim_push:
  assumes "slim_wf cap s" and "slim_push cap b s = (s', ok)"
  shows "slim_wf cap s' \<and> slim_contents cap s' = slim_contents cap s @ (if ok then [b] else []) \<and> (ok \<longleftrightarrow> sl_len s < cap)"
proof -
  obtain r' ok' where p: "ring_push_in cap b (tailed cap s) = (r', ok')" by fastforce
  have "s' = slim_of r'" "ok = ok'"
    using slim_simulates(1) [OF slim_wf_tailed [OF assms(1)], of b] p assms(2) by simp_all
  then show ?thesis using ring_push_in [OF slim_wf_tailed [OF assms(1)] p]
    by (auto simp: wf_slim_of slim_contents_of slim_contents_tailed) (simp_all add: tailed_def)
qed

lemma slim_pop:
  assumes "slim_wf cap s" and "slim_pop cap s = (s', x)"
  shows "slim_wf cap s' \<and> (case x of None \<Rightarrow> slim_contents cap s = [] \<and> s' = s
    | Some b \<Rightarrow> slim_contents cap s = b # slim_contents cap s')"
proof -
  obtain r' x' where p: "ring_pop_in cap (tailed cap s) = (r', x')" by fastforce
  have "s' = slim_of r'" "x = x'"
    using slim_simulates(2) [OF slim_wf_tailed [OF assms(1)]] p assms(2) by simp_all
  then show ?thesis using ring_pop_in [OF slim_wf_tailed [OF assms(1)] p]
    by (auto simp: wf_slim_of slim_contents_of slim_contents_tailed split: option.splits)
qed

lemma length_slim_contents [simp]: "length (slim_contents cap s) = sl_len s"
  by (simp add: slim_contents_def)

section \<open>The ends are links\<close>

definition bus_there :: "bool \<Rightarrow> bus \<Rightarrow> slim_ring" where
  "bus_there is_a w = (if is_a then bs_out w else bs_back w)"

definition bus_ok :: "nat \<Rightarrow> bus \<Rightarrow> bool" where
  "bus_ok cap w = (slim_wf cap (bs_out w) \<and> slim_wf cap (bs_back w))"

lemma bus_new_ok: "0 < cap \<Longrightarrow> bus_ok cap (bus_new cap)"
  using slim_new by (simp add: bus_ok_def bus_new_def)

interpretation bus_link: byte_link "bus_port cap is_a" "\<lambda>w. slim_contents cap (bus_there is_a w)"
  "\<lambda>w. slim_contents cap (bus_there (\<not> is_a) w)" "\<lambda>w. cap - sl_len (bus_there is_a w)" "bus_ok cap" for cap is_a
proof (unfold_locales, goal_cases)
  case (1 w b)
  then have wf: "slim_wf cap (bus_there is_a w)" "sl_len (bus_there is_a w) < cap" by (auto simp: bus_ok_def bus_there_def)
  obtain r ok where p: "slim_push cap b (bus_there is_a w) = (r, ok)" by fastforce
  have r: "ok" "slim_wf cap r" "slim_contents cap r = slim_contents cap (bus_there is_a w) @ [b]"
    using slim_push [OF wf(1) p] wf(2) by auto
  have "sl_len r = Suc (sl_len (bus_there is_a w))" using arg_cong [OF r(3), of length] by simp
  then show ?case using r p 1(1) wf(2) by (cases is_a) (simp_all add: bus_port_def bus_ok_def bus_there_def)
next
  case (2 w b bs)
  then have wf: "slim_wf cap (bus_there (\<not> is_a) w)" by (simp add: bus_ok_def bus_there_def)
  obtain r x where p: "slim_pop cap (bus_there (\<not> is_a) w) = (r, x)" by fastforce
  show ?case using slim_pop [OF wf p] p 2
    by (cases is_a) (auto simp: bus_port_def bus_ok_def bus_there_def split: option.splits)
next
  case (3 w)
  then have wf: "slim_wf cap (bus_there (\<not> is_a) w)" by (simp add: bus_ok_def bus_there_def)
  obtain r x where p: "slim_pop cap (bus_there (\<not> is_a) w) = (r, x)" by fastforce
  show ?case using slim_pop [OF wf p] p 3
    by (cases is_a) (auto simp: bus_port_def bus_ok_def bus_there_def split: option.splits)
qed

end
