(* ===== verification/Turn.thy ===== *)
theory Turn
  imports Pump
begin

text \<open>
  Turn taking on one link (\<open>src/transport/turn.rs\<close>): only the peer whose turn it is opens a session,
  and the turn passes when a session completes.  \<open>Turn\<close> and \<open>WindowTurn\<close> have the same state and
  the same \<open>push\<close>, \<open>abort\<close> and \<open>poll\<close> over their own pump; they differ in \<open>drive_tx\<close>, how the queue is
  offered to the sender.  What both drivers promise is the interface \<open>turn_driver\<close>, over which
  the facts about runs are proved once.
\<close>

section \<open>The code\<close>

datatype turn_event = TurnReceived u8 | TurnYielded | TurnGranted | TurnIdle

record ('tx, 'rx) turn =
  tn_pump :: "('tx, 'rx) pump"
  tn_speak :: bool
  tn_buf :: "u8 list"
  tn_len :: nat
  tn_index :: nat
  tn_need_start :: bool
  tn_finish_offered :: bool

definition turn_new :: "nat \<Rightarrow> ('tx, 'rx) pump \<Rightarrow> bool \<Rightarrow> ('tx, 'rx) turn" where
  "turn_new n pump first =
     \<lparr>tn_pump = pump, tn_speak = first, tn_buf = replicate n 0, tn_len = 0, tn_index = 0,
      tn_need_start = True, tn_finish_offered = False\<rparr>"

definition turn_reopen :: "('tx, 'rx) turn \<Rightarrow> ('tx, 'rx) turn" where
  "turn_reopen t = t\<lparr>tn_need_start := True, tn_index := 0, tn_finish_offered := False\<rparr>"

definition turn_abort ::
  "(('tx, 'rx) pump \<Rightarrow> ('tx, 'rx) pump \<times> ('e error + unit)) \<Rightarrow> ('tx, 'rx) turn \<Rightarrow>
     ('tx, 'rx) turn \<times> ('e error + unit)" where
  "turn_abort abort t = (case abort (tn_pump t) of (pm, r) \<Rightarrow> ((turn_reopen t)\<lparr>tn_pump := pm\<rparr>, r))"

text \<open>\<open>while n < bytes.len() && self.len < N\<close>\<close>

fun turn_fill :: "u8 list \<Rightarrow> ('tx, 'rx) turn \<Rightarrow> ('tx, 'rx) turn \<times> nat" where
  "turn_fill [] t = (t, 0)"
| "turn_fill (b # bs) t =
     (if tn_len t < length (tn_buf t)
      then (case turn_fill bs (t\<lparr>tn_buf := (tn_buf t)[tn_len t := b], tn_len := tn_len t + 1\<rparr>) of
              (t', n) \<Rightarrow> (t', Suc n))
      else (t, 0))"

definition turn_push :: "u8 list \<Rightarrow> ('tx, 'rx) turn \<Rightarrow> ('tx, 'rx) turn \<times> nat" where
  "turn_push bytes t = (if tn_finish_offered t then (t, 0) else turn_fill bytes t)"

text \<open>The match over the pump's event.\<close>

definition turn_on_event :: "pump_event \<Rightarrow> ('tx, 'rx) turn \<Rightarrow> ('tx, 'rx) turn \<times> turn_event" where
  "turn_on_event ev t =
     (case ev of
        EvReceived b \<Rightarrow> (t, TurnReceived b)
      | EvCompleted \<Rightarrow>
          if tn_speak t then ((turn_reopen t)\<lparr>tn_speak := False, tn_len := 0\<rparr>, TurnYielded)
          else ((turn_reopen t)\<lparr>tn_speak := True\<rparr>, TurnGranted)
      | EvAborted \<Rightarrow> (if tn_speak t then turn_reopen t else t, TurnIdle)
      | _ \<Rightarrow> (t, TurnIdle))"

definition turn_step ::
  "(('tx, 'rx) turn \<Rightarrow> ('tx, 'rx) turn) \<Rightarrow>
     ('w \<Rightarrow> ('tx, 'rx) pump \<Rightarrow> 'w \<times> ('tx, 'rx) pump \<times> ('e error + pump_event)) \<Rightarrow>
     'w \<Rightarrow> ('tx, 'rx) turn \<Rightarrow> 'w \<times> ('tx, 'rx) turn \<times> ('e error + turn_event)" where
  "turn_step drive poll w t0 =
     (let t = drive t0
      in case poll w (tn_pump t) of
           (w', pm, Inl e) \<Rightarrow> (w', t\<lparr>tn_pump := pm\<rparr>, Inl e)
         | (w', pm, Inr ev) \<Rightarrow>
             (case turn_on_event ev (t\<lparr>tn_pump := pm\<rparr>) of (t', out) \<Rightarrow> (w', t', Inr out)))"

definition turn_set_tx :: "'tx \<Rightarrow> ('tx, 'rx) turn \<Rightarrow> ('tx, 'rx) turn" where
  "turn_set_tx tx t = t\<lparr>tn_pump := (tn_pump t)\<lparr>pm_tx := tx\<rparr>\<rparr>"

definition turn_started :: "('tx, 'rx) turn \<Rightarrow> ('tx, 'rx) turn" where
  "turn_started t = t\<lparr>tn_need_start := False, tn_index := 0, tn_finish_offered := False\<rparr>"

text \<open>\<open>Turn::drive_tx\<close>\<close>

definition turn_drive_tx :: "(sender, receiver) turn \<Rightarrow> (sender, receiver) turn" where
  "turn_drive_tx t =
     (let tx = pm_tx (tn_pump t)
      in if \<not> tn_speak t \<or> tn_len t = 0 then t
         else if s_state tx \<notin> {TxIdle, TxFinished, TxAborted, TxFailed} then t
         else if tn_need_start t
         then (case sender_offer_start tx of
                 (tx', Inr _) \<Rightarrow> turn_started (turn_set_tx tx' t)
               | (tx', Inl (e :: unit error)) \<Rightarrow> turn_set_tx tx' t)
         else if s_state tx = TxIdle
         then (if tn_index t < tn_len t
               then (case sender_offer (tn_buf t ! tn_index t) tx of
                       (tx', Inr _) \<Rightarrow> (turn_set_tx tx' t)\<lparr>tn_index := tn_index t + 1\<rparr>
                     | (tx', Inl (e :: unit error)) \<Rightarrow> turn_set_tx tx' t)
               else if \<not> tn_finish_offered t
               then (case sender_offer_finish tx of
                       (tx', Inr _) \<Rightarrow> (turn_set_tx tx' t)\<lparr>tn_finish_offered := True\<rparr>
                     | (tx', Inl (e :: unit error)) \<Rightarrow> turn_set_tx tx' t)
               else t)
         else t)"

text \<open>\<open>WindowTurn::drive_tx\<close>; its loop offers the queue until the window is full.\<close>

function wturn_offer_rest :: "(wsender, wreceiver) turn \<Rightarrow> (wsender, wreceiver) turn \<times> bool" where
  "wturn_offer_rest t =
     (if tn_index t < tn_len t
      then (case wsender_offer (tn_buf t ! tn_index t) (pm_tx (tn_pump t)) of
              (tx', Inr _) \<Rightarrow> wturn_offer_rest ((turn_set_tx tx' t)\<lparr>tn_index := tn_index t + 1\<rparr>)
            | (tx', Inl (e :: unit error)) \<Rightarrow> (turn_set_tx tx' t, False))
      else (t, True))"
  by pat_completeness auto

termination wturn_offer_rest
  by (relation "measure (\<lambda>t. tn_len t - tn_index t)") (auto simp: turn_set_tx_def)

declare wturn_offer_rest.simps [simp del]

definition wturn_drive_tx :: "(wsender, wreceiver) turn \<Rightarrow> (wsender, wreceiver) turn" where
  "wturn_drive_tx t =
     (if \<not> tn_speak t \<or> tn_len t = 0 then t
      else if tn_need_start t
      then (case wsender_offer_start (pm_tx (tn_pump t)) of
              (tx', Inr _) \<Rightarrow> turn_started (turn_set_tx tx' t)
            | (tx', Inl (e :: unit error)) \<Rightarrow> turn_set_tx tx' t)
      else if tn_finish_offered t then t
      else (case wturn_offer_rest t of
              (t1, False) \<Rightarrow> t1
            | (t1, True) \<Rightarrow>
                (case wsender_offer_finish (pm_tx (tn_pump t1)) of
                   (tx', Inr _) \<Rightarrow> (turn_set_tx tx' t1)\<lparr>tn_finish_offered := True\<rparr>
                 | (tx', Inl (e :: unit error)) \<Rightarrow> turn_set_tx tx' t1)))"

definition turn_poll ::
  "('w, 'e) port \<Rightarrow> ('w, 'e) port \<Rightarrow> 'w \<Rightarrow> (sender, receiver) turn \<Rightarrow>
     'w \<times> (sender, receiver) turn \<times> ('e error + turn_event)" where
  "turn_poll ptx prx = turn_step turn_drive_tx (pump_poll ptx prx)"

definition wturn_poll ::
  "('w, 'e) port \<Rightarrow> ('w, 'e) port \<Rightarrow> 'w \<Rightarrow> (wsender, wreceiver) turn \<Rightarrow>
     'w \<times> (wsender, wreceiver) turn \<times> ('e error + turn_event)" where
  "wturn_poll ptx prx = turn_step wturn_drive_tx (wpump_poll ptx prx)"

section \<open>What a driver promises\<close>

text \<open>
  The cursor stays in the queue; before START nothing of the session has been offered; and FINISH
  is offered only behind the last queued byte.
\<close>

definition turn_wf :: "('tx, 'rx) turn \<Rightarrow> bool" where
  "turn_wf t = (tn_len t \<le> length (tn_buf t) \<and> tn_index t \<le> tn_len t \<and>
     (tn_need_start t \<longrightarrow> tn_index t = 0 \<and> \<not> tn_finish_offered t) \<and>
     (tn_finish_offered t \<longrightarrow> tn_index t = tn_len t))"

definition turn_queue :: "('tx, 'rx) turn \<Rightarrow> u8 list" where
  "turn_queue t = take (tn_len t) (tn_buf t)"

text \<open>Who may speak after a sequence of events, and whether the hand-overs alternate.\<close>

fun alternating :: "bool \<Rightarrow> turn_event list \<Rightarrow> bool" where
  "alternating speak [] = True"
| "alternating speak (TurnYielded # es) = (speak \<and> alternating False es)"
| "alternating speak (TurnGranted # es) = (\<not> speak \<and> alternating True es)"
| "alternating speak (_ # es) = alternating speak es"

fun speaking_after :: "bool \<Rightarrow> turn_event list \<Rightarrow> bool" where
  "speaking_after speak [] = speak"
| "speaking_after speak (TurnYielded # es) = speaking_after False es"
| "speaking_after speak (TurnGranted # es) = speaking_after True es"
| "speaking_after speak (_ # es) = speaking_after speak es"

inductive turn_run ::
  "(('tx, 'rx) turn \<Rightarrow> ('tx, 'rx) turn) \<Rightarrow>
     ('w \<Rightarrow> ('tx, 'rx) pump \<Rightarrow> 'w \<times> ('tx, 'rx) pump \<times> ('e error + pump_event)) \<Rightarrow>
     (('tx, 'rx) pump \<Rightarrow> ('tx, 'rx) pump \<times> ('e error + unit)) \<Rightarrow> bool \<Rightarrow>
     ('tx, 'rx) turn \<Rightarrow> turn_event list \<Rightarrow> bool" for drive poll abort first where
  tn_run_new: "turn_run drive poll abort first (turn_new n pm first) []"
| tn_run_poll: "turn_run drive poll abort first t es \<Longrightarrow> turn_step drive poll w t = (w', t', r) \<Longrightarrow>
    turn_run drive poll abort first t' (es @ (case r of Inr e \<Rightarrow> [e] | Inl _ \<Rightarrow> []))"
| tn_run_push: "turn_run drive poll abort first t es \<Longrightarrow> turn_push bs t = (t', n) \<Longrightarrow>
    turn_run drive poll abort first t' es"
| tn_run_abort: "turn_run drive poll abort first t es \<Longrightarrow> turn_abort abort t = (t', r) \<Longrightarrow>
    turn_run drive poll abort first t' es"

lemma alternating_append:
  "alternating speak (es @ fs) \<longleftrightarrow> alternating speak es \<and> alternating (speaking_after speak es) fs"
  by (induction speak es rule: alternating.induct) auto

lemma speaking_after_append: "speaking_after speak (es @ fs) = speaking_after (speaking_after speak es) fs"
  by (induction speak es rule: speaking_after.induct) auto

lemma turn_fill:
  assumes "turn_fill bs t = (t', n)" and "tn_len t \<le> length (tn_buf t)"
  shows "n = min (length bs) (length (tn_buf t) - tn_len t) \<and> tn_len t' = tn_len t + n \<and>
    length (tn_buf t') = length (tn_buf t) \<and> turn_queue t' = turn_queue t @ take n bs \<and>
    tn_speak t' = tn_speak t \<and> tn_index t' = tn_index t \<and> tn_need_start t' = tn_need_start t \<and>
    tn_finish_offered t' = tn_finish_offered t \<and> tn_pump t' = tn_pump t"
  using assms
proof (induction bs arbitrary: t t' n)
  case Nil
  then show ?case by simp
next
  case (Cons b bs)
  show ?case
  proof (cases "tn_len t < length (tn_buf t)")
    case True
    let ?t = "t\<lparr>tn_buf := (tn_buf t)[tn_len t := b], tn_len := tn_len t + 1\<rparr>"
    obtain m where m: "turn_fill bs ?t = (t', m)" "n = Suc m"
      using Cons.prems(1) True by (auto split: prod.splits)
    have "turn_queue ?t = turn_queue t @ [b]"
      using take_Suc_update [OF True, of b] by (simp add: turn_queue_def)
    then show ?thesis using Cons.IH [OF m(1)] m(2) True by auto
  next
    case False
    then show ?thesis using Cons.prems by auto
  qed
qed

locale turn_driver =
  fixes drive :: "('tx, 'rx) turn \<Rightarrow> ('tx, 'rx) turn"
  assumes listens: "\<not> tn_speak t \<or> tn_len t = 0 \<Longrightarrow> drive t = t"
    and keeps: "tn_speak (drive t) = tn_speak t \<and> tn_buf (drive t) = tn_buf t \<and> tn_len (drive t) = tn_len t"
    and in_queue: "turn_wf t \<Longrightarrow> turn_wf (drive t)"

context turn_driver
begin

lemma step_inv:
  assumes "turn_step drive poll w t = (w', t', r)" and "turn_wf t"
  shows "turn_wf t' \<and> alternating (tn_speak t) (case r of Inr e \<Rightarrow> [e] | Inl _ \<Rightarrow> []) \<and>
    tn_speak t' = speaking_after (tn_speak t) (case r of Inr e \<Rightarrow> [e] | Inl _ \<Rightarrow> [])"
proof -
  obtain w1 pm x where p: "poll w (tn_pump (drive t)) = (w1, pm, x)" by (metis prod_cases3)
  have d: "turn_wf ((drive t)\<lparr>tn_pump := pm\<rparr>)" "tn_speak (drive t) = tn_speak t"
    using in_queue [OF assms(2)] keeps [of t] by (simp_all add: turn_wf_def)
  show ?thesis
  proof (cases x)
    case (Inl e)
    then show ?thesis using assms(1) p d by (auto simp: turn_step_def)
  next
    case (Inr ev)
    then show ?thesis using assms(1) p d
      by (cases ev) (auto simp: turn_step_def turn_on_event_def turn_reopen_def turn_wf_def split: if_splits)
  qed
qed

lemma run_inv:
  "turn_run drive poll abort first t es \<Longrightarrow>
     turn_wf t \<and> alternating first es \<and> tn_speak t = speaking_after first es"
proof (induction rule: turn_run.induct)
  case (tn_run_new n pm)
  then show ?case by (simp add: turn_new_def turn_wf_def)
next
  case (tn_run_poll t es w w' t' r)
  then show ?case using step_inv [OF tn_run_poll.hyps(2)]
    by (simp add: alternating_append speaking_after_append)
next
  case (tn_run_push t es bs t' n)
  then show ?case using turn_fill [of bs t t' n]
    by (auto simp: turn_push_def turn_wf_def split: if_splits)
next
  case (tn_run_abort t es t' r)
  then show ?case by (auto simp: turn_abort_def turn_reopen_def turn_wf_def split: prod.splits)
qed

end

section \<open>The two drivers\<close>

lemma turn_set_tx_simps [simp]:
  "tn_speak (turn_set_tx tx t) = tn_speak t" "tn_buf (turn_set_tx tx t) = tn_buf t"
  "tn_len (turn_set_tx tx t) = tn_len t" "tn_index (turn_set_tx tx t) = tn_index t"
  "tn_need_start (turn_set_tx tx t) = tn_need_start t" "tn_finish_offered (turn_set_tx tx t) = tn_finish_offered t"
  by (simp_all add: turn_set_tx_def)

interpretation sw: turn_driver turn_drive_tx
  by unfold_locales
    (auto simp: turn_drive_tx_def turn_started_def turn_wf_def Let_def split: prod.splits sum.splits)

text \<open>The loop over the queue: it offers a prefix of what is left, in order, and stops at the end or
  at the first byte the window has no room for.\<close>

fun wsender_offers :: "u8 list \<Rightarrow> wsender \<Rightarrow> wsender \<Rightarrow> bool" where
  "wsender_offers [] s s' = (s' = s)"
| "wsender_offers (b # bs) s s' = (\<exists>s1. wsender_offer b s = (s1, Inr () :: unit error + unit) \<and> wsender_offers bs s1 s')"

lemma wturn_offer_rest:
  assumes "wturn_offer_rest t = (t', complete)" and "tn_len t \<le> length (tn_buf t)" and "tn_index t \<le> tn_len t"
  shows "\<exists>k s1. tn_index t' = tn_index t + k \<and> tn_index t' \<le> tn_len t \<and>
    t' = (turn_set_tx (pm_tx (tn_pump t')) t)\<lparr>tn_index := tn_index t'\<rparr> \<and>
    wsender_offers (take k (drop (tn_index t) (turn_queue t))) (pm_tx (tn_pump t)) s1 \<and>
    (if complete then tn_index t' = tn_len t \<and> pm_tx (tn_pump t') = s1
     else tn_index t' < tn_len t \<and>
       (\<exists>e. wsender_offer (turn_queue t ! tn_index t') s1 = (pm_tx (tn_pump t'), Inl e :: unit error + unit)))"
  using assms
proof (induction t rule: wturn_offer_rest.induct)
  case (1 t)
  show ?case
  proof (cases "tn_index t < tn_len t")
    case False
    then have "t' = t" "complete" using 1(2) by (subst (asm) wturn_offer_rest.simps; simp)+
    then show ?thesis using False 1(4) by (intro exI [of _ 0] exI [of _ "pm_tx (tn_pump t)"]) (simp add: turn_set_tx_def)
  next
    case True
    obtain tx r where o: "wsender_offer (tn_buf t ! tn_index t) (pm_tx (tn_pump t)) = (tx, r :: unit error + unit)"
      by (metis surj_pair)
    have q: "turn_queue t ! tn_index t = tn_buf t ! tn_index t" "tn_index t < length (turn_queue t)"
      using True 1(3) by (simp_all add: turn_queue_def)
    show ?thesis
    proof (cases r)
      case (Inl e)
      then have "t' = turn_set_tx tx t" "\<not> complete" using 1(2) True o by (subst (asm) wturn_offer_rest.simps; simp)+
      then show ?thesis using True o Inl q
        by (intro exI [of _ 0] exI [of _ "pm_tx (tn_pump t)"]) (simp add: turn_set_tx_def)
    next
      case (Inr u)
      let ?t = "(turn_set_tx tx t)\<lparr>tn_index := tn_index t + 1\<rparr>"
      have e: "wturn_offer_rest ?t = (t', complete)" using 1(2) True o Inr by (subst (asm) wturn_offer_rest.simps) simp
      have t: "turn_queue ?t = turn_queue t" "tn_len ?t = tn_len t" "tn_buf ?t = tn_buf t"
        "tn_index ?t = Suc (tn_index t)" "pm_tx (tn_pump ?t) = tx"
        by (simp_all add: turn_queue_def turn_set_tx_def)
      have "tn_len ?t \<le> length (tn_buf ?t)" "tn_index ?t \<le> tn_len ?t" using 1(3) True t by simp_all
      from 1(1) [OF True o [symmetric] Inr e this, unfolded t] obtain k s1 where
        k: "tn_index t' = Suc (tn_index t) + k" "tn_index t' \<le> tn_len t"
        "t' = (turn_set_tx (pm_tx (tn_pump t')) ?t)\<lparr>tn_index := tn_index t'\<rparr>"
        "wsender_offers (take k (drop (Suc (tn_index t)) (turn_queue t))) tx s1"
        "if complete then tn_index t' = tn_len t \<and> pm_tx (tn_pump t') = s1
         else tn_index t' < tn_len t \<and>
           (\<exists>e. wsender_offer (turn_queue t ! tn_index t') s1 = (pm_tx (tn_pump t'), Inl e :: unit error + unit))"
        by (elim exE conjE) (rule that)
      have "take (Suc k) (drop (tn_index t) (turn_queue t)) =
          (tn_buf t ! tn_index t) # take k (drop (Suc (tn_index t)) (turn_queue t))"
        using Cons_nth_drop_Suc [OF q(2)] q(1) by (metis take_Suc_Cons)
      then have "wsender_offers (take (Suc k) (drop (tn_index t) (turn_queue t))) (pm_tx (tn_pump t)) s1"
        using o Inr k(4) by auto
      moreover have "t' = (turn_set_tx (pm_tx (tn_pump t')) t)\<lparr>tn_index := tn_index t'\<rparr>"
        using k(3) by (simp add: turn_set_tx_def)
      ultimately show ?thesis using k(1,2,5) by (intro exI [of _ "Suc k"] exI [of _ s1]) simp
    qed
  qed
qed

lemma wturn_offer_rest_frame:
  assumes "wturn_offer_rest t = (t', complete)"
  shows "tn_speak t' = tn_speak t \<and> tn_buf t' = tn_buf t \<and> tn_len t' = tn_len t \<and>
    tn_need_start t' = tn_need_start t \<and> tn_finish_offered t' = tn_finish_offered t"
  using assms
proof (induction t rule: wturn_offer_rest.induct)
  case (1 t)
  then show ?case
    by (subst (asm) (2) wturn_offer_rest.simps) (auto split: if_splits prod.splits sum.splits)
qed

interpretation win: turn_driver wturn_drive_tx
proof (unfold_locales, goal_cases)
  case (1 t)
  then show ?case by (auto simp: wturn_drive_tx_def)
next
  case (2 t)
  then show ?case
    by (auto simp: wturn_drive_tx_def turn_started_def split: prod.splits sum.splits bool.splits
        dest!: wturn_offer_rest_frame)
next
  case (3 t)
  obtain t1 complete where o: "wturn_offer_rest t = (t1, complete)" by (metis surj_pair)
  note f = wturn_offer_rest_frame [OF o] and i = wturn_offer_rest [OF o]
  have "turn_wf t1" "complete \<longrightarrow> tn_index t1 = tn_len t" if "\<not> tn_need_start t" "\<not> tn_finish_offered t"
    using i f 3 that by (auto simp: turn_wf_def split: if_splits)
  then show ?case using 3 o f
    by (auto simp: wturn_drive_tx_def turn_started_def turn_wf_def split: prod.splits sum.splits bool.splits)
qed

section \<open>Properties\<close>


lemma turn_alternates_sw:
  "turn_run turn_drive_tx (pump_poll ptx prx) pump_abort first t es \<Longrightarrow>
     alternating first es \<and> tn_speak t = speaking_after first es \<and> turn_wf t"
  using sw.run_inv by blast


text \<open>
  A window turn streams its queue.  In an open session one poll offers the sender the queued
  bytes from the cursor on, in order, each once, until the queue is at its end or the window
  refuses the next byte, which is then offered again by the next poll; FINISH is offered only
  after the last byte was accepted.
\<close>

theorem turn_streams_queue:
  assumes "turn_wf t" and "tn_speak t" and "tn_len t \<noteq> 0" and "\<not> tn_need_start t" and "\<not> tn_finish_offered t"
  shows "\<exists>k s1. wsender_offers (take k (drop (tn_index t) (turn_queue t))) (pm_tx (tn_pump t)) s1 \<and>
    tn_index (wturn_drive_tx t) = tn_index t + k \<and> turn_queue (wturn_drive_tx t) = turn_queue t \<and>
    (if tn_index t + k < tn_len t
     then \<not> tn_finish_offered (wturn_drive_tx t) \<and>
       (\<exists>e s2. wsender_offer (turn_queue t ! (tn_index t + k)) s1 = (s2, Inl e :: unit error + unit))
     else tn_finish_offered (wturn_drive_tx t) =
       (\<exists>s2. wsender_offer_finish s1 = (s2, Inr () :: unit error + unit)))"
proof -
  obtain t1 complete where o: "wturn_offer_rest t = (t1, complete)" by (metis surj_pair)
  note f = wturn_offer_rest_frame [OF o]
  obtain k s1 where k: "tn_index t1 = tn_index t + k" "tn_index t1 \<le> tn_len t"
    "wsender_offers (take k (drop (tn_index t) (turn_queue t))) (pm_tx (tn_pump t)) s1"
    "if complete then tn_index t1 = tn_len t \<and> pm_tx (tn_pump t1) = s1
     else tn_index t1 < tn_len t \<and>
       (\<exists>e. wsender_offer (turn_queue t ! tn_index t1) s1 = (pm_tx (tn_pump t1), Inl e :: unit error + unit))"
    using wturn_offer_rest [OF o] assms(1) by (auto simp: turn_wf_def)
  have q: "turn_queue (wturn_drive_tx t) = turn_queue t"
    using win.keeps [of t] by (simp add: turn_queue_def)
  show ?thesis
  proof (cases complete)
    case True
    obtain tx r where fin: "wsender_offer_finish s1 = (tx, r :: unit error + unit)" by (metis surj_pair)
    then show ?thesis using assms o k True f q
      by (intro exI [of _ k] exI [of _ s1]) (cases r; simp add: wturn_drive_tx_def)
  next
    case False
    then have "wturn_drive_tx t = t1" using assms o by (simp add: wturn_drive_tx_def)
    then show ?thesis using k False f q assms(5)
      by (intro exI [of _ k] exI [of _ s1]) (simp, metis)
  qed
qed

text \<open>
  C38: a repeated FINISH takes the turn away.  When the receiver of the peer that holds the turn
  reports a finished transfer, which it also does for a FINISH that comes again because its
  acknowledgement was lost, the turn is given up, and whatever is queued or in flight for our own
  session is dropped, before FINISH was offered or even START was written.
\<close>

theorem turn_lost_to_repeated_finish:
  assumes "tn_speak t" and "t1 = wturn_drive_tx t" and "\<not> pm_pending_completed (tn_pump t1)"
    and "wreceiver_poll prx w (pm_rx (tn_pump t1)) = (w1, rx', Inr OutTransferFinished)"
    and "wsender_poll ptx w1 (pm_tx (tn_pump t1)) = (w2, tx', Inr out)" and "out \<noteq> PollAborted"
  shows "\<exists>t'. wturn_poll ptx prx w t = (w2, t', Inr TurnYielded) \<and> \<not> tn_speak t' \<and> turn_queue t' = []"
proof -
  have "\<exists>pm. wpump_poll ptx prx w (tn_pump t1) = (w2, pm, Inr EvCompleted)"
    by (simp add: wpump_poll_def pump_step_def assms(3-6) Let_def wsender_take_mark_def pump_event_of_def)
  moreover have "tn_speak t1" using assms(1,2) win.keeps [of t] by simp
  ultimately show ?thesis
    by (auto simp: wturn_poll_def turn_step_def assms(2) [symmetric] turn_on_event_def turn_reopen_def turn_queue_def)
qed

section \<open>Witnesses\<close>

definition demo_open_turn :: "(wsender, wreceiver) turn" where
  "demo_open_turn = (turn_new 3 (wpump_on 8) True)\<lparr>tn_buf := [1, 2, 0], tn_len := 2, tn_need_start := False\<rparr>"

theorem turn_streams_queue_witness:
  "\<exists>k s1. wsender_offers (take k [1, 2]) (wsender_new 8) s1 \<and> tn_index (wturn_drive_tx demo_open_turn) = k"
proof -
  have "turn_wf demo_open_turn" "tn_speak demo_open_turn" "tn_len demo_open_turn \<noteq> 0"
    "\<not> tn_need_start demo_open_turn" "\<not> tn_finish_offered demo_open_turn"
    "turn_queue demo_open_turn = [1, 2]" "tn_index demo_open_turn = 0" "pm_tx (tn_pump demo_open_turn) = wsender_new 8"
    by (simp_all add: demo_open_turn_def turn_new_def turn_wf_def turn_queue_def wpump_on_def pump_new_def)
  then show ?thesis using turn_streams_queue [of demo_open_turn] by auto
qed

text \<open>A peer with the turn and one queued byte, whose receiver is about to write the last byte of the
  acknowledgement of a FINISH.\<close>

definition demo_closing_turn :: "(wsender, wreceiver) turn" where
  "demo_closing_turn = (turn_new 3 (pump_new (wsender_new 8)
     ((wreceiver_begin_reply (ack_frame 0) WpFinished (wreceiver_new 8))
        \<lparr>wr_out := \<lparr>ob_buf = to_bytes (ack_frame 0), ob_pos = 3\<rparr>\<rparr>)) True)
     \<lparr>tn_buf := [7, 0, 0], tn_len := 1\<rparr>"

lemma demo_closing_polls:
  "tn_speak demo_closing_turn \<and> turn_queue demo_closing_turn = [7] \<and>
   \<not> pm_pending_completed (tn_pump (wturn_drive_tx demo_closing_turn)) \<and>
   (case wreceiver_poll mock_port (mock_with_incoming []) (pm_rx (tn_pump (wturn_drive_tx demo_closing_turn))) of
      (w1, rx', r) \<Rightarrow> r = Inr OutTransferFinished \<and>
        (case wsender_poll mock_port w1 (pm_tx (tn_pump (wturn_drive_tx demo_closing_turn))) of
           (w2, tx', r') \<Rightarrow> r' = Inr PollPending))"
  by code_simp

theorem turn_lost_to_repeated_finish_witness:
  "turn_queue demo_closing_turn = [7] \<and>
   (\<exists>w' t'. wturn_poll mock_port mock_port (mock_with_incoming []) demo_closing_turn = (w', t', Inr TurnYielded) \<and>
     \<not> tn_speak t' \<and> turn_queue t' = [])"
proof -
  let ?t = "wturn_drive_tx demo_closing_turn"
  obtain w1 rx' w2 tx' where p: "tn_speak demo_closing_turn" "turn_queue demo_closing_turn = [7]"
    "\<not> pm_pending_completed (tn_pump ?t)"
    "wreceiver_poll mock_port (mock_with_incoming []) (pm_rx (tn_pump ?t)) = (w1, rx', Inr OutTransferFinished)"
    "wsender_poll mock_port w1 (pm_tx (tn_pump ?t)) = (w2, tx', Inr PollPending)"
    using demo_closing_polls by (auto split: prod.splits)
  show ?thesis using turn_lost_to_repeated_finish [OF p(1) refl p(3-5)] p(2) by auto
qed

end
