(* ===== verification/Page.thy ===== *)
theory Page
  imports Turn
begin

text \<open>
  Firmware pages (\<open>src/transport/page.rs\<close>): a page of at most \<open>N\<close> bytes is one session of the
  speaker, one status byte is the answering session of the listener, and only the status lets
  the next page start.  The lemmas give the flow control of both ends and the accounting of the
  bytes of a page.
\<close>

section \<open>The code\<close>

datatype page_event = PageIdle | PageData u8 | PageClosed nat | PageStatus u8

datatype phase = PhReady | PhSending | PhWaitStatus | PhReceiving | PhNeedAck | PhAcking

record page_link =
  pg_turn :: "(wsender, wreceiver) turn"
  pg_phase :: phase
  pg_filled :: nat
  pg_status :: u8
  pg_have_status :: bool

definition page_new :: "(wsender, wreceiver) turn \<Rightarrow> page_link" where
  "page_new t = \<lparr>pg_turn = t, pg_phase = PhReady, pg_filled = 0, pg_status = 0, pg_have_status = False\<rparr>"

definition page_ready :: "page_link \<Rightarrow> bool" where
  "page_ready p = (pg_phase p = PhReady)"

definition page_push :: "u8 list \<Rightarrow> page_link \<Rightarrow> page_link \<times> nat" where
  "page_push bytes p =
     (if pg_phase p \<noteq> PhReady \<or> \<not> tn_speak (pg_turn p) \<or> bytes = [] then (p, 0)
      else (case turn_push bytes (pg_turn p) of
          (t, n) \<Rightarrow>
            if n = 0 then (p\<lparr>pg_turn := t\<rparr>, 0)
            else (p\<lparr>pg_turn := t, pg_filled := n, pg_phase := PhSending\<rparr>, n)))"

definition page_ack :: "u8 \<Rightarrow> page_link \<Rightarrow> page_link \<times> bool" where
  "page_ack status p =
     (if pg_phase p \<noteq> PhNeedAck then (p, False)
      else (case turn_push [status] (pg_turn p) of
          (t, n) \<Rightarrow>
            if n \<noteq> 1 then (p\<lparr>pg_turn := t\<rparr>, False)
            else (p\<lparr>pg_turn := t, pg_phase := PhAcking\<rparr>, True)))"

definition page_take :: "turn_event \<Rightarrow> page_link \<Rightarrow> page_link \<times> page_event" where
  "page_take ev p =
     (case pg_phase p of
        PhSending \<Rightarrow>
          (if ev = TurnYielded
           then p\<lparr>pg_phase := PhWaitStatus, pg_filled := 0, pg_have_status := False\<rparr> else p, PageIdle)
      | PhWaitStatus \<Rightarrow>
          (case ev of
             TurnReceived byte \<Rightarrow> (p\<lparr>pg_status := byte, pg_have_status := True\<rparr>, PageIdle)
           | TurnGranted \<Rightarrow>
               if pg_have_status p
               then (p\<lparr>pg_have_status := False, pg_phase := PhReady\<rparr>, PageStatus (pg_status p))
               else (p, PageIdle)
           | _ \<Rightarrow> (p, PageIdle))
      | PhNeedAck \<Rightarrow> (p, PageIdle)
      | PhAcking \<Rightarrow> (if ev = TurnYielded then p\<lparr>pg_phase := PhReady\<rparr> else p, PageIdle)
      | _ \<Rightarrow>
          (case ev of
             TurnReceived byte \<Rightarrow> (p\<lparr>pg_phase := PhReceiving, pg_filled := pg_filled p + 1\<rparr>, PageData byte)
           | TurnGranted \<Rightarrow>
               if pg_filled p > 0
               then (p\<lparr>pg_filled := 0, pg_phase := PhNeedAck\<rparr>, PageClosed (pg_filled p))
               else (p, PageIdle)
           | _ \<Rightarrow> (p, PageIdle)))"

definition page_poll ::
  "('w, 'e) port \<Rightarrow> ('w, 'e) port \<Rightarrow> 'w \<Rightarrow> page_link \<Rightarrow> 'w \<times> page_link \<times> ('e error + page_event)" where
  "page_poll ptx prx w p =
     (case wturn_poll ptx prx w (pg_turn p) of
        (w', t, Inl e) \<Rightarrow> (w', p\<lparr>pg_turn := t\<rparr>, Inl e)
      | (w', t, Inr ev) \<Rightarrow> (case page_take ev (p\<lparr>pg_turn := t\<rparr>) of (p', out) \<Rightarrow> (w', p', Inr out)))"

text \<open>\<open>LinkFace::turn\<close>, \<open>LinkFace::window_turn\<close> and \<open>LinkFace::page\<close>; they run over the two ends of the face.\<close>

definition face_turn :: "nat \<Rightarrow> bool \<Rightarrow> (sender, receiver) turn" where
  "face_turn n first = turn_new n pump_on first"

definition face_window_turn :: "nat \<Rightarrow> bool \<Rightarrow> (wsender, wreceiver) turn" where
  "face_window_turn n first = turn_new n (wpump_on MAX_WINDOW) first"

definition face_page :: "nat \<Rightarrow> bool \<Rightarrow> page_link" where
  "face_page n first = page_new (face_window_turn n first)"

section \<open>Runs\<close>

text \<open>What was done with a page link and seen of it: accepted pages, accepted status bytes, events.\<close>

datatype page_step = Pushed nat | Acked u8 | Saw page_event

inductive page_run :: "('w, 'e) port \<Rightarrow> ('w, 'e) port \<Rightarrow> page_link \<Rightarrow> page_step list \<Rightarrow> bool" for ptx prx where
  pr_new: "page_run ptx prx (page_new t) []"
| pr_push: "page_run ptx prx p es \<Longrightarrow> page_push bytes p = (p', n) \<Longrightarrow>
    page_run ptx prx p' (es @ (if n = 0 then [] else [Pushed n]))"
| pr_ack: "page_run ptx prx p es \<Longrightarrow> page_ack b p = (p', ok) \<Longrightarrow>
    page_run ptx prx p' (es @ (if ok then [Acked b] else []))"
| pr_poll: "page_run ptx prx p es \<Longrightarrow> page_poll ptx prx w p = (w', p', r) \<Longrightarrow>
    page_run ptx prx p' (es @ (case r of Inr ev \<Rightarrow> [Saw ev] | Inl _ \<Rightarrow> []))"

definition count_steps :: "(page_step \<Rightarrow> bool) \<Rightarrow> page_step list \<Rightarrow> nat" where
  "count_steps P es = length (filter P es)"

definition is_pushed :: "page_step \<Rightarrow> bool" where
  "is_pushed s = (case s of Pushed _ \<Rightarrow> True | _ \<Rightarrow> False)"

definition is_status :: "page_step \<Rightarrow> bool" where
  "is_status s = (case s of Saw (PageStatus _) \<Rightarrow> True | _ \<Rightarrow> False)"

definition is_acked :: "page_step \<Rightarrow> bool" where
  "is_acked s = (case s of Acked _ \<Rightarrow> True | _ \<Rightarrow> False)"

definition is_closed :: "page_step \<Rightarrow> bool" where
  "is_closed s = (case s of Saw (PageClosed _) \<Rightarrow> True | _ \<Rightarrow> False)"

text \<open>The bytes of the page that is open, from \<open>k\<close> on, and whether every close told their number.\<close>

fun page_bytes :: "nat \<Rightarrow> page_step list \<Rightarrow> nat" where
  "page_bytes k [] = k"
| "page_bytes k (s # es) =
     (case s of
        Saw (PageData _) \<Rightarrow> page_bytes (Suc k) es
      | Saw (PageClosed _) \<Rightarrow> page_bytes 0 es
      | _ \<Rightarrow> page_bytes k es)"

fun closes_exact :: "nat \<Rightarrow> page_step list \<Rightarrow> bool" where
  "closes_exact k [] = True"
| "closes_exact k (s # es) =
     (case s of
        Saw (PageData _) \<Rightarrow> closes_exact (Suc k) es
      | Saw (PageClosed n) \<Rightarrow> n = k \<and> 0 < n \<and> closes_exact 0 es
      | _ \<Rightarrow> closes_exact k es)"

lemma page_bytes_append: "page_bytes k (es @ fs) = page_bytes (page_bytes k es) fs"
  by (induction es arbitrary: k) (auto split: page_step.splits page_event.splits)

lemma closes_exact_append: "closes_exact k (es @ fs) \<longleftrightarrow> closes_exact k es \<and> closes_exact (page_bytes k es) fs"
  by (induction es arbitrary: k) (auto split: page_step.splits page_event.splits)

lemma count_steps_append [simp]: "count_steps P (es @ fs) = count_steps P es + count_steps P fs"
  by (simp add: count_steps_def)

lemma count_steps_simps [simp]:
  "count_steps P [] = 0" "count_steps P [s] = (if P s then 1 else 0)"
  by (simp_all add: count_steps_def)

lemma is_step_simps [simp]:
  "is_pushed (Pushed n)" "\<not> is_pushed (Acked b)" "\<not> is_pushed (Saw ev)"
  "\<not> is_status (Pushed n)" "\<not> is_status (Acked b)" "is_status (Saw (PageStatus b))"
  "\<not> is_status (Saw PageIdle)" "\<not> is_status (Saw (PageData b))" "\<not> is_status (Saw (PageClosed n))"
  "\<not> is_acked (Pushed n)" "is_acked (Acked b)" "\<not> is_acked (Saw ev)"
  "\<not> is_closed (Pushed n)" "\<not> is_closed (Acked b)" "\<not> is_closed (Saw (PageStatus b))"
  "\<not> is_closed (Saw PageIdle)" "\<not> is_closed (Saw (PageData b))" "is_closed (Saw (PageClosed n))"
  by (simp_all add: is_pushed_def is_status_def is_acked_def is_closed_def)

definition page_inv :: "page_link \<Rightarrow> page_step list \<Rightarrow> bool" where
  "page_inv p es =
     (count_steps is_pushed es =
        count_steps is_status es + (if pg_phase p \<in> {PhSending, PhWaitStatus} then 1 else 0) \<and>
      count_steps is_closed es = count_steps is_acked es + (if pg_phase p = PhNeedAck then 1 else 0) \<and>
      page_bytes 0 es = (if pg_phase p = PhReceiving then pg_filled p else 0) \<and>
      (pg_phase p = PhReady \<longrightarrow> pg_filled p = 0) \<and> (pg_phase p = PhNeedAck \<or> pg_phase p = PhAcking \<longrightarrow> pg_filled p = 0) \<and>
      (pg_phase p = PhWaitStatus \<longrightarrow> pg_filled p = 0) \<and> closes_exact 0 es)"

lemma page_take_inv:
  assumes "page_inv p es" and "page_take ev p = (p', out)"
  shows "page_inv p' (es @ [Saw out])"
  using assms
  by (cases "pg_phase p"; cases ev)
    (auto simp: page_take_def page_inv_def page_bytes_append closes_exact_append split: if_splits)

lemma page_inv_turn [simp]: "page_inv (p\<lparr>pg_turn := t\<rparr>) es = page_inv p es"
  by (simp add: page_inv_def)

lemma page_run_inv: "page_run ptx prx p es \<Longrightarrow> page_inv p es"
proof (induction rule: page_run.induct)
  case (pr_new t)
  then show ?case by (simp add: page_new_def page_inv_def)
next
  case (pr_push p es bytes p' n)
  obtain t m where tp: "turn_push bytes (pg_turn p) = (t, m)" by (metis surj_pair)
  show ?case
  proof (cases "pg_phase p \<noteq> PhReady \<or> \<not> tn_speak (pg_turn p) \<or> bytes = []")
    case True
    then have "p' = p" "n = 0" using pr_push.hyps(2) by (simp_all only: page_push_def if_True prod.inject)
    then show ?thesis using pr_push.IH by simp
  next
    case False
    then have "(p', n) = (if m = 0 then (p\<lparr>pg_turn := t\<rparr>, 0)
        else (p\<lparr>pg_turn := t, pg_filled := m, pg_phase := PhSending\<rparr>, m))" "pg_phase p = PhReady"
      using pr_push.hyps(2) tp by (simp_all add: page_push_def)
    then show ?thesis using pr_push.IH
      by (cases "m = 0") (simp_all add: page_inv_def page_bytes_append closes_exact_append)
  qed
next
  case (pr_ack p es b p' ok)
  then show ?case
    by (auto simp: page_ack_def page_inv_def page_bytes_append closes_exact_append split: if_splits prod.splits)
next
  case (pr_poll p es w w' p' r)
  then show ?case
    by (cases r) (auto simp: page_poll_def split: prod.splits sum.splits dest: page_take_inv [rotated])
qed

text \<open>
  C39: pages are stop-and-wait.  In any run of a page link, over any ports, the speaker has queued at
  most one page more than it has seen status bytes, and it can queue the next one exactly when
  it has seen them all; the listener has answered every closed page once but possibly the last.
\<close>

theorem page_flow_control:
  assumes "page_run ptx prx p es"
  shows "count_steps is_pushed es =
      count_steps is_status es + (if pg_phase p \<in> {PhSending, PhWaitStatus} then 1 else 0) \<and>
    count_steps is_closed es = count_steps is_acked es + (if pg_phase p = PhNeedAck then 1 else 0)"
  using page_run_inv [OF assms] by (simp only: page_inv_def)

text \<open>
  A page is closed with its exact length.  Every \<open>PageClosed { len }\<close> of a run carries the number
  of bytes the listener was handed since the page before, which is never 0.
\<close>

theorem page_closes_exact:
  assumes "page_run ptx prx p es"
  shows "closes_exact 0 es"
  using page_run_inv [OF assms] by (simp only: page_inv_def)

lemma demo_page_run:
  obtains p n where "page_run mock_port mock_port p [Pushed n]" "pg_phase p = PhSending"
proof -
  obtain p n where p: "page_push [9] (page_new demo_open_turn) = (p, n)" by (metis surj_pair)
  have "n \<noteq> 0" "pg_phase p = PhSending" using p
    by (auto simp: page_push_def page_new_def demo_open_turn_def turn_new_def turn_push_def split: if_splits prod.splits)
  then show ?thesis using pr_push [OF pr_new p, of mock_port mock_port] that [of p n] by simp
qed

theorem page_flow_control_witness:
  "\<exists>p n. page_run mock_port mock_port p [Pushed n] \<and> pg_phase p = PhSending \<and>
     count_steps is_pushed [Pushed n] = count_steps is_status [Pushed n] + 1"
proof -
  obtain p n where run: "page_run mock_port mock_port p [Pushed n]" "pg_phase p = PhSending" by (rule demo_page_run)
  then show ?thesis using page_flow_control [OF run(1)] by auto
qed

theorem page_closes_exact_witness:
  "\<exists>p n. page_run mock_port mock_port p [Pushed n] \<and> closes_exact 0 [Pushed n]"
proof -
  obtain p n where run: "page_run mock_port mock_port p [Pushed n]" by (rule demo_page_run)
  then show ?thesis using page_closes_exact [OF run] by blast
qed

end
