(* ===== verification/Face.thy ===== *)
theory Face
  imports Demux Pump "HOL-Library.Sublist"
begin

text \<open>
  One physical link for a sender and a receiver (\<open>src/transport/face.rs\<close>).  The two ends share one
  port; whichever end reads first moves everything the port has into two rings.  The rings and
  the routing are those of \<open>Demux\<close>, which the code has a second copy of.  The port is any
  implementation of \<open>ByteTransport\<close>: it may fail, and it may never run dry.
\<close>

section \<open>The code\<close>

record 'w face = demux +
  fc_port :: 'w

datatype 'e face_error = FacePort 'e | FaceFull

definition face_new :: "'w \<Rightarrow> 'w face" where
  "face_new w = \<lparr>dm_assembler = asm_resyncing, dm_control = ring_new, dm_payload = ring_new,
     dm_pending = None, fc_port = w\<rparr>"

text \<open>The loop of \<open>ingest\<close>.  It runs until the port is quiet, fails, or a ring is full.\<close>

partial_function (option) face_loop ::
  "('w, 'e) port \<Rightarrow> 'w face \<Rightarrow> ('w face \<times> ('e face_error + unit)) option" where
  "face_loop p g =
     (case read_byte p (fc_port g) of
        (w, Inr None) \<Rightarrow> Some (g\<lparr>fc_port := w\<rparr>, Inr ())
      | (w, Inr (Some byte)) \<Rightarrow>
          (case demux_byte byte (g\<lparr>fc_port := w\<rparr>) of
             (g', ok) \<Rightarrow> if ok then face_loop p g' else Some (g', Inr ()))
      | (w, Inl e) \<Rightarrow> Some (g\<lparr>fc_port := w\<rparr>, Inl (FacePort e)))"

declare face_loop.simps [code]

definition face_ingest :: "('w, 'e) port \<Rightarrow> 'w face \<Rightarrow> ('w face \<times> ('e face_error + unit)) option" where
  "face_ingest p g =
     (case demux_retry g of
        (g', True) \<Rightarrow> face_loop p g'
      | (g', False) \<Rightarrow> Some (g', Inr ()))"

text \<open>
  \<open>FaceTx\<close> (\<open>for_tx\<close>) and \<open>FaceRx\<close>.  A trait method is a total function, so the case where the
  loop would not return is given the result of a quiet port; \<open>face_ingest_returns\<close> shows
  that it does not occur.
\<close>

definition face_pop :: "bool \<Rightarrow> 'w face \<Rightarrow> 'w face \<times> u8 option" where
  "face_pop for_tx g =
     (if for_tx then (case ring_pop (dm_control g) of (r, b) \<Rightarrow> (g\<lparr>dm_control := r\<rparr>, b))
      else (case ring_pop (dm_payload g) of (r, b) \<Rightarrow> (g\<lparr>dm_payload := r\<rparr>, b)))"

definition face_write :: "('w, 'e) port \<Rightarrow> u8 \<Rightarrow> 'w face \<Rightarrow> 'w face \<times> ('e face_error + unit)" where
  "face_write p byte g =
     (case write_byte p byte (fc_port g) of
        (w, Inr _) \<Rightarrow> (g\<lparr>fc_port := w\<rparr>, Inr ())
      | (w, Inl e) \<Rightarrow> (g\<lparr>fc_port := w\<rparr>, Inl (FacePort e)))"

definition face_read :: "('w, 'e) port \<Rightarrow> bool \<Rightarrow> 'w face \<Rightarrow> 'w face \<times> ('e face_error + u8 option)" where
  "face_read p for_tx g =
     (case face_ingest p g of
        None \<Rightarrow> (g, Inr None)
      | Some (g', Inl e) \<Rightarrow> (g', Inl e)
      | Some (g', Inr _) \<Rightarrow> (case face_pop for_tx g' of (g'', b) \<Rightarrow> (g'', Inr b)))"

definition face_port :: "('w, 'e) port \<Rightarrow> bool \<Rightarrow> ('w face, 'e face_error) port" where
  "face_port p for_tx = \<lparr>write_byte = face_write p, read_byte = face_read p for_tx\<rparr>"

text \<open>The pumps of a face run over \<open>face_port p True\<close> and \<open>face_port p False\<close>.\<close>

definition face_pump :: "(sender, receiver) pump" where
  "face_pump = pump_on"

definition face_pump_with :: "retry_policy \<Rightarrow> (sender, receiver) pump" where
  "face_pump_with policy = pump_on_with policy"

definition face_link_pump :: "(wsender, wreceiver) pump" where
  "face_link_pump = wpump_set_window_limit 1 (wpump_on MAX_WINDOW)"

section \<open>The loop ends\<close>

text \<open>
  The room that is left: every byte read either brings the assembler closer to a frame or puts a
  frame of four bytes into a ring.
\<close>

definition room :: "'a demux_scheme \<Rightarrow> nat" where
  "room d = 4 * ((RING - rg_len (dm_control d)) + (RING - rg_len (dm_payload d))) + (4 - as_filled (dm_assembler d))"

lemma asm_push_filled:
  assumes "asm_push b a = (a', None)"
  shows "as_filled a' = (if as_filled a \<ge> FRAME_LEN then 1 else Suc (as_filled a)) \<and> as_filled a' < FRAME_LEN"
  using assms by (auto simp: asm_push_def Let_def split: if_splits)

lemma demux_byte_room:
  assumes "demux_inv K R d" and "dm_pending d = None" and "demux_byte b d = (d', True)"
  shows "room d' < room d"
proof -
  obtain a r where p: "asm_push b (dm_assembler d) = (a, r)" by (metis surj_pair)
  have f: "as_filled (dm_assembler d) < 4" using assms(1) by (simp add: demux_inv_def asm_wf_def FRAME_LEN_def)
  show ?thesis
  proof (cases r)
    case None
    then have "d' = d\<lparr>dm_assembler := a\<rparr>" using assms(3) p by (simp add: demux_byte_def)
    moreover have "as_filled a = Suc (as_filled (dm_assembler d))" "as_filled a < 4"
      using asm_push_filled [of b "dm_assembler d" a] p None f by (auto simp: FRAME_LEN_def)
    ultimately show ?thesis by (simp add: room_def)
  next
    case (Some x)
    let ?h = "held_of a x"
    have a: "asm_wf a" using asm_push_wf [of "dm_assembler d" b] p assms(1) by (simp add: demux_inv_def)
    have s: "demux_store ?h (d\<lparr>dm_assembler := a\<rparr>) = (d', True)"
      using assms(3) p Some by (auto simp: demux_byte_def split: prod.splits bool.splits)
    note st = demux_store [OF s _ _ length_held_of [OF a]]
    have len: "length (hd_bytes ?h) = 4" using length_held_of [OF a] by (simp add: FRAME_LEN_def)
    have c: "ring_contents (ring_for c d') = ring_contents (ring_for c d) @ (if hd_control ?h = c then hd_bytes ?h else [])"
      "ring_wf (dm_control d')" "ring_wf (dm_payload d')" for c
      using st assms(1) by (simp_all add: demux_inv_def)
    have rl: "rg_len (ring_for c d') = rg_len (ring_for c d) + (if hd_control ?h = c then 4 else 0)" for c
      using arg_cong [OF c(1) [of c], of length] len by simp
    have "rg_len (dm_control d') = rg_len (dm_control d) + (if hd_control ?h then 4 else 0)"
      "rg_len (dm_payload d') = rg_len (dm_payload d) + (if hd_control ?h then 0 else 4)"
      using rl [of True] rl [of False] by (simp_all add: ring_for_def)
    moreover have "rg_len (dm_control d') \<le> RING" "rg_len (dm_payload d') \<le> RING"
      using c(2,3) by (simp_all add: ring_wf_len)
    ultimately show ?thesis using f by (auto simp: room_def split: if_splits)
  qed
qed

text \<open>The bytes a port hands out in a series of reads, the last of which may find nothing.\<close>

inductive reads :: "('w, 'e) port \<Rightarrow> 'w \<Rightarrow> u8 list \<Rightarrow> 'w \<Rightarrow> bool" for p where
  reads_stop: "reads p w [] w"
| reads_none: "read_byte p w = (w', Inr None) \<Longrightarrow> reads p w [] w'"
| reads_fail: "read_byte p w = (w', Inl e) \<Longrightarrow> reads p w [] w'"
| reads_byte: "read_byte p w = (w1, Inr (Some b)) \<Longrightarrow> reads p w1 bs w2 \<Longrightarrow> reads p w (b # bs) w2"

lemma demux_inv_port [simp]: "demux_inv K R (g\<lparr>fc_port := w\<rparr>) = demux_inv K R g"
  by (simp add: demux_inv_def ring_for_def pending_for_def)

lemma room_port [simp]: "room (g\<lparr>fc_port := w\<rparr>) = room g"
  by (simp add: room_def)

lemma demux_store_port: "demux_store h (g :: 'w face) = (g', ok) \<Longrightarrow> fc_port g' = fc_port g"
  by (auto simp: demux_store_def split: if_splits prod.splits)

lemma demux_byte_port: "demux_byte b (g :: 'w face) = (g', ok) \<Longrightarrow> fc_port g' = fc_port g"
  by (auto simp: demux_byte_def split: prod.splits option.splits bool.splits dest!: demux_store_port)

lemma demux_retry_port: "demux_retry (g :: 'w face) = (g', ok) \<Longrightarrow> fc_port g' = fc_port g"
  by (auto simp: demux_retry_def split: prod.splits option.splits bool.splits dest!: demux_store_port)

lemma face_loop_inv:
  assumes "demux_inv K R g" and "dm_pending g = None"
  shows "\<exists>g' r bs. face_loop p g = Some (g', r) \<and> reads p (fc_port g) bs (fc_port g') \<and>
    demux_inv (K @ bs) R g' \<and> (dm_pending g' = None \<or> blocked g')"
  using assms
proof (induction "room g" arbitrary: g K rule: less_induct)
  case less
  obtain w x where rd: "read_byte p (fc_port g) = (w, x)" by (metis surj_pair)
  note eq = face_loop.simps [of p g, unfolded rd]
  consider e where "x = Inl e" | "x = Inr None" | b where "x = Inr (Some b)"
    by (metis sum.exhaust option.exhaust)
  then show ?case
  proof cases
    case 1
    then show ?thesis using eq rd less.prems reads_fail [of p "fc_port g" w e]
      by (intro exI [of _ "g\<lparr>fc_port := w\<rparr>"] exI [of _ "Inl (FacePort e)"] exI [of _ "[]"]) simp
  next
    case 2
    then show ?thesis using eq rd less.prems reads_none [of p "fc_port g" w]
      by (intro exI [of _ "g\<lparr>fc_port := w\<rparr>"] exI [of _ "Inr ()"] exI [of _ "[]"]) simp
  next
    case (3 b)
    obtain g1 ok where d: "demux_byte b (g\<lparr>fc_port := w\<rparr>) = (g1, ok)" by (metis surj_pair)
    have inv: "demux_inv (K @ [b]) R g1" "if ok then dm_pending g1 = None else blocked g1"
      using demux_byte_inv [OF _ _ d, of K R] less.prems by simp_all
    have w: "fc_port g1 = w" using demux_byte_port [OF d] by simp
    show ?thesis
    proof (cases ok)
      case True
      then have "room g1 < room g" using demux_byte_room [of K R "g\<lparr>fc_port := w\<rparr>" b g1] d less.prems by simp
      from less.hyps [OF this inv(1)] True inv(2) obtain g' r bs where
        "face_loop p g1 = Some (g', r)" "reads p w bs (fc_port g')" "demux_inv ((K @ [b]) @ bs) R g'"
        "dm_pending g' = None \<or> blocked g'" by (auto simp: w)
      then show ?thesis using eq 3 d True rd reads_byte [of p "fc_port g" w b bs "fc_port g'"]
        by (intro exI [of _ g'] exI [of _ r] exI [of _ "b # bs"]) simp
    next
      case False
      then show ?thesis using eq 3 d rd inv w reads_byte [of p "fc_port g" w b "[]" w] reads_stop [of p w]
        by (intro exI [of _ g1] exI [of _ "Inr ()"] exI [of _ "[b]"]) simp
    qed
  qed
qed

lemma face_ingest_inv:
  assumes "demux_inv K R g"
  shows "\<exists>g' r bs. face_ingest p g = Some (g', r) \<and> reads p (fc_port g) bs (fc_port g') \<and>
    demux_inv (K @ bs) R g' \<and> (dm_pending g' = None \<or> blocked g')"
proof -
  obtain g1 ok where d: "demux_retry g = (g1, ok)" by (metis surj_pair)
  note inv = demux_retry_inv [OF assms d] and w = demux_retry_port [OF d]
  show ?thesis
  proof (cases ok)
    case True
    then show ?thesis using face_loop_inv [of K R g1 p] inv w d by (simp add: face_ingest_def)
  next
    case False
    then show ?thesis using inv w d reads_stop [of p "fc_port g"]
      by (intro exI [of _ g1] exI [of _ "Inr ()"] exI [of _ "[]"]) (simp add: face_ingest_def)
  qed
qed

section \<open>Runs\<close>

text \<open>A port that keeps the bytes it handed out.\<close>

definition logged :: "('w, 'e) port \<Rightarrow> ('w \<times> u8 list, 'e) port" where
  "logged p =
     \<lparr>write_byte = (\<lambda>b (w, l). case write_byte p b w of (w', r) \<Rightarrow> ((w', l), r)),
      read_byte = (\<lambda>(w, l). case read_byte p w of
        (w', r) \<Rightarrow> ((w', l @ (case r of Inr (Some b) \<Rightarrow> [b] | _ \<Rightarrow> [])), r))\<rparr>"

lemma reads_logged: "reads (logged p) v bs v' \<Longrightarrow> snd v' = snd v @ bs"
  by (induction rule: reads.induct) (auto simp: logged_def split: prod.splits sum.splits option.splits)

text \<open>
  The two ends write and read in any order, over a port that does what it likes.  The events are the
  bytes handed to the ends: \<open>(True, b)\<close> to the sender's end, \<open>(False, b)\<close> to the receiver's.
\<close>

inductive face_run :: "('w, 'e) port \<Rightarrow> ('w \<times> u8 list) face \<Rightarrow> (bool \<times> u8) list \<Rightarrow> bool" for p where
  fr_new: "face_run p (face_new (w, [])) []"
| fr_write: "face_run p g es \<Longrightarrow> write_byte (face_port (logged p) t) b g = (g', r) \<Longrightarrow> face_run p g' es"
| fr_read: "face_run p g es \<Longrightarrow> read_byte (face_port (logged p) t) g = (g', r) \<Longrightarrow>
    face_run p g' (es @ (case r of Inr (Some b) \<Rightarrow> [(t, b)] | _ \<Rightarrow> []))"

definition handed :: "(bool \<times> u8) list \<Rightarrow> bool \<Rightarrow> u8 list" where
  "handed es t = map snd (filter (\<lambda>e. fst e = t) es)"

lemma handed_taken: "handed (es @ [(t, b)]) = taken (handed es) t (Some b)"
  by (auto simp: handed_def taken_def fun_eq_iff)

lemma face_read_inv:
  assumes "demux_inv (snd (fc_port g)) R g" and "face_read (logged p) t g = (g', r)"
  shows "demux_inv (snd (fc_port g')) (taken R t (case r of Inr x \<Rightarrow> x | Inl _ \<Rightarrow> None)) g' \<and>
    (r = Inr None \<longrightarrow> R t = routed t (snd (fc_port g')))"
proof -
  obtain g1 r1 bs where i: "face_ingest (logged p) g = Some (g1, r1)"
    "reads (logged p) (fc_port g) bs (fc_port g1)" "demux_inv (snd (fc_port g) @ bs) R g1"
    "dm_pending g1 = None \<or> blocked g1"
    using face_ingest_inv [OF assms(1), of "logged p"] by blast
  have inv: "demux_inv (snd (fc_port g1)) R g1" using i(3) reads_logged [OF i(2)] by simp
  show ?thesis
  proof (cases r1)
    case (Inl e)
    then show ?thesis using assms(2) i(1) inv by (auto simp: face_read_def)
  next
    case (Inr u)
    obtain q x where q: "ring_pop (ring_for t g1) = (q, x)" by (metis surj_pair)
    have g': "g' = (if t then g1\<lparr>dm_control := q\<rparr> else g1\<lparr>dm_payload := q\<rparr>)" and r: "r = Inr x"
      using assms(2) i(1) Inr q by (cases t; simp add: face_read_def face_pop_def ring_for_def)+
    note pop = demux_pop_inv [OF inv q]
    have port: "fc_port g' = fc_port g1" using g' by simp
    moreover have "demux_inv (snd (fc_port g')) (taken R t x) g'" using pop g' port by simp
    moreover have "R t = routed t (snd (fc_port g1))" if "x = None"
    proof -
      have e: "ring_contents (ring_for t g1) = []" using pop that by blast
      then have "pending_for t g1 = []" using i(4)
        by (auto simp: pending_for_def blocked_def ring_empty RING_def FRAME_LEN_def split: option.splits)
      then show ?thesis using inv e by (simp add: demux_inv_def)
    qed
    ultimately show ?thesis using r by simp
  qed
qed

lemma face_new_inv: "demux_inv [] (handed []) (face_new w)"
  by (simp add: face_new_def demux_inv_def routed_def ring_for_def pending_for_def handed_def)

lemma face_run_inv: "face_run p g es \<Longrightarrow> demux_inv (snd (fc_port g)) (handed es) g"
proof (induction rule: face_run.induct)
  case (fr_new w)
  then show ?case using face_new_inv [of "(w, [])"] by (simp add: face_new_def)
next
  case (fr_write g es t b g' r)
  then obtain w where "g' = g\<lparr>fc_port := (w, snd (fc_port g))\<rparr>"
    by (cases "fc_port g") (auto simp: face_port_def face_write_def logged_def split: prod.splits sum.splits)
  then show ?case using fr_write.IH by simp
next
  case (fr_read g es t g' r)
  then have "face_read (logged p) t g = (g', r)" by (simp add: face_port_def)
  from face_read_inv [OF fr_read.IH this] show ?case
    by (auto simp: handed_taken split: sum.splits option.splits)
qed

text \<open>
  C36: reading from a link face always returns.  Over any port, also one that always has another byte,
  and at any point of any run of the two ends, the ingest loop ends: it stops at the latest when
  a ring is full.
\<close>

theorem face_ingest_returns:
  assumes "face_run p g es"
  shows "\<exists>g' r. face_ingest (logged p) g = Some (g', r)"
  using face_ingest_inv [OF face_run_inv [OF assms]] by blast

text \<open>
  C35: the two ends of a face share the port without stealing or losing bytes.  However the ends
  interleave and whatever arrives, the end \<open>t\<close> has been handed a prefix of the windows routed to
  it among the bytes the port gave so far, and once a read finds nothing it has been handed all
  of them, also when the ring of the other end is full.
\<close>

theorem face_shares_port:
  assumes "face_run p g es"
  shows "prefix (handed es t) (routed t (snd (fc_port g))) \<and>
    (\<forall>g'. read_byte (face_port (logged p) t) g = (g', Inr None) \<longrightarrow>
       handed es t = routed t (snd (fc_port g')))"
proof (intro conjI allI impI)
  note inv = face_run_inv [OF assms]
  show "prefix (handed es t) (routed t (snd (fc_port g)))" using inv by (auto simp: demux_inv_def)
  fix g'
  assume "read_byte (face_port (logged p) t) g = (g', Inr None)"
  then have "face_read (logged p) t g = (g', Inr None)" by (simp add: face_port_def)
  from face_read_inv [OF inv this] show "handed es t = routed t (snd (fc_port g'))" by simp
qed

section \<open>Witnesses\<close>

text \<open>A port that hands out the same byte for ever, and one that is quiet.\<close>

definition chatty_port :: "u8 \<Rightarrow> (unit, unit) port" where
  "chatty_port b = \<lparr>write_byte = (\<lambda>_ w. (w, Inr ())), read_byte = (\<lambda>w. (w, Inr (Some b)))\<rparr>"

theorem face_ingest_returns_witness:
  "\<exists>g' r. face_ingest (logged (chatty_port 0)) (face_new ((), [])) = Some (g', r)"
  by (rule face_ingest_returns [OF fr_new])

definition echo_port :: "(u8 list, unit) port" where
  "echo_port = \<lparr>write_byte = (\<lambda>b w. (w @ [b], Inr ())),
     read_byte = (\<lambda>w. case w of [] \<Rightarrow> ([], Inr None) | b # w' \<Rightarrow> (w', Inr (Some b)))\<rparr>"

text \<open>An ACK frame arrives: the sender's end reads its four bytes and then nothing.\<close>

fun read_times :: "('w, 'e) port \<Rightarrow> bool \<Rightarrow> nat \<Rightarrow> ('w \<times> u8 list) face \<Rightarrow> ('w \<times> u8 list) face \<times> (bool \<times> u8) list" where
  "read_times p t 0 g = (g, [])"
| "read_times p t (Suc n) g =
     (case read_byte (face_port (logged p) t) g of (g1, r) \<Rightarrow>
        case read_times p t n g1 of (g2, es) \<Rightarrow>
          (g2, (case r of Inr (Some b) \<Rightarrow> [(t, b)] | _ \<Rightarrow> []) @ es))"

lemma read_times_run:
  "face_run p g es \<Longrightarrow> read_times p t n g = (g', es') \<Longrightarrow> face_run p g' (es @ es')"
proof (induction n arbitrary: g es es')
  case 0
  then show ?case by simp
next
  case (Suc n)
  obtain g1 r where r: "read_byte (face_port (logged p) t) g = (g1, r)" by (metis surj_pair)
  obtain es2 where n: "read_times p t n g1 = (g', es2)"
    "es' = (case r of Inr (Some b) \<Rightarrow> [(t, b)] | _ \<Rightarrow> []) @ es2"
    using Suc.prems(2) r by (auto split: prod.splits)
  from Suc.IH [OF fr_read [OF Suc.prems(1) r] n(1)] show ?case by (simp add: n(2))
qed

lemma ack_arrives:
  "case read_times echo_port True 4 (face_new ([2, 0, 0, 214], [])) of
     (g, es) \<Rightarrow> es = [(True, 2), (True, 0), (True, 0), (True, 214)] \<and>
       (case read_byte (face_port (logged echo_port) True) g of (g', r) \<Rightarrow>
         r = Inr None \<and> snd (fc_port g') = [2, 0, 0, 214])"
  by code_simp

theorem face_shares_port_witness:
  "\<exists>g g'. face_run echo_port g [(True, 2), (True, 0), (True, 0), (True, 214)] \<and>
     read_byte (face_port (logged echo_port) True) g = (g', Inr None) \<and>
     [2, 0, 0, 214] = routed True [2, 0, 0, 214]"
proof -
  obtain g es g' where g: "read_times echo_port True 4 (face_new ([2, 0, 0, 214], [])) = (g, es)"
    "es = [(True, 2), (True, 0), (True, 0), (True, 214)]"
    "read_byte (face_port (logged echo_port) True) g = (g', Inr None)" "snd (fc_port g') = [2, 0, 0, 214]"
    using ack_arrives by (auto split: prod.splits)
  have run: "face_run echo_port g [(True, 2), (True, 0), (True, 0), (True, 214)]"
    using read_times_run [OF fr_new g(1)] g(2) by simp
  have "handed [(True, 2), (True, 0), (True, 0), (True, 214)] True = routed True (snd (fc_port g'))"
    using face_shares_port [OF run, of True] g(3) by blast
  then show ?thesis using run g(3,4) by (auto simp: handed_def)
qed

end
