(* ===== verification/Firmware.thy ===== *)
theory Firmware
  imports Bus Page Face Streams
begin

text \<open>
  The firmware example (\<open>examples/firmware_flash.rs\<close>): a host programs an image page by page over a
  bus, each end a page link on its own face, and the MCU answers each page with a status byte.
  The file is a parameter.  The two faces share the bus, so it is handed from one to the other
  before each poll.  The lemmas say what the flash holds and that the status is never rejected.
\<close>

section \<open>The code\<close>

definition FW_PAGE :: nat where "FW_PAGE = 8"
definition FW_IMAGE :: nat where "FW_IMAGE = 300"
definition FW_RING :: nat where "FW_RING = 512"

text \<open>\<open>FileSource\<close>: what \<open>Read::read\<close> into a buffer of one byte gives.\<close>

datatype 'a file_read = FileEnd | FileByte u8 | FileFailed 'a

definition file_source :: "('f \<Rightarrow> 'f \<times> 'a file_read) \<Rightarrow> ('f, 'a) source" where
  "file_source rd =
     \<lparr>src_read = (\<lambda>f. case rd f of
        (f', FileEnd) \<Rightarrow> (f', Inr None)
      | (f', FileByte b) \<Rightarrow> (f', Inr (Some b))
      | (f', FileFailed e) \<Rightarrow> (f', Inl e))\<rparr>"

record flash_sink =
  fs_mem :: "u8 list"
  fs_pos :: nat

definition flash_byte_sink :: "(flash_sink, unit) sink" where
  "flash_byte_sink = \<lparr>sink_write = (\<lambda>byte k.
     if fs_pos k \<ge> length (fs_mem k) then (k, Inl ())
     else (k\<lparr>fs_mem := (fs_mem k)[fs_pos k := byte], fs_pos := fs_pos k + 1\<rparr>, Inr ()))\<rparr>"

text \<open>The image of \<open>write_image\<close>: a stack pointer and a reset vector, then \<open>i % 251\<close>.\<close>

definition fw_image :: "u8 list" where
  "fw_image = [0x00, 0x40, 0x00, 0x20, 0x01, 0x02, 0x00, 0x08] @ map (\<lambda>i. of_nat (i mod 251)) [8..<FW_IMAGE]"

text \<open>\<open>read_page\<close>: \<open>while n < PAGE\<close>, on the room that is left.\<close>

fun read_page_rest :: "nat \<Rightarrow> ('s, 'a) source \<Rightarrow> 's \<Rightarrow> u8 list \<Rightarrow> nat \<Rightarrow> 's \<times> u8 list \<times> ('a + nat)" where
  "read_page_rest 0 src s buf n = (s, buf, Inr n)"
| "read_page_rest (Suc left) src s buf n =
     (case src_read src s of
        (s', Inl e) \<Rightarrow> (s', buf, Inl e)
      | (s', Inr None) \<Rightarrow> (s', buf, Inr n)
      | (s', Inr (Some byte)) \<Rightarrow> read_page_rest left src s' (buf[n := byte]) (n + 1))"

definition read_page :: "('s, 'a) source \<Rightarrow> 's \<Rightarrow> u8 list \<Rightarrow> 's \<times> u8 list \<times> ('a + nat)" where
  "read_page src s buf = read_page_rest FW_PAGE src s buf 0"

text \<open>The locals of \<open>main\<close>.\<close>

record 's firmware =
  fw_bus :: bus
  fw_host_face :: "bus face"
  fw_host :: page_link
  fw_mcu_face :: "bus face"
  fw_mcu :: page_link
  fw_file :: 's
  fw_page :: "u8 list"
  fw_file_done :: bool
  fw_in_flight :: bool
  fw_sink :: flash_sink

text \<open>The calls of \<open>process::exit\<close> in the loop.\<close>

datatype fw_exit = FwReadFailed | FwPageRejected | FwHostFailed | FwFlashFull | FwStatusRejected | FwMcuFailed

definition fw_new :: "'s \<Rightarrow> 's firmware" where
  "fw_new s =
     \<lparr>fw_bus = bus_new FW_RING, fw_host_face = face_new (bus_new FW_RING), fw_host = face_page FW_PAGE True,
      fw_mcu_face = face_new (bus_new FW_RING), fw_mcu = face_page FW_PAGE False, fw_file = s,
      fw_page = replicate FW_PAGE 0, fw_file_done = False, fw_in_flight = False,
      fw_sink = \<lparr>fs_mem = replicate FW_IMAGE 0xFF, fs_pos = 0\<rparr>\<rparr>"

definition fw_next_page :: "('s, 'a) source \<Rightarrow> 's firmware \<Rightarrow> 's firmware \<times> (fw_exit + unit)" where
  "fw_next_page src s =
     (if page_ready (fw_host s) \<and> \<not> fw_in_flight s \<and> \<not> fw_file_done s
      then (case read_page src (fw_file s) (fw_page s) of
              (f, pg, Inl e) \<Rightarrow> (s\<lparr>fw_file := f, fw_page := pg\<rparr>, Inl FwReadFailed)
            | (f, pg, Inr n) \<Rightarrow>
                if n = 0 then (s\<lparr>fw_file := f, fw_page := pg, fw_file_done := True\<rparr>, Inr ())
                else (case page_push (take n pg) (fw_host s) of
                        (host, queued) \<Rightarrow>
                          if queued \<noteq> n
                          then (s\<lparr>fw_file := f, fw_page := pg, fw_host := host\<rparr>, Inl FwPageRejected)
                          else (s\<lparr>fw_file := f, fw_page := pg, fw_host := host, fw_in_flight := True\<rparr>, Inr ())))
      else (s, Inr ()))"

definition fw_poll_host :: "'s firmware \<Rightarrow> 's firmware \<times> (fw_exit + unit)" where
  "fw_poll_host s =
     (case page_poll (face_port (bus_port FW_RING True) True) (face_port (bus_port FW_RING True) False)
          ((fw_host_face s)\<lparr>fc_port := fw_bus s\<rparr>) (fw_host s) of
        (face, host, r) \<Rightarrow>
          let s' = s\<lparr>fw_bus := fc_port face, fw_host_face := face, fw_host := host\<rparr>
          in (case r of
                Inr (PageStatus status) \<Rightarrow> (if status = 0x06 then s'\<lparr>fw_in_flight := False\<rparr> else s', Inr ())
              | Inr _ \<Rightarrow> (s', Inr ())
              | Inl _ \<Rightarrow> (s', Inl FwHostFailed)))"

definition fw_poll_mcu :: "'s firmware \<Rightarrow> 's firmware \<times> (fw_exit + unit)" where
  "fw_poll_mcu s =
     (case page_poll (face_port (bus_port FW_RING False) True) (face_port (bus_port FW_RING False) False)
          ((fw_mcu_face s)\<lparr>fc_port := fw_bus s\<rparr>) (fw_mcu s) of
        (face, mcu, r) \<Rightarrow>
          let s' = s\<lparr>fw_bus := fc_port face, fw_mcu_face := face, fw_mcu := mcu\<rparr>
          in (case r of
                Inr (PageData byte) \<Rightarrow>
                  (case sink_write flash_byte_sink byte (fw_sink s') of
                     (k, Inl _) \<Rightarrow> (s'\<lparr>fw_sink := k\<rparr>, Inl FwFlashFull)
                   | (k, Inr _) \<Rightarrow> (s'\<lparr>fw_sink := k\<rparr>, Inr ()))
              | Inr (PageClosed _) \<Rightarrow>
                  (case page_ack 0x06 (fw_mcu s') of
                     (mcu', ok) \<Rightarrow> (s'\<lparr>fw_mcu := mcu'\<rparr>, if ok then Inr () else Inl FwStatusRejected))
              | Inr _ \<Rightarrow> (s', Inr ())
              | Inl _ \<Rightarrow> (s', Inl FwMcuFailed)))"

fun fw_rounds :: "nat \<Rightarrow> ('s, 'a) source \<Rightarrow> 's firmware \<Rightarrow> 's firmware \<times> (fw_exit + unit)" where
  "fw_rounds 0 src s = (s, Inr ())"
| "fw_rounds (Suc rounds) src s =
     (case fw_next_page src s of
        (s1, Inl e) \<Rightarrow> (s1, Inl e)
      | (s1, Inr _) \<Rightarrow>
          (case fw_poll_host s1 of
             (s2, Inl e) \<Rightarrow> (s2, Inl e)
           | (s2, Inr _) \<Rightarrow>
               (case fw_poll_mcu s2 of
                  (s3, Inl e) \<Rightarrow> (s3, Inl e)
                | (s3, Inr _) \<Rightarrow>
                    if fw_file_done s3 \<and> \<not> fw_in_flight s3 \<and> page_ready (fw_host s3) \<and> fs_pos (fw_sink s3) = FW_IMAGE
                    then (s3, Inr ())
                    else fw_rounds rounds src s3)))"

text \<open>\<open>main\<close>, which ends with the comparison of the flash and the image.\<close>

definition firmware_flash :: "('s, 'a) source \<Rightarrow> 's \<Rightarrow> 's firmware \<times> (fw_exit + bool)" where
  "firmware_flash src s =
     (case fw_rounds 400000 src (fw_new s) of
        (s', Inl e) \<Rightarrow> (s', Inl e)
      | (s', Inr _) \<Rightarrow> (s', Inr (fs_pos (fw_sink s') = FW_IMAGE \<and> fs_mem (fw_sink s') = fw_image)))"

section \<open>A page is the next eight bytes of the file\<close>

lemma read_page_rest_slice:
  assumes "n + left \<le> length buf"
  shows "\<exists>buf'. read_page_rest left slice_byte_source (slice_source_new bs) buf n =
      (slice_source_new (drop left bs), buf', Inr (n + min left (length bs))) \<and> length buf' = length buf \<and>
    take (n + min left (length bs)) buf' = take n buf @ take left bs"
  using assms
proof (induction left arbitrary: bs buf n)
  case (Suc left)
  show ?case
  proof (cases bs)
    case Nil
    then show ?thesis by (simp add: slice_byte_source_def slice_source_new_def)
  next
    case (Cons b bs')
    have "Suc n + left \<le> length (buf[n := b])" using Suc.prems by simp
    from Suc.IH [OF this, of bs'] obtain buf' where
      "read_page_rest left slice_byte_source (slice_source_new bs') (buf[n := b]) (Suc n) =
        (slice_source_new (drop left bs'), buf', Inr (Suc n + min left (length bs')))"
      "length buf' = length buf" "take (Suc n + min left (length bs')) buf' = take (Suc n) (buf[n := b]) @ take left bs'"
      by auto
    moreover have "take (Suc n) (buf[n := b]) = take n buf @ [b]"
      using Suc.prems by (simp add: take_Suc_conv_app_nth)
    ultimately show ?thesis using Cons by (simp add: slice_byte_source_def slice_source_new_def)
  qed
qed (simp add: slice_byte_source_def slice_source_new_def)

lemma read_page_slice:
  assumes "length buf = FW_PAGE"
  shows "\<exists>buf' n. read_page slice_byte_source (slice_source_new bs) buf = (slice_source_new (drop 8 bs), buf', Inr n) \<and>
    n = min 8 (length bs) \<and> length buf' = FW_PAGE \<and> take n buf' = take 8 bs"
  using read_page_rest_slice [of 0 FW_PAGE buf bs] assms by (auto simp: read_page_def FW_PAGE_def)

section \<open>The flash and the status\<close>

text \<open>
  The MCU's link only answers: while it is not answering its queue is empty, so when a page has
  been closed the status byte has room and FINISH has not been offered.
\<close>

definition answering :: "page_link \<Rightarrow> bool" where
  "answering p = (0 < length (tn_buf (pg_turn p)) \<and> turn_wf (pg_turn p) \<and>
     (pg_phase p \<noteq> PhAcking \<longrightarrow> tn_len (pg_turn p) = 0))"

lemma turn_step_len:
  assumes "turn_step wturn_drive_tx poll w t = (w', t', r)"
  shows "length (tn_buf t') = length (tn_buf t) \<and> tn_len t' = (if r = Inr TurnYielded then 0 else tn_len t) \<and>
    (r = Inr TurnGranted \<longrightarrow> \<not> tn_finish_offered t')"
proof -
  obtain w1 pm x where p: "poll w (tn_pump (wturn_drive_tx t)) = (w1, pm, x)" by (metis prod_cases3)
  show ?thesis
  proof (cases x)
    case (Inl e)
    then show ?thesis using assms p win.keeps [of t] by (auto simp: turn_step_def)
  next
    case (Inr ev)
    then show ?thesis using assms p win.keeps [of t]
      by (cases ev) (auto simp: turn_step_def turn_on_event_def turn_reopen_def split: if_splits)
  qed
qed

lemma page_take_answering:
  assumes "page_take ev p = (p', out)" and "pg_phase p \<notin> {PhSending, PhWaitStatus}"
    and "pg_phase p \<noteq> PhAcking \<or> ev = TurnYielded \<longrightarrow> tn_len (pg_turn p) = 0"
  shows "(pg_phase p' \<noteq> PhAcking \<longrightarrow> tn_len (pg_turn p') = 0) \<and> pg_phase p' \<notin> {PhSending, PhWaitStatus} \<and>
    pg_turn p' = pg_turn p \<and> (\<forall>n. out = PageClosed n \<longrightarrow> ev = TurnGranted \<and> pg_phase p' = PhNeedAck)"
  using assms by (cases "pg_phase p"; cases ev) (auto simp: page_take_def split: if_splits)

lemma page_poll_answering:
  assumes "page_poll ptx prx w p = (w', p', r)" and "answering p" and "pg_phase p \<notin> {PhSending, PhWaitStatus}"
  shows "answering p' \<and> pg_phase p' \<notin> {PhSending, PhWaitStatus} \<and>
    (\<forall>n. r = Inr (PageClosed n) \<longrightarrow> pg_phase p' = PhNeedAck \<and> \<not> tn_finish_offered (pg_turn p'))"
proof -
  obtain w1 t x where t: "wturn_poll ptx prx w (pg_turn p) = (w1, t, x)" by (metis prod_cases3)
  note st = t [unfolded wturn_poll_def]
  have wf: "turn_wf t" using win.step_inv [OF st] assms(2) by (simp add: answering_def)
  have l: "length (tn_buf t) = length (tn_buf (pg_turn p))"
    "tn_len t = (if x = Inr TurnYielded then 0 else tn_len (pg_turn p))" "x = Inr TurnGranted \<longrightarrow> \<not> tn_finish_offered t"
    using turn_step_len [OF st] by blast+
  show ?thesis
  proof (cases x)
    case (Inl e)
    then show ?thesis using assms t wf l by (auto simp: page_poll_def answering_def)
  next
    case (Inr ev)
    obtain q out where q: "page_take ev (p\<lparr>pg_turn := t\<rparr>) = (q, out)" by fastforce
    have r: "p' = q" "r = Inr out" using assms(1) t Inr q by (auto simp: page_poll_def)
    have pre: "pg_phase (p\<lparr>pg_turn := t\<rparr>) \<noteq> PhAcking \<or> ev = TurnYielded \<longrightarrow> tn_len (pg_turn (p\<lparr>pg_turn := t\<rparr>)) = 0"
      using l(2) Inr assms(2) by (auto simp: answering_def)
    have ph: "pg_phase (p\<lparr>pg_turn := t\<rparr>) \<notin> {PhSending, PhWaitStatus}" using assms(3) by simp
    note k = page_take_answering [OF q ph pre]
    show ?thesis using k r wf l Inr assms(2) by (auto simp: answering_def)
  qed
qed

lemma page_ack_answering:
  assumes "page_ack b p = (p', ok)" and "answering p" and "pg_phase p = PhNeedAck" and "\<not> tn_finish_offered (pg_turn p)"
  shows "ok \<and> answering p' \<and> pg_phase p' \<notin> {PhSending, PhWaitStatus}"
proof -
  have z: "tn_len (pg_turn p) = 0" "0 < length (tn_buf (pg_turn p))" "turn_wf (pg_turn p)"
    using assms(2,3) by (simp_all add: answering_def)
  obtain t n where t: "turn_push [b] (pg_turn p) = (t, n)" by fastforce
  have f: "turn_fill [b] (pg_turn p) = (t, n)" using t assms(4) by (simp add: turn_push_def)
  have "n = 1" using turn_fill [OF f] z by simp
  moreover have "turn_wf t" "length (tn_buf t) = length (tn_buf (pg_turn p))"
    using turn_fill [OF f] z(1,3) assms(4) Suc_leI [OF z(2)] by (auto simp: turn_wf_def simp del: length_greater_0_conv)
  ultimately show ?thesis using assms(1,3) t z by (auto simp: page_ack_def answering_def)
qed

definition flash_ok :: "flash_sink \<Rightarrow> bool" where
  "flash_ok k = (length (fs_mem k) = FW_IMAGE \<and> fs_pos k \<le> FW_IMAGE \<and>
     drop (fs_pos k) (fs_mem k) = replicate (FW_IMAGE - fs_pos k) 0xFF)"

lemma flash_write_ok:
  assumes "sink_write flash_byte_sink b k = (k', r)" and "flash_ok k"
  shows "flash_ok k' \<and> take (fs_pos k') (fs_mem k') = take (fs_pos k) (fs_mem k) @ (case r of Inr _ \<Rightarrow> [b] | Inl _ \<Rightarrow> [])"
proof (cases "fs_pos k \<ge> length (fs_mem k)")
  case True
  then show ?thesis using assms by (auto simp: flash_byte_sink_def)
next
  case False
  then have k': "k' = k\<lparr>fs_mem := (fs_mem k)[fs_pos k := b], fs_pos := fs_pos k + 1\<rparr>" "r = Inr ()" and lt: "fs_pos k < FW_IMAGE"
    using assms by (auto simp: flash_byte_sink_def flash_ok_def)
  have d: "drop (Suc (fs_pos k)) (fs_mem k) = replicate (FW_IMAGE - Suc (fs_pos k)) 0xFF"
  proof -
    have "drop (Suc (fs_pos k)) (fs_mem k) = tl (drop (fs_pos k) (fs_mem k))" by (simp add: drop_Suc tl_drop)
    also have "\<dots> = tl (replicate (FW_IMAGE - fs_pos k) 0xFF)" using assms(2) by (simp add: flash_ok_def)
    also have "\<dots> = replicate (FW_IMAGE - Suc (fs_pos k)) 0xFF" using lt by (cases "FW_IMAGE - fs_pos k") auto
    finally show ?thesis .
  qed
  show ?thesis using k' d assms(2) lt by (simp add: flash_ok_def take_Suc_conv_app_nth)
qed

definition mcu_ok :: "'s firmware \<Rightarrow> bool" where
  "mcu_ok s = (answering (fw_mcu s) \<and> pg_phase (fw_mcu s) \<notin> {PhSending, PhWaitStatus} \<and> flash_ok (fw_sink s))"

lemma fw_next_page_mcu: "fw_next_page src s = (s', r) \<Longrightarrow> fw_mcu s' = fw_mcu s \<and> fw_sink s' = fw_sink s \<and> r \<noteq> Inl FwStatusRejected"
  by (auto simp: fw_next_page_def split: if_splits prod.splits sum.splits)

lemma fw_poll_host_mcu: "fw_poll_host s = (s', r) \<Longrightarrow> fw_mcu s' = fw_mcu s \<and> fw_sink s' = fw_sink s \<and> r \<noteq> Inl FwStatusRejected"
  by (auto simp: fw_poll_host_def Let_def split: if_splits prod.splits sum.splits page_event.splits)

lemma fw_poll_mcu_ok:
  assumes "fw_poll_mcu s = (s', r)" and "mcu_ok s"
  shows "mcu_ok s' \<and> r \<noteq> Inl FwStatusRejected"
proof -
  obtain face mcu x where p: "page_poll (face_port (bus_port FW_RING False) True) (face_port (bus_port FW_RING False) False)
      ((fw_mcu_face s)\<lparr>fc_port := fw_bus s\<rparr>) (fw_mcu s) = (face, mcu, x)" by (metis prod_cases3)
  have a: "answering mcu" "pg_phase mcu \<notin> {PhSending, PhWaitStatus}"
    "\<And>n. x = Inr (PageClosed n) \<Longrightarrow> pg_phase mcu = PhNeedAck \<and> \<not> tn_finish_offered (pg_turn mcu)"
    and f: "flash_ok (fw_sink s)"
    using page_poll_answering [OF p] assms(2) by (auto simp: mcu_ok_def)
  show ?thesis
  proof (cases x)
    case (Inl e)
    then show ?thesis using assms(1) p a(1,2) f by (auto simp: fw_poll_mcu_def mcu_ok_def)
  next
    case (Inr ev)
    show ?thesis
    proof (cases ev)
      case (PageData b)
      obtain k y where k: "sink_write flash_byte_sink b (fw_sink s) = (k, y)" by fastforce
      show ?thesis using assms(1) p a(1,2) flash_write_ok [OF k f] k Inr PageData
        by (cases y) (auto simp: fw_poll_mcu_def mcu_ok_def)
    next
      case (PageClosed n)
      obtain mcu' ok where k: "page_ack 0x06 mcu = (mcu', ok)" by fastforce
      show ?thesis using assms(1) p page_ack_answering [OF k a(1)] a(3) k Inr PageClosed f
        by (auto simp: fw_poll_mcu_def mcu_ok_def)
    qed (use assms(1) p a(1,2) f Inr in \<open>auto simp: fw_poll_mcu_def mcu_ok_def\<close>)
  qed
qed

lemma fw_rounds_ok:
  assumes "fw_rounds n src s = (s', r)" and "mcu_ok s"
  shows "mcu_ok s' \<and> r \<noteq> Inl FwStatusRejected"
  using assms
proof (induction n arbitrary: s)
  case (Suc n)
  obtain s1 r1 where 1: "fw_next_page src s = (s1, r1)" by fastforce
  obtain s2 r2 where 2: "fw_poll_host s1 = (s2, r2)" by fastforce
  obtain s3 r3 where 3: "fw_poll_mcu s2 = (s3, r3)" by fastforce
  have ok1: "mcu_ok s1" "r1 \<noteq> Inl FwStatusRejected" using fw_next_page_mcu [OF 1] Suc.prems(2) by (auto simp: mcu_ok_def)
  have ok2: "mcu_ok s2" "r2 \<noteq> Inl FwStatusRejected" using fw_poll_host_mcu [OF 2] ok1 by (auto simp: mcu_ok_def)
  have ok3: "mcu_ok s3" "r3 \<noteq> Inl FwStatusRejected" using fw_poll_mcu_ok [OF 3 ok2(1)] by auto
  consider e where "r1 = Inl e" | e where "r1 = Inr ()" "r2 = Inl e" | e where "r1 = Inr ()" "r2 = Inr ()" "r3 = Inl e"
    | "r1 = Inr ()" "r2 = Inr ()" "r3 = Inr ()" by (metis (full_types) old.unit.exhaust sum.exhaust)
  then show ?case
  proof cases
    case 4
    then have "s' = s3 \<and> r = Inr () \<or> fw_rounds n src s3 = (s', r)" using Suc.prems(1) 1 2 3 by (simp split: if_splits)
    then show ?thesis using Suc.IH ok3(1) by auto
  qed (use Suc.prems 1 2 3 ok1 ok2 ok3 in auto)
qed (metis Inl_Inr_False fw_rounds.simps(1) prod.inject)

lemma mcu_ok_new: "mcu_ok (fw_new s)"
  by (simp add: mcu_ok_def fw_new_def answering_def face_page_def page_new_def face_window_turn_def turn_new_def turn_wf_def
      FW_PAGE_def flash_ok_def)

text \<open>
  C40: The MCU of the firmware example never has its status rejected, whatever the file gives and
  however the bytes of the bus come: a closed page leaves room for exactly the status byte.  The
  flash behind the programmed bytes stays erased, and the programming position stays in the image.
\<close>

theorem firmware_status_accepted:
  "snd (fw_rounds n src (fw_new s)) \<noteq> Inl FwStatusRejected \<and>
   (case fw_sink (fst (fw_rounds n src (fw_new s))) of
      k \<Rightarrow> length (fs_mem k) = FW_IMAGE \<and> fs_pos k \<le> FW_IMAGE \<and>
        drop (fs_pos k) (fs_mem k) = replicate (FW_IMAGE - fs_pos k) 0xFF)"
  using fw_rounds_ok [OF surjective_pairing mcu_ok_new, of n src s] by (simp add: mcu_ok_def flash_ok_def)

end
