(* ===== verification/Telemetry.thy ===== *)
theory Telemetry
  imports Bus Page Face
begin

text \<open>
  The telemetry example (\<open>examples/sensor_telemetry.rs\<close>): a node sends a packed sample of eight bytes
  in a windowed turn, and the gateway answers with its own.  The packing has a magic byte and an
  XOR over the rest, so a sample with one wrong byte is rejected.
\<close>

section \<open>The code\<close>

definition TL_RING :: nat where "TL_RING = 256"

definition SAMPLE :: "u8 list" where "SAMPLE = [0xA5, 0xE7, 0x00, 0x2F, 0x7E, 0x0E, 0x00, 0x1D]"
definition ANSWER :: "u8 list" where "ANSWER = [0xA5, 0xDC, 0x00, 0x28, 0x10, 0x0E, 0x01, 0x4E]"

text \<open>Two bytes, the lower one first, as 16 bits; the temperature is read signed.\<close>

definition le16 :: "u8 \<Rightarrow> u8 \<Rightarrow> u16" where
  "le16 lo hi = of_be16 hi lo"

definition xor_bytes :: "u8 list \<Rightarrow> u8" where
  "xor_bytes bs = foldl (XOR) 0 bs"

definition unpack :: "u8 list \<Rightarrow> (int \<times> u8 \<times> u16 \<times> u8) option" where
  "unpack bytes =
     (if bytes ! 0 \<noteq> 0xA5 then None
      else if xor_bytes (take 7 bytes) \<noteq> bytes ! 7 then None
      else Some (sint (le16 (bytes ! 1) (bytes ! 2)), bytes ! 3, le16 (bytes ! 4) (bytes ! 5), bytes ! 6))"

record telemetry =
  tl_bus :: bus
  tl_node_face :: "bus face"
  tl_node :: "(wsender, wreceiver) turn"
  tl_gw_face :: "bus face"
  tl_gw :: "(wsender, wreceiver) turn"
  tl_got_node :: "u8 list"
  tl_got_gw :: "u8 list"
  tl_nn :: nat
  tl_ng :: nat
  tl_yielded :: bool

text \<open>How \<open>main\<close> ends before the report; \<open>TlPanic\<close> is an index out of range or a failed assertion.\<close>

datatype tl_exit = TlNodeFailed | TlGatewayFailed | TlStalled | TlRejected | TlPanic

definition tl_new :: "telemetry \<times> (tl_exit + unit)" where
  "tl_new =
     (case turn_push SAMPLE (face_window_turn 8 True) of
        (node, n) \<Rightarrow>
          (case turn_push ANSWER (face_window_turn 8 False) of
             (gw, m) \<Rightarrow>
               (\<lparr>tl_bus = bus_new TL_RING, tl_node_face = face_new (bus_new TL_RING), tl_node = node,
                 tl_gw_face = face_new (bus_new TL_RING), tl_gw = gw, tl_got_node = replicate 8 0,
                 tl_got_gw = replicate 8 0, tl_nn = 0, tl_ng = 0, tl_yielded = False\<rparr>,
                if n = 8 \<and> m = 8 then Inr () else Inl TlPanic)))"

definition tl_poll_node :: "telemetry \<Rightarrow> telemetry \<times> (tl_exit + unit)" where
  "tl_poll_node s =
     (case wturn_poll (face_port (bus_port TL_RING True) True) (face_port (bus_port TL_RING True) False)
          ((tl_node_face s)\<lparr>fc_port := tl_bus s\<rparr>) (tl_node s) of
        (face, node, r) \<Rightarrow>
          let s' = s\<lparr>tl_bus := fc_port face, tl_node_face := face, tl_node := node\<rparr>
          in (case r of
                Inr (TurnReceived b) \<Rightarrow>
                  (if tl_nn s' < length (tl_got_node s')
                   then (s'\<lparr>tl_got_node := (tl_got_node s')[tl_nn s' := b], tl_nn := tl_nn s' + 1\<rparr>, Inr ())
                   else (s', Inl TlPanic))
              | Inr TurnYielded \<Rightarrow> (s'\<lparr>tl_yielded := True\<rparr>, Inr ())
              | Inr _ \<Rightarrow> (s', Inr ())
              | Inl _ \<Rightarrow> (s', Inl TlNodeFailed)))"

definition tl_poll_gateway :: "telemetry \<Rightarrow> telemetry \<times> (tl_exit + unit)" where
  "tl_poll_gateway s =
     (case wturn_poll (face_port (bus_port TL_RING False) True) (face_port (bus_port TL_RING False) False)
          ((tl_gw_face s)\<lparr>fc_port := tl_bus s\<rparr>) (tl_gw s) of
        (face, gw, r) \<Rightarrow>
          let s' = s\<lparr>tl_bus := fc_port face, tl_gw_face := face, tl_gw := gw\<rparr>
          in (case r of
                Inr (TurnReceived b) \<Rightarrow>
                  (if tl_ng s' < length (tl_got_gw s')
                   then (s'\<lparr>tl_got_gw := (tl_got_gw s')[tl_ng s' := b], tl_ng := tl_ng s' + 1\<rparr>, Inr ())
                   else (s', Inl TlPanic))
              | Inr _ \<Rightarrow> (s', Inr ())
              | Inl _ \<Rightarrow> (s', Inl TlGatewayFailed)))"

fun tl_rounds :: "nat \<Rightarrow> telemetry \<Rightarrow> telemetry \<times> (tl_exit + unit)" where
  "tl_rounds 0 s = (s, Inr ())"
| "tl_rounds (Suc rounds) s =
     (case tl_poll_node s of
        (s1, Inl e) \<Rightarrow> (s1, Inl e)
      | (s1, Inr _) \<Rightarrow>
          (case tl_poll_gateway s1 of
             (s2, Inl e) \<Rightarrow> (s2, Inl e)
           | (s2, Inr _) \<Rightarrow>
               if tl_yielded s2 \<and> tl_nn s2 = 8 \<and> tl_ng s2 = 8 then (s2, Inr ()) else tl_rounds rounds s2))"

definition sensor_telemetry :: "tl_exit + (int \<times> u8 \<times> u16 \<times> u8)" where
  "sensor_telemetry =
     (case tl_new of
        (_, Inl e) \<Rightarrow> Inl e
      | (s, Inr _) \<Rightarrow>
          (case tl_rounds 40000 s of
             (_, Inl e) \<Rightarrow> Inl e
           | (s', Inr _) \<Rightarrow>
               if tl_ng s' \<noteq> 8 \<or> tl_nn s' \<noteq> 8 then Inl TlStalled
               else (case unpack (tl_got_gw s') of None \<Rightarrow> Inl TlRejected | Some x \<Rightarrow> Inr x)))"

section \<open>Unpacking\<close>

lemma xor_bytes_start: "foldl (XOR) a bs = a XOR foldl (XOR) (0 :: u8) bs"
proof (induction bs arbitrary: a)
  case (Cons b bs)
  show ?case using Cons.IH [of "a XOR b"] Cons.IH [of b] by (simp add: xor.assoc)
qed simp

lemma xor_bytes_Cons [simp]: "xor_bytes (b # bs) = b XOR xor_bytes bs" "xor_bytes [] = 0"
  using xor_bytes_start [of b bs] by (simp_all add: xor_bytes_def)

lemma xor_bytes_update: "i < length bs \<Longrightarrow> xor_bytes (bs[i := x]) = xor_bytes bs XOR bs ! i XOR x"
proof (induction bs arbitrary: i)
  case (Cons b bs)
  show ?case
  proof (cases i)
    case 0
    have "b XOR (xor_bytes bs XOR (b XOR x)) = x XOR xor_bytes bs"
      by (simp add: xor.left_commute xor.commute)
    then show ?thesis using 0 by (simp add: xor.assoc)
  next
    case (Suc j)
    then show ?thesis using Cons by (simp add: xor.assoc)
  qed
qed simp

lemma unpack_SAMPLE: "unpack SAMPLE = Some (231, 47, 3710, 0)" "unpack ANSWER = Some (220, 40, 3600, 1)"
  by (simp_all add: unpack_def SAMPLE_def ANSWER_def le16_def of_be16_def)

lemma tl_new_pushes: "snd tl_new = Inr ()"
  by (simp add: tl_new_def face_window_turn_def turn_new_def turn_push_def SAMPLE_def ANSWER_def split: prod.split)

text \<open>
  The gateway of the telemetry example rejects a sample with one wrong byte: whatever byte of an
  accepted sample is replaced by another value, the magic, a measurement or the check, unpacking
  gives nothing.
\<close>

theorem unpack_rejects_corruption:
  assumes "length bytes = 8" and "unpack bytes \<noteq> None" and "i < 8" and "x \<noteq> bytes ! i"
  shows "unpack (bytes[i := x]) = None"
proof -
  have ok: "xor_bytes (take 7 bytes) = bytes ! 7" using assms(2) by (simp add: unpack_def split: if_splits)
  show ?thesis
  proof (cases "i < 7")
    case True
    have "xor_bytes (take 7 (bytes[i := x])) = bytes ! 7 XOR bytes ! i XOR x"
      using xor_bytes_update [of i "take 7 bytes" x] True assms(1) ok by (simp add: take_update_swap)
    moreover have "bytes ! 7 XOR bytes ! i XOR x \<noteq> bytes ! 7"
    proof
      assume "bytes ! 7 XOR bytes ! i XOR x = bytes ! 7"
      then have "bytes ! 7 XOR (bytes ! 7 XOR bytes ! i XOR x) = 0" by simp
      then have "bytes ! i XOR x = 0" by (simp add: xor.assoc [symmetric])
      then have "bytes ! i XOR (bytes ! i XOR x) = bytes ! i" by simp
      then show False using assms(4) by (simp add: xor.assoc [symmetric])
    qed
    ultimately show ?thesis using True by (simp add: unpack_def)
  next
    case False
    then have "i = 7" using assms(3) by simp
    then show ?thesis using ok assms(1,4) by (simp add: unpack_def)
  qed
qed

theorem unpack_rejects_corruption_witness: "unpack (SAMPLE[4 := 0x7F]) = None"
  using unpack_rejects_corruption [of SAMPLE 4 "0x7F"] unpack_SAMPLE(1) by (simp add: SAMPLE_def)

end
