(* ===== verification/Tcp.thy ===== *)
theory Tcp
  imports Page Face
begin

text \<open>
  The two examples over a TCP stream (\<open>examples/tcp_pair.rs\<close>, \<open>examples/turn_pair.rs\<close>): the port on a
  non-blocking stream, and the loop of a peer, with a pump and with a turn.  The stream is a
  parameter: what one call of \<open>write\<close> with one byte and one call of \<open>read\<close> into one byte gives.
  The lemmas say when a write returns and that every index of the loops is in range.
\<close>

section \<open>The port\<close>

datatype tcp_write = TwNothing | TwTaken | TwWouldBlock | TwFailed

datatype tcp_read = TrNothing | TrByte u8 | TrWouldBlock | TrFailed

record 'k tcp_stream =
  ts_write :: "u8 \<Rightarrow> 'k \<Rightarrow> 'k \<times> tcp_write"
  ts_read :: "'k \<Rightarrow> 'k \<times> tcp_read"

text \<open>
  The errors of the port.  A trait method is a total function; a write to a stream that blocks for
  ever does not return, which is the last of these values.
\<close>

datatype io_error = IoWriteZero | IoOther | IoNeverReturns

partial_function (option) tcp_write_loop :: "'k tcp_stream \<Rightarrow> u8 \<Rightarrow> 'k \<Rightarrow> ('k \<times> (io_error + unit)) option" where
  "tcp_write_loop ts byte k =
     (case ts_write ts byte k of
        (k', TwNothing) \<Rightarrow> Some (k', Inl IoWriteZero)
      | (k', TwTaken) \<Rightarrow> Some (k', Inr ())
      | (k', TwWouldBlock) \<Rightarrow> tcp_write_loop ts byte k'
      | (k', TwFailed) \<Rightarrow> Some (k', Inl IoOther))"

definition tcp_port :: "'k tcp_stream \<Rightarrow> ('k, io_error) port" where
  "tcp_port ts =
     \<lparr>write_byte = (\<lambda>byte k. case tcp_write_loop ts byte k of None \<Rightarrow> (k, Inl IoNeverReturns) | Some r \<Rightarrow> r),
      read_byte = (\<lambda>k. case ts_read ts k of
         (k', TrNothing) \<Rightarrow> (k', Inr None)
       | (k', TrByte b) \<Rightarrow> (k', Inr (Some b))
       | (k', TrWouldBlock) \<Rightarrow> (k', Inr None)
       | (k', TrFailed) \<Rightarrow> (k', Inl IoOther))\<rparr>"

text \<open>A write returns over any stream that can block only so often in a row.\<close>

lemma tcp_write_returns:
  assumes "\<And>k k'. ts_write ts byte k = (k', TwWouldBlock) \<Longrightarrow> waits k' < (waits k :: nat)"
  shows "\<exists>r. tcp_write_loop ts byte k = Some r"
proof (induction "waits k" arbitrary: k rule: less_induct)
  case less
  obtain k' r where w: "ts_write ts byte k = (k', r)" by fastforce
  show ?case
  proof (cases r)
    case TwWouldBlock
    then show ?thesis using less [of k'] assms [of k k'] w by (subst tcp_write_loop.simps) simp
  qed (subst tcp_write_loop.simps, simp add: w)+
qed

section \<open>A peer with a pump\<close>

definition PING :: "u8 list" where "PING = [0x70, 0x69, 0x6E, 0x67]"
definition PONG :: "u8 list" where "PONG = [0x70, 0x6F, 0x6E, 0x67]"

record 'k tcp_peer =
  tp_face :: "'k face"
  tp_pump :: "(sender, receiver) pump"
  tp_need_start :: bool
  tp_out_i :: nat
  tp_finish_offered :: bool
  tp_got :: "u8 list"
  tp_got_n :: nat

datatype tcp_end = TcpOn | TcpCompleted | TcpPollFailed | TcpStalled

definition tp_new :: "bool \<Rightarrow> 'k \<Rightarrow> 'k tcp_peer" where
  "tp_new initiator k =
     \<lparr>tp_face = face_new k, tp_pump = face_pump, tp_need_start = initiator, tp_out_i = 0,
      tp_finish_offered = False, tp_got = replicate 4 0, tp_got_n = 0\<rparr>"

definition tp_set_tx :: "sender \<Rightarrow> 'k tcp_peer \<Rightarrow> 'k tcp_peer" where
  "tp_set_tx tx s = s\<lparr>tp_pump := (tp_pump s)\<lparr>pm_tx := tx\<rparr>\<rparr>"

definition tp_offer :: "bool \<Rightarrow> 'k tcp_peer \<Rightarrow> 'k tcp_peer" where
  "tp_offer initiator s =
     (let tx = pm_tx (tp_pump s)
      in if \<not> initiator \<or> s_state tx \<notin> {TxIdle, TxFinished, TxAborted, TxFailed} then s
         else if tp_need_start s
         then (case sender_offer_start tx of
                 (tx', Inr _) \<Rightarrow> (tp_set_tx tx' s)\<lparr>tp_need_start := False, tp_out_i := 0, tp_finish_offered := False, tp_got_n := 0\<rparr>
               | (tx', Inl (e :: unit error)) \<Rightarrow> tp_set_tx tx' s)
         else if s_state tx \<noteq> TxIdle then s
         else if tp_out_i s < length PING
         then (case sender_offer (PING ! tp_out_i s) tx of
                 (tx', Inr _) \<Rightarrow> (tp_set_tx tx' s)\<lparr>tp_out_i := tp_out_i s + 1\<rparr>
               | (tx', Inl (e :: unit error)) \<Rightarrow> tp_set_tx tx' s)
         else if \<not> tp_finish_offered s
         then (case sender_offer_finish tx of
                 (tx', Inr _) \<Rightarrow> (tp_set_tx tx' s)\<lparr>tp_finish_offered := True\<rparr>
               | (tx', Inl (e :: unit error)) \<Rightarrow> tp_set_tx tx' s)
         else s)"

definition tp_take :: "u8 \<Rightarrow> 'k tcp_peer \<Rightarrow> 'k tcp_peer" where
  "tp_take b s =
     (let s1 = (if tp_got_n s < length (tp_got s)
                then s\<lparr>tp_got := (tp_got s)[tp_got_n s := b], tp_got_n := tp_got_n s + 1\<rparr> else s)
      in if tp_got_n s1 = length PING then s1\<lparr>tp_got_n := 0\<rparr> else s1)"

text \<open>One round of \<open>run_peer\<close>; the first completed session ends it.\<close>

definition tp_round :: "'k tcp_stream \<Rightarrow> bool \<Rightarrow> 'k tcp_peer \<Rightarrow> 'k tcp_peer \<times> tcp_end" where
  "tp_round ts initiator s =
     (let s1 = tp_offer initiator s
      in case pump_poll (face_port (tcp_port ts) True) (face_port (tcp_port ts) False) (tp_face s1) (tp_pump s1) of
           (face, pm, r) \<Rightarrow>
             let s2 = s1\<lparr>tp_face := face, tp_pump := pm\<rparr>
             in (case r of
                   Inr (EvReceived b) \<Rightarrow> (tp_take b s2, TcpOn)
                 | Inr EvCompleted \<Rightarrow> (s2, TcpCompleted)
                 | Inr EvAborted \<Rightarrow> (if initiator then s2\<lparr>tp_need_start := True\<rparr> else s2, TcpOn)
                 | Inr _ \<Rightarrow> (s2, TcpOn)
                 | Inl _ \<Rightarrow>
                     (case pump_abort pm of (pm', (_ :: unit error + unit)) \<Rightarrow> (s2\<lparr>tp_pump := pm'\<rparr>, TcpPollFailed))))"

fun tp_rounds :: "nat \<Rightarrow> 'k tcp_stream \<Rightarrow> bool \<Rightarrow> 'k tcp_peer \<Rightarrow> 'k tcp_peer \<times> tcp_end" where
  "tp_rounds 0 ts initiator s = (s, TcpStalled)"
| "tp_rounds (Suc rounds) ts initiator s =
     (case tp_round ts initiator s of (s', e) \<Rightarrow> if e = TcpOn then tp_rounds rounds ts initiator s' else (s', e))"

definition tcp_pair_run_peer :: "'k tcp_stream \<Rightarrow> bool \<Rightarrow> 'k \<Rightarrow> 'k tcp_peer \<times> tcp_end" where
  "tcp_pair_run_peer ts initiator k = tp_rounds 2000000 ts initiator (tp_new initiator k)"

text \<open>Every index is in range: what is offered is a byte of the text, and what is received has room.\<close>

definition tp_in_range :: "'k tcp_peer \<Rightarrow> bool" where
  "tp_in_range s = (length (tp_got s) = 4 \<and> tp_got_n s < 4 \<and> tp_out_i s \<le> length PING)"

lemma tp_take_in_range: "tp_in_range s \<Longrightarrow> tp_in_range (tp_take b s)"
  by (auto simp: tp_in_range_def tp_take_def Let_def PING_def)

lemma tp_offer_in_range: "tp_in_range s \<Longrightarrow> tp_in_range (tp_offer i s)"
  by (simp add: tp_in_range_def tp_offer_def tp_set_tx_def Let_def split: prod.split sum.split)

lemma tp_round_in_range: "tp_in_range s \<Longrightarrow> tp_round ts i s = (s', e) \<Longrightarrow> tp_in_range s'"
proof -
  assume s: "tp_in_range s" and r: "tp_round ts i s = (s', e)"
  obtain face pm x where p: "pump_poll (face_port (tcp_port ts) True) (face_port (tcp_port ts) False)
      (tp_face (tp_offer i s)) (tp_pump (tp_offer i s)) = (face, pm, x)" by (metis prod_cases3)
  let ?s = "(tp_offer i s)\<lparr>tp_face := face, tp_pump := pm\<rparr>"
  have k: "tp_in_range ?s" using tp_offer_in_range [OF s, of i] by (simp add: tp_in_range_def)
  show ?thesis
  proof (cases "\<exists>b. x = Inr (EvReceived b)")
    case True
    then show ?thesis using r p tp_take_in_range [OF k] by (auto simp: tp_round_def Let_def)
  next
    case False
    then have "s' = ?s \<or> s' = ?s\<lparr>tp_need_start := True\<rparr> \<or> (\<exists>pm'. s' = ?s\<lparr>tp_pump := pm'\<rparr>)"
      using r p by (auto simp: tp_round_def Let_def split: prod.splits sum.splits pump_event.splits if_splits)
    then show ?thesis using k by (auto simp: tp_in_range_def)
  qed
qed

lemma tcp_pair_in_range: "tp_in_range (fst (tp_rounds n ts i (tp_new i k)))"
proof -
  have "tp_in_range (fst (tp_rounds n ts i s))" if "tp_in_range s" for s
    using that by (induction n arbitrary: s) (auto split: prod.splits dest: tp_round_in_range)
  then show ?thesis by (simp add: tp_new_def tp_in_range_def)
qed

section \<open>A peer with a turn\<close>

record 'k turn_peer =
  up_face :: "'k face"
  up_turn :: "(sender, receiver) turn"
  up_got :: "u8 list"
  up_n :: nat
  up_yielded :: bool
  up_granted :: bool

text \<open>How \<open>run_peer\<close> ends; \<open>UpPanic\<close> is one of its panics or a failed assertion.\<close>

datatype turn_end = UpOn | UpDone | UpPanic

definition up_new :: "bool \<Rightarrow> u8 list \<Rightarrow> 'k \<Rightarrow> 'k turn_peer \<times> turn_end" where
  "up_new first payload k =
     (case turn_push payload (face_turn 8 first) of
        (t, n) \<Rightarrow>
          (\<lparr>up_face = face_new k, up_turn = t, up_got = replicate 4 0, up_n = 0, up_yielded = False, up_granted = False\<rparr>,
           if n = length payload then UpOn else UpPanic))"

definition up_round :: "'k tcp_stream \<Rightarrow> u8 list \<Rightarrow> 'k turn_peer \<Rightarrow> 'k turn_peer \<times> turn_end" where
  "up_round ts payload s =
     (case turn_poll (face_port (tcp_port ts) True) (face_port (tcp_port ts) False) (up_face s) (up_turn s) of
        (face, t, Inl _) \<Rightarrow> (s\<lparr>up_face := face, up_turn := t\<rparr>, UpPanic)
      | (face, t, Inr ev) \<Rightarrow>
          let s1 = s\<lparr>up_face := face, up_turn := t\<rparr>;
              s2 = (case ev of
                      TurnReceived b \<Rightarrow>
                        if up_n s1 < length (up_got s1) then s1\<lparr>up_got := (up_got s1)[up_n s1 := b], up_n := up_n s1 + 1\<rparr> else s1
                    | TurnYielded \<Rightarrow> s1\<lparr>up_yielded := True\<rparr>
                    | TurnGranted \<Rightarrow> s1\<lparr>up_granted := True\<rparr>
                    | TurnIdle \<Rightarrow> s1)
          in (s2, if up_yielded s2 \<and> up_granted s2 \<and> up_n s2 = length payload then UpDone else UpOn))"

fun up_rounds :: "nat \<Rightarrow> 'k tcp_stream \<Rightarrow> u8 list \<Rightarrow> 'k turn_peer \<Rightarrow> 'k turn_peer \<times> turn_end" where
  "up_rounds 0 ts payload s = (s, UpPanic)"
| "up_rounds (Suc rounds) ts payload s =
     (case up_round ts payload s of (s', e) \<Rightarrow> if e = UpOn then up_rounds rounds ts payload s' else (s', e))"

definition turn_pair_run_peer :: "'k tcp_stream \<Rightarrow> bool \<Rightarrow> u8 list \<Rightarrow> 'k \<Rightarrow> 'k turn_peer \<times> turn_end" where
  "turn_pair_run_peer ts first payload k =
     (case up_new first payload k of (s, e) \<Rightarrow> if e = UpOn then up_rounds 2000000 ts payload s else (s, e))"

text \<open>A payload of at most eight bytes is queued whole.\<close>

lemma up_new_pushes: "length payload \<le> 8 \<Longrightarrow> snd (up_new first payload k) = UpOn"
proof -
  assume l: "length payload \<le> 8"
  obtain t n where p: "turn_push payload (face_turn 8 first) = (t, n)" by fastforce
  then have "turn_fill payload (face_turn 8 first) = (t, n)" by (simp add: turn_push_def face_turn_def turn_new_def)
  from turn_fill [OF this] have "n = length payload" using l by (simp add: face_turn_def turn_new_def)
  then show ?thesis using p by (simp add: up_new_def)
qed

text \<open>A peer that is done has had both turns and holds as many bytes as it was to hear.\<close>

lemma turn_pair_done:
  "turn_pair_run_peer ts first payload k = (s, UpDone) \<Longrightarrow> up_yielded s \<and> up_granted s \<and> up_n s = length payload"
proof -
  have "up_rounds n ts payload s0 = (s, UpDone) \<Longrightarrow> up_yielded s \<and> up_granted s \<and> up_n s = length payload" for n s0
  proof (induction n arbitrary: s0)
    case (Suc n)
    obtain s1 e where r: "up_round ts payload s0 = (s1, e)" by fastforce
    show ?case
    proof (cases "e = UpOn")
      case True
      then show ?thesis using Suc r by simp
    next
      case False
      then have "up_round ts payload s0 = (s, UpDone)" using Suc.prems r by simp
      then show ?thesis by (auto simp: up_round_def Let_def split: prod.splits sum.splits if_splits)
    qed
  qed simp
  then show "turn_pair_run_peer ts first payload k = (s, UpDone) \<Longrightarrow> up_yielded s \<and> up_granted s \<and> up_n s = length payload"
    by (auto simp: turn_pair_run_peer_def up_new_def split: prod.splits if_splits)
qed

end
