(* ===== verification/Half.thy ===== *)
theory Half
  imports Transport
begin

text \<open>
  The half-duplex line (\<open>src/transport/half.rs\<close>): a transport around a physical port that stages four
  bytes and then writes them as one burst with the direction pin raised.  The lemmas say that it is
  a byte link again, so all that is proved over a link holds behind it, and that whatever errors
  the port reports the bytes on the pair are the caller's stream in whole frames.
\<close>

section \<open>The code\<close>

record 'd line_direction =
  ld_transmit :: "'d \<Rightarrow> 'd"
  ld_receive :: "'d \<Rightarrow> 'd"

definition nop_direction :: "unit line_direction" where
  "nop_direction = \<lparr>ld_transmit = (\<lambda>d. d), ld_receive = (\<lambda>d. d)\<rparr>"

record ('w, 'd) half_duplex =
  hf_port :: 'w
  hf_dir :: 'd
  hf_stage :: "u8 list"
  hf_filled :: nat
  hf_flushed :: nat

definition half_new :: "'d line_direction \<Rightarrow> 'w \<Rightarrow> 'd \<Rightarrow> ('w, 'd) half_duplex" where
  "half_new ld w d =
     \<lparr>hf_port = w, hf_dir = ld_receive ld d, hf_stage = replicate FRAME_LEN 0, hf_filled = 0, hf_flushed = 0\<rparr>"

text \<open>\<open>while self.flushed < FRAME_LEN\<close>, with the early return of a failed write.\<close>

function half_flush :: "('w, 'e) port \<Rightarrow> ('w, 'd) half_duplex \<Rightarrow> ('w, 'd) half_duplex \<times> ('e + unit)" where
  "half_flush p h =
     (if hf_flushed h < FRAME_LEN
      then (case write_byte p (hf_stage h ! hf_flushed h) (hf_port h) of
              (w, Inl e) \<Rightarrow> (h\<lparr>hf_port := w\<rparr>, Inl e)
            | (w, Inr _) \<Rightarrow> half_flush p (h\<lparr>hf_port := w, hf_flushed := hf_flushed h + 1\<rparr>))
      else (h, Inr ()))"
  by pat_completeness auto

termination half_flush
  by (relation "measure (\<lambda>(p, h). FRAME_LEN - hf_flushed h)") auto

declare half_flush.simps [simp del]

definition half_write ::
  "'d line_direction \<Rightarrow> ('w, 'e) port \<Rightarrow> u8 \<Rightarrow> ('w, 'd) half_duplex \<Rightarrow> ('w, 'd) half_duplex \<times> ('e + unit)" where
  "half_write ld p byte h0 =
     (let h = (if hf_filled h0 < FRAME_LEN
               then h0\<lparr>hf_stage := (hf_stage h0)[hf_filled h0 := byte], hf_filled := hf_filled h0 + 1\<rparr> else h0)
      in if hf_filled h < FRAME_LEN then (h, Inr ())
         else (case half_flush p (h\<lparr>hf_dir := ld_transmit ld (hf_dir h)\<rparr>) of
                 (h', Inl e) \<Rightarrow> (h'\<lparr>hf_dir := ld_receive ld (hf_dir h')\<rparr>, Inl e)
               | (h', Inr _) \<Rightarrow>
                   (h'\<lparr>hf_dir := ld_receive ld (hf_dir h'), hf_filled := 0, hf_flushed := 0\<rparr>, Inr ())))"

definition half_read ::
  "('w, 'e) port \<Rightarrow> ('w, 'd) half_duplex \<Rightarrow> ('w, 'd) half_duplex \<times> ('e + u8 option)" where
  "half_read p h = (case read_byte p (hf_port h) of (w, r) \<Rightarrow> (h\<lparr>hf_port := w\<rparr>, r))"

definition half_port :: "'d line_direction \<Rightarrow> ('w, 'e) port \<Rightarrow> (('w, 'd) half_duplex, 'e) port" where
  "half_port ld p = \<lparr>write_byte = half_write ld p, read_byte = half_read p\<rparr>"

section \<open>Over any port\<close>

text \<open>The bytes a port accepted, kept beside its world.\<close>

definition logged :: "('w, 'e) port \<Rightarrow> ('w \<times> u8 list, 'e) port" where
  "logged p = \<lparr>write_byte = (\<lambda>b (w, log). case write_byte p b w of
                 (w', Inr u) \<Rightarrow> ((w', log @ [b]), Inr u) | (w', Inl e) \<Rightarrow> ((w', log), Inl e)),
               read_byte = (\<lambda>(w, log). case read_byte p w of (w', r) \<Rightarrow> ((w', log), r))\<rparr>"

lemma half_flush_logged:
  assumes "half_flush (logged p) h = (h', r)" and "length (hf_stage h) = FRAME_LEN" and "hf_flushed h \<le> FRAME_LEN"
    and "snd (hf_port h) = log @ take (hf_flushed h) (hf_stage h)"
  shows "hf_stage h' = hf_stage h \<and> hf_filled h' = hf_filled h \<and> hf_dir h' = hf_dir h \<and>
    hf_flushed h' \<le> FRAME_LEN \<and> snd (hf_port h') = log @ take (hf_flushed h') (hf_stage h) \<and>
    (case r of Inr _ \<Rightarrow> hf_flushed h' = FRAME_LEN | Inl _ \<Rightarrow> hf_flushed h' < FRAME_LEN)"
  using assms
proof (induction "logged p" h rule: half_flush.induct)
  case (1 h)
  show ?case
  proof (cases "hf_flushed h < FRAME_LEN")
    case True
    obtain w l where w: "hf_port h = (w, l)" by (metis surj_pair)
    obtain w1 x where x: "write_byte p (hf_stage h ! hf_flushed h) w = (w1, x)" by (metis surj_pair)
    show ?thesis
    proof (cases x)
      case (Inl e)
      then have "h' = h\<lparr>hf_port := (w1, l)\<rparr>" "r = Inl e"
        using 1(2) True w x by (simp_all add: half_flush.simps [of _ h] logged_def)
      then show ?thesis using 1(4,5) True w by simp
    next
      case (Inr u)
      let ?h = "h\<lparr>hf_port := (w1, l @ [hf_stage h ! hf_flushed h]), hf_flushed := hf_flushed h + 1\<rparr>"
      have wr: "write_byte (logged p) (hf_stage h ! hf_flushed h) (hf_port h) =
          ((w1, l @ [hf_stage h ! hf_flushed h]), Inr u)"
        using w x Inr by (simp add: logged_def)
      have "half_flush (logged p) ?h = (h', r)"
        using 1(2) True wr by (simp add: half_flush.simps [of _ h])
      from 1(1) [OF True wr [symmetric] refl this] show ?thesis
        using 1(3,5) True w by (simp add: take_Suc_conv_app_nth)
    qed
  next
    case False
    then have "h' = h" "r = Inr ()" using 1(2) by (simp_all add: half_flush.simps [of _ h])
    then show ?thesis using 1(3-5) False by simp
  qed
qed

text \<open>
  A run of the adapter.  \<open>S\<close> is what the caller has written successfully; after an error the caller
  retries the same byte, as every sender of the crate does (its out buffer commits on success only).
\<close>

inductive half_run ::
  "'d line_direction \<Rightarrow> ('w, 'e) port \<Rightarrow> ('w \<times> u8 list, 'd) half_duplex \<Rightarrow> u8 list \<Rightarrow> u8 option \<Rightarrow> bool"
  for ld p where
  hr_new: "half_run ld p (half_new ld (w, []) d) [] None"
| hr_ok: "half_run ld p h S r \<Longrightarrow> r = None \<or> r = Some b \<Longrightarrow>
    write_byte (half_port ld (logged p)) b h = (h', Inr ()) \<Longrightarrow> half_run ld p h' (S @ [b]) None"
| hr_err: "half_run ld p h S r \<Longrightarrow> r = None \<or> r = Some b \<Longrightarrow>
    write_byte (half_port ld (logged p)) b h = (h', Inl e) \<Longrightarrow> half_run ld p h' S (Some b)"
| hr_read: "half_run ld p h S r \<Longrightarrow> read_byte (half_port ld (logged p)) h = (h', x) \<Longrightarrow> half_run ld p h' S r"

text \<open>The frames that are on the pair, the frame that is being staged or flushed.\<close>

definition half_inv ::
  "'d line_direction \<Rightarrow> ('w \<times> u8 list, 'd) half_duplex \<Rightarrow> u8 list \<Rightarrow> u8 option \<Rightarrow> bool" where
  "half_inv ld h S r = (length (hf_stage h) = FRAME_LEN \<and> (\<exists>x. hf_dir h = ld_receive ld x) \<and>
     (\<exists>sent0. FRAME_LEN dvd length sent0 \<and> snd (hf_port h) = sent0 @ take (hf_flushed h) (hf_stage h) \<and>
       (case r of
          None \<Rightarrow> hf_filled h < FRAME_LEN \<and> hf_flushed h = 0 \<and> S = sent0 @ take (hf_filled h) (hf_stage h)
        | Some b \<Rightarrow> hf_filled h = FRAME_LEN \<and> hf_flushed h < FRAME_LEN \<and> S @ [b] = sent0 @ hf_stage h)))"

lemma half_write_inv:
  assumes "half_inv ld h S r" and "r = None \<or> r = Some b" and "half_write ld (logged p) b h = (h', res)"
  shows "case res of Inr _ \<Rightarrow> half_inv ld h' (S @ [b]) None | Inl _ \<Rightarrow> half_inv ld h' S (Some b)"
proof -
  obtain sent0 where i: "length (hf_stage h) = FRAME_LEN" "\<exists>x. hf_dir h = ld_receive ld x" "FRAME_LEN dvd length sent0"
    "snd (hf_port h) = sent0 @ take (hf_flushed h) (hf_stage h)"
    "case r of None \<Rightarrow> hf_filled h < FRAME_LEN \<and> hf_flushed h = 0 \<and> S = sent0 @ take (hf_filled h) (hf_stage h)
     | Some b \<Rightarrow> hf_filled h = FRAME_LEN \<and> hf_flushed h < FRAME_LEN \<and> S @ [b] = sent0 @ hf_stage h"
    using assms(1) by (auto simp: half_inv_def)
  define g where "g = (if hf_filled h < FRAME_LEN
    then h\<lparr>hf_stage := (hf_stage h)[hf_filled h := b], hf_filled := hf_filled h + 1\<rparr> else h)"
  have g: "length (hf_stage g) = FRAME_LEN" "hf_filled g \<le> FRAME_LEN" "hf_port g = hf_port h" "hf_dir g = hf_dir h"
    "hf_flushed g = hf_flushed h" "hf_flushed g < FRAME_LEN" "S @ [b] = sent0 @ take (hf_filled g) (hf_stage g)"
    "snd (hf_port g) = sent0 @ take (hf_flushed g) (hf_stage g)"
    using i assms(2) by (auto simp: g_def take_Suc_update FRAME_LEN_def split: option.splits)
  have w: "half_write ld (logged p) b h =
      (if hf_filled g < FRAME_LEN then (g, Inr ())
       else (case half_flush (logged p) (g\<lparr>hf_dir := ld_transmit ld (hf_dir g)\<rparr>) of
               (h', Inl e) \<Rightarrow> (h'\<lparr>hf_dir := ld_receive ld (hf_dir h')\<rparr>, Inl e)
             | (h', Inr _) \<Rightarrow> (h'\<lparr>hf_dir := ld_receive ld (hf_dir h'), hf_filled := 0, hf_flushed := 0\<rparr>, Inr ())))"
    unfolding g_def by (simp add: half_write_def Let_def)
  show ?thesis
  proof (cases "hf_filled g < FRAME_LEN")
    case True
    then have "r = None" using i(5) assms(2) by (auto simp: g_def split: option.splits)
    then have "hf_flushed g = 0" using i(5) g(5) by simp
    then show ?thesis using w assms(3) True g i(2,3) by (auto simp: half_inv_def)
  next
    case False
    then have full: "hf_filled g = FRAME_LEN" using g(2) by simp
    obtain h1 x where f: "half_flush (logged p) (g\<lparr>hf_dir := ld_transmit ld (hf_dir g)\<rparr>) = (h1, x)" by (metis surj_pair)
    note fl = half_flush_logged [OF f, of sent0]
    have fl: "hf_stage h1 = hf_stage g" "hf_filled h1 = FRAME_LEN" "hf_flushed h1 \<le> FRAME_LEN"
      "snd (hf_port h1) = sent0 @ take (hf_flushed h1) (hf_stage g)"
      "case x of Inr _ \<Rightarrow> hf_flushed h1 = FRAME_LEN | Inl _ \<Rightarrow> hf_flushed h1 < FRAME_LEN"
      using fl g full by simp_all
    show ?thesis
    proof (cases x)
      case (Inl e)
      then show ?thesis using w assms(3) False f fl g(1,7) full i(3)
        by (auto simp: half_inv_def)
    next
      case (Inr u)
      then have "snd (hf_port h1) = sent0 @ hf_stage g" using fl g(1) by simp
      moreover have "FRAME_LEN dvd length (sent0 @ hf_stage g)" using i(3) g(1) by simp
      ultimately show ?thesis using w assms(3) False f fl g(1,7) full Inr
        by (auto simp: half_inv_def FRAME_LEN_def intro!: exI [of _ "sent0 @ hf_stage g"])
    qed
  qed
qed

lemma half_run_inv: "half_run ld p h S r \<Longrightarrow> half_inv ld h S r"
proof (induction rule: half_run.induct)
  case hr_new
  then show ?case by (auto simp: half_inv_def half_new_def FRAME_LEN_def)
next
  case (hr_ok h S r b h')
  then show ?case using half_write_inv [of ld h S r b p h' "Inr ()"] by (simp add: half_port_def)
next
  case (hr_err h S r b h' e)
  then show ?case using half_write_inv [of ld h S r b p h' "Inl e"] by (simp add: half_port_def)
next
  case (hr_read h S r h' x)
  then show ?case
    by (cases r) (auto simp: half_port_def half_read_def half_inv_def logged_def split: prod.splits)
qed



section \<open>A link behind the adapter is a link\<close>

text \<open>
  Over a link that moves bytes the adapter moves bytes as well.  What it has sent is what the port
  has sent and the frame that is being staged, so the two agree between frames.
\<close>

definition half_sent :: "('w \<Rightarrow> u8 list) \<Rightarrow> ('w, 'd) half_duplex \<Rightarrow> u8 list" where
  "half_sent sent h = sent (hf_port h) @ take (hf_filled h) (hf_stage h)"

definition half_room :: "('w \<Rightarrow> nat) \<Rightarrow> ('w, 'd) half_duplex \<Rightarrow> nat" where
  "half_room room h = room (hf_port h) - hf_filled h"

definition half_ok :: "('w \<Rightarrow> bool) \<Rightarrow> ('w, 'd) half_duplex \<Rightarrow> bool" where
  "half_ok ok h = (ok (hf_port h) \<and> length (hf_stage h) = FRAME_LEN \<and> hf_filled h < FRAME_LEN \<and>
     hf_flushed h = 0)"

locale half_link = byte_link p sent avail room ok
  for p :: "('w, 'e) port" and sent avail room ok +
  fixes ld :: "'d line_direction"
begin

lemma half_flush_link:
  assumes "ok (hf_port h)" and "FRAME_LEN \<le> room (hf_port h) + hf_flushed h"
    and "length (hf_stage h) = FRAME_LEN" and "hf_flushed h \<le> FRAME_LEN"
  shows "\<exists>w. half_flush p h = (h\<lparr>hf_port := w, hf_flushed := FRAME_LEN\<rparr>, Inr ()) \<and> ok w \<and>
    sent w = sent (hf_port h) @ drop (hf_flushed h) (hf_stage h) \<and> avail w = avail (hf_port h) \<and>
    room w + FRAME_LEN = room (hf_port h) + hf_flushed h"
  using assms
proof (induction "FRAME_LEN - hf_flushed h" arbitrary: h)
  case 0
  then have "hf_flushed h = FRAME_LEN" by simp
  then show ?case using 0 by (intro exI [of _ "hf_port h"]) (simp add: half_flush.simps)
next
  case (Suc n)
  let ?b = "hf_stage h ! hf_flushed h"
  have lt: "hf_flushed h < FRAME_LEN" using Suc.hyps(2) by simp
  then have "0 < room (hf_port h)" using Suc.prems(2) by simp
  then obtain w where w: "write_byte p ?b (hf_port h) = (w, Inr ())" "ok w" "sent w = sent (hf_port h) @ [?b]"
    "avail w = avail (hf_port h)" "Suc (room w) = room (hf_port h)"
    using write_ok [OF Suc.prems(1), of ?b] by blast
  let ?h = "h\<lparr>hf_port := w, hf_flushed := hf_flushed h + 1\<rparr>"
  have "n = FRAME_LEN - hf_flushed ?h" using Suc.hyps(2) by simp
  from Suc.hyps(1) [OF this] obtain w' where w': "half_flush p ?h = (?h\<lparr>hf_port := w', hf_flushed := FRAME_LEN\<rparr>, Inr ())"
    "ok w'" "sent w' = sent w @ drop (hf_flushed h + 1) (hf_stage h)" "avail w' = avail w"
    "room w' + FRAME_LEN = room w + (hf_flushed h + 1)"
    using w Suc.prems lt by auto
  have "drop (hf_flushed h) (hf_stage h) = ?b # drop (Suc (hf_flushed h)) (hf_stage h)"
    using lt Suc.prems(3) by (simp add: Cons_nth_drop_Suc)
  then show ?case using w w' lt by (intro exI [of _ w']) (simp add: half_flush.simps [of p h])
qed

lemma half_write_link:
  assumes "half_ok ok h" and "0 < half_room room h"
  shows "\<exists>h'. write_byte (half_port ld p) b h = (h', Inr ()) \<and> half_ok ok h' \<and>
    half_sent sent h' = half_sent sent h @ [b] \<and> avail (hf_port h') = avail (hf_port h) \<and>
    Suc (half_room room h') = half_room room h"
proof -
  define g where "g = h\<lparr>hf_stage := (hf_stage h)[hf_filled h := b], hf_filled := hf_filled h + 1\<rparr>"
  note a = assms [unfolded half_ok_def half_room_def]
  have g: "length (hf_stage g) = FRAME_LEN" "take (hf_filled g) (hf_stage g) = take (hf_filled h) (hf_stage h) @ [b]"
    "hf_filled g \<le> FRAME_LEN" "hf_flushed g = 0" "hf_port g = hf_port h" "hf_filled g = hf_filled h + 1"
    using a(1) by (auto simp: g_def take_Suc_update)
  have w: "write_byte (half_port ld p) b h = (if hf_filled g < FRAME_LEN then (g, Inr ())
       else (case half_flush p (g\<lparr>hf_dir := ld_transmit ld (hf_dir g)\<rparr>) of
               (h', Inl e) \<Rightarrow> (h'\<lparr>hf_dir := ld_receive ld (hf_dir h')\<rparr>, Inl e)
             | (h', Inr _) \<Rightarrow> (h'\<lparr>hf_dir := ld_receive ld (hf_dir h'), hf_filled := 0, hf_flushed := 0\<rparr>, Inr ())))"
    using a(1) by (simp add: g_def half_port_def half_write_def Let_def)
  show ?thesis
  proof (cases "hf_filled g < FRAME_LEN")
    case True
    then show ?thesis using w g a by (auto simp: half_ok_def half_sent_def half_room_def)
  next
    case False
    then have full: "hf_filled g = FRAME_LEN" using g(3) by simp
    then have "FRAME_LEN \<le> room (hf_port g)" using a(2) g by simp
    with half_flush_link [of "g\<lparr>hf_dir := ld_transmit ld (hf_dir g)\<rparr>"] obtain w' where
      "half_flush p (g\<lparr>hf_dir := ld_transmit ld (hf_dir g)\<rparr>) =
         (g\<lparr>hf_dir := ld_transmit ld (hf_dir g), hf_port := w', hf_flushed := FRAME_LEN\<rparr>, Inr ())" "ok w'"
      "sent w' = sent (hf_port h) @ hf_stage g" "avail w' = avail (hf_port h)" "room w' + FRAME_LEN = room (hf_port h)"
      using a(1) g by auto
    then show ?thesis using w g full a by (auto simp: half_ok_def half_sent_def half_room_def)
  qed
qed

end

sublocale half_link \<subseteq> half: byte_link "half_port ld p" "half_sent sent" "\<lambda>h. avail (hf_port h)"
  "half_room room" "half_ok ok"
proof (unfold_locales, goal_cases)
  case (1 h b)
  then show ?case using half_write_link [of h b] by simp
next
  case (2 h b bs)
  then have "ok (hf_port h)" by (simp add: half_ok_def)
  from read_next [OF this 2(2)] show ?case using 2
    by (auto simp: half_port_def half_read_def half_ok_def half_sent_def half_room_def)
next
  case (3 h)
  then have "ok (hf_port h)" by (simp add: half_ok_def)
  from read_empty [OF this 3(2)] show ?case using 3
    by (auto simp: half_port_def half_read_def half_ok_def half_sent_def half_room_def)
qed

interpretation half_mock: half_link mock_port mock_written mock_avail mock_room mock_wf nop_direction
  by unfold_locales

section \<open>A burst that the port interrupts swallows a new byte\<close>

text \<open>
  After a failed burst the adapter takes no byte, it resumes the burst.  A caller that has
  something else to send by then, as a sender whose frame in flight was replaced by ABORT, loses
  the first byte of it: the call reports success and the byte is nowhere.
\<close>

theorem half_swallows_new_byte:
  assumes "half_run ld p h S (Some b)" and "half_write ld (logged p) c h = (h', Inr ())"
  shows "half_write ld (logged p) b h = (h', Inr ()) \<and> hf_filled h' = 0 \<and> snd (hf_port h') = S @ [b]"
proof -
  have inv: "half_inv ld h S (Some b)" using assms(1) by (rule half_run_inv)
  then have f: "\<not> hf_filled h < FRAME_LEN" by (auto simp: half_inv_def)
  then have same: "half_write ld (logged p) b h = (h', Inr ())"
    using assms(2) by (simp add: half_write_def Let_def)
  have "half_inv ld h' (S @ [b]) None" using half_write_inv [OF inv _ same] by simp
  moreover have "hf_filled h' = 0" "hf_flushed h' = 0"
    using assms(2) f by (auto simp: half_write_def Let_def split: prod.splits sum.splits)
  ultimately show ?thesis using same by (simp add: half_inv_def)
qed

text \<open>A port whose third write fails, once.\<close>

definition flaky_port :: "(nat, unit) port" where
  "flaky_port = \<lparr>write_byte = (\<lambda>b n. (n + 1, if n = 2 then Inl () else Inr ())), read_byte = (\<lambda>n. (n, Inr None))\<rparr>"

definition flaky_half :: "nat \<Rightarrow> (nat \<times> u8 list, unit) half_duplex" where
  "flaky_half n = fold (\<lambda>b h. fst (half_write nop_direction (logged flaky_port) b h)) (take n [1, 2, 3, 4])
     (half_new nop_direction (0, []) ())"

theorem half_swallows_new_byte_witness:
  "case half_write nop_direction (logged flaky_port) 99 (flaky_half 4) of (h', r) \<Rightarrow>
     r = Inr () \<and> hf_filled h' = 0 \<and> snd (hf_port h') = [1, 2, 3, 4]"
proof -
  let ?w = "\<lambda>b n. half_write nop_direction (logged flaky_port) b (flaky_half n)"
  have ok: "half_run nop_direction flaky_port (flaky_half n) S None \<Longrightarrow> snd (?w b n) = Inr () \<Longrightarrow>
      half_run nop_direction flaky_port (fst (?w b n)) (S @ [b]) None" for n b S
    by (rule half_run.hr_ok [where r = None]) (auto simp: half_port_def prod_eq_iff)
  have s: "snd (?w 1 0) = Inr ()" "snd (?w 2 1) = Inr ()" "snd (?w 3 2) = Inr ()"
    "snd (?w 4 3) = Inl ()" "snd (?w 99 4) = Inr ()" by code_simp+
  have n: "fst (?w 1 0) = flaky_half 1" "fst (?w 2 1) = flaky_half 2" "fst (?w 3 2) = flaky_half 3"
    "fst (?w 4 3) = flaky_half 4" by (simp_all add: flaky_half_def)
  have "half_run nop_direction flaky_port (flaky_half 0) [] None"
    using half_run.hr_new [of nop_direction flaky_port 0 "()"] by (simp add: flaky_half_def)
  from ok [OF ok [OF ok [OF this s(1), unfolded n] s(2), unfolded n] s(3), unfolded n]
  have 3: "half_run nop_direction flaky_port (flaky_half 3) [1, 2, 3] None" by simp
  have "half_run nop_direction flaky_port (flaky_half 4) [1, 2, 3] (Some 4)"
    by (rule half_run.hr_err [OF 3, where b = 4 and e = "()"]) (use s n in \<open>auto simp: half_port_def prod_eq_iff\<close>)
  moreover obtain h' where "?w 99 4 = (h', Inr ())" using s(5) by (cases "?w 99 4") auto
  ultimately show ?thesis using half_swallows_new_byte [of nop_direction flaky_port "flaky_half 4" "[1, 2, 3]" 4 99 h'] by simp
qed

end
