(* ===== verification/Uart.thy ===== *)
theory Uart
  imports Page Face Half
begin

text \<open>
  The UART board (\<open>boards/esp32-uart/src/main.rs\<close>): a port over a UART, the driver-enable pin of
  RS-485, and the loop that polls a turn for ever, over a stop-and-wait turn on a half-duplex line
  or a windowed turn on the plain line.  The UART and the pin are parameters.  Each round of the
  loop is a function; the lemma says that its buffer is never written out of range.
\<close>

section \<open>The code\<close>

datatype uart_read = UrNothing | UrByte u8 | UrFailed

record 'k uart =
  ua_write :: "u8 \<Rightarrow> 'k \<Rightarrow> 'k \<times> bool"
  ua_ready :: "'k \<Rightarrow> 'k \<times> bool"
  ua_read :: "'k \<Rightarrow> 'k \<times> uart_read"

datatype uart_error = UartIoError

definition esp_uart :: "'k uart \<Rightarrow> ('k, uart_error) port" where
  "esp_uart ua =
     \<lparr>write_byte = (\<lambda>byte k. case ua_write ua byte k of (k', ok) \<Rightarrow> (k', if ok then Inr () else Inl UartIoError)),
      read_byte = (\<lambda>k. case ua_ready ua k of
         (k1, False) \<Rightarrow> (k1, Inr None)
       | (k1, True) \<Rightarrow>
           (case ua_read ua k1 of
              (k2, UrNothing) \<Rightarrow> (k2, Inr None)
            | (k2, UrByte b) \<Rightarrow> (k2, Inr (Some b))
            | (k2, UrFailed) \<Rightarrow> (k2, Inl UartIoError)))\<rparr>"

record 'd pin =
  pin_set_high :: "'d \<Rightarrow> 'd"
  pin_set_low :: "'d \<Rightarrow> 'd"

definition de_pin :: "'d pin \<Rightarrow> 'd line_direction" where
  "de_pin pin = \<lparr>ld_transmit = pin_set_high pin, ld_receive = pin_set_low pin\<rparr>"

definition SAMPLE_A :: "u8 list" where "SAMPLE_A = [0xA5, 0xE7, 0x00, 0x2F, 0x7E, 0x0E, 0x00, 0x1D]"
definition SAMPLE_B :: "u8 list" where "SAMPLE_B = [0xA5, 0xDC, 0x00, 0x28, 0x10, 0x0E, 0x01, 0x4E]"

definition uart_ours :: "bool \<Rightarrow> u8 list" where
  "uart_ours first = (if first then SAMPLE_A else SAMPLE_B)"

definition uart_theirs :: "bool \<Rightarrow> u8 list" where
  "uart_theirs first = (if first then SAMPLE_B else SAMPLE_A)"

text \<open>\<open>trait PollTurn\<close>: what \<open>poll_forever\<close> calls, over the state that the turn and its line make up.\<close>

record ('s, 'e) poll_turn =
  pt_step :: "'s \<Rightarrow> 's \<times> ('e error + turn_event)"
  pt_cancel :: "'s \<Rightarrow> 's \<times> ('e error + unit)"

definition uart_window :: "('w, 'e) port \<Rightarrow> ('w face \<times> (wsender, wreceiver) turn, 'e face_error) poll_turn" where
  "uart_window p =
     \<lparr>pt_step = (\<lambda>(face, t). case wturn_poll (face_port p True) (face_port p False) face t of
        (face', t', r) \<Rightarrow> ((face', t'), r)),
      pt_cancel = (\<lambda>(face, t). case turn_abort wpump_abort t of (t', r) \<Rightarrow> ((face, t'), r))\<rparr>"

definition uart_rs485 :: "('w, 'e) port \<Rightarrow> ('w face \<times> (sender, receiver) turn, 'e face_error) poll_turn" where
  "uart_rs485 p =
     \<lparr>pt_step = (\<lambda>(face, t). case turn_poll (face_port p True) (face_port p False) face t of
        (face', t', r) \<Rightarrow> ((face', t'), r)),
      pt_cancel = (\<lambda>(face, t). case turn_abort pump_abort t of (t', r) \<Rightarrow> ((face, t'), r))\<rparr>"

text \<open>The locals of \<open>poll_forever\<close> and one round; the loop has no end.\<close>

record 's poll_loop =
  pl_turn :: 's
  pl_got :: "u8 list"
  pl_got_n :: nat

definition poll_round :: "('s, 'e) poll_turn \<Rightarrow> nat \<Rightarrow> 's poll_loop \<Rightarrow> 's poll_loop" where
  "poll_round pt theirs l =
     (case pt_step pt (pl_turn l) of
        (t, Inr (TurnReceived b)) \<Rightarrow>
          (let l1 = (if pl_got_n l < length (pl_got l)
                     then l\<lparr>pl_turn := t, pl_got := (pl_got l)[pl_got_n l := b], pl_got_n := pl_got_n l + 1\<rparr>
                     else l\<lparr>pl_turn := t\<rparr>)
           in if pl_got_n l1 = theirs then l1\<lparr>pl_got_n := 0\<rparr> else l1)
      | (t, Inr _) \<Rightarrow> l\<lparr>pl_turn := t\<rparr>
      | (t, Inl _) \<Rightarrow> (case pt_cancel pt t of (t', _) \<Rightarrow> l\<lparr>pl_turn := t'\<rparr>))"

definition poll_rounds :: "nat \<Rightarrow> ('s, 'e) poll_turn \<Rightarrow> nat \<Rightarrow> 's \<Rightarrow> 's poll_loop" where
  "poll_rounds n pt theirs t = (poll_round pt theirs ^^ n) \<lparr>pl_turn = t, pl_got = replicate 8 0, pl_got_n = 0\<rparr>"

text \<open>The two branches of \<open>main\<close>, after so many rounds.\<close>

definition uart_main_rs485 ::
  "nat \<Rightarrow> 'k uart \<Rightarrow> 'd pin \<Rightarrow> bool \<Rightarrow> 'k \<Rightarrow> 'd \<Rightarrow> (('k, 'd) half_duplex face \<times> (sender, receiver) turn) poll_loop" where
  "uart_main_rs485 n ua pin first k d =
     poll_rounds n (uart_rs485 (half_port (de_pin pin) (esp_uart ua))) (length (uart_theirs first))
       (face_new (half_new (de_pin pin) k d), fst (turn_push (uart_ours first) (face_turn 8 first)))"

definition uart_main_window ::
  "nat \<Rightarrow> 'k uart \<Rightarrow> bool \<Rightarrow> 'k \<Rightarrow> ('k face \<times> (wsender, wreceiver) turn) poll_loop" where
  "uart_main_window n ua first k =
     poll_rounds n (uart_window (esp_uart ua)) (length (uart_theirs first))
       (face_new k, fst (turn_push (uart_ours first) (face_window_turn 8 first)))"

section \<open>The loop\<close>

text \<open>However long it runs and whatever the turn reports, the next byte has its place in the buffer.\<close>

lemma poll_rounds_in_range: "pl_got_n (poll_rounds n pt 8 t) < 8 \<and> length (pl_got (poll_rounds n pt 8 t)) = 8"
proof (induction n)
  case (Suc n)
  have "pl_got_n (poll_round pt 8 l) < 8 \<and> length (pl_got (poll_round pt 8 l)) = 8"
    if "pl_got_n l < 8" and "length (pl_got l) = 8" for l
    using that by (auto simp: poll_round_def Let_def split: prod.splits sum.splits turn_event.splits)
  then show ?case using Suc by (simp add: poll_rounds_def)
qed (simp add: poll_rounds_def)

lemma uart_theirs_length: "length (uart_theirs first) = 8" "length (uart_ours first) = 8"
  by (simp_all add: uart_theirs_def uart_ours_def SAMPLE_A_def SAMPLE_B_def)

lemma uart_main_in_range:
  "pl_got_n (uart_main_rs485 n ua pin first k d) < 8" "pl_got_n (uart_main_window n ua first k) < 8"
  unfolding uart_main_rs485_def uart_main_window_def uart_theirs_length by (rule conjunct1 [OF poll_rounds_in_range])+

text \<open>The whole sample is queued: the discarded result of \<open>push\<close> is its length.\<close>

lemma uart_ours_pushed:
  "snd (turn_push (uart_ours first) (face_turn 8 first)) = 8"
  "snd (turn_push (uart_ours first) (face_window_turn 8 first)) = 8"
  by (simp_all add: uart_ours_def SAMPLE_A_def SAMPLE_B_def turn_push_def face_turn_def face_window_turn_def turn_new_def
      split: prod.split)

end
