(* ===== verification/Pipe.thy ===== *)
theory Pipe
  imports Page Face
begin

text \<open>
  The Wi-Fi board (\<open>boards/esp32-wifi/src/pipe.rs\<close>, \<open>boards/esp32-wifi/src/main.rs\<close>): two rings of 512
  bytes between the socket task and the crate, the transport over them, and the loop that feeds
  the socket's bytes in, polls a turn and drains what the turn wrote.  The socket is a parameter.
  The pipe is a link that moves every byte, and the loop passes on each chunk of the socket whole.
\<close>

section \<open>The pipe\<close>

definition PIPE_RING :: nat where "PIPE_RING = 512"

record pipe_ends =
  from_net :: ring
  to_net :: ring

definition pipe_new :: pipe_ends where
  "pipe_new = \<lparr>from_net = ring_new_in PIPE_RING, to_net = ring_new_in PIPE_RING\<rparr>"

definition net_push_rx :: "u8 \<Rightarrow> pipe_ends \<Rightarrow> pipe_ends \<times> bool" where
  "net_push_rx byte e = (case ring_push_in PIPE_RING byte (from_net e) of (r, ok) \<Rightarrow> (e\<lparr>from_net := r\<rparr>, ok))"

definition net_rx_free :: "pipe_ends \<Rightarrow> nat" where
  "net_rx_free e = PIPE_RING - rg_len (from_net e)"

definition net_pop_tx :: "pipe_ends \<Rightarrow> pipe_ends \<times> u8 option" where
  "net_pop_tx e = (case ring_pop_in PIPE_RING (to_net e) of (r, b) \<Rightarrow> (e\<lparr>to_net := r\<rparr>, b))"

datatype pipe_full = PipeFull

definition tcp_pipe :: "(pipe_ends, pipe_full) port" where
  "tcp_pipe =
     \<lparr>write_byte = (\<lambda>byte e. case ring_push_in PIPE_RING byte (to_net e) of
        (r, ok) \<Rightarrow> (e\<lparr>to_net := r\<rparr>, if ok then Inr () else Inl PipeFull)),
      read_byte = (\<lambda>e. case ring_pop_in PIPE_RING (from_net e) of (r, b) \<Rightarrow> (e\<lparr>from_net := r\<rparr>, Inr b))\<rparr>"

section \<open>The loop of the board\<close>

text \<open>
  The socket: a read into a buffer of so many bytes gives some bytes (none when the peer closed),
  fails or times out, and a write of one byte succeeds or fails.
\<close>

datatype socket_read = SockData "u8 list" | SockError | SockTimeout

record 'k tcp_socket =
  sock_read :: "nat \<Rightarrow> 'k \<Rightarrow> 'k \<times> socket_read"
  sock_write_all :: "u8 \<Rightarrow> 'k \<Rightarrow> 'k \<times> bool"

text \<open>The board: the socket's state, the face over the pipe with its turn, and the locals of \<open>run_link\<close>.\<close>

record stash =
  sh_buf :: "u8 list"
  sh_n :: nat
  sh_i :: nat

record 'k board =
  bd_socket :: 'k
  bd_face :: "pipe_ends face"
  bd_turn :: "(sender, receiver) turn"
  bd_got :: "u8 list"
  bd_got_n :: nat
  bd_yielded :: bool
  bd_granted :: bool
  bd_stash :: stash

text \<open>\<open>drain_tx\<close>: \<open>while let Some(byte) = pipe::net_pop_tx()\<close>.\<close>

function drain_tx :: "'k tcp_socket \<Rightarrow> 'k \<Rightarrow> pipe_ends \<Rightarrow> 'k \<times> pipe_ends \<times> bool" where
  "drain_tx sk k e =
     (case net_pop_tx e of
        (e', None) \<Rightarrow> (k, e', True)
      | (e', Some byte) \<Rightarrow>
          (case sock_write_all sk byte k of
             (k', False) \<Rightarrow> (k', e', False)
           | (k', True) \<Rightarrow> drain_tx sk k' e'))"
  by pat_completeness auto

termination drain_tx
  by (relation "measure (\<lambda>(sk, k, e). rg_len (to_net e))")
    (auto simp: net_pop_tx_def ring_pop_in_def split: if_splits)

declare drain_tx.simps [simp del]

text \<open>The loop over the stash, and the loop over a chunk that was read.\<close>

function unstash :: "stash \<Rightarrow> pipe_ends \<Rightarrow> stash \<times> pipe_ends" where
  "unstash st e =
     (if sh_i st < sh_n st
      then (case net_push_rx (sh_buf st ! sh_i st) e of
              (e', False) \<Rightarrow> (st, e')
            | (e', True) \<Rightarrow> unstash (st\<lparr>sh_i := sh_i st + 1\<rparr>) e')
      else (st, e))"
  by pat_completeness auto

termination unstash
  by (relation "measure (\<lambda>(st, e). sh_n st - sh_i st)") auto

declare unstash.simps [simp del]

fun take_chunk :: "u8 list \<Rightarrow> stash \<Rightarrow> pipe_ends \<Rightarrow> stash \<times> pipe_ends" where
  "take_chunk [] st e = (st, e)"
| "take_chunk (b # bs) st e =
     (case net_push_rx b e of
        (e', True) \<Rightarrow> take_chunk bs st e'
      | (e', False) \<Rightarrow> take_chunk bs (st\<lparr>sh_buf := (sh_buf st)[sh_n st := b], sh_n := sh_n st + 1\<rparr>) e')"

text \<open>
  The part of an iteration in front of \<open>turn.poll\<close>: drain, unstash, read.  The flag is false where
  the code returns.
\<close>

definition feed_stash :: "stash \<Rightarrow> pipe_ends \<Rightarrow> stash \<times> pipe_ends" where
  "feed_stash st e =
     (case unstash st e of
        (st', e') \<Rightarrow> (if sh_i st' = sh_n st' then st'\<lparr>sh_i := 0, sh_n := 0\<rparr> else st', e'))"

definition feed_read :: "'k tcp_socket \<Rightarrow> 'k \<Rightarrow> stash \<Rightarrow> pipe_ends \<Rightarrow> 'k \<times> stash \<times> pipe_ends \<times> bool" where
  "feed_read sk k st e =
     (if sh_n st = 0 \<and> net_rx_free e > 0
      then (case sock_read sk (min (net_rx_free e) 64) k of
              (k', SockData bs) \<Rightarrow>
                if bs = [] then (k', st, e, False)
                else (case take_chunk bs st e of (st', e') \<Rightarrow> (k', st', e', True))
            | (k', SockError) \<Rightarrow> (k', st, e, False)
            | (k', SockTimeout) \<Rightarrow> (k', st, e, True))
      else (k, st, e, True))"

definition link_feed :: "'k tcp_socket \<Rightarrow> 'k board \<Rightarrow> 'k board \<times> bool" where
  "link_feed sk s =
     (case drain_tx sk (bd_socket s) (fc_port (bd_face s)) of
        (k1, e1, False) \<Rightarrow> (s\<lparr>bd_socket := k1, bd_face := (bd_face s)\<lparr>fc_port := e1\<rparr>\<rparr>, False)
      | (k1, e1, True) \<Rightarrow>
          (case feed_stash (bd_stash s) e1 of
             (st2, e2) \<Rightarrow>
               (case feed_read sk k1 st2 e2 of
                  (k3, st3, e3, go) \<Rightarrow>
                    (s\<lparr>bd_socket := k3, bd_face := (bd_face s)\<lparr>fc_port := e3\<rparr>, bd_stash := st3\<rparr>, go))))"

text \<open>The match over the turn's event.  \<open>THEIRS\<close> has \<open>want\<close> bytes.\<close>

definition link_on_turn ::
  "'k tcp_socket \<Rightarrow> pipe_full face_error error + turn_event \<Rightarrow> 'k board \<Rightarrow> 'k board \<times> bool" where
  "link_on_turn sk r s =
     (case r of
        Inr (TurnReceived b) \<Rightarrow>
          (if bd_got_n s < length (bd_got s)
           then s\<lparr>bd_got := (bd_got s)[bd_got_n s := b], bd_got_n := bd_got_n s + 1\<rparr> else s, True)
      | Inr TurnYielded \<Rightarrow> (s\<lparr>bd_yielded := True\<rparr>, True)
      | Inr TurnGranted \<Rightarrow> (s\<lparr>bd_granted := True\<rparr>, True)
      | Inr TurnIdle \<Rightarrow> (s, True)
      | Inl _ \<Rightarrow>
          (case drain_tx sk (bd_socket s) (fc_port (bd_face s)) of
             (k, e, ok) \<Rightarrow> (s\<lparr>bd_socket := k, bd_face := (bd_face s)\<lparr>fc_port := e\<rparr>\<rparr>, ok)))"

text \<open>One iteration: the board goes on, or \<open>run_link\<close> returns.\<close>

datatype link_end = LinkOn | LinkLost | LinkDone

definition link_iteration :: "'k tcp_socket \<Rightarrow> nat \<Rightarrow> 'k board \<Rightarrow> 'k board \<times> link_end" where
  "link_iteration sk want s =
     (case link_feed sk s of
        (s1, False) \<Rightarrow> (s1, LinkLost)
      | (s1, True) \<Rightarrow>
          (case turn_poll (face_port tcp_pipe True) (face_port tcp_pipe False) (bd_face s1) (bd_turn s1) of
             (f, t, r) \<Rightarrow>
               (case link_on_turn sk r (s1\<lparr>bd_face := f, bd_turn := t\<rparr>) of
                  (s2, False) \<Rightarrow> (s2, LinkLost)
                | (s2, True) \<Rightarrow>
                    if bd_yielded s2 \<and> bd_granted s2 \<and> bd_got_n s2 = want
                    then (case drain_tx sk (bd_socket s2) (fc_port (bd_face s2)) of
                            (k, e, ok) \<Rightarrow>
                              (s2\<lparr>bd_socket := k, bd_face := (bd_face s2)\<lparr>fc_port := e\<rparr>\<rparr>,
                               if ok then LinkDone else LinkLost))
                    else (s2, LinkOn))))"

partial_function (option) link_loop :: "'k tcp_socket \<Rightarrow> nat \<Rightarrow> 'k board \<Rightarrow> ('k board \<times> link_end) option" where
  "link_loop sk want s =
     (case link_iteration sk want s of
        (s', e) \<Rightarrow> if e = LinkOn then link_loop sk want s' else Some (s', e))"

text \<open>The pipe is a static: a session starts with the pipe as the last one left it.\<close>

definition board_new :: "'k \<Rightarrow> pipe_ends \<Rightarrow> bool \<Rightarrow> u8 list \<Rightarrow> 'k board" where
  "board_new k e first ours =
     \<lparr>bd_socket = k, bd_face = face_new e, bd_turn = fst (turn_push ours (face_turn 8 first)),
      bd_got = replicate 4 0, bd_got_n = 0, bd_yielded = False, bd_granted = False,
      bd_stash = \<lparr>sh_buf = replicate 64 0, sh_n = 0, sh_i = 0\<rparr>\<rparr>"

definition run_link ::
  "'k tcp_socket \<Rightarrow> bool \<Rightarrow> u8 list \<Rightarrow> u8 list \<Rightarrow> 'k \<Rightarrow> pipe_ends \<Rightarrow> ('k board \<times> link_end) option" where
  "run_link sk first ours theirs k e = link_loop sk (length theirs) (board_new k e first ours)"

section \<open>The pipe moves every byte\<close>

definition pipe_ok :: "pipe_ends \<Rightarrow> bool" where
  "pipe_ok e = (ring_wf_in PIPE_RING (from_net e) \<and> ring_wf_in PIPE_RING (to_net e))"

definition pipe_waiting :: "pipe_ends \<Rightarrow> u8 list" where
  "pipe_waiting e = ring_contents_in PIPE_RING (from_net e)"

definition pipe_leaving :: "pipe_ends \<Rightarrow> u8 list" where
  "pipe_leaving e = ring_contents_in PIPE_RING (to_net e)"

lemma pipe_new_ok [simp]: "pipe_ok pipe_new" "pipe_waiting pipe_new = []"
  using ring_new_in [of PIPE_RING] by (simp_all add: pipe_ok_def pipe_new_def pipe_waiting_def PIPE_RING_def)

interpretation pipe_link: byte_link tcp_pipe pipe_leaving pipe_waiting "\<lambda>e. PIPE_RING - rg_len (to_net e)" pipe_ok
proof (unfold_locales, goal_cases)
  case (1 e b)
  then have wf: "ring_wf_in PIPE_RING (to_net e)" "rg_len (to_net e) < PIPE_RING" by (simp_all add: pipe_ok_def)
  obtain r ok where p: "ring_push_in PIPE_RING b (to_net e) = (r, ok)" by fastforce
  have r: "ok" "ring_wf_in PIPE_RING r" "ring_contents_in PIPE_RING r = ring_contents_in PIPE_RING (to_net e) @ [b]"
    using ring_push_in [OF wf(1) p] wf(2) by auto
  have "rg_len r = Suc (rg_len (to_net e))" using arg_cong [OF r(3), of length] by simp
  then show ?case using r p 1(1) wf(2)
    by (simp add: tcp_pipe_def pipe_ok_def pipe_leaving_def pipe_waiting_def)
next
  case (2 e b bs)
  then have wf: "ring_wf_in PIPE_RING (from_net e)" by (simp add: pipe_ok_def)
  obtain r x where p: "ring_pop_in PIPE_RING (from_net e) = (r, x)" by fastforce
  show ?case using ring_pop_in [OF wf p] p 2
    by (auto simp: tcp_pipe_def pipe_ok_def pipe_leaving_def pipe_waiting_def split: option.splits)
next
  case (3 e)
  then have wf: "ring_wf_in PIPE_RING (from_net e)" by (simp add: pipe_ok_def)
  obtain r x where p: "ring_pop_in PIPE_RING (from_net e) = (r, x)" by fastforce
  show ?case using ring_pop_in [OF wf p] p 3
    by (auto simp: tcp_pipe_def pipe_ok_def pipe_leaving_def pipe_waiting_def split: option.splits)
qed


section \<open>What the machines keep of their port's world\<close>

text \<open>
  An invariant of a world, with a bound on the bytes written to it, that the calls of its port keep:
  every machine that only uses the port keeps it, each poll writes at most one byte, and below the
  capacity the only error a poll can have is that of the retries.
\<close>

locale keeps_world =
  fixes p :: "('w, 'e) port" and I :: "nat \<Rightarrow> 'w \<Rightarrow> bool" and cap :: nat
  assumes keeps_write: "I n w \<Longrightarrow> write_byte p b w = (w', r) \<Longrightarrow> I (Suc n) w' \<and> (n < cap \<longrightarrow> r = Inr ())"
    and keeps_read: "I n w \<Longrightarrow> read_byte p w = (w', x) \<Longrightarrow> I n w' \<and> (\<exists>b. x = Inr b)"
    and keeps_more: "I n w \<Longrightarrow> I (Suc n) w"

definition exhausted_only :: "sender \<Rightarrow> 'e error + 'a \<Rightarrow> bool" where
  "exhausted_only s r = (\<forall>e. r = Inl e \<longrightarrow> e = ErrRetriesExhausted \<and> s_state s = TxFailed)"

lemma exhausted_only_simps [simp]:
  "exhausted_only s (Inr x)" "exhausted_only s (Inl e) = (e = ErrRetriesExhausted \<and> s_state s = TxFailed)"
  by (simp_all add: exhausted_only_def)

lemma sender_on_control_exhausted: "sender_on_control f s = (s', r) \<Longrightarrow> exhausted_only s' r"
  by (auto simp: sender_on_control_def sender_on_ack_def sender_on_attempt_failed_def Let_def
      split: if_splits option.splits prod.splits frame_type.splits flight_kind.splits)

context keeps_world
begin

lemma keeps_out_pump:
  assumes "out_pump p w out = (w', out', r)" and "I n w"
  shows "I (Suc n) w' \<and> (n < cap \<longrightarrow> (\<exists>b. r = Inr b))"
proof (cases "ob_peek out")
  case None
  then show ?thesis using assms keeps_more by (auto simp: out_pump_def)
next
  case (Some b)
  obtain w1 x where x: "write_byte p b w = (w1, x)" by fastforce
  then show ?thesis using keeps_write [OF assms(2) x] assms(1) Some by (cases x) (auto simp: out_pump_def)
qed

lemma keeps_sender_out:
  "sender_pump_out p w s = (w', s', r) \<Longrightarrow> I n w \<Longrightarrow> I (Suc n) w' \<and> (n < cap \<longrightarrow> (\<exists>b. r = Inr b))"
  by (auto simp: sender_pump_out_def split: prod.splits dest!: keeps_out_pump)

lemma keeps_sender_read:
  assumes "sender_read p w s = (w', s', r)" and "I n w"
  shows "I n w' \<and> exhausted_only s' r"
proof -
  obtain w1 x where x: "read_byte p w = (w1, x)" by fastforce
  obtain b where b: "x = Inr b" "I n w1" using keeps_read [OF assms(2) x] by auto
  show ?thesis
  proof (cases b)
    case None
    then show ?thesis using assms(1) x b
      by (auto simp: sender_read_def sender_on_attempt_failed_def Let_def split: option.splits if_splits)
  next
    case (Some c)
    then show ?thesis using assms(1) x b
      by (auto simp: sender_read_def split: prod.splits option.splits sum.splits dest: sender_on_control_exhausted)
  qed
qed

lemma keeps_sender:
  assumes "sender_poll p w s = (w', s', r)" and "I n w"
  shows "I (Suc n) w' \<and> (n < cap \<longrightarrow> exhausted_only s' r)"
proof -
  let ?s = "s\<lparr>s_mark := io_mark_default\<rparr>"
  consider "w' = w" "exhausted_only s' r"
    | w1 s1 b where "sender_pump_out p w ?s = (w1, s1, b)" "w' = w1" "\<forall>x. b = Inr x \<longrightarrow> exhausted_only s' r"
    | w1 s1 b where "sender_pump_out p w (sender_load_flight_frame ?s) = (w1, s1, b)" "w' = w1" "\<forall>x. b = Inr x \<longrightarrow> exhausted_only s' r"
    | "sender_read p w ?s = (w', s', r)"
    using assms(1) unfolding sender_poll_def Let_def
    by (auto split: if_splits prod.splits sum.splits option.splits)
  then show ?thesis
  proof cases
    case 1
    then show ?thesis using keeps_more [OF assms(2)] by simp
  next
    case 2
    then show ?thesis using keeps_sender_out [OF 2(1) assms(2)] by auto
  next
    case 3
    then show ?thesis using keeps_sender_out [OF 3(1) assms(2)] by auto
  next
    case 4
    then show ?thesis using keeps_sender_read [OF 4 assms(2)] keeps_more by auto
  qed
qed

lemma keeps_reply:
  assumes "receiver_reply p w r = (w', r', x)" and "I n w"
  shows "I (Suc n) w' \<and> (n < cap \<longrightarrow> (\<exists>out. x = Inr out))"
proof (cases "ob_peek (r_out r)")
  case None
  then show ?thesis using assms keeps_more
    by (auto simp: receiver_reply_def receiver_pump_reply_def split: prod.splits option.splits)
next
  case (Some b)
  obtain w1 y where y: "write_byte p b w = (w1, y)" by fastforce
  then show ?thesis using keeps_write [OF assms(2) y] assms(1) Some
    by (cases y) (auto simp: receiver_reply_def receiver_pump_reply_def Let_def split: prod.splits option.splits if_splits)
qed

lemma keeps_receiver:
  assumes "receiver_poll p w r = (w', r', x)" and "I n w"
  shows "I (Suc n) w' \<and> (n < cap \<longrightarrow> (\<exists>out. x = Inr out))"
proof (cases "ob_is_idle (r_out r)")
  case False
  then show ?thesis using assms keeps_reply by (simp add: receiver_poll_def)
next
  case True
  obtain w1 y where y: "read_byte p w = (w1, y)" by fastforce
  obtain b where b: "y = Inr b" "I n w1" using keeps_read [OF assms(2) y] by auto
  show ?thesis using assms(1) True y b keeps_more [OF b(2)] keeps_reply [OF _ b(2)]
    by (auto simp: receiver_poll_def Let_def split: option.splits prod.splits bool.splits)
qed

end

lemma keeps_pump:
  assumes "keeps_world ptx I cap" and "keeps_world prx I cap" and "I n w"
    and "pump_poll ptx prx w pm = (w', pm', r)"
  shows "I (n + 2) w' \<and> (n + 1 < cap \<longrightarrow> exhausted_only (pm_tx pm') r)"
proof (cases "pm_pending_completed pm")
  case True
  then have "w' = w" "\<exists>x. r = Inr x" using assms(4) by (auto simp: pump_poll_def pump_step_def)
  then show ?thesis using keeps_world.keeps_more [OF assms(1)] assms(3) by auto
next
  case False
  obtain w1 rx x where rx: "receiver_poll prx w (pm_rx pm) = (w1, rx, x)" by (metis prod_cases3)
  have w1: "I (Suc n) w1" "n < cap \<longrightarrow> (\<exists>out. x = Inr out)"
    using keeps_world.keeps_receiver [OF assms(2) rx assms(3)] by simp_all
  show ?thesis
  proof (cases x)
    case (Inl e)
    then show ?thesis using assms(4) False rx w1 keeps_world.keeps_more [OF assms(1) w1(1)]
      by (auto simp: pump_poll_def pump_step_def)
  next
    case (Inr out)
    define tx0 where "tx0 = (if out = OutAborted \<and> \<not> sender_holds_session_control (pm_tx pm) then sender_force_abort (pm_tx pm) else pm_tx pm)"
    obtain w2 tx y where tx: "sender_poll ptx w1 tx0 = (w2, tx, y)" by (metis prod_cases3)
    have w2: "I (n + 2) w2" "n + 1 < cap \<longrightarrow> exhausted_only tx y"
      using keeps_world.keeps_sender [OF assms(1) tx w1(1)] by simp_all
    show ?thesis
    proof (cases y)
      case (Inl e)
      then have "w' = w2" "r = Inl e" "pm_tx pm' = tx" using assms(4) False rx Inr tx
        by (simp_all add: pump_poll_def pump_step_def tx0_def [symmetric] Let_def cong: if_cong) auto
      then show ?thesis using w2 Inl by simp
    next
      case y: (Inr z)
      then have "w' = w2 \<and> (\<exists>ev. r = Inr ev)" using assms(4) False rx Inr tx
        by (simp add: pump_poll_def pump_step_def tx0_def [symmetric] Let_def cong: if_cong split: prod.splits) auto
      then show ?thesis using w2 by auto
    qed
  qed
qed

lemma keeps_turn:
  assumes "keeps_world ptx I cap" and "keeps_world prx I cap" and "I n w"
    and "turn_poll ptx prx w t = (w', t', r)"
  shows "I (n + 2) w' \<and> (n + 1 < cap \<longrightarrow> exhausted_only (pm_tx (tn_pump t')) r)"
proof -
  obtain w1 pm x where p: "pump_poll ptx prx w (tn_pump (turn_drive_tx t)) = (w1, pm, x)" by (metis prod_cases3)
  note k = keeps_pump [OF assms(1-3) p]
  show ?thesis using k p assms(4) by (cases x) (auto simp: turn_poll_def turn_step_def Let_def split: prod.splits)
qed

text \<open>The face over a port keeps what the port keeps.\<close>

lemma face_loop_keeps:
  fixes p :: "('w, 'e) port" and g :: "'w face"
  assumes "face_loop p g = Some y" and "keeps_world p I cap" and "I n (fc_port g)"
  shows "I n (fc_port (fst y)) \<and> snd y = Inr ()"
proof -
  have "keeps_world p I cap \<longrightarrow> I n (fc_port g) \<longrightarrow> I n (fc_port (fst y)) \<and> snd y = Inr ()"
  proof (rule face_loop.raw_induct [OF _ assms(1), of "\<lambda>p g y. keeps_world p I cap \<longrightarrow> I n (fc_port g) \<longrightarrow> I n (fc_port (fst y)) \<and> snd y = Inr ()"])
    fix loop and p :: "('w, 'e) port" and g :: "'w face" and y
    assume ih: "\<And>p g y. loop p g = Some y \<Longrightarrow> keeps_world p I cap \<longrightarrow> I n (fc_port g) \<longrightarrow> I n (fc_port (fst y)) \<and> snd y = Inr ()"
      and eq: "(case read_byte p (fc_port g) of
        (w, Inl e) \<Rightarrow> Some (g\<lparr>fc_port := w\<rparr>, Inl (FacePort e))
      | (w, Inr None) \<Rightarrow> Some (g\<lparr>fc_port := w\<rparr>, Inr ())
      | (w, Inr (Some byte)) \<Rightarrow>
          (case demux_byte byte (g\<lparr>fc_port := w\<rparr>) of
             (g', ok) \<Rightarrow> if ok then loop p g' else Some (g', Inr ()))) = Some y"
    show "keeps_world p I cap \<longrightarrow> I n (fc_port g) \<longrightarrow> I n (fc_port (fst y)) \<and> snd y = Inr ()"
    proof (intro impI)
      assume k: "keeps_world p I cap" and w: "I n (fc_port g)"
      obtain w1 x where rd: "read_byte p (fc_port g) = (w1, x)" by (metis surj_pair)
      obtain b where b: "x = Inr b" "I n w1" using keeps_world.keeps_read [OF k w rd] by auto
      show "I n (fc_port (fst y)) \<and> snd y = Inr ()"
      proof (cases b)
        case (Some c)
        obtain g1 ok where d: "demux_byte c (g\<lparr>fc_port := w1\<rparr>) = (g1, ok)" by (metis surj_pair)
        have "I n (fc_port g1)" using demux_byte_port [OF d] b by simp
        then show ?thesis using eq rd b Some d ih [of p g1 y] k by (cases ok) auto
      qed (use eq rd b in auto)
    qed
  qed
  then show ?thesis using assms(2,3) by blast
qed

lemma face_ingest_keeps:
  assumes "face_ingest p g = Some y" and "keeps_world p I cap" and "I n (fc_port g)"
  shows "I n (fc_port (fst y)) \<and> snd y = Inr ()"
proof -
  obtain g1 ok where d: "demux_retry g = (g1, ok)" by (metis surj_pair)
  have "I n (fc_port g1)" using demux_retry_port [OF d] assms(3) by simp
  then show ?thesis using assms(1,2) d face_loop_keeps [of p g1 y I cap n]
    by (cases ok) (auto simp: face_ingest_def)
qed

lemma face_keeps:
  assumes "keeps_world p I cap"
  shows "keeps_world (face_port p for_tx) (\<lambda>n g. I n (fc_port g)) cap"
proof (unfold_locales, goal_cases)
  case (1 n g b g' r)
  obtain w x where x: "write_byte p b (fc_port g) = (w, x)" by fastforce
  show ?case using keeps_world.keeps_write [OF assms 1(1) x] 1(2) x
    by (cases x) (auto simp: face_port_def face_write_def)
next
  case (2 n g g' x)
  show ?case
  proof (cases "face_ingest p g")
    case None
    then show ?thesis using 2 by (auto simp: face_port_def face_read_def)
  next
    case (Some y)
    have "I n (fc_port (fst y))" "snd y = Inr ()" using face_ingest_keeps [OF Some assms 2(1)] by simp_all
    then show ?thesis using Some 2(2)
      by (cases y) (auto simp: face_port_def face_read_def face_pop_def split: prod.splits if_splits)
  qed
next
  case (3 n g)
  then show ?case by (rule keeps_world.keeps_more [OF assms])
qed

definition pipe_written :: "nat \<Rightarrow> pipe_ends \<Rightarrow> bool" where
  "pipe_written n e = (pipe_ok e \<and> rg_len (to_net e) \<le> n)"

lemma pipe_written_max: "pipe_ok e \<Longrightarrow> pipe_written PIPE_RING e"
  by (simp add: pipe_written_def pipe_ok_def ring_wf_in_def)

interpretation pipe_keeps: keeps_world tcp_pipe pipe_written PIPE_RING
proof (unfold_locales, goal_cases)
  case (1 n e b e' x)
  then have wf: "ring_wf_in PIPE_RING (to_net e)" "rg_len (to_net e) \<le> n" by (simp_all add: pipe_written_def pipe_ok_def)
  obtain r ok where p: "ring_push_in PIPE_RING b (to_net e) = (r, ok)" by fastforce
  have q: "ring_wf_in PIPE_RING r" "ok \<longleftrightarrow> rg_len (to_net e) < PIPE_RING"
    "ring_contents_in PIPE_RING r = ring_contents_in PIPE_RING (to_net e) @ (if ok then [b] else [])"
    using ring_push_in [OF wf(1) p] by simp_all
  have "rg_len r \<le> Suc n" using arg_cong [OF q(3), of length] wf(2) by (simp split: if_splits)
  then show ?case using 1 p q wf(2) by (auto simp: tcp_pipe_def pipe_written_def pipe_ok_def)
next
  case (2 n e e' x)
  obtain r y where p: "ring_pop_in PIPE_RING (from_net e) = (r, y)" by fastforce
  have "ring_wf_in PIPE_RING r" using ring_pop_in [OF _ p] 2(1) by (simp add: pipe_written_def pipe_ok_def)
  then show ?case using 2 p by (auto simp: tcp_pipe_def pipe_written_def pipe_ok_def)
next
  case (3 n e)
  then show ?case by (simp add: pipe_written_def)
qed

interpretation pipe_face_keeps: keeps_world "face_port tcp_pipe for_tx" "\<lambda>n g. pipe_written n (fc_port g)" PIPE_RING for for_tx
  by (rule face_keeps) (rule pipe_keeps.keeps_world_axioms)

lemma board_turn_keeps:
  assumes "turn_poll (face_port tcp_pipe True) (face_port tcp_pipe False) g t = (g', t', r)" and "pipe_written n (fc_port g)"
  shows "pipe_written (n + 2) (fc_port g') \<and> (n + 1 < PIPE_RING \<longrightarrow> exhausted_only (pm_tx (tn_pump t')) r)"
  by (rule keeps_turn [where I = "\<lambda>n g. pipe_written n (fc_port g)", OF pipe_face_keeps.keeps_world_axioms
        pipe_face_keeps.keeps_world_axioms assms(2,1)])

section \<open>The loop moves every byte\<close>

text \<open>
  What a socket promises about the bytes it has handed out and taken: a read gives no more than
  it was asked for, and a write takes the byte unless it fails.
\<close>

definition socket_counts :: "'k tcp_socket \<Rightarrow> ('k \<Rightarrow> u8 list) \<Rightarrow> ('k \<Rightarrow> u8 list) \<Rightarrow> bool" where
  "socket_counts sk given sent =
     ((\<forall>n k k' r. sock_read sk n k = (k', r) \<longrightarrow> sent k' = sent k \<and>
        (case r of SockData bs \<Rightarrow> length bs \<le> n \<and> given k' = given k @ bs | _ \<Rightarrow> given k' = given k)) \<and>
      (\<forall>b k k' ok. sock_write_all sk b k = (k', ok) \<longrightarrow> given k' = given k \<and> (ok \<longrightarrow> sent k' = sent k @ [b])))"

lemma drain_tx:
  assumes "drain_tx sk k e = (k', e', ok)" and "socket_counts sk given sent" and "pipe_ok e"
  shows "pipe_ok e' \<and> from_net e' = from_net e \<and> given k' = given k \<and>
    (ok \<longrightarrow> pipe_leaving e' = [] \<and> sent k' = sent k @ pipe_leaving e)"
  using assms
proof (induction sk k e arbitrary: k' e' ok rule: drain_tx.induct)
  case (1 sk k e)
  obtain r x where p: "ring_pop_in PIPE_RING (to_net e) = (r, x)" by fastforce
  have wf: "ring_wf_in PIPE_RING (to_net e)" using 1(4) by (simp add: pipe_ok_def)
  note q = ring_pop_in [OF wf p]
  have pop: "net_pop_tx e = (e\<lparr>to_net := r\<rparr>, x)" using p by (simp add: net_pop_tx_def)
  have ok: "pipe_ok (e\<lparr>to_net := r\<rparr>)" using q 1(4) by (simp add: pipe_ok_def)
  show ?case
  proof (cases x)
    case None
    have "drain_tx sk k e = (k, e\<lparr>to_net := r\<rparr>, True)" by (subst drain_tx.simps) (simp add: pop None)
    then show ?thesis using 1(2,4) ok q None by (auto simp: pipe_leaving_def)
  next
    case (Some b)
    then have l: "pipe_leaving e = b # pipe_leaving (e\<lparr>to_net := r\<rparr>)" using q by (simp add: pipe_leaving_def)
    obtain k1 o1 where w: "sock_write_all sk b k = (k1, o1)" by fastforce
    have c: "given k1 = given k" "o1 \<Longrightarrow> sent k1 = sent k @ [b]" using 1(3) w unfolding socket_counts_def by blast+
    show ?thesis
    proof (cases o1)
      case False
      then show ?thesis using 1(2) pop Some w c ok by (auto simp: drain_tx.simps [of sk k e])
    next
      case True
      then have d: "drain_tx sk k1 (e\<lparr>to_net := r\<rparr>) = (k', e', ok)"
        using 1(2) pop Some w by (simp add: drain_tx.simps [of sk k e])
      have o1: "o1 = True" using True by simp
      show ?thesis using 1(1) [OF pop [symmetric] Some w [symmetric] o1 d 1(3) ok] True c l by simp
    qed
  qed
qed

lemma take_chunk:
  assumes "pipe_ok e" and "length bs \<le> net_rx_free e"
  shows "\<exists>e'. take_chunk bs st e = (st, e') \<and> pipe_ok e' \<and> pipe_waiting e' = pipe_waiting e @ bs \<and> to_net e' = to_net e"
  using assms
proof (induction bs arbitrary: e)
  case (Cons b bs)
  have wf: "ring_wf_in PIPE_RING (from_net e)" using Cons.prems(1) by (simp add: pipe_ok_def)
  obtain r ok where p: "ring_push_in PIPE_RING b (from_net e) = (r, ok)" by fastforce
  note q = ring_push_in [OF wf p]
  have ok: "ok" using q Cons.prems(2) by (simp add: net_rx_free_def)
  let ?e = "e\<lparr>from_net := r\<rparr>"
  have e: "pipe_ok ?e" "pipe_waiting ?e = pipe_waiting e @ [b]"
    using q ok Cons.prems(1) by (simp_all add: pipe_ok_def pipe_waiting_def)
  have "rg_len r = Suc (rg_len (from_net e))" using arg_cong [OF e(2), of length] by (simp add: pipe_waiting_def)
  then have "length bs \<le> net_rx_free ?e" using Cons.prems(2) by (simp add: net_rx_free_def)
  from Cons.IH [OF e(1) this] show ?case using p ok e by (auto simp: net_push_rx_def)
qed simp

definition stash_empty :: "stash \<Rightarrow> bool" where
  "stash_empty st = (sh_n st = 0 \<and> sh_i st = 0)"

lemma feed_stash_empty: "stash_empty st \<Longrightarrow> feed_stash st e = (st, e)"
  by (cases st) (simp add: stash_empty_def feed_stash_def unstash.simps)

lemma feed_read:
  assumes "feed_read sk k st e = (k', st', e', go)" and "socket_counts sk given sent" and "pipe_ok e" and "stash_empty st"
  shows "st' = st \<and> pipe_ok e' \<and> to_net e' = to_net e \<and> sent k' = sent k \<and>
    (\<exists>bs. given k' = given k @ bs \<and> pipe_waiting e' = pipe_waiting e @ bs)"
proof (cases "net_rx_free e > 0")
  case True
  obtain k1 r where rd: "sock_read sk (min (net_rx_free e) 64) k = (k1, r)" by fastforce
  have c: "sent k1 = sent k" "case r of SockData bs \<Rightarrow> length bs \<le> min (net_rx_free e) 64 \<and> given k1 = given k @ bs | _ \<Rightarrow> given k1 = given k"
    using assms(2) rd unfolding socket_counts_def by blast+
  have n: "sh_n st = 0" using assms(4) by (simp add: stash_empty_def)
  show ?thesis
  proof (cases r)
    case (SockData bs)
    then obtain e2 where "take_chunk bs st e = (st, e2)" "pipe_ok e2" "pipe_waiting e2 = pipe_waiting e @ bs" "to_net e2 = to_net e"
      using take_chunk [OF assms(3), of bs st] c(2) by auto
    then show ?thesis using assms(1,3) rd SockData c True n by (auto simp: feed_read_def split: if_splits)
  qed (use assms(1,3) rd c True n in \<open>auto simp: feed_read_def\<close>)
qed (use assms in \<open>auto simp: feed_read_def\<close>)

lemma link_feed:
  assumes "link_feed sk s = (s', go)" and "socket_counts sk given sent"
    and "pipe_ok (fc_port (bd_face s))" and "stash_empty (bd_stash s)"
  shows "pipe_ok (fc_port (bd_face s')) \<and> stash_empty (bd_stash s') \<and>
    (\<exists>bs. given (bd_socket s') = given (bd_socket s) @ bs \<and>
       pipe_waiting (fc_port (bd_face s')) = pipe_waiting (fc_port (bd_face s)) @ bs) \<and>
    (go \<longrightarrow> sent (bd_socket s') = sent (bd_socket s) @ pipe_leaving (fc_port (bd_face s)) \<and>
       pipe_leaving (fc_port (bd_face s')) = [])"
proof -
  obtain k1 e1 ok where d: "drain_tx sk (bd_socket s) (fc_port (bd_face s)) = (k1, e1, ok)" by (metis prod_cases3)
  note q = drain_tx [OF d assms(2,3)]
  have w: "pipe_waiting e1 = pipe_waiting (fc_port (bd_face s))" using q by (simp add: pipe_waiting_def)
  show ?thesis
  proof (cases ok)
    case False
    then show ?thesis using assms(1,4) d q w by (auto simp: link_feed_def)
  next
    case True
    obtain k3 st3 e3 g where r: "feed_read sk k1 (bd_stash s) e1 = (k3, st3, e3, g)" by (metis prod_cases4)
    note f = feed_read [OF r assms(2) _ assms(4)]
    have s': "s' = s\<lparr>bd_socket := k3, bd_face := (bd_face s)\<lparr>fc_port := e3\<rparr>, bd_stash := st3\<rparr>"
      using assms(1) d True r feed_stash_empty [OF assms(4)] by (simp add: link_feed_def)
    have l: "pipe_leaving e3 = pipe_leaving e1" using f q by (simp add: pipe_leaving_def)
    show ?thesis using q f w l True assms(4) by (auto simp: s')
  qed
qed

text \<open>The states the loop can be in at the start of an iteration.\<close>

inductive board_run :: "'k tcp_socket \<Rightarrow> nat \<Rightarrow> 'k board \<Rightarrow> 'k board \<Rightarrow> bool" for sk want s0 where
  board_start: "board_run sk want s0 s0"
| board_step: "board_run sk want s0 s \<Longrightarrow> link_iteration sk want s = (s', LinkOn) \<Longrightarrow> board_run sk want s0 s'"

lemma link_on_turn:
  assumes "link_on_turn sk r s = (s', go)" and "socket_counts sk given sent" and "pipe_ok (fc_port (bd_face s))"
  shows "pipe_ok (fc_port (bd_face s')) \<and> bd_stash s' = bd_stash s"
proof (cases r)
  case (Inl e)
  obtain k1 e1 ok where d: "drain_tx sk (bd_socket s) (fc_port (bd_face s)) = (k1, e1, ok)" by (metis prod_cases3)
  show ?thesis using drain_tx [OF d assms(2,3)] assms(1) d Inl by (auto simp: link_on_turn_def)
next
  case (Inr ev)
  then show ?thesis using assms(1,3) by (cases ev) (auto simp: link_on_turn_def split: if_splits)
qed

lemma link_iteration_keeps:
  assumes "link_iteration sk want s = (s', LinkOn)" and "socket_counts sk given sent"
    and "pipe_ok (fc_port (bd_face s))" and "stash_empty (bd_stash s)"
  shows "pipe_ok (fc_port (bd_face s')) \<and> stash_empty (bd_stash s')"
proof -
  obtain s1 g1 where f: "link_feed sk s = (s1, g1)" by fastforce
  note q = link_feed [OF f assms(2,3,4)]
  obtain fc t r where p: "turn_poll (face_port tcp_pipe True) (face_port tcp_pipe False) (bd_face s1) (bd_turn s1) = (fc, t, r)"
    by (metis prod_cases3)
  have w: "pipe_ok (fc_port fc)"
    using board_turn_keeps [OF p pipe_written_max] q by (simp add: pipe_written_def)
  obtain s2 g2 where e: "link_on_turn sk r (s1\<lparr>bd_face := fc, bd_turn := t\<rparr>) = (s2, g2)" by fastforce
  note u = link_on_turn [OF e assms(2)]
  have "g1" "g2" "s' = s2" using assms(1) f p e
    by (auto simp: link_iteration_def split: if_splits prod.splits bool.splits)
  then show ?thesis using u w q by simp
qed

lemma board_run_inv:
  assumes "board_run sk want (board_new k e first ours) s" and "socket_counts sk given sent" and "pipe_ok e"
  shows "pipe_ok (fc_port (bd_face s)) \<and> stash_empty (bd_stash s)"
  using assms(1)
proof (induction rule: board_run.induct)
  case board_start
  then show ?case using assms(3) by (simp add: board_new_def face_new_def stash_empty_def)
next
  case (board_step s s')
  then show ?case using link_iteration_keeps [OF _ assms(2)] by blast
qed

text \<open>
  C31: The Wi-Fi board's loop loses nothing on the way.  Over any socket whose reads give at most
  the bytes asked for, at the start of every iteration of \<open>run_link\<close> the stash is empty; what the
  socket hands out in the iteration stands, whole and in order, behind the bytes that wait in the
  pipe; and, unless the link is lost, everything the pipe held for the socket has been written to
  it in order.
\<close>

theorem run_link_moves_every_byte:
  assumes "socket_counts sk given sent" and "pipe_ok e"
    and "board_run sk want (board_new k e first ours) s" and "link_feed sk s = (s', go)"
  shows "sh_n (bd_stash s) = 0 \<and> sh_n (bd_stash s') = 0 \<and>
    (\<exists>bs. given (bd_socket s') = given (bd_socket s) @ bs \<and>
       pipe_waiting (fc_port (bd_face s')) = pipe_waiting (fc_port (bd_face s)) @ bs) \<and>
    (go \<longrightarrow> sent (bd_socket s') = sent (bd_socket s) @ pipe_leaving (fc_port (bd_face s)) \<and>
       pipe_leaving (fc_port (bd_face s')) = [])"
  using link_feed [OF assms(4,1)] board_run_inv [OF assms(3,1,2)] by (simp add: stash_empty_def)

text \<open>A socket that hands out a fixed text, some bytes at a time, and keeps what it is given.\<close>

definition text_socket :: "(u8 list \<times> u8 list \<times> u8 list) tcp_socket" where
  "text_socket =
     \<lparr>sock_read = (\<lambda>n (rest, given, sent).
        ((drop n rest, given @ take n rest, sent), SockData (take n rest))),
      sock_write_all = (\<lambda>b (rest, given, sent). ((rest, given, sent @ [b]), True))\<rparr>"

lemma text_socket: "socket_counts text_socket (\<lambda>(r, g, s). g) (\<lambda>(r, g, s). s)"
  by (auto simp: socket_counts_def text_socket_def)

theorem run_link_moves_every_byte_witness:
  "sh_n (bd_stash (fst (link_feed text_socket (board_new ([1, 2, 3], [], []) pipe_new True [7])))) = 0"
  using run_link_moves_every_byte
    [OF text_socket pipe_new_ok(1) board_start surjective_pairing] by simp

text \<open>
  C32: The ring to the network is never full when the Wi-Fi board polls its turn: each poll writes at
  most two bytes and the loop has drained the ring before.  So the arm for a failed poll, written
  for a full ring, is only reached by a sender that has used up its retries and stays failed.
\<close>

theorem run_link_fails_only_exhausted:
  assumes "socket_counts sk given sent" and "pipe_ok e"
    and "board_run sk want (board_new k e first ours) s" and "link_feed sk s = (s1, True)"
    and "turn_poll (face_port tcp_pipe True) (face_port tcp_pipe False) (bd_face s1) (bd_turn s1) = (f, t, r)"
  shows "rg_len (to_net (fc_port f)) \<le> 2 \<and>
    (\<forall>x. r = Inl x \<longrightarrow> x = ErrRetriesExhausted \<and> s_state (pm_tx (tn_pump t)) = TxFailed)"
proof -
  have "pipe_ok (fc_port (bd_face s1)) \<and> pipe_leaving (fc_port (bd_face s1)) = []"
    using link_feed [OF assms(4,1)] board_run_inv [OF assms(3,1,2)] by simp
  then have "pipe_written 0 (fc_port (bd_face s1))"
    using length_ring_contents_in [of PIPE_RING "to_net (fc_port (bd_face s1))"] by (simp add: pipe_written_def pipe_leaving_def)
  from board_turn_keeps [OF assms(5) this] show ?thesis by (simp add: pipe_written_def exhausted_only_def PIPE_RING_def)
qed

text \<open>In the first iteration of a fresh board, over a socket that hands out three bytes.\<close>

theorem run_link_fails_only_exhausted_witness:
  "let s1 = fst (link_feed text_socket (board_new ([1, 2, 3], [], []) pipe_new True [7]))
   in rg_len (to_net (fc_port (fst (turn_poll (face_port tcp_pipe True) (face_port tcp_pipe False) (bd_face s1) (bd_turn s1))))) \<le> 2"
proof -
  let ?s = "board_new ([1, 2, 3] :: u8 list, [] :: u8 list, [] :: u8 list) pipe_new True [7]"
  let ?s1 = "fst (link_feed text_socket ?s)"
  obtain f t r where p: "turn_poll (face_port tcp_pipe True) (face_port tcp_pipe False) (bd_face ?s1) (bd_turn ?s1) = (f, t, r)"
    by (metis prod_cases3)
  have d: "drain_tx text_socket k pipe_new = (k, pipe_new, True)" for k
    by (subst drain_tx.simps) (simp add: net_pop_tx_def ring_pop_in_def pipe_new_def ring_new_in_def)
  have st: "stash_empty (bd_stash ?s)" by (simp add: board_new_def stash_empty_def)
  have free: "net_rx_free pipe_new = PIPE_RING" by (simp add: net_rx_free_def pipe_new_def ring_new_in_def)
  obtain e2 where "take_chunk [1, 2, 3] (bd_stash ?s) pipe_new = (bd_stash ?s, e2)"
    using take_chunk [OF pipe_new_ok(1), of "[1, 2, 3]" "bd_stash ?s"] free
    by (auto simp: PIPE_RING_def simp del: take_chunk.simps)
  then have "feed_read text_socket (bd_socket ?s) (bd_stash ?s) pipe_new = (([], [1, 2, 3], []), bd_stash ?s, e2, True)"
    using st free by (simp add: feed_read_def stash_empty_def text_socket_def board_new_def PIPE_RING_def
        del: take_chunk.simps)
  then have go: "link_feed text_socket ?s = (?s1, True)"
    using feed_stash_empty [OF st] d by (simp add: link_feed_def) (simp add: board_new_def face_new_def)
  show ?thesis using run_link_fails_only_exhausted [OF text_socket pipe_new_ok(1) board_start go p] p by (simp add: Let_def)
qed

end
