(* ===== verification/Host.thy ===== *)
theory Host
  imports Prelude
begin

text \<open>
  The address in the Wi-Fi board's \<open>HOST\<close> (\<open>parse_host\<close> of \<open>boards/esp32-wifi/src/main.rs\<close>): four decimal
  numbers of a byte with dots between.  Splitting at a character and parsing a byte are the
  standard library's.
\<close>

section \<open>The code\<close>

text \<open>\<open>str::split\<close> and \<open>str::parse::<u8>\<close>, which takes one plus sign and fails on overflow.\<close>

fun split_at_char :: "char \<Rightarrow> string \<Rightarrow> string list" where
  "split_at_char c [] = [[]]"
| "split_at_char c (x # xs) =
     (if x = c then [] # split_at_char c xs
      else (case split_at_char c xs of [] \<Rightarrow> [[x]] | p # ps \<Rightarrow> (x # p) # ps))"

definition digit_of :: "char \<Rightarrow> nat option" where
  "digit_of c = (let n = (of_char c :: nat) in if 48 \<le> n \<and> n \<le> 57 then Some (n - 48) else None)"

fun parse_digits :: "nat \<Rightarrow> string \<Rightarrow> nat option" where
  "parse_digits n [] = Some n"
| "parse_digits n (c # cs) =
     (case digit_of c of
        None \<Rightarrow> None
      | Some d \<Rightarrow> if n * 10 + d > 255 then None else parse_digits (n * 10 + d) cs)"

definition parse_u8 :: "string \<Rightarrow> u8 option" where
  "parse_u8 s =
     (let ds = (case s of c # cs \<Rightarrow> if c = CHR ''+'' then cs else s | [] \<Rightarrow> [])
      in if ds = [] then None else map_option of_nat (parse_digits 0 ds))"

fun parse_parts :: "nat \<Rightarrow> u8 list \<Rightarrow> string list \<Rightarrow> (nat \<times> u8 list) option" where
  "parse_parts i parts [] = Some (i, parts)"
| "parse_parts i parts (piece # pieces) =
     (if i \<ge> 4 then None
      else case parse_u8 piece of
          None \<Rightarrow> None
        | Some b \<Rightarrow> parse_parts (i + 1) (parts[i := b]) pieces)"

definition parse_host :: "string \<Rightarrow> (u8 \<times> u8 \<times> u8 \<times> u8) option" where
  "parse_host s =
     (case parse_parts 0 (replicate 4 0) (split_at_char (CHR ''.'') s) of
        None \<Rightarrow> None
      | Some (i, parts) \<Rightarrow> if i \<noteq> 4 then None else Some (parts ! 0, parts ! 1, parts ! 2, parts ! 3))"

section \<open>Printed addresses are parsed back\<close>

definition digit_char :: "nat \<Rightarrow> char" where
  "digit_char d = char_of (48 + d)"

definition decimal :: "nat \<Rightarrow> string" where
  "decimal n =
     (if n < 10 then [digit_char n]
      else if n < 100 then [digit_char (n div 10), digit_char (n mod 10)]
      else [digit_char (n div 100), digit_char (n div 10 mod 10), digit_char (n mod 10)])"

definition dotted :: "u8 \<Rightarrow> u8 \<Rightarrow> u8 \<Rightarrow> u8 \<Rightarrow> string" where
  "dotted a b c d = decimal (unat a) @ ''.'' @ decimal (unat b) @ ''.'' @ decimal (unat c) @ ''.'' @ decimal (unat d)"

lemma digit_of_char [simp]: "d < 10 \<Longrightarrow> digit_of (digit_char d) = Some d"
  by (simp add: digit_of_def digit_char_def of_char_of Let_def)

lemma digit_char_not: "d < 10 \<Longrightarrow> digit_char d \<noteq> CHR ''+'' \<and> digit_char d \<noteq> CHR ''.''"
proof -
  assume "d < 10"
  then have "(of_char (digit_char d) :: nat) = 48 + d" by (simp add: digit_char_def of_char_of)
  then show ?thesis by auto
qed

lemma parse_digits_Cons [simp]:
  "d < 10 \<Longrightarrow> parse_digits n (digit_char d # cs) = (if n * 10 + d > 255 then None else parse_digits (n * 10 + d) cs)"
  by simp

lemma parse_u8_digits: "d < 10 \<Longrightarrow> parse_u8 (digit_char d # cs) = map_option of_nat (parse_digits 0 (digit_char d # cs))"
  using digit_char_not [of d] by (simp add: parse_u8_def Let_def del: parse_digits.simps)

lemma parse_u8_decimal_nat: "n < 256 \<Longrightarrow> parse_u8 (decimal n) = Some (of_nat n)"
proof -
  assume n: "n < 256"
  have d: "n div 100 < 10" "n div 10 mod 10 < 10" "n mod 10 < 10" using n by simp_all
  have e: "(n div 100 * 10 + n div 10 mod 10) * 10 + n mod 10 = n" "n div 10 * 10 + n mod 10 = n"
    using div_mult2_eq [of n 10 10] by simp_all
  have h: "n div 100 * 10 + n div 10 mod 10 \<le> 255" using n e(1) by linarith
  consider "n < 10" | "10 \<le> n" "n < 100" | "100 \<le> n" by linarith
  then show ?thesis
  proof cases
    case 1
    then show ?thesis by (simp add: decimal_def parse_u8_digits del: parse_digits.simps(2))
  next
    case 2
    then have "n div 10 < 10" by simp
    then show ?thesis using 2 d e(2) n by (simp add: decimal_def parse_u8_digits del: parse_digits.simps(2))
  next
    case 3
    then show ?thesis using d e(1) h n by (simp add: decimal_def parse_u8_digits del: parse_digits.simps(2))
  qed
qed

lemma parse_u8_decimal: "parse_u8 (decimal (unat b)) = Some b"
  using parse_u8_decimal_nat [of "unat b"] unsigned_less [of b] by simp

lemma split_plain: "CHR ''.'' \<notin> set p \<Longrightarrow> split_at_char (CHR ''.'') (p @ CHR ''.'' # rest) = p # split_at_char (CHR ''.'') rest"
  by (induction p) auto

lemma split_last: "CHR ''.'' \<notin> set p \<Longrightarrow> split_at_char (CHR ''.'') p = [p]"
  by (induction p) auto

lemma decimal_no_dot: "n < 256 \<Longrightarrow> CHR ''.'' \<notin> set (decimal n)"
proof -
  assume "n < 256"
  then have d: "n div 100 < 10" by simp
  have c: "CHR ''.'' \<noteq> digit_char m" if "m < 10" for m using digit_char_not [OF that] by metis
  show ?thesis using c [of n] c [of "n div 10"] c [of "n mod 10"] c [of "n div 100"] c [of "n div 10 mod 10"] d
    by (simp add: decimal_def)
qed

lemma parse_host_dotted: "parse_host (dotted a b c d) = Some (a, b, c, d)"
proof -
  have nd: "CHR ''.'' \<notin> set (decimal (unat x))" for x :: u8
    using decimal_no_dot [of "unat x"] unsigned_less [of x] by simp
  have "split_at_char (CHR ''.'') (dotted a b c d) = [decimal (unat a), decimal (unat b), decimal (unat c), decimal (unat d)]"
    by (simp add: dotted_def split_plain [OF nd] split_last [OF nd])
  then show ?thesis by (simp add: parse_host_def parse_u8_decimal numeral_eq_Suc)
qed

text \<open>A host that parses has exactly four pieces, each of them a byte.\<close>

lemma parse_parts_count: "parse_parts i parts ps = Some (j, parts') \<Longrightarrow> j = i + length ps \<and> (\<forall>p\<in>set ps. parse_u8 p \<noteq> None)"
  by (induction i parts ps rule: parse_parts.induct) (auto split: if_splits option.splits)

lemma parse_host_pieces:
  "parse_host s \<noteq> None \<Longrightarrow> length (split_at_char (CHR ''.'') s) = 4 \<and>
     (\<forall>p\<in>set (split_at_char (CHR ''.'') s). parse_u8 p \<noteq> None)"
  by (auto simp: parse_host_def split: option.splits if_splits dest!: parse_parts_count)

end
