(* ===== verification/Names.thy ===== *)
theory Names
  imports Session
begin

text \<open>
  How an identity is printed (\<open>Display for PeerId\<close> in \<open>p2p/peer.rs\<close>): the label when the bytes are
  printable ASCII padded with zeros, the eight bytes in hexadecimal otherwise.  Characters are their
  bytes.  A label is printed as it was given, and two identities never print alike.
\<close>

section \<open>The code\<close>

text \<open>\<open>is_ascii_graphic\<close> or a space.\<close>

definition label_char :: "u8 \<Rightarrow> bool" where
  "label_char c = ((0x21 \<le> c \<and> c \<le> 0x7E) \<or> c = 0x20)"

text \<open>The first loop: how many bytes are in front of the first zero, or nothing at a bad one.\<close>

fun label_end :: "nat \<Rightarrow> u8 list \<Rightarrow> nat option" where
  "label_end n [] = Some n"
| "label_end n (c # cs) = (if c = 0 then Some n else if \<not> label_char c then None else label_end (n + 1) cs)"

text \<open>Printable ASCII is UTF-8, so the last call of \<open>label_bytes\<close> does not fail.\<close>

definition label_bytes :: "u8 list \<Rightarrow> u8 list option" where
  "label_bytes bytes =
     (case label_end 0 bytes of
        None \<Rightarrow> None
      | Some n \<Rightarrow>
          if n = 0 then None
          else if \<exists>b\<in>set (drop n bytes). b \<noteq> 0 then None
          else Some (take n bytes))"

definition hex_digit :: "u8 \<Rightarrow> u8" where
  "hex_digit d = (if d < 10 then 0x30 + d else 0x37 + d)"

definition hex_byte :: "u8 \<Rightarrow> u8 list" where
  "hex_byte b = [hex_digit (b div 16), hex_digit (b mod 16)]"

definition peer_display :: "peer_id \<Rightarrow> u8 list" where
  "peer_display p =
     (case label_bytes (peer_bytes p) of
        Some label \<Rightarrow> label
      | None \<Rightarrow> concat (map hex_byte (peer_bytes p)))"

section \<open>Labels\<close>

lemma label_char_not_zero: "label_char c \<Longrightarrow> c \<noteq> 0"
  by (auto simp: label_char_def)

lemma label_end_padded: "\<forall>c\<in>set l. label_char c \<Longrightarrow> label_end n (l @ replicate k 0) = Some (n + length l)"
proof (induction l arbitrary: n)
  case Nil
  show ?case by (cases k) simp_all
next
  case (Cons a l)
  then show ?case using label_char_not_zero [of a] by simp
qed

lemma label_end_Some:
  "label_end n bs = Some m \<Longrightarrow> n \<le> m \<and> m \<le> n + length bs"
  by (induction n bs rule: label_end.induct) (auto split: if_splits)

lemma label_bytes_padded:
  "l \<noteq> [] \<Longrightarrow> \<forall>c\<in>set l. label_char c \<Longrightarrow> label_bytes (l @ replicate k 0) = Some l"
  by (simp add: label_bytes_def label_end_padded)

lemma label_bytes_Some:
  assumes "label_bytes bs = Some l"
  shows "length l \<le> length bs \<and> bs = l @ replicate (length bs - length l) 0"
proof -
  obtain n where n: "label_end 0 bs = Some n" "l = take n bs" "\<forall>b\<in>set (drop n bs). b = 0"
    using assms by (auto simp: label_bytes_def split: option.splits if_splits)
  have "n \<le> length bs" using label_end_Some [OF n(1)] by simp
  moreover have "drop n bs = replicate (length bs - n) 0"
    using n(3) replicate_length_same [of "drop n bs" 0] by simp
  ultimately show ?thesis using n(2) append_take_drop_id [of n bs] by simp
qed

text \<open>A label of one to eight printable characters is printed as it was given.\<close>

theorem peer_display_label:
  assumes "label \<noteq> []" and "length label \<le> 8" and "\<forall>c\<in>set label. label_char c"
  shows "peer_display (peer_from_label label) = label"
  using label_bytes_padded [OF assms(1,3)] assms(2) by (simp add: peer_display_def peer_from_label_eq PEER_LEN_def)

section \<open>Hexadecimal\<close>

lemma hex_digit_inj:
  assumes "hex_digit a = hex_digit b" and "a < 16" and "b < 16"
  shows "a = b"
proof -
  have u: "unat (hex_digit d) = (if unat d < 10 then 48 else 55) + unat d" if "d < 16" for d
    using that by (simp add: hex_digit_def word_less_nat_alt unat_word_ariths)
  have "unat a < 16" "unat b < 16" using assms(2,3) by (simp_all add: word_less_nat_alt)
  then have "unat a = unat b" using arg_cong [OF assms(1), of unat] u [OF assms(2)] u [OF assms(3)] by (simp split: if_splits)
  then show ?thesis by (simp add: word_unat_eq_iff)
qed

lemma hex_byte_inj: "hex_byte a = hex_byte b \<Longrightarrow> a = b"
proof -
  assume h: "hex_byte a = hex_byte b"
  have lt: "x div 16 < 16" "x mod 16 < 16" for x :: u8
  proof -
    have "unat x < 256" using unsigned_less [of x] by simp
    then show "x div 16 < 16" "x mod 16 < 16" by (simp_all add: word_less_nat_alt unat_div_distrib unat_mod_distrib)
  qed
  have "a div 16 = b div 16" "a mod 16 = b mod 16"
    using h hex_digit_inj lt by (auto simp: hex_byte_def)
  then show "a = b" using div_mult_mod_eq [of a 16] div_mult_mod_eq [of b 16] by metis
qed

lemma length_hex_byte: "length (hex_byte b) = 2"
  by (simp add: hex_byte_def)

lemma length_hex [simp]: "length (concat (map hex_byte bs)) = 2 * length bs"
  by (induction bs) (simp_all add: hex_byte_def)

lemma hex_bytes_inj: "concat (map hex_byte as) = concat (map hex_byte bs) \<Longrightarrow> as = bs"
proof (induction as arbitrary: bs)
  case Nil
  then show ?case by (cases bs) (simp_all add: hex_byte_def)
next
  case (Cons a as)
  then obtain b bs' where bs: "bs = b # bs'" using length_hex [of "a # as"] length_hex [of bs] by (cases bs) auto
  have "hex_byte a = hex_byte b \<and> concat (map hex_byte as) = concat (map hex_byte bs')"
    using Cons.prems bs append_eq_append_conv [of "hex_byte a" "hex_byte b"] by (simp add: length_hex_byte)
  then show ?case using Cons.IH hex_byte_inj bs by blast
qed

text \<open>
  What is printed identifies the peer: two identities that print alike, as a label or in
  hexadecimal, are the same eight bytes.
\<close>

theorem peer_display_injective:
  assumes "peer_wf p" and "peer_wf q" and "peer_display p = peer_display q"
  shows "p = q"
proof -
  have len: "length (peer_bytes p) = 8" "length (peer_bytes q) = 8" using assms(1,2) by (simp_all add: peer_wf_def PEER_LEN_def)
  have "peer_bytes p = peer_bytes q"
  proof (cases "label_bytes (peer_bytes p)"; cases "label_bytes (peer_bytes q)")
    assume "label_bytes (peer_bytes p) = None" "label_bytes (peer_bytes q) = None"
    then show ?thesis using assms(3) hex_bytes_inj by (simp add: peer_display_def)
  next
    fix l assume q: "label_bytes (peer_bytes p) = None" "label_bytes (peer_bytes q) = Some l"
    then have "length l = 16" using assms(3) len length_hex [of "peer_bytes p"] by (simp add: peer_display_def)
    then show ?thesis using label_bytes_Some [OF q(2)] len by simp
  next
    fix l assume p: "label_bytes (peer_bytes p) = Some l" "label_bytes (peer_bytes q) = None"
    then have "length l = 16" using assms(3) len length_hex [of "peer_bytes q"] by (simp add: peer_display_def)
    then show ?thesis using label_bytes_Some [OF p(1)] len by simp
  next
    fix l m assume pq: "label_bytes (peer_bytes p) = Some l" "label_bytes (peer_bytes q) = Some m"
    then have "l = m" using assms(3) by (simp add: peer_display_def)
    moreover have "peer_bytes p = l @ replicate (8 - length l) 0" using label_bytes_Some [OF pq(1)] len by simp
    moreover have "peer_bytes q = m @ replicate (8 - length m) 0" using label_bytes_Some [OF pq(2)] len by simp
    ultimately show ?thesis by simp
  qed
  then show ?thesis by (cases p; cases q) simp
qed

theorem peer_display_injective_witness:
  "let p = peer_from_label [0x61, 0x62]; q = peer_from_label (take 2 [0x61, 0x62, 0x63]) in p = q"
  using peer_display_injective [of "peer_from_label [0x61, 0x62]" "peer_from_label (take 2 [0x61, 0x62, 0x63])"]
  by (simp add: Let_def)

theorem peer_display_label_witness: "peer_display (peer_from_label [0x61, 0x62]) = [0x61, 0x62]"
  using peer_display_label [of "[0x61, 0x62]"] by (simp add: label_char_def)

end
